(* ===== verification/Prelude.thy ===== *)
theory Prelude
  imports Main "HOL-Library.Word" "HOL-Library.Sublist"
begin

text \<open>
  Shared vocabulary of the development: the machine-word types of
  \<^verbatim>\<open>kernel/types.h\<close>, the outcome type of a kernel routine, sequencing of
  routines, and the generic lemmas on words, lists and functions that the component
  theories use.

  A C routine of the kernel either returns a value, calls \<^verbatim>\<open>panic\<close>, performs an
  access that C leaves undefined (an array index out of range, a null dereference), or
  never returns. The four constructors of \<open>res\<close> keep these apart, so that ``never
  panics'', ``is memory safe'' and ``returns'' are statements about one value.
\<close>

unbundle bit_operations_syntax

type_synonym u8 = "8 word"
type_synonym u16 = "16 word"
type_synonym u32 = "32 word"
type_synonym u64 = "64 word"
type_synonym addr = "64 word"

named_theorems res_simps \<open>how sequencing and guards evaluate on each outcome\<close>
named_theorems res_elims \<open>what a successful sequence says about its parts\<close>
named_theorems kconst \<open>the numeric constants of the kernel headers\<close>
named_theorems mem_simps \<open>loads after stores\<close>
named_theorems frame_simps \<open>fields of the state that an operation leaves alone\<close>

datatype 'a res = Ok 'a | Panic string | Undef | Diverge

primrec bnd :: "'a res \<Rightarrow> ('a \<Rightarrow> 'b res) \<Rightarrow> 'b res" where
  "bnd (Ok x) f = f x"
| "bnd (Panic e) f = Panic e"
| "bnd Undef f = Undef"
| "bnd Diverge f = Diverge"

definition panic_if :: "bool \<Rightarrow> string \<Rightarrow> 'a res \<Rightarrow> 'a res" where
  "panic_if c e r = (if c then Panic e else r)"

definition undef_if :: "bool \<Rightarrow> 'a res \<Rightarrow> 'a res" where
  "undef_if c r = (if c then Undef else r)"

text \<open>A pointer-chasing loop is a partial function into option; not returning is \<open>Diverge\<close>.\<close>

definition loop_res :: "'a option \<Rightarrow> 'a res" where
  "loop_res r = (case r of None \<Rightarrow> Diverge | Some x \<Rightarrow> Ok x)"

primrec is_ok :: "'a res \<Rightarrow> bool" where
  "is_ok (Ok x) = True"
| "is_ok (Panic e) = False"
| "is_ok Undef = False"
| "is_ok Diverge = False"

primrec the_ok :: "'a res \<Rightarrow> 'a" where
  "the_ok (Ok x) = x"

text \<open>Iterating a fallible step over a list of indices: the C counting loop.\<close>

primrec for_res :: "'i list \<Rightarrow> ('i \<Rightarrow> 's \<Rightarrow> 's res) \<Rightarrow> 's \<Rightarrow> 's res" where
  "for_res [] f s = Ok s"
| "for_res (i # is) f s = bnd (f i s) (for_res is f)"

lemma panic_if_simps [res_simps, simp]:
  "panic_if True e r = Panic e" "panic_if False e r = r"
  by (simp_all add: panic_if_def)

lemma undef_if_simps [res_simps, simp]:
  "undef_if True r = Undef" "undef_if False r = r"
  by (simp_all add: undef_if_def)

lemma loop_res_simps [res_simps, simp]:
  "loop_res None = Diverge" "loop_res (Some x) = Ok x"
  by (simp_all add: loop_res_def)

lemma bnd_Ok_iff [res_elims]: "bnd m f = Ok y \<longleftrightarrow> (\<exists>x. m = Ok x \<and> f x = Ok y)"
  by (cases m) auto

lemma panic_if_Ok_iff [res_elims]: "panic_if c e r = Ok y \<longleftrightarrow> \<not> c \<and> r = Ok y"
  by (simp add: panic_if_def)

lemma undef_if_Ok_iff [res_elims]: "undef_if c r = Ok y \<longleftrightarrow> \<not> c \<and> r = Ok y"
  by (simp add: undef_if_def)

lemma loop_res_Ok_iff [res_elims]: "loop_res r = Ok y \<longleftrightarrow> r = Some y"
  by (cases r) auto

lemma bnd_assoc: "bnd (bnd m f) g = bnd m (\<lambda>x. bnd (f x) g)"
  by (cases m) auto

lemma is_ok_iff: "is_ok r \<longleftrightarrow> (\<exists>x. r = Ok x)"
  by (cases r) auto

lemma is_ok_bnd: "is_ok (bnd m f) \<longleftrightarrow> (\<exists>x. m = Ok x \<and> is_ok (f x))"
  by (cases m) auto

lemma for_res_append: "for_res (xs @ ys) f s = bnd (for_res xs f s) (for_res ys f)"
proof (induction xs arbitrary: s)
  case Nil
  then show ?case by simp
next
  case (Cons x xs)
  then have "for_res (xs @ ys) f = (\<lambda>s. bnd (for_res xs f s) (for_res ys f))" by (rule ext)
  then show ?case by (simp add: bnd_assoc)
qed

lemma for_res_invariant:
  assumes step: "\<And>i s s'. i \<in> set is \<Longrightarrow> I s \<Longrightarrow> f i s = Ok s' \<Longrightarrow> I s'"
    and "I s" and "for_res is f s = Ok s'"
  shows "I s'"
  using assms
proof (induction "is" arbitrary: s)
  case Nil
  then show ?case by simp
next
  case (Cons i "is")
  from Cons.prems(3) obtain t where "f i s = Ok t" and rest: "for_res is f t = Ok s'"
    by (auto simp: bnd_Ok_iff)
  then have "I t" using Cons.prems(1) [of i s t] Cons.prems(2) by simp
  then show ?case using Cons.IH Cons.prems(1) rest by (meson list.set_intros(2))
qed

text \<open>Sequencing inside a recursion that may not return.\<close>

definition obnd :: "'a res option \<Rightarrow> ('a \<Rightarrow> 'b res option) \<Rightarrow> 'b res option" where
  "obnd m f = Option.bind m (\<lambda>r. case r of Ok x \<Rightarrow> f x | Panic e \<Rightarrow> Some (Panic e)
     | Undef \<Rightarrow> Some Undef | Diverge \<Rightarrow> Some Diverge)"

lemma obnd_mono [partial_function_mono]:
  assumes mf: "mono_option m" and mg: "\<And>y. mono_option (\<lambda>f. g y f)"
  shows "mono_option (\<lambda>f. obnd (m f) (\<lambda>y. g y f))"
  unfolding obnd_def
proof (rule bind_mono [OF mf])
  fix r
  show "mono_option (\<lambda>f. case r of Ok x \<Rightarrow> g x f | Panic e \<Rightarrow> Some (Panic e) | Undef \<Rightarrow> Some Undef
      | Diverge \<Rightarrow> Some Diverge)"
    using mg by (cases r) (auto intro: monotoneI option.leq_refl)
qed

subsection \<open>Words as numbers\<close>

lemma word_eq_unat_iff: "(a :: 'a::len word) = b \<longleftrightarrow> unat a = unat b"
  by (simp add: word_unat_eq_iff)

lemma unat_bound: "unat (a :: 'a::len word) < 2 ^ LENGTH('a)"
  by (rule unsigned_less)

lemma unat_bound64: "unat (a :: u64) < 18446744073709551616"
  using unat_bound [of a] by simp

lemma unat_add_no_wrap:
  fixes a b :: "'a::len word"
  assumes "unat a + unat b < 2 ^ LENGTH('a)"
  shows "unat (a + b) = unat a + unat b"
  using assms by (simp add: unat_word_ariths)

lemma unat_of_nat_small:
  assumes "n < 2 ^ LENGTH('a::len)"
  shows "unat (of_nat n :: 'a word) = n"
  using assms by (simp add: unat_of_nat)

lemma unat_add_of_nat:
  fixes a :: "'a::len word"
  assumes "unat a + n < 2 ^ LENGTH('a)"
  shows "unat (a + of_nat n) = unat a + n"
proof -
  have "unat (of_nat n :: 'a word) = n" using assms by (simp add: unat_of_nat_small)
  then show ?thesis using assms by (simp add: unat_add_no_wrap)
qed

lemma of_nat_word_inj:
  assumes "(of_nat a :: 'a::len word) = of_nat b" "a < 2 ^ LENGTH('a)" "b < 2 ^ LENGTH('a)"
  shows "a = b"
  using assms by (metis unat_of_nat_small)

lemma unat_sub_le:
  fixes a b :: "'a::len word"
  assumes "b \<le> a"
  shows "unat (a - b) = unat a - unat b"
  using assms by (simp add: unat_sub)

lemma word_offset_iff:
  fixes a d :: "'a::len word"
  assumes "n < 2 ^ LENGTH('a)"
  shows "unat (a - d) = n \<longleftrightarrow> a = d + of_nat n"
proof
  assume "unat (a - d) = n"
  then have "of_nat n = a - d" by auto
  then show "a = d + of_nat n" by simp
next
  assume "a = d + of_nat n"
  then show "unat (a - d) = n" using assms by (simp add: unat_of_nat_small)
qed

end
