(* ===== verification/Machine.thy ===== *)
theory Machine
  imports Prelude
begin

text \<open>
  The RISC-V machine as the kernel headers see it: the page and page-table macros of
  \<^verbatim>\<open>kernel/riscv.h\<close>, the layout of \<^verbatim>\<open>kernel/memlayout.h\<close>, the limits of
  \<^verbatim>\<open>kernel/param.h\<close>, and byte-addressed physical memory with little-endian
  multi-byte loads and stores (what a C access through a \<^verbatim>\<open>uint64*\<close> or a
  \<^verbatim>\<open>uint*\<close> does on this machine).
\<close>

section \<open>Constants of param.h, riscv.h and memlayout.h\<close>

definition NPROC :: nat where "NPROC = 64"
definition NCPU :: nat where "NCPU = 8"
definition NOFILE :: nat where "NOFILE = 16"
definition NFILE :: nat where "NFILE = 100"
definition NINODE :: nat where "NINODE = 50"
definition NDEV :: nat where "NDEV = 10"
definition ROOTDEV :: nat where "ROOTDEV = 1"
definition MAXARG :: nat where "MAXARG = 32"
definition MAXOPBLOCKS :: nat where "MAXOPBLOCKS = 10"
definition LOGBLOCKS :: nat where "LOGBLOCKS = MAXOPBLOCKS * 3"
definition NBUF :: nat where "NBUF = MAXOPBLOCKS * 3"
definition FSSIZE :: nat where "FSSIZE = 20000"
definition MAXPATH :: nat where "MAXPATH = 128"
definition USERSTACK :: nat where "USERSTACK = 1"
definition LOG_BUF_SIZE :: nat where "LOG_BUF_SIZE = 4096"

definition PGSIZE :: addr where "PGSIZE = 4096"
definition PGSHIFT :: nat where "PGSHIFT = 12"

definition PGROUNDUP :: "addr \<Rightarrow> addr" where
  "PGROUNDUP sz = (sz + PGSIZE - 1) AND NOT (PGSIZE - 1)"

definition PGROUNDDOWN :: "addr \<Rightarrow> addr" where
  "PGROUNDDOWN a = a AND NOT (PGSIZE - 1)"

definition PTE_V :: u64 where "PTE_V = push_bit 0 1"
definition PTE_R :: u64 where "PTE_R = push_bit 1 1"
definition PTE_W :: u64 where "PTE_W = push_bit 2 1"
definition PTE_X :: u64 where "PTE_X = push_bit 3 1"
definition PTE_U :: u64 where "PTE_U = push_bit 4 1"
definition PTE_COW :: u64 where "PTE_COW = push_bit 8 1"

definition PA2PTE :: "addr \<Rightarrow> u64" where "PA2PTE pa = push_bit 10 (drop_bit 12 pa)"
definition PTE2PA :: "u64 \<Rightarrow> addr" where "PTE2PA pte = push_bit 12 (drop_bit 10 pte)"
definition PTE_FLAGS :: "u64 \<Rightarrow> u64" where "PTE_FLAGS pte = pte AND 0x3FF"

definition PXMASK :: u64 where "PXMASK = 0x1FF"
definition PXSHIFT :: "nat \<Rightarrow> nat" where "PXSHIFT level = PGSHIFT + 9 * level"
definition PX :: "nat \<Rightarrow> addr \<Rightarrow> u64" where "PX level va = drop_bit (PXSHIFT level) va AND PXMASK"

definition MAXVA :: addr where "MAXVA = push_bit (9 + 9 + 9 + 12 - 1) 1"

definition KERNBASE :: addr where "KERNBASE = 0x80000000"
definition PHYSTOP :: addr where "PHYSTOP = KERNBASE + 128 * 1024 * 1024"
definition TRAMPOLINE :: addr where "TRAMPOLINE = MAXVA - PGSIZE"
definition KSTACK :: "nat \<Rightarrow> addr" where "KSTACK p = TRAMPOLINE - (of_nat p + 1) * 2 * PGSIZE"
definition TRAPFRAME :: addr where "TRAPFRAME = TRAMPOLINE - PGSIZE"

lemmas param_defs [kconst] =
  NPROC_def NCPU_def NOFILE_def NFILE_def NINODE_def NDEV_def ROOTDEV_def MAXARG_def
  MAXOPBLOCKS_def LOGBLOCKS_def NBUF_def FSSIZE_def MAXPATH_def USERSTACK_def LOG_BUF_SIZE_def

lemmas page_defs [kconst] =
  PGSIZE_def PGSHIFT_def PXMASK_def PXSHIFT_def MAXVA_def KERNBASE_def PHYSTOP_def
  TRAMPOLINE_def KSTACK_def TRAPFRAME_def

lemmas pte_bits [kconst] = PTE_V_def PTE_R_def PTE_W_def PTE_X_def PTE_U_def PTE_COW_def

section \<open>Physical memory\<close>

type_synonym memory = "addr \<Rightarrow> u8"

primrec load_le :: "nat \<Rightarrow> memory \<Rightarrow> addr \<Rightarrow> u64" where
  "load_le 0 m a = 0"
| "load_le (Suc k) m a = ucast (m a) OR push_bit 8 (load_le k m (a + 1))"

primrec store_le :: "nat \<Rightarrow> memory \<Rightarrow> addr \<Rightarrow> u64 \<Rightarrow> memory" where
  "store_le 0 m a v = m"
| "store_le (Suc k) m a v = store_le k (m(a := ucast v)) (a + 1) (drop_bit 8 v)"

definition load64 :: "memory \<Rightarrow> addr \<Rightarrow> u64" where "load64 m a = load_le 8 m a"
definition store64 :: "memory \<Rightarrow> addr \<Rightarrow> u64 \<Rightarrow> memory" where "store64 m a v = store_le 8 m a v"
definition load32 :: "memory \<Rightarrow> addr \<Rightarrow> u32" where "load32 m a = ucast (load_le 4 m a)"
definition store32 :: "memory \<Rightarrow> addr \<Rightarrow> u32 \<Rightarrow> memory" where
  "store32 m a v = store_le 4 m a (ucast v)"

subsection \<open>Loads and stores, bit by bit\<close>

lemma bit_load_le:
  "bit (load_le k m a) n \<longleftrightarrow> n < 64 \<and> n < 8 * k \<and> bit (m (a + of_nat (n div 8))) (n mod 8)"
proof (induction k arbitrary: a n)
  case 0
  then show ?case by simp
next
  case (Suc k)
  show ?case
  proof (cases "n < 8")
    case True
    then show ?thesis by (auto simp: bit_simps)
  next
    case False
    then have "n div 8 = Suc ((n - 8) div 8)" and "n mod 8 = (n - 8) mod 8"
      by (simp_all add: div_nat_eqI le_div_geq le_mod_geq)
    moreover have "\<not> bit (m a) n" using False by (simp add: bit_word_iff_drop_bit_and[symmetric] impossible_bit)
    ultimately show ?thesis using False
      by (auto simp: bit_simps Suc.IH algebra_simps)
  qed
qed

lemma load_le_cong: "(\<And>i. i < k \<Longrightarrow> m (a + of_nat i) = m' (b + of_nat i)) \<Longrightarrow> load_le k m a = load_le k m' b"
  by (rule bit_eqI) (auto simp: bit_load_le less_mult_imp_div_less mult.commute)

lemma store_le_byte:
  "k \<le> 8 \<Longrightarrow> store_le k m a v b =
     (if unat (b - a) < k then ucast (drop_bit (8 * unat (b - a)) v) else m b)"
proof (induction k arbitrary: m a v)
  case 0
  then show ?case by simp
next
  case (Suc k)
  show ?case
  proof (cases "b = a")
    case True
    have "unat (- 1 :: addr) = 18446744073709551615" by (simp add: unsigned_minus_1_eq_mask mask_eq_exp_minus_1)
    then have "\<not> unat (a - (a + 1)) < k" using Suc.prems by simp
    with True Suc show ?thesis by simp
  next
    case False
    then have "b - a \<noteq> 0" by simp
    then have pos: "unat (b - a) \<noteq> 0" by (simp add: unat_eq_0)
    have "unat (b - (a + 1)) = unat (b - a) - 1"
    proof -
      have "b - (a + 1) = (b - a) - 1" by simp
      then show ?thesis using unat_minus_one [OF \<open>b - a \<noteq> 0\<close>] by metis
    qed
    with pos have u: "unat (b - a) = Suc (unat (b - (a + 1)))" by simp
    have "drop_bit (8 * unat (b - (a + 1))) (drop_bit 8 v) = drop_bit (8 * unat (b - a)) v"
      by (simp add: u algebra_simps)
    with False Suc u show ?thesis by auto
  qed
qed


subsection \<open>A load sees the latest store to its bytes and no other\<close>

definition apart :: "addr \<Rightarrow> nat \<Rightarrow> addr \<Rightarrow> nat \<Rightarrow> bool" where
  "apart a k b l \<longleftrightarrow> unat a + k \<le> unat b \<and> unat b + l \<le> 2 ^ 64 \<or> unat b + l \<le> unat a \<and> unat a + k \<le> 2 ^ 64"

lemma apart_sym: "apart a k b l \<longleftrightarrow> apart b l a k"
  by (auto simp: apart_def)

lemma apart_byte:
  assumes "apart a k b l" "i < l"
  shows "\<not> unat (b + of_nat i - a) < k"
proof -
  have b: "unat (b + of_nat i) = unat b + i" if "unat b + l \<le> 2 ^ 64"
    using that assms(2) by (intro unat_add_of_nat) simp
  from assms(1) show ?thesis unfolding apart_def
  proof (elim disjE conjE)
    assume 1: "unat a + k \<le> unat b" "unat b + l \<le> 2 ^ 64"
    then have "a \<le> b + of_nat i" using b by (simp add: word_le_nat_alt)
    then have "unat (b + of_nat i - a) = unat b + i - unat a" using b 1(2) by (simp add: unat_sub_le)
    then show ?thesis using 1 by simp
  next
    assume 2: "unat b + l \<le> unat a" "unat a + k \<le> 2 ^ 64"
    have ub: "unat b + l \<le> 2 ^ 64" using 2 unat_bound [of a] by simp
    then have lt: "b + of_nat i < a" using b 2(1) assms(2) by (simp add: word_less_nat_alt)
    have "unat (b + of_nat i - a) = 2 ^ 64 + (unat b + i) - unat a"
      using b [OF ub] lt unfolding unat_sub_if' [of "b + of_nat i" a] by (simp add: word_less_nat_alt)
    then show ?thesis using 2 assms(2) by simp
  qed
qed

lemma load_store_apart:
  assumes "apart a k b l" "k \<le> 8"
  shows "load_le l (store_le k m a v) b = load_le l m b"
  by (rule load_le_cong) (simp add: store_le_byte [OF assms(2)] apart_byte [OF assms(1)])

lemma load_store_same:
  assumes "k \<le> 8"
  shows "load_le k (store_le k m a v) a = take_bit (8 * k) v"
proof (rule bit_eqI)
  fix n
  have nd: "n < 8 * k \<Longrightarrow> n div 8 < k" by (simp add: less_mult_imp_div_less mult.commute)
  have u: "n < 8 * k \<Longrightarrow> unat (of_nat (n div 8) :: addr) = n div 8"
    using nd assms by (intro unat_of_nat_small) simp
  have "n < 8 * k \<Longrightarrow> store_le k m a v (a + of_nat (n div 8)) = ucast (drop_bit (8 * (n div 8)) v)"
    using nd u by (simp add: store_le_byte [OF assms])
  then show "bit (load_le k (store_le k m a v) a) n = bit (take_bit (8 * k) v) n"
    using assms by (auto simp: bit_load_le bit_simps)
qed

lemma load64_store64_same [mem_simps]: "load64 (store64 m a v) a = v"
  using take_bit_word_eq_self [of 64 v] by (simp add: load64_def store64_def load_store_same)

lemma load32_store32_same [mem_simps]: "load32 (store32 m a v) a = v"
  by (rule bit_eqI) (auto simp: load32_def store32_def load_store_same bit_simps)

lemma load64_store64_apart [mem_simps]: "apart a 8 b 8 \<Longrightarrow> load64 (store64 m a v) b = load64 m b"
  by (simp add: load64_def store64_def load_store_apart)

lemma load64_store32_apart [mem_simps]: "apart a 4 b 8 \<Longrightarrow> load64 (store32 m a v) b = load64 m b"
  by (simp add: load64_def store32_def load_store_apart)

lemma load32_store64_apart [mem_simps]: "apart a 8 b 4 \<Longrightarrow> load32 (store64 m a v) b = load32 m b"
  by (simp add: load32_def store64_def load_store_apart)

lemma load32_store32_apart [mem_simps]: "apart a 4 b 4 \<Longrightarrow> load32 (store32 m a v) b = load32 m b"
  by (simp add: load32_def store32_def load_store_apart)

lemma store64_byte_apart: "apart a 8 b 1 \<Longrightarrow> store64 m a v b = m b"
  using apart_byte [of a 8 b 1 0] by (simp add: store64_def store_le_byte)

lemma store32_byte_apart: "apart a 4 b 1 \<Longrightarrow> store32 m a v b = m b"
  using apart_byte [of a 4 b 1 0] by (simp add: store32_def store_le_byte)

lemma load64_cong: "(\<And>i. i < 8 \<Longrightarrow> m (a + of_nat i) = m' (b + of_nat i)) \<Longrightarrow> load64 m a = load64 m' b"
  unfolding load64_def by (rule load_le_cong)

lemma load32_cong: "(\<And>i. i < 4 \<Longrightarrow> m (a + of_nat i) = m' (b + of_nat i)) \<Longrightarrow> load32 m a = load32 m' b"
  unfolding load32_def by (subst load_le_cong [of 4 m a m' b]) simp_all

lemma load64_zero: "(\<And>i. i < 8 \<Longrightarrow> m (a + of_nat i) = 0) \<Longrightarrow> load64 m a = 0"
  by (rule bit_eqI) (auto simp: load64_def bit_load_le less_mult_imp_div_less mult.commute)

section \<open>Page arithmetic\<close>

lemma PGROUNDDOWN_alt: "PGROUNDDOWN a = push_bit 12 (drop_bit 12 a)"
proof (rule bit_eqI)
  fix n
  have m: "(4095 :: addr) = mask 12" by (simp add: mask_eq_exp_minus_1)
  show "bit (PGROUNDDOWN a) n = bit (push_bit 12 (drop_bit 12 a)) n"
    by (auto simp: PGROUNDDOWN_def PGSIZE_def m bit_simps)
qed

lemma unat_PGROUNDDOWN: "unat (PGROUNDDOWN a) = unat a div 4096 * 4096"
proof -
  have "unat (push_bit 12 (drop_bit 12 a)) = take_bit 64 (push_bit 12 (drop_bit 12 (unat a)))"
    using unat_bound [of a] by (simp add: unsigned_push_bit_eq unsigned_drop_bit_eq take_bit_nat_eq_self)
  also have "\<dots> = take_bit 64 (unat a div 4096 * 4096)"
    by (simp add: push_bit_eq_mult drop_bit_eq_div)
  also have "\<dots> = unat a div 4096 * 4096"
    using unat_bound [of a] by (simp add: take_bit_nat_eq_self)
  finally show ?thesis by (simp add: PGROUNDDOWN_alt)
qed

lemma PGROUNDUP_alt: "PGROUNDUP a = PGROUNDDOWN (a + 4095)"
  by (simp add: PGROUNDUP_def PGROUNDDOWN_def PGSIZE_def add.commute)

lemma unat_PGROUNDUP:
  assumes "unat a + 4095 < 2 ^ 64"
  shows "unat (PGROUNDUP a) = (unat a + 4095) div 4096 * 4096"
proof -
  have "unat (a + 4095) = unat a + 4095" using assms by (subst unat_add_no_wrap) auto
  then show ?thesis by (simp add: PGROUNDUP_alt unat_PGROUNDDOWN)
qed

lemma PGROUNDDOWN_le: "PGROUNDDOWN a \<le> a"
  by (simp add: word_le_nat_alt unat_PGROUNDDOWN)

lemma unat_mod_PGSIZE: "unat (a mod PGSIZE) = unat a mod 4096"
  by (simp add: PGSIZE_def unat_mod)

lemma page_aligned_iff: "a mod PGSIZE = 0 \<longleftrightarrow> unat a mod 4096 = 0"
  using unat_mod_PGSIZE [of a] unat_eq_0 [of "a mod PGSIZE"] by simp

lemma PGROUNDDOWN_aligned [simp]: "PGROUNDDOWN a mod PGSIZE = 0"
  by (simp add: page_aligned_iff unat_PGROUNDDOWN)

lemma PGROUNDUP_aligned [simp]: "PGROUNDUP a mod PGSIZE = 0"
  by (simp add: PGROUNDUP_alt)

lemma PGROUNDDOWN_id: "a mod PGSIZE = 0 \<Longrightarrow> PGROUNDDOWN a = a"
  unfolding page_aligned_iff word_eq_unat_iff [of "PGROUNDDOWN a"] unat_PGROUNDDOWN
  by (simp add: mod_0_imp_dvd)

section \<open>Page-table entries and indices\<close>

lemma bit_small_word:
  fixes w :: "'a::len word"
  assumes "w < 2 ^ k" "k \<le> n"
  shows "\<not> bit w n"
proof
  assume b: "bit w n"
  then have "n < LENGTH('a)" by (rule bit_imp_le_length)
  then have k: "k < LENGTH('a)" using assms(2) by simp
  have "unat (of_nat (2 ^ k) :: 'a word) = 2 ^ k" using k by (intro unat_of_nat_small) simp
  then have "unat w < 2 ^ k" using assms(1) by (simp add: word_less_nat_alt)
  then have "unat w < 2 ^ n" using assms(2) by (meson less_le_trans one_le_numeral power_increasing)
  then have "\<not> bit (unat w) n" by (simp add: bit_iff_odd)
  then show False using b by (simp add: bit_simps)
qed

lemma aligned_low_bits:
  assumes "a mod PGSIZE = 0" "n < 12"
  shows "\<not> bit a n"
proof -
  have "a = push_bit 12 (drop_bit 12 a)" using PGROUNDDOWN_id [OF assms(1)] by (simp add: PGROUNDDOWN_alt)
  then have "bit a n = bit (push_bit 12 (drop_bit 12 a)) n" by simp
  then show ?thesis using assms(2) by (simp add: bit_simps)
qed

lemma PTE2PA_PA2PTE:
  assumes "pa mod PGSIZE = 0" "flags < 1024"
  shows "PTE2PA (PA2PTE pa OR flags) = pa"
proof (rule bit_word_eqI)
  fix n assume n: "n < LENGTH(64)"
  have f: "\<not> bit flags k" if "10 \<le> k" for k
    using bit_small_word [of flags 10 k] assms(2) that by simp
  have low: "n < 12 \<Longrightarrow> \<not> bit pa n" using aligned_low_bits [OF assms(1)] by blast
  show "bit (PTE2PA (PA2PTE pa OR flags)) n = bit pa n"
  proof (cases "n < 12")
    case True
    then show ?thesis using low by (simp add: PTE2PA_def bit_simps)
  next
    case False
    then have "n - 12 + 12 = n" and "n - 2 = n - 12 + 10" by simp_all
    then show ?thesis using n f [of "n - 12 + 10"] False
      by (auto simp: PTE2PA_def PA2PTE_def bit_simps add.commute)
  qed
qed

lemma PTE_FLAGS_PA2PTE:
  assumes "flags < 1024"
  shows "PTE_FLAGS (PA2PTE pa OR flags) = flags"
proof (rule bit_word_eqI)
  fix n assume "n < LENGTH(64)"
  have m: "(0x3FF :: u64) = mask 10" by (simp add: mask_eq_exp_minus_1)
  have f: "10 \<le> n \<Longrightarrow> \<not> bit flags n"
    using bit_small_word [of flags 10 n] assms by simp
  then show "bit (PTE_FLAGS (PA2PTE pa OR flags)) n = bit flags n"
    using bit_imp_le_length [of flags n] by (cases "n < 10") (auto simp: PTE_FLAGS_def PA2PTE_def m bit_simps)
qed

lemma PTE_FLAGS_less: "PTE_FLAGS pte < 1024"
proof -
  have "pte AND 0x3FF \<le> 0x3FF" by (rule word_and_le1)
  then show ?thesis by (simp add: PTE_FLAGS_def word_le_nat_alt word_less_nat_alt)
qed

lemma PTE_split: "PA2PTE (PTE2PA pte) OR PTE_FLAGS pte = take_bit 62 pte"
proof (rule bit_word_eqI)
  fix n assume n: "n < LENGTH(64)"
  have m: "(0x3FF :: u64) = mask 10" by (simp add: mask_eq_exp_minus_1)
  show "bit (PA2PTE (PTE2PA pte) OR PTE_FLAGS pte) n = bit (take_bit 62 pte) n"
    using n by (auto simp: PTE_FLAGS_def PA2PTE_def PTE2PA_def m bit_simps)
qed

lemma PTE2PA_aligned [simp]: "PTE2PA pte mod PGSIZE = 0"
proof -
  have "PTE2PA pte = PGROUNDDOWN (PTE2PA pte)"
    unfolding PGROUNDDOWN_alt PTE2PA_def by (rule bit_word_eqI) (auto simp: bit_simps)
  then show ?thesis by (metis PGROUNDDOWN_aligned)
qed

lemma PX_less: "PX level va < 512"
proof -
  have "drop_bit (PXSHIFT level) va AND 0x1FF \<le> (0x1FF :: u64)" by (rule word_and_le1)
  then show ?thesis by (simp add: PX_def PXMASK_def word_le_nat_alt word_less_nat_alt)
qed

lemma bit_PX: "bit (PX level va) n \<longleftrightarrow> n < 9 \<and> bit va (n + 12 + 9 * level)"
proof -
  have m: "(0x1FF :: u64) = mask 9" by (simp add: mask_eq_exp_minus_1)
  show ?thesis by (auto simp: PX_def PXMASK_def PXSHIFT_def PGSHIFT_def m bit_simps algebra_simps)
qed

lemma PX_inj:
  assumes "va < MAXVA" "vb < MAXVA" "va mod PGSIZE = 0" "vb mod PGSIZE = 0"
    and "PX 2 va = PX 2 vb" "PX 1 va = PX 1 vb" "PX 0 va = PX 0 vb"
  shows "va = vb"
proof (rule bit_word_eqI)
  fix n assume "n < LENGTH(64)"
  have hi: "38 \<le> n \<Longrightarrow> \<not> bit va n \<and> \<not> bit vb n"
    using assms(1,2) bit_small_word [of va 38 n] bit_small_word [of vb 38 n] by (simp add: MAXVA_def)
  have lo: "n < 12 \<Longrightarrow> \<not> bit va n \<and> \<not> bit vb n"
    using aligned_low_bits [OF assms(3), of n] aligned_low_bits [OF assms(4), of n] by simp
  have px: "bit va (k + 12 + 9 * l) = bit vb (k + 12 + 9 * l)" if "k < 9" "l \<in> {0,1,2}" for k l
    using that assms(5,6,7) bit_PX [of l va k] bit_PX [of l vb k] by auto
  consider "n < 12" | "12 \<le> n" "n < 21" | "21 \<le> n" "n < 30" | "30 \<le> n" "n < 39" | "39 \<le> n"
    by linarith
  then show "bit va n = bit vb n"
    using hi lo px [of "n - 12" 0] px [of "n - 21" 1] px [of "n - 30" 2] by cases auto
qed

lemma page_chunk:
  fixes len a :: u64
  assumes "len \<noteq> 0"
  defines "n \<equiv> PGSIZE - (a - PGROUNDDOWN a)"
  shows "unat (len - (if n > len then len else n)) < unat len"
    and "unat n = 4096 - unat a mod 4096"
proof -
  have o: "unat (a - PGROUNDDOWN a) = unat a mod 4096"
    by (subst unat_sub_le [OF PGROUNDDOWN_le]) (simp add: unat_PGROUNDDOWN minus_div_mult_eq_mod)
  have "unat (a - PGROUNDDOWN a) \<le> unat (4096 :: u64)" unfolding o by simp
  then show n: "unat n = 4096 - unat a mod 4096"
    unfolding n_def PGSIZE_def by (subst unat_sub_le) (simp_all add: word_le_nat_alt o)
  have "0 < unat len" using assms(1) by (simp add: unat_gt_0)
  moreover have "unat (len - n) = unat len - unat n" if "n \<le> len" using that by (simp add: unat_sub_le)
  moreover have "0 < unat n" unfolding n by simp
  ultimately show "unat (len - (if n > len then len else n)) < unat len" by auto
qed

lemma page_chunk_less:
  fixes len a :: u64
  assumes "len \<noteq> 0" "\<not> len < PGSIZE - (a - PGROUNDDOWN a)"
  shows "unat (len - (PGSIZE - (a - PGROUNDDOWN a))) < unat len"
  using page_chunk(1) [OF assms(1), of a] assms(2) by simp

end
