(* ===== verification/Sched.thy ===== *)
theory Sched
  imports Machine
begin

text \<open>
  The process table of \<^verbatim>\<open>kernel/proc.c\<close> and the dynamic-priority scheduler
  (\<^verbatim>\<open>kernel/sched.h\<close>): the phases of \<open>scheduler\<close> as functions on the table, and the
  state changes other routines make to table entries. A process is its index in the table.
  Register contexts and per-process locks are not part of the model; a critical section is one step.
\<close>

section \<open>The process table\<close>

datatype procstate = UNUSED | USED | SLEEPING | RUNNABLE | RUNNING | ZOMBIE

text \<open>Sleep channels: the addresses the kernel sleeps on, as names.\<close>

datatype chan = NoChan | ChanProc nat | ChanTicks | ChanPipeRead nat | ChanPipeWrite nat | ChanLog
  | ChanBuf nat | ChanInode nat | ChanCons | ChanUart | ChanDisk nat | ChanKlog

record proc =
  pstate :: procstate
  chan :: chan
  killed :: int
  xstate :: int
  pid :: int
  parent :: "nat option"
  kstack :: addr
  psz :: u64
  pagetable :: addr
  trapframe :: addr
  ofile :: "nat option list"
  cwd :: "nat option"
  pname :: "u8 list"
  priority :: int
  wait_ticks :: int
  cpu_ticks :: int

definition SCHED_ALPHA :: int where "SCHED_ALPHA = 5"
definition SCHED_BETA :: int where "SCHED_BETA = 10"
definition SCHED_DEFAULT :: int where "SCHED_DEFAULT = 60"
definition SCHED_MAX :: int where "SCHED_MAX = 100"
definition SCHED_MIN :: int where "SCHED_MIN = 0"
definition SCHED_WMAX :: int where "SCHED_WMAX = 50"
definition SCHED_TCPU_MAX :: int where "SCHED_TCPU_MAX = 1"
definition SCHED_W :: int where "SCHED_W = 50"

lemmas sched_consts [kconst] = SCHED_ALPHA_def SCHED_BETA_def SCHED_DEFAULT_def SCHED_MAX_def SCHED_MIN_def
  SCHED_WMAX_def SCHED_TCPU_MAX_def SCHED_W_def

section \<open>The phases of the scheduler\<close>

text \<open>Phase 1: the first process that has waited too long, else the first of highest priority.\<close>

function sched_pick :: "proc list \<Rightarrow> nat \<Rightarrow> nat option \<Rightarrow> nat option" where
  "sched_pick ps i best =
     (if i < length ps then
        if pstate (ps ! i) = RUNNABLE then
          if wait_ticks (ps ! i) \<ge> SCHED_WMAX then Some i
          else if (case best of None \<Rightarrow> True | Some b \<Rightarrow> priority (ps ! i) > priority (ps ! b))
          then sched_pick ps (i + 1) (Some i)
          else sched_pick ps (i + 1) best
        else sched_pick ps (i + 1) best
      else best)"
  by pat_completeness auto
termination by (relation "measure (\<lambda>(ps, i, best). length ps - i)") auto

declare sched_pick.simps [simp del]

text \<open>Phase 2: age the runnable processes that were passed over.\<close>

definition age_proc :: "proc \<Rightarrow> proc" where
  "age_proc p =
     (if pstate p = RUNNABLE
      then let p1 = p\<lparr>wait_ticks := wait_ticks p + 1, priority := priority p + SCHED_ALPHA\<rparr>
           in if priority p1 > SCHED_MAX then p1\<lparr>priority := SCHED_MAX\<rparr> else p1
      else p)"

definition sched_age :: "nat \<Rightarrow> proc list \<Rightarrow> proc list" where
  "sched_age best ps = map (\<lambda>i. if i \<noteq> best then age_proc (ps ! i) else ps ! i) [0..<length ps]"

definition sched_start :: "nat \<Rightarrow> proc list \<Rightarrow> proc list" where
  "sched_start best ps = ps[best := (ps ! best)\<lparr>pstate := RUNNING, wait_ticks := 0\<rparr>]"

text \<open>After \<^verbatim>\<open>swtch\<close> returns: charge the process, and reset the window when it is over.\<close>

definition sched_account :: "nat \<Rightarrow> proc list \<Rightarrow> proc list" where
  "sched_account best ps =
     (let p1 = (ps ! best)\<lparr>cpu_ticks := cpu_ticks (ps ! best) + 1\<rparr>;
          p2 = (if cpu_ticks p1 > SCHED_TCPU_MAX then
                  let q = p1\<lparr>priority := priority p1 - SCHED_BETA\<rparr>
                  in if priority q < SCHED_MIN then q\<lparr>priority := SCHED_MIN\<rparr> else q
                else p1)
      in ps[best := p2])"

definition sched_window :: "int \<Rightarrow> proc list \<Rightarrow> int \<times> proc list" where
  "sched_window window_tick ps =
     (if window_tick \<ge> SCHED_W then (0, map (\<lambda>p. p\<lparr>cpu_ticks := 0\<rparr>) ps) else (window_tick, ps))"

section \<open>State changes by the other routines\<close>

definition yield_tbl :: "nat \<Rightarrow> proc list \<Rightarrow> proc list" where
  "yield_tbl i ps = ps[i := (ps ! i)\<lparr>pstate := RUNNABLE\<rparr>]"

text \<open>\<^verbatim>\<open>p->cpu_ticks++\<close> of a timer interrupt, before the interrupted process yields.\<close>

definition tick_tbl :: "nat \<Rightarrow> proc list \<Rightarrow> proc list" where
  "tick_tbl i ps = ps[i := (ps ! i)\<lparr>cpu_ticks := cpu_ticks (ps ! i) + 1\<rparr>]"

definition sleep_tbl :: "nat \<Rightarrow> chan \<Rightarrow> proc list \<Rightarrow> proc list" where
  "sleep_tbl i c ps = ps[i := (ps ! i)\<lparr>chan := c, pstate := SLEEPING\<rparr>]"

definition unsleep_tbl :: "nat \<Rightarrow> proc list \<Rightarrow> proc list" where
  "unsleep_tbl i ps = ps[i := (ps ! i)\<lparr>chan := NoChan\<rparr>]"

definition wakeup_proc :: "chan \<Rightarrow> proc \<Rightarrow> proc" where
  "wakeup_proc c p = (if pstate p = SLEEPING \<and> chan p = c then p\<lparr>pstate := RUNNABLE\<rparr> else p)"

text \<open>\<open>me\<close> is \<^verbatim>\<open>myproc()\<close>, absent when the caller is an interrupt handler on an idle CPU.\<close>

definition wakeup_tbl :: "nat option \<Rightarrow> chan \<Rightarrow> proc list \<Rightarrow> proc list" where
  "wakeup_tbl me c ps = map (\<lambda>i. if Some i \<noteq> me then wakeup_proc c (ps ! i) else ps ! i) [0..<length ps]"

function find_pid :: "int \<Rightarrow> proc list \<Rightarrow> nat \<Rightarrow> nat option" where
  "find_pid pd ps i = (if i < length ps then if pid (ps ! i) = pd then Some i else find_pid pd ps (i + 1) else None)"
  by pat_completeness auto
termination by (relation "measure (\<lambda>(pd, ps, i). length ps - i)") auto

declare find_pid.simps [simp del]

definition kill_proc :: "proc \<Rightarrow> proc" where
  "kill_proc p = (let q = p\<lparr>killed := 1\<rparr> in if pstate q = SLEEPING then q\<lparr>pstate := RUNNABLE\<rparr> else q)"

definition kkill_tbl :: "int \<Rightarrow> proc list \<Rightarrow> int \<times> proc list" where
  "kkill_tbl pd ps = (case find_pid pd ps 0 of None \<Rightarrow> (- 1, ps) | Some i \<Rightarrow> (0, ps[i := kill_proc (ps ! i)]))"

definition zombie_tbl :: "nat \<Rightarrow> int \<Rightarrow> proc list \<Rightarrow> proc list" where
  "zombie_tbl i status ps = ps[i := (ps ! i)\<lparr>xstate := status, pstate := ZOMBIE\<rparr>]"

text \<open>The fields \<open>allocproc\<close> and \<open>freeproc\<close> set, apart from memory.\<close>

definition alloc_fields :: "int \<Rightarrow> proc \<Rightarrow> proc" where
  "alloc_fields pd p = p\<lparr>pid := pd, pstate := USED\<rparr>"

definition sched_fields :: "proc \<Rightarrow> proc" where
  "sched_fields p = p\<lparr>priority := SCHED_DEFAULT, wait_ticks := 0, cpu_ticks := 0\<rparr>"

definition free_fields :: "proc \<Rightarrow> proc" where
  "free_fields p = p\<lparr>trapframe := 0, pagetable := 0, psz := 0, pid := 0, parent := None,
     pname := (case pname p of [] \<Rightarrow> [] | _ # cs \<Rightarrow> 0 # cs), chan := NoChan, killed := 0, xstate := 0, pstate := UNUSED\<rparr>"

definition inherit_sched :: "proc \<Rightarrow> proc \<Rightarrow> proc" where
  "inherit_sched p np = np\<lparr>priority := priority p, wait_ticks := 0, cpu_ticks := 0\<rparr>"

definition runnable_tbl :: "nat \<Rightarrow> proc list \<Rightarrow> proc list" where
  "runnable_tbl i ps = ps[i := (ps ! i)\<lparr>pstate := RUNNABLE\<rparr>]"

end
