(* ===== verification/Cstring.thy ===== *)
theory Cstring
  imports Machine
begin

text \<open>
  \<^verbatim>\<open>kernel/string.c\<close>: the memory and string routines the whole kernel is built on,
  as functions on byte-addressed memory. Pointers are 64-bit words, so pointer arithmetic
  wraps the way the machine's does; counts keep the 32-bit width of the source where the
  source has one.
\<close>

section \<open>Definitions\<close>

definition memset :: "memory \<Rightarrow> addr \<Rightarrow> u8 \<Rightarrow> u32 \<Rightarrow> memory" where
  "memset m dst c n = fold (\<lambda>i m. m(dst + of_nat i := c)) [0..<unat n] m"

fun memcmp_loop :: "memory \<Rightarrow> addr \<Rightarrow> addr \<Rightarrow> nat \<Rightarrow> int" where
  "memcmp_loop m s1 s2 0 = 0"
| "memcmp_loop m s1 s2 (Suc n) =
     (if m s1 \<noteq> m s2 then uint (m s1) - uint (m s2) else memcmp_loop m (s1 + 1) (s2 + 1) n)"

definition memcmp :: "memory \<Rightarrow> addr \<Rightarrow> addr \<Rightarrow> u32 \<Rightarrow> int" where
  "memcmp m v1 v2 n = memcmp_loop m v1 v2 (unat n)"

text \<open>
  The two copy loops of \<^verbatim>\<open>memmove\<close>: \<^verbatim>\<open>*d++ = *s++\<close> upwards and
  \<^verbatim>\<open>*--d = *--s\<close> downwards.
\<close>

definition copy_up :: "memory \<Rightarrow> addr \<Rightarrow> addr \<Rightarrow> nat \<Rightarrow> memory" where
  "copy_up m d s n = fold (\<lambda>i m. m(d + of_nat i := m (s + of_nat i))) [0..<n] m"

definition copy_down :: "memory \<Rightarrow> addr \<Rightarrow> addr \<Rightarrow> nat \<Rightarrow> memory" where
  "copy_down m d s n = fold (\<lambda>i m. m(d + of_nat i := m (s + of_nat i))) (rev [0..<n]) m"

definition memmove :: "memory \<Rightarrow> addr \<Rightarrow> addr \<Rightarrow> u32 \<Rightarrow> memory" where
  "memmove m dst src n =
     (if n = 0 then m
      else if src < dst \<and> src + ucast n > dst then copy_down m dst src (unat n)
      else copy_up m dst src (unat n))"

definition memcpy :: "memory \<Rightarrow> addr \<Rightarrow> addr \<Rightarrow> u32 \<Rightarrow> memory" where
  "memcpy m dst src n = memmove m dst src n"

fun strncmp_loop :: "memory \<Rightarrow> addr \<Rightarrow> addr \<Rightarrow> nat \<Rightarrow> int" where
  "strncmp_loop m p q 0 = 0"
| "strncmp_loop m p q (Suc n) =
     (if m p \<noteq> 0 \<and> m p = m q then strncmp_loop m (p + 1) (q + 1) n
      else uint (m p) - uint (m q))"

definition strncmp :: "memory \<Rightarrow> addr \<Rightarrow> addr \<Rightarrow> u32 \<Rightarrow> int" where
  "strncmp m p q n = strncmp_loop m p q (unat n)"

primrec zero_fill :: "memory \<Rightarrow> addr \<Rightarrow> nat \<Rightarrow> memory" where
  "zero_fill m s 0 = m"
| "zero_fill m s (Suc n) = zero_fill (m(s := 0)) (s + 1) n"

primrec strncpy_loop :: "memory \<Rightarrow> addr \<Rightarrow> addr \<Rightarrow> nat \<Rightarrow> memory" where
  "strncpy_loop m s t 0 = m"
| "strncpy_loop m s t (Suc n) =
     (let m' = m(s := m t) in
      if m t \<noteq> 0 then strncpy_loop m' (s + 1) (t + 1) n else zero_fill m' (s + 1) n)"

definition strncpy :: "memory \<Rightarrow> addr \<Rightarrow> addr \<Rightarrow> int \<Rightarrow> memory" where
  "strncpy m s t n = strncpy_loop m s t (nat n)"

text \<open>
  \<^verbatim>\<open>while(--n > 0 && (*s++ = *t++) != 0); *s = 0;\<close> The argument is the value of
  \<^verbatim>\<open>n\<close> after the decrement.
\<close>

primrec safestrcpy_loop :: "memory \<Rightarrow> addr \<Rightarrow> addr \<Rightarrow> nat \<Rightarrow> memory" where
  "safestrcpy_loop m s t 0 = m(s := 0)"
| "safestrcpy_loop m s t (Suc n) =
     (let m' = m(s := m t) in
      if m t \<noteq> 0 then safestrcpy_loop m' (s + 1) (t + 1) n else m'(s + 1 := 0))"

definition safestrcpy :: "memory \<Rightarrow> addr \<Rightarrow> addr \<Rightarrow> int \<Rightarrow> memory" where
  "safestrcpy m s t n = (if n \<le> 0 then m else safestrcpy_loop m s t (nat (n - 1)))"

partial_function (option) strlen_loop :: "memory \<Rightarrow> addr \<Rightarrow> nat \<Rightarrow> nat option" where
  "strlen_loop m s n = (if m (s + of_nat n) = 0 then Some n else strlen_loop m s (Suc n))"

definition strlen :: "memory \<Rightarrow> addr \<Rightarrow> nat res" where
  "strlen m s = loop_res (strlen_loop m s 0)"

section \<open>What each routine writes\<close>

lemma fold_const_upd:
  "n < 2 ^ 64 \<Longrightarrow> fold (\<lambda>i m. m(dst + of_nat i := c)) [0..<n] m a = (if unat (a - dst) < n then c else m (a :: addr))"
proof (induction n)
  case 0
  then show ?case by simp
next
  case (Suc n)
  have "a = dst + of_nat n \<longleftrightarrow> unat (a - dst) = n"
    using Suc.prems word_offset_iff [of n a dst] by simp
  then show ?case using Suc by (auto simp: less_Suc_eq)
qed

lemma memset_apply: "memset m dst c n a = (if unat (a - dst) < unat n then c else m a)"
  using unat_bound [of n] by (simp add: memset_def fold_const_upd)

lemma memset_apart:
  assumes "apart dst (unat n) b l" "i < l"
  shows "memset m dst c n (b + of_nat i) = m (b + of_nat i)"
  using apart_byte [OF assms] by (simp add: memset_apply)

lemma in_range_offset:
  assumes "unat (a - dst) < n" "n \<le> 2 ^ 64"
  obtains i where "i < n" "a = dst + (of_nat i :: addr)"
  using that [of "unat (a - dst)"] assms by simp

lemma offset_in_range: "i < n \<Longrightarrow> n \<le> 2 ^ 64 \<Longrightarrow> unat (dst + of_nat i - dst :: addr) = i"
  by (simp add: unat_of_nat_small)

text \<open>
  The copy loops. Moving down is right when the source lies below the destination, moving
  up when it lies above or the two ranges do not meet; the test of \<^verbatim>\<open>memmove\<close>
  picks the right one.
\<close>

lemma copy_up_apply:
  assumes nw: "unat d + n \<le> 2 ^ 64" "unat s + n \<le> 2 ^ 64"
    and safe: "unat d \<le> unat s \<or> unat s + n \<le> unat d"
  shows "copy_up m d s n a = (if unat (a - d) < n then m (s + (a - d)) else m a)"
  using assms
proof (induction n arbitrary: a)
  case 0
  then show ?case by (simp add: copy_up_def)
next
  case (Suc n)
  then have IH: "copy_up m d s n b = (if unat (b - d) < n then m (s + (b - d)) else m b)" for b
    by auto
  have un: "unat (of_nat n :: addr) = n" using Suc.prems(1) by (intro unat_of_nat_small) simp
  have above: "\<not> unat (s + of_nat n - d) < n"
  proof (cases "unat d \<le> unat s")
    case True
    have us: "unat (s + of_nat n) = unat s + n" using Suc.prems(2) by (intro unat_add_of_nat) simp
    then have "unat (s + of_nat n - d) = unat s + n - unat d"
      using True by (subst unat_sub_le) (auto simp: word_le_nat_alt)
    then show ?thesis using True by simp
  next
    case False
    then show ?thesis using apart_byte [of d n s "Suc n" n] Suc.prems by (auto simp: apart_def)
  qed
  then have src: "copy_up m d s n (s + of_nat n) = m (s + of_nat n)" unfolding IH by simp
  have step: "copy_up m d s (Suc n) a = (if a = d + of_nat n then m (s + of_nat n) else copy_up m d s n a)"
    using src by (simp add: copy_up_def)
  show ?case
  proof (cases "a = d + of_nat n")
    case True
    then show ?thesis using step un by simp
  next
    case False
    then have "unat (a - d) \<noteq> n" using word_offset_iff [of n a d] Suc.prems(1) by simp
    then show ?thesis using False unfolding step IH by (simp add: less_Suc_eq)
  qed
qed

lemma copy_down_step: "copy_down m d s (Suc n) = copy_down (m(d + of_nat n := m (s + of_nat n))) d s n"
  by (simp add: copy_down_def)

lemma copy_down_apply:
  assumes nw: "unat d + n \<le> 2 ^ 64" "unat s + n \<le> 2 ^ 64" and below: "unat s \<le> unat d"
  shows "copy_down m d s n a = (if unat (a - d) < n then m (s + (a - d)) else m a)"
  using assms(1,2)
proof (induction n arbitrary: m a)
  case 0
  then show ?case by (simp add: copy_down_def)
next
  case (Suc n)
  let ?m = "m(d + of_nat n := m (s + of_nat n))"
  have un: "unat (of_nat n :: addr) = n" using Suc.prems(1) by (intro unat_of_nat_small) simp
  have IH: "copy_down ?m d s n a = (if unat (a - d) < n then ?m (s + (a - d)) else ?m a)"
    using Suc by auto
  show ?case
  proof (cases "a = d + of_nat n")
    case True
    then show ?thesis using un unfolding copy_down_step IH by simp
  next
    case False
    then have ne: "unat (a - d) \<noteq> n" using word_offset_iff [of n a d] Suc.prems(1) by simp
    have "s + (a - d) \<noteq> d + of_nat n" if "unat (a - d) < n"
    proof
      assume eq: "s + (a - d) = d + of_nat n"
      have "unat (d + of_nat n) = unat d + n" using Suc.prems(1) by (intro unat_add_of_nat) simp
      moreover have "unat (s + (a - d)) = unat s + unat (a - d)"
        using that Suc.prems(2) by (intro unat_add_no_wrap) simp
      ultimately show False using eq that below by simp
    qed
    then show ?thesis using False ne unfolding copy_down_step IH by (simp add: less_Suc_eq)
  qed
qed

lemma memmove_apply:
  assumes nw: "unat dst + unat n \<le> 2 ^ 64" "unat src + unat n < 2 ^ 64"
  shows "memmove m dst src n a = (if unat (a - dst) < unat n then m (src + (a - dst)) else m a)"
proof -
  have u: "unat (ucast n :: addr) = unat n"
    using unat_bound [of n] by (simp add: unsigned_ucast_eq take_bit_nat_eq_self)
  then have "unat (src + ucast n) = unat src + unat n" using nw(2) by (subst unat_add_no_wrap) simp_all
  then have test: "src + ucast n > dst \<longleftrightarrow> unat dst < unat src + unat n" by (simp add: word_less_nat_alt)
  show ?thesis
  proof (cases "src < dst \<and> src + ucast n > dst")
    case True
    then have "unat src \<le> unat dst" by (simp add: word_less_nat_alt)
    then show ?thesis using True nw by (auto simp: memmove_def copy_down_apply)
  next
    case False
    then have "unat dst \<le> unat src \<or> unat src + unat n \<le> unat dst" unfolding test by (simp add: word_less_nat_alt) linarith
    then show ?thesis using False nw by (auto simp: memmove_def copy_up_apply)
  qed
qed

lemma unat_minus_succ:
  fixes a s :: addr
  assumes "a \<noteq> s"
  shows "unat (a - s) = Suc (unat (a - (s + 1)))"
proof -
  have ne: "a - s \<noteq> 0" using assms by simp
  have "a - (s + 1) = a - s - 1" by simp
  then have "unat (a - (s + 1)) = unat (a - s) - 1" using unat_minus_one [OF ne] by metis
  moreover have "unat (a - s) \<noteq> 0" using ne by (simp add: unat_eq_0)
  ultimately show ?thesis by simp
qed

lemma unat_minus_self_succ: "unat (s - (s + 1) :: addr) = 18446744073709551615"
  by (simp add: unsigned_minus_1_eq_mask mask_eq_exp_minus_1)

lemma zero_fill_apply:
  "n < 2 ^ 64 \<Longrightarrow> zero_fill m s n a = (if unat (a - s) < n then 0 else m a)"
proof (induction n arbitrary: m s)
  case 0
  then show ?case by simp
next
  case (Suc n)
  then show ?case
    using unat_minus_succ [of a s] unat_minus_self_succ [of s] by (cases "a = s") auto
qed

lemma strncpy_loop_frame:
  "n < 2 ^ 64 \<Longrightarrow> n \<le> unat (a - s) \<Longrightarrow> strncpy_loop m s t n a = m a"
proof (induction n arbitrary: m s t)
  case 0
  then show ?case by simp
next
  case (Suc n)
  then have ne: "a \<noteq> s" by auto
  then have "n \<le> unat (a - (s + 1))" using Suc.prems unat_minus_succ [of a s] by simp
  then show ?case using Suc ne by (auto simp: Let_def zero_fill_apply)
qed

lemma safestrcpy_loop_frame:
  "n < 2 ^ 64 - 1 \<Longrightarrow> n < unat (a - s) \<Longrightarrow> safestrcpy_loop m s t n a = m a"
proof (induction n arbitrary: m s t)
  case 0
  then show ?case by auto
next
  case (Suc n)
  then have ne: "a \<noteq> s" by auto
  then have "n < unat (a - (s + 1))" using Suc.prems unat_minus_succ [of a s] by simp
  moreover from this have "a \<noteq> s + 1" by auto
  ultimately show ?case using Suc ne by (auto simp: Let_def)
qed

text \<open>
  What \<^verbatim>\<open>safestrcpy\<close> leaves in the destination: the source up to its NUL or up to
  \<^verbatim>\<open>n - 1\<close> bytes, then a NUL.
\<close>

definition copied_cstring :: "memory \<Rightarrow> memory \<Rightarrow> addr \<Rightarrow> addr \<Rightarrow> nat \<Rightarrow> nat \<Rightarrow> bool" where
  "copied_cstring m' m s t n k \<longleftrightarrow>
     (\<forall>j<k. m' (s + of_nat j) = m (t + of_nat j) \<and> m (t + of_nat j) \<noteq> 0) \<and>
     m' (s + of_nat k) = 0 \<and> (k = n \<or> m (t + of_nat k) = 0)"

lemma safestrcpy_loop_copies:
  assumes "n < 2 ^ 63" "\<And>i j. i \<le> n \<Longrightarrow> j \<le> n \<Longrightarrow> s + of_nat i \<noteq> t + of_nat j"
  shows "\<exists>k\<le>n. copied_cstring (safestrcpy_loop m s t n) m s t n k"
  using assms
proof (induction n arbitrary: m s t)
  case 0
  then show ?case by (simp add: copied_cstring_def)
next
  case (Suc n)
  let ?m = "m(s := m t)"
  have shift: "?m (t + of_nat j) = m (t + of_nat j)" if "j \<le> Suc n" for j
    using Suc.prems(2) [of 0 j] that by auto
  show ?case
  proof (cases "m t = 0")
    case True
    have "safestrcpy_loop m s t (Suc n) s = 0" using True by (simp add: Let_def)
    then show ?thesis using True by (intro exI [of _ 0]) (simp add: copied_cstring_def)
  next
    case False
    have "s + 1 + of_nat i \<noteq> t + 1 + of_nat j" if "i \<le> n" "j \<le> n" for i j
      using Suc.prems(2) [of "Suc i" "Suc j"] that by (simp add: algebra_simps)
    then have "\<exists>k\<le>n. copied_cstring (safestrcpy_loop ?m (s + 1) (t + 1) n) ?m (s + 1) (t + 1) n k"
      using Suc.prems(1) by (intro Suc.IH) simp_all
    then obtain k where k: "k \<le> n" and c: "copied_cstring (safestrcpy_loop ?m (s + 1) (t + 1) n) ?m (s + 1) (t + 1) n k"
      by blast
    let ?r = "safestrcpy_loop m s t (Suc n)"
    have r: "?r = safestrcpy_loop ?m (s + 1) (t + 1) n" using False by (simp add: Let_def)
    have r0: "?r s = m t"
      using safestrcpy_loop_frame [of n s "s + 1" ?m "t + 1"] unat_minus_self_succ [of s] Suc.prems(1) r by simp
    have e: "x + of_nat (Suc i) = x + 1 + of_nat i" for x :: addr and i by simp
    have sh: "?m (t + 1 + of_nat i) = m (t + 1 + of_nat i)" if "i \<le> n" for i
      using shift [of "Suc i"] that unfolding e by simp
    have c1: "?r (s + 1 + of_nat i) = m (t + 1 + of_nat i) \<and> m (t + 1 + of_nat i) \<noteq> 0" if "i < k" for i
      using c that k sh [of i] unfolding copied_cstring_def r by auto
    have c2: "?r (s + 1 + of_nat k) = 0" and c3: "k = n \<or> m (t + 1 + of_nat k) = 0"
      using c k sh [of k] unfolding copied_cstring_def r by auto
    have "copied_cstring ?r m s t (Suc n) (Suc k)"
      unfolding copied_cstring_def e
    proof (intro conjI allI impI)
      fix j assume j: "j < Suc k"
      show "?r (s + of_nat j) = m (t + of_nat j)"
        using r0 c1 j by (cases j) (simp, simp only: e Suc_less_eq)
      show "m (t + of_nat j) \<noteq> 0"
        using False c1 j by (cases j) (simp, simp only: e Suc_less_eq, blast)
    qed (use c2 c3 in auto)
    then show ?thesis using k by (intro exI [of _ "Suc k"]) simp
  qed
qed

lemma strlen_loop_finds:
  assumes "m (s + of_nat k) = 0" "n \<le> k" "\<And>j. n \<le> j \<Longrightarrow> j < k \<Longrightarrow> m (s + of_nat j) \<noteq> 0"
  shows "strlen_loop m s n = Some k"
  using assms
proof (induction "k - n" arbitrary: n)
  case 0
  then show ?case by (simp add: strlen_loop.simps)
next
  case (Suc d)
  then have "strlen_loop m s (Suc n) = Some k" by (intro Suc.hyps(1)) auto
  moreover have "m (s + of_nat n) \<noteq> 0" using Suc by auto
  ultimately show ?case by (simp add: strlen_loop.simps [of m s n])
qed

section \<open>Properties\<close>

text \<open>C30: \<^verbatim>\<open>memmove\<close> moves the source bytes as they were before the call, also when the
  two ranges overlap in either direction, and writes nothing else. The hypotheses say that
  neither range runs past the end of the address space.
\<close>

theorem memmove_overlap_correct:
  assumes "unat dst + unat n \<le> 2 ^ 64" "unat src + unat n < 2 ^ 64"
  shows "(\<forall>i < unat n. memmove m dst src n (dst + of_nat i) = m (src + of_nat i)) \<and>
         (\<forall>a. unat n \<le> unat (a - dst) \<longrightarrow> memmove m dst src n a = m a)"
proof (intro conjI allI impI)
  fix i assume "i < unat n"
  moreover from this have "i < 2 ^ 64" using unat_bound [of n] by simp
  ultimately show "memmove m dst src n (dst + of_nat i) = m (src + of_nat i)"
    unfolding memmove_apply [OF assms] by (simp add: unat_of_nat_small)
qed (simp add: memmove_apply [OF assms])

theorem memmove_overlap_correct_witness:
  "memmove (\<lambda>a. ucast a) 0x1002 0x1000 4 0x1005 = (3 :: u8) \<and>
   memmove (\<lambda>a. ucast a) 0x1000 0x1002 4 0x1000 = (2 :: u8)"
proof -
  have a: "\<forall>i < unat (4 :: u32). memmove (\<lambda>a. ucast a) 0x1002 0x1000 4 (0x1002 + of_nat i) = (ucast (0x1000 + of_nat i :: addr) :: u8)"
    using memmove_overlap_correct [of "0x1002" "4" "0x1000" "\<lambda>a. ucast a"] by simp
  have b: "\<forall>i < unat (4 :: u32). memmove (\<lambda>a. ucast a) 0x1000 0x1002 4 (0x1000 + of_nat i) = (ucast (0x1002 + of_nat i :: addr) :: u8)"
    using memmove_overlap_correct [of "0x1000" "4" "0x1002" "\<lambda>a. ucast a"] by simp
  show ?thesis using a [rule_format, of 3] b [rule_format, of 0] by simp
qed

text \<open>\<^verbatim>\<open>safestrcpy\<close> with a positive size leaves a NUL-terminated prefix of the source
  in the destination and writes no byte beyond the size it was given.
\<close>

lemma safestrcpy_terminates_in_bounds:
  assumes "0 < n" "n < 2 ^ 63"
    and apart: "\<And>i j. i < nat n \<Longrightarrow> j < nat n \<Longrightarrow> s + of_nat i \<noteq> t + of_nat j"
  shows "(\<exists>k < nat n. copied_cstring (safestrcpy m s t n) m s t (nat n - 1) k) \<and>
         (\<forall>a. nat n \<le> unat (a - s) \<longrightarrow> safestrcpy m s t n a = m a)"
proof -
  have e: "safestrcpy m s t n = safestrcpy_loop m s t (nat n - 1)"
    using assms(1) by (simp add: safestrcpy_def nat_diff_distrib)
  have b: "nat n < 2 ^ 63" using assms(2) by simp
  have "\<exists>k\<le>nat n - 1. copied_cstring (safestrcpy_loop m s t (nat n - 1)) m s t (nat n - 1) k"
  proof (rule safestrcpy_loop_copies)
    show "nat n - 1 < 2 ^ 63" using b by simp
    show "\<And>i j. i \<le> nat n - 1 \<Longrightarrow> j \<le> nat n - 1 \<Longrightarrow> s + of_nat i \<noteq> t + of_nat j"
      using apart assms(1) by auto
  qed
  then obtain k where "k \<le> nat n - 1"
      and "copied_cstring (safestrcpy_loop m s t (nat n - 1)) m s t (nat n - 1) k" by blast
  moreover from this(1) have "k < nat n" using assms(1) by linarith
  moreover have "safestrcpy_loop m s t (nat n - 1) a = m a" if "nat n \<le> unat (a - s)" for a
    using that assms(1) b by (intro safestrcpy_loop_frame) auto
  ultimately show ?thesis unfolding e by blast
qed

end
