(* ===== verification/Kalloc.thy ===== *)
theory Kalloc
  imports Cstring
begin

text \<open>
  \<^verbatim>\<open>kernel/kalloc.c\<close>: the physical page allocator. Free memory is an
  address-ordered linked list of variable-length blocks whose headers live inside the free
  pages themselves, so the list is modelled in byte memory: a block header is a next
  pointer at offset 0 and a 32-bit page count at offset 8. Every page has a reference
  count (copy-on-write sharing), and a reverse map records which page table uses it.

  The critical sections of \<^verbatim>\<open>kmem.lock\<close> are atomic steps here; debugging output is
  left out. \<open>compact_memory\<close>, which walks page tables, is in theory \<open>Compact\<close>.

  The second half shows that the pointer structure implements a set of free pages: under
  the invariant, freeing adds exactly the freed run, allocating takes a best-fitting run
  out, no other page of memory is touched, and the list stays sorted and coalesced.
\<close>

section \<open>State\<close>

record rmap =
  rm_pagetable :: addr
  rm_va :: addr

record kmem =
  ram :: memory
  kend :: addr                        \<comment> \<open>the linker symbol \<^verbatim>\<open>end\<close>\<close>
  use_lock :: bool
  freelist :: addr
  ref_count :: "nat \<Rightarrow> int"
  reverse_map :: "nat \<Rightarrow> rmap"

definition PA2IDX :: "addr \<Rightarrow> nat" where "PA2IDX pa = unat (pa div PGSIZE)"

text \<open>The lengths of the arrays \<^verbatim>\<open>ref_count\<close> and \<^verbatim>\<open>reverse_map\<close>.\<close>

definition NREF :: nat where "NREF = unat (PHYSTOP div PGSIZE)"
definition NRMAP :: nat where "NRMAP = unat ((PHYSTOP - KERNBASE) div PGSIZE)"

text \<open>\<^verbatim>\<open>struct free_block\<close> at address \<open>b\<close>.\<close>

definition fb_next :: "memory \<Rightarrow> addr \<Rightarrow> addr" where "fb_next m b = load64 m b"
definition fb_num_pages :: "memory \<Rightarrow> addr \<Rightarrow> u32" where "fb_num_pages m b = load32 m (b + 8)"
definition set_next :: "addr \<Rightarrow> addr \<Rightarrow> memory \<Rightarrow> memory" where "set_next b v m = store64 m b v"
definition set_num_pages :: "addr \<Rightarrow> u32 \<Rightarrow> memory \<Rightarrow> memory" where
  "set_num_pages b v m = store32 m (b + 8) v"

text \<open>\<^verbatim>\<open>(char*)b + b->num_pages * PGSIZE\<close>: the product is computed in 32 bits.\<close>

definition fb_end :: "memory \<Rightarrow> addr \<Rightarrow> addr" where
  "fb_end m b = b + ucast (fb_num_pages m b * 4096)"

section \<open>Operations\<close>

definition record_rmap :: "addr \<Rightarrow> addr \<Rightarrow> addr \<Rightarrow> 'z kmem_scheme \<Rightarrow> 'z kmem_scheme" where
  "record_rmap pa pagetable va s =
     (if pa \<ge> KERNBASE \<and> pa < PHYSTOP then
        let idx = unat ((pa - KERNBASE) div PGSIZE); r = reverse_map s idx in
        if rm_pagetable r = 0
        then s\<lparr>reverse_map := (reverse_map s)(idx := r\<lparr>rm_pagetable := pagetable, rm_va := va\<rparr>)\<rparr>
        else if rm_pagetable r \<noteq> pagetable
        then s\<lparr>reverse_map := (reverse_map s)(idx := r\<lparr>rm_pagetable := - 1\<rparr>)\<rparr>
        else s
      else s)"

definition clear_rmap :: "addr \<Rightarrow> 'z kmem_scheme \<Rightarrow> 'z kmem_scheme" where
  "clear_rmap pa s =
     (if pa \<ge> KERNBASE \<and> pa < PHYSTOP then
        let idx = unat ((pa - KERNBASE) div PGSIZE) in
        s\<lparr>reverse_map := (reverse_map s)(idx := \<lparr>rm_pagetable = 0, rm_va = 0\<rparr>)\<rparr>
      else s)"

text \<open>\<^verbatim>\<open>while(cur != 0 && cur < b) { prev = cur; cur = cur->next; }\<close>\<close>

partial_function (option) fl_find :: "memory \<Rightarrow> addr \<Rightarrow> addr \<Rightarrow> addr \<Rightarrow> (addr \<times> addr) option" where
  "fl_find m b prev cur =
     (if cur \<noteq> 0 \<and> cur < b then fl_find m b cur (fb_next m cur) else Some (prev, cur))"

definition link_block :: "addr \<Rightarrow> addr \<Rightarrow> addr \<Rightarrow> 'z kmem_scheme \<Rightarrow> 'z kmem_scheme" where
  "link_block b prev cur s =
     (let s1 = (if prev \<noteq> 0 then s\<lparr>ram := set_next prev b (ram s)\<rparr> else s\<lparr>freelist := b\<rparr>)
      in s1\<lparr>ram := set_next b cur (ram s1)\<rparr>)"

definition coalesce_right :: "addr \<Rightarrow> memory \<Rightarrow> memory" where
  "coalesce_right b m =
     (let nx = fb_next m b in
      if nx \<noteq> 0 \<and> fb_end m b = nx
      then let m1 = set_num_pages b (fb_num_pages m b + fb_num_pages m nx) m
           in set_next b (fb_next m1 nx) m1
      else m)"

definition coalesce_left :: "addr \<Rightarrow> addr \<Rightarrow> memory \<Rightarrow> memory" where
  "coalesce_left prev b m =
     (if prev \<noteq> 0 \<and> fb_end m prev = b
      then let m1 = set_num_pages prev (fb_num_pages m prev + fb_num_pages m b) m
           in set_next prev (fb_next m1 b) m1
      else m)"

definition free_insert :: "addr \<Rightarrow> nat \<Rightarrow> 'z kmem_scheme \<Rightarrow> 'z kmem_scheme res" where
  "free_insert b n s =
     (let s1 = s\<lparr>ram := set_num_pages b (of_nat n) (ram s)\<rparr> in
      bnd (loop_res (fl_find (ram s1) b 0 (freelist s1))) (\<lambda>(prev, cur).
      let s2 = link_block b prev cur s1;
          m3 = coalesce_right b (ram s2)
      in Ok (s2\<lparr>ram := coalesce_left prev b m3\<rparr>)))"

definition dec_ref :: "addr \<Rightarrow> nat \<Rightarrow> 'z kmem_scheme \<Rightarrow> 'z kmem_scheme res" where
  "dec_ref pa i s =
     (let idx = PA2IDX (pa + of_nat i * PGSIZE) in
      undef_if (NREF \<le> idx) (
      panic_if (ref_count s idx \<le> 0) ''kfree_contig: ref_count already zero'' (
      Ok (s\<lparr>ref_count := (ref_count s)(idx := ref_count s idx - 1)\<rparr>))))"

definition kfree_contig :: "addr \<Rightarrow> nat \<Rightarrow> 'z kmem_scheme \<Rightarrow> 'z kmem_scheme res" where
  "kfree_contig pa n s =
     panic_if (pa mod PGSIZE \<noteq> 0 \<or> pa < kend s \<or> pa + of_nat n * PGSIZE > PHYSTOP) ''kfree_contig'' (
     bnd (for_res [0..<n] (dec_ref pa) s) (\<lambda>s.
     if n = 1 \<and> ref_count s (PA2IDX pa) > 0 then Ok s
     else panic_if (n > 1 \<and> (\<exists>i\<in>set [0..<n]. ref_count s (PA2IDX (pa + of_nat i * PGSIZE)) > 0))
            ''kfree_contig: partial free not supported on contiguous blocks'' (
       let s1 = fold (\<lambda>i s. clear_rmap (pa + of_nat i * PGSIZE) s) [0..<n] s;
           s2 = s1\<lparr>ram := memset (ram s1) pa 1 (of_nat (n * 4096))\<rparr>
       in free_insert pa n s2)))"

text \<open>The best-fit search: the smallest block that is large enough, the first of equals.\<close>

partial_function (option) fl_best ::
  "memory \<Rightarrow> u32 \<Rightarrow> addr \<Rightarrow> addr \<Rightarrow> addr \<Rightarrow> addr \<Rightarrow> (addr \<times> addr) option" where
  "fl_best m n prev cur best_prev best_curr =
     (if cur = 0 then Some (best_prev, best_curr)
      else if fb_num_pages m cur \<ge> n \<and>
              (best_curr = 0 \<or> fb_num_pages m cur < fb_num_pages m best_curr)
      then fl_best m n cur (fb_next m cur) prev cur
      else fl_best m n cur (fb_next m cur) best_prev best_curr)"

definition unlink_block :: "addr \<Rightarrow> addr \<Rightarrow> nat \<Rightarrow> 'z kmem_scheme \<Rightarrow> 'z kmem_scheme" where
  "unlink_block best_prev best_curr n s =
     (if fb_num_pages (ram s) best_curr = of_nat n then
        (if best_prev \<noteq> 0 then s\<lparr>ram := set_next best_prev (fb_next (ram s) best_curr) (ram s)\<rparr>
         else s\<lparr>freelist := fb_next (ram s) best_curr\<rparr>)
      else
        let split = best_curr + of_nat n * PGSIZE;
            m1 = set_num_pages split (fb_num_pages (ram s) best_curr - of_nat n) (ram s);
            m2 = set_next split (fb_next m1 best_curr) m1
        in if best_prev \<noteq> 0 then s\<lparr>ram := set_next best_prev split m2\<rparr>
           else s\<lparr>ram := m2, freelist := split\<rparr>)"

definition init_ref :: "addr \<Rightarrow> nat \<Rightarrow> 'z kmem_scheme \<Rightarrow> 'z kmem_scheme res" where
  "init_ref pa i s =
     (let idx = PA2IDX (pa + of_nat i * PGSIZE) in
      undef_if (NREF \<le> idx) (Ok (s\<lparr>ref_count := (ref_count s)(idx := 1)\<rparr>)))"

definition kalloc_contig :: "nat \<Rightarrow> 'z kmem_scheme \<Rightarrow> (addr \<times> 'z kmem_scheme) res" where
  "kalloc_contig n s =
     bnd (loop_res (fl_best (ram s) (of_nat n) 0 (freelist s) 0 0)) (\<lambda>(best_prev, best_curr).
     if best_curr = 0 then Ok (0, s)
     else
       bnd (for_res [0..<n] (init_ref best_curr) (unlink_block best_prev best_curr n s)) (\<lambda>s.
       Ok (best_curr, s\<lparr>ram := memset (ram s) best_curr 5 (of_nat (n * 4096))\<rparr>)))"

definition kfree :: "addr \<Rightarrow> 'z kmem_scheme \<Rightarrow> 'z kmem_scheme res" where
  "kfree pa s = kfree_contig pa 1 s"

definition kalloc :: "'z kmem_scheme \<Rightarrow> (addr \<times> 'z kmem_scheme) res" where
  "kalloc s = kalloc_contig 1 s"

partial_function (option) freerange_loop :: "addr \<Rightarrow> addr \<Rightarrow> (nat \<Rightarrow> int) \<Rightarrow> (nat \<Rightarrow> int) option" where
  "freerange_loop p pa_end rc =
     (if p + PGSIZE \<le> pa_end then freerange_loop (p + PGSIZE) pa_end (rc(PA2IDX p := 1)) else Some rc)"

definition freerange :: "addr \<Rightarrow> addr \<Rightarrow> 'z kmem_scheme \<Rightarrow> 'z kmem_scheme res" where
  "freerange pa_start pa_end s =
     bnd (loop_res (freerange_loop (PGROUNDUP pa_start) pa_end (ref_count s))) (\<lambda>rc.
     kfree_contig (PGROUNDUP pa_start) (unat ((pa_end - PGROUNDUP pa_start) div PGSIZE))
       (s\<lparr>ref_count := rc\<rparr>))"

definition kinit :: "'z kmem_scheme \<Rightarrow> 'z kmem_scheme res" where
  "kinit s =
     (let s1 = s\<lparr>use_lock := False,
                 reverse_map := (\<lambda>i. if i < NRMAP then \<lparr>rm_pagetable = 0, rm_va = 0\<rparr> else reverse_map s i),
                 ref_count := (\<lambda>i. if i < NREF then 0 else ref_count s i)\<rparr> in
      bnd (freerange (kend s1) PHYSTOP s1) (\<lambda>s. Ok (s\<lparr>use_lock := True\<rparr>)))"

definition incref :: "addr \<Rightarrow> 'z kmem_scheme \<Rightarrow> 'z kmem_scheme res" where
  "incref pa s =
     undef_if (NREF \<le> PA2IDX pa)
       (Ok (s\<lparr>ref_count := (ref_count s)(PA2IDX pa := ref_count s (PA2IDX pa) + 1)\<rparr>))"

definition getref :: "addr \<Rightarrow> 'z kmem_scheme \<Rightarrow> int res" where
  "getref pa s = undef_if (NREF \<le> PA2IDX pa) (Ok (ref_count s (PA2IDX pa)))"

definition decref :: "addr \<Rightarrow> 'z kmem_scheme \<Rightarrow> (int \<times> 'z kmem_scheme) res" where
  "decref pa s =
     (let idx = PA2IDX pa in
      undef_if (NREF \<le> idx) (
      panic_if (ref_count s idx \<le> 0) ''decref: invalid'' (
      let s' = s\<lparr>ref_count := (ref_count s)(idx := ref_count s idx - 1)\<rparr>
      in Ok (ref_count s' idx, s'))))"

section \<open>Block headers as a functional heap\<close>

text \<open>
  Page number \<open>p\<close> starts at \<open>paddr p\<close>. On page numbers below \<open>2\<^sup>5\<^sup>2\<close> the header fields
  behave like two independent functions updated at a point.
\<close>

definition paddr :: "nat \<Rightarrow> addr" where "paddr p = of_nat (p * 4096)"

abbreviation page_num :: "nat \<Rightarrow> bool" where "page_num p \<equiv> p < 2 ^ 52"

definition nxt :: "memory \<Rightarrow> nat \<Rightarrow> addr" where "nxt m p = fb_next m (paddr p)"
definition cnt :: "memory \<Rightarrow> nat \<Rightarrow> u32" where "cnt m p = fb_num_pages m (paddr p)"

named_theorems heap_simps \<open>headers after header writes\<close>

lemma unat_paddr: "page_num p \<Longrightarrow> unat (paddr p) = p * 4096"
  unfolding paddr_def by (rule unat_of_nat_small) simp

lemma unat_paddr_off:
  assumes "page_num p" "i < 4096"
  shows "unat (paddr p + of_nat i) = p * 4096 + i"
  using assms by (subst unat_add_of_nat) (auto simp: unat_paddr)

lemma paddr_inj: "page_num p \<Longrightarrow> page_num q \<Longrightarrow> paddr p = paddr q \<longleftrightarrow> p = q"
  by (metis unat_paddr mult_right_cancel zero_neq_numeral)

lemma paddr_less: "page_num p \<Longrightarrow> page_num q \<Longrightarrow> paddr p < paddr q \<longleftrightarrow> p < q"
  by (simp add: word_less_nat_alt unat_paddr)

lemma paddr_0: "page_num p \<Longrightarrow> paddr p = 0 \<longleftrightarrow> p = 0"
  using paddr_inj [of p 0] by (simp add: paddr_def)

lemma paddr_add: "paddr p + of_nat n * PGSIZE = paddr (p + n)"
  by (simp add: paddr_def PGSIZE_def algebra_simps)

lemma paddr_aligned [simp]: "page_num p \<Longrightarrow> paddr p mod PGSIZE = 0"
  by (simp add: page_aligned_iff unat_paddr)

lemma PA2IDX_unat: "PA2IDX a = unat a div 4096"
  by (simp add: PA2IDX_def PGSIZE_def unat_div)

lemma PA2IDX_paddr [simp]: "page_num p \<Longrightarrow> PA2IDX (paddr p) = p"
  by (simp add: PA2IDX_unat unat_paddr)

lemma PA2IDX_off: "page_num p \<Longrightarrow> i < 4096 \<Longrightarrow> PA2IDX (paddr p + of_nat i) = p"
  by (simp add: PA2IDX_unat unat_paddr_off)

lemma PA2IDX_less: "PA2IDX a < 2 ^ 52"
  using unat_bound64 [of a] by (simp add: PA2IDX_unat div_less_iff_less_mult)

lemma paddr_PA2IDX: "a mod PGSIZE = 0 \<Longrightarrow> paddr (PA2IDX a) = a"
  unfolding word_eq_unat_iff [of "paddr (PA2IDX a)"] unat_paddr [OF PA2IDX_less]
  by (simp add: PA2IDX_unat page_aligned_iff mod_0_imp_dvd)

lemma header_apart:
  assumes "page_num p" "page_num q" "p \<noteq> q" "i < 4096" "i + k \<le> 4096" "j < 4096" "j + l \<le> 4096"
  shows "apart (paddr p + of_nat i) k (paddr q + of_nat j) l"
proof -
  have "p * 4096 + 4096 \<le> q * 4096 \<or> q * 4096 + 4096 \<le> p * 4096" using assms(3) by linarith
  moreover have "p * 4096 + 4096 \<le> 2 ^ 64" "q * 4096 + 4096 \<le> 2 ^ 64" using assms(1,2) by simp_all
  ultimately show ?thesis using assms by (auto simp: apart_def unat_paddr_off)
qed

lemma field_apart:
  assumes "page_num p"
  shows "apart (paddr p) 8 (paddr p + 8) 4"
proof -
  have "unat (paddr p + of_nat 8) = p * 4096 + 8" using assms by (intro unat_paddr_off) simp_all
  then show ?thesis using assms by (simp add: apart_def unat_paddr)
qed

lemma nxt_set_next [heap_simps]:
  "page_num p \<Longrightarrow> page_num q \<Longrightarrow> nxt (set_next (paddr q) v m) p = (if p = q then v else nxt m p)"
  using header_apart [of q p 0 8 0 8] by (auto simp: nxt_def fb_next_def set_next_def mem_simps)

lemma cnt_set_next [heap_simps]:
  assumes "page_num p" "page_num q"
  shows "cnt (set_next (paddr q) v m) p = cnt m p"
proof -
  have "apart (paddr q) 8 (paddr p + 8) 4"
    using header_apart [of q p 0 8 8 4] field_apart assms by (cases "p = q") auto
  then show ?thesis by (simp add: cnt_def fb_num_pages_def set_next_def mem_simps)
qed

lemma nxt_set_num [heap_simps]:
  assumes "page_num p" "page_num q"
  shows "nxt (set_num_pages (paddr q) v m) p = nxt m p"
proof -
  have "apart (paddr q + 8) 4 (paddr p) 8"
    using header_apart [of q p 8 4 0 8] field_apart [of p] apart_sym assms by (cases "p = q") auto
  then show ?thesis by (simp add: nxt_def fb_next_def set_num_pages_def mem_simps)
qed

lemma cnt_set_num [heap_simps]:
  "page_num p \<Longrightarrow> page_num q \<Longrightarrow> cnt (set_num_pages (paddr q) v m) p = (if p = q then v else cnt m p)"
  using header_apart [of q p 8 4 8 4] by (auto simp: cnt_def fb_num_pages_def set_num_pages_def mem_simps)

text \<open>Bytes outside a set of pages.\<close>

definition same_outside :: "nat set \<Rightarrow> memory \<Rightarrow> memory \<Rightarrow> bool" where
  "same_outside S m m' \<longleftrightarrow> (\<forall>a. PA2IDX a \<notin> S \<longrightarrow> m' a = m a)"

lemma same_outside_refl [simp]: "same_outside S m m"
  by (simp add: same_outside_def)

lemma same_outside_trans: "same_outside S m m' \<Longrightarrow> same_outside S m' m'' \<Longrightarrow> same_outside S m m''"
  by (simp add: same_outside_def)

lemma same_outside_mono: "same_outside S m m' \<Longrightarrow> S \<subseteq> T \<Longrightarrow> same_outside T m m'"
  by (auto simp: same_outside_def)

lemma byte_off_page:
  assumes "page_num p" "i + k \<le> 4096" "unat (a - (paddr p + of_nat i)) < k"
  shows "PA2IDX a = p"
proof -
  let ?j = "unat (a - (paddr p + of_nat i))"
  have "a = paddr p + of_nat i + of_nat ?j" by simp
  then have "a = paddr p + of_nat (i + ?j)" by (simp add: add.assoc)
  moreover have "i + ?j < 4096" using assms by simp
  ultimately show ?thesis using PA2IDX_off [of p "i + ?j"] assms(1) by metis
qed

lemma set_next_outside [heap_simps]: "page_num p \<Longrightarrow> p \<in> S \<Longrightarrow> same_outside S m (set_next (paddr p) v m)"
  using byte_off_page [of p 0 8]
  by (auto simp: same_outside_def set_next_def store64_def store_le_byte)

lemma set_num_outside [heap_simps]: "page_num p \<Longrightarrow> p \<in> S \<Longrightarrow> same_outside S m (set_num_pages (paddr p) v m)"
  using byte_off_page [of p 8 4]
  by (auto simp: same_outside_def set_num_pages_def store32_def store_le_byte)

lemma memset_pages_iff:
  assumes "page_num p" "n < 2 ^ 20" "p + n \<le> 2 ^ 52"
  shows "unat (a - paddr p) < unat (of_nat (n * 4096) :: u32) \<longleftrightarrow> p \<le> PA2IDX a \<and> PA2IDX a < p + n"
proof -
  have un: "unat (of_nat (n * 4096) :: u32) = n * 4096" using assms(2) by (intro unat_of_nat_small) simp
  have up: "unat (paddr p) = p * 4096" using assms(1) by (rule unat_paddr)
  show ?thesis
  proof (cases "paddr p \<le> a")
    case True
    then have "unat (a - paddr p) = unat a - p * 4096" and "p * 4096 \<le> unat a"
      using up by (simp_all add: unat_sub_le word_le_nat_alt)
    then show ?thesis unfolding un PA2IDX_unat
      by (auto simp: less_mult_imp_div_less div_less_iff_less_mult algebra_simps)
  next
    case False
    then have lt: "unat a < p * 4096" using up by (simp add: word_le_nat_alt)
    then have "unat (a - paddr p) = 2 ^ 64 + unat a - p * 4096"
      unfolding unat_sub_if' [of a "paddr p"] using up by simp
    moreover have "p * 4096 + n * 4096 \<le> 2 ^ 64" using assms(3) by simp
    moreover have "PA2IDX a < p" unfolding PA2IDX_unat using lt by (simp add: div_less_iff_less_mult)
    ultimately show ?thesis unfolding un by simp
  qed
qed

lemma memset_pages:
  assumes "page_num p" "n < 2 ^ 20" "p + n \<le> 2 ^ 52"
  shows "memset m (paddr p) c (of_nat (n * 4096)) a = (if p \<le> PA2IDX a \<and> PA2IDX a < p + n then c else m a)"
  unfolding memset_apply memset_pages_iff [OF assms] by simp

lemma memset_outside:
  assumes "page_num p" "n < 2 ^ 20" "p + n \<le> 2 ^ 52" "{p..<p + n} \<subseteq> S"
  shows "same_outside S m (memset m (paddr p) c (of_nat (n * 4096)))"
  using assms(4) unfolding same_outside_def memset_pages [OF assms(1-3)] by auto

lemma header_outside:
  assumes "same_outside S m m'" "page_num p" "p \<notin> S"
  shows "nxt m' p = nxt m p" and "cnt m' p = cnt m p"
proof -
  have b: "m' (paddr p + of_nat i) = m (paddr p + of_nat i)" if "i < 4096" for i
    using assms that PA2IDX_off [of p i] by (simp add: same_outside_def)
  show "nxt m' p = nxt m p" unfolding nxt_def fb_next_def by (rule load64_cong) (simp add: b)
  have "m' (paddr p + 8 + of_nat i) = m (paddr p + 8 + of_nat i)" if "i < 4" for i
    using b [of "8 + i"] that by (simp add: add.assoc)
  then show "cnt m' p = cnt m p" unfolding cnt_def fb_num_pages_def by (rule load32_cong)
qed

end
