(* ===== verification/Kalloc_Spec.thy ===== *)
theory Kalloc_Spec
  imports Kalloc
begin

text \<open>
  Correctness of the page allocator. The pointer list is abstracted to a list of runs
  \<open>(p, n)\<close> of page numbers, and that to a set of free pages. The invariant \<open>kmem_inv\<close>
  says the list is linked, sorted, coalesced, inside the managed range, and that free pages
  have no references.
\<close>

section \<open>The linked list and its abstraction\<close>

fun fl_seg :: "memory \<Rightarrow> addr \<Rightarrow> (nat \<times> nat) list \<Rightarrow> addr \<Rightarrow> bool" where
  "fl_seg m a [] e \<longleftrightarrow> a = e"
| "fl_seg m a ((p, n) # bs) e \<longleftrightarrow> a = paddr p \<and> cnt m p = of_nat n \<and> fl_seg m (nxt m p) bs e"

fun blocks_ok :: "nat \<Rightarrow> nat \<Rightarrow> (nat \<times> nat) list \<Rightarrow> bool" where
  "blocks_ok lo hi [] \<longleftrightarrow> True"
| "blocks_ok lo hi ((p, n) # bs) \<longleftrightarrow> lo \<le> p \<and> 0 < n \<and> p + n \<le> hi \<and> blocks_ok (p + n + 1) hi bs"

definition free_pages :: "(nat \<times> nat) list \<Rightarrow> nat set" where
  "free_pages bs = (\<Union>(p, n)\<in>set bs. {p..<p + n})"

lemma free_pages_simps [simp]:
  "free_pages [] = {}"
  "free_pages ((p, n) # bs) = {p..<p + n} \<union> free_pages bs"
  "free_pages (xs @ ys) = free_pages xs \<union> free_pages ys"
  by (auto simp: free_pages_def)

lemma fl_seg_append: "fl_seg m a (xs @ ys) e \<longleftrightarrow> (\<exists>c. fl_seg m a xs c \<and> fl_seg m c ys e)"
  by (induction m a xs e rule: fl_seg.induct) auto

lemma fl_seg_cong:
  "(\<And>p n. (p, n) \<in> set bs \<Longrightarrow> nxt m' p = nxt m p \<and> cnt m' p = cnt m p) \<Longrightarrow> fl_seg m' a bs e = fl_seg m a bs e"
proof (induction bs arbitrary: a)
  case Nil
  then show ?case by simp
next
  case (Cons b bs)
  obtain p n where b: "b = (p, n)" by (cases b)
  have "nxt m' p = nxt m p \<and> cnt m' p = cnt m p" using Cons.prems [of p n] b by simp
  moreover have "fl_seg m' c bs e = fl_seg m c bs e" for c using Cons by (meson list.set_intros(2))
  ultimately show ?case using b by simp
qed

lemma fl_seg_frame:
  "fl_seg m a bs e \<Longrightarrow> (\<And>p n. (p, n) \<in> set bs \<Longrightarrow> nxt m' p = nxt m p \<and> cnt m' p = cnt m p) \<Longrightarrow> fl_seg m' a bs e"
  using fl_seg_cong [of bs m' m a e] by blast

lemma blocks_ok_mono: "blocks_ok lo hi bs \<Longrightarrow> lo' \<le> lo \<Longrightarrow> blocks_ok lo' hi bs"
  by (cases bs) auto

lemma blocks_ok_append:
  "blocks_ok lo hi (xs @ ys) \<longleftrightarrow>
     blocks_ok lo hi xs \<and> blocks_ok (if xs = [] then lo else fst (last xs) + snd (last xs) + 1) hi ys"
  by (induction lo hi xs rule: blocks_ok.induct) auto

lemma blocks_ok_mem:
  "blocks_ok lo hi bs \<Longrightarrow> (p, n) \<in> set bs \<Longrightarrow> lo \<le> p \<and> 0 < n \<and> p + n \<le> hi"
  by (induction lo hi bs rule: blocks_ok.induct) (auto dest: Suc_leD)

lemma free_pages_range: "blocks_ok lo hi bs \<Longrightarrow> free_pages bs \<subseteq> {lo..<hi}"
  unfolding free_pages_def using blocks_ok_mem by fastforce

lemma mem_free_pages: "(p, n) \<in> set bs \<Longrightarrow> 0 < n \<Longrightarrow> p \<in> free_pages bs"
  by (force simp: free_pages_def)

text \<open>The heads of the blocks are strictly increasing, so no header is shared.\<close>

lemma blocks_ok_heads:
  "blocks_ok lo hi (xs @ (p, n) # ys) \<Longrightarrow>
     (\<forall>(q, k)\<in>set xs. q + k < p) \<and> (\<forall>(q, k)\<in>set ys. p + n < q)"
proof (induction lo hi xs rule: blocks_ok.induct)
  case (1 lo hi)
  then show ?case by (auto dest!: blocks_ok_mem)
next
  case (2 lo hi q k xs)
  then have ok: "blocks_ok (q + k + 1) hi (xs @ (p, n) # ys)" by simp
  then have "q + k + 1 \<le> p" using blocks_ok_mem [of _ hi _ p n] by fastforce
  then show ?case using 2 by auto
qed

subsection \<open>Finding the place of a freed block\<close>

lemma fl_find_walks:
  assumes "fl_seg m cur (xs @ ys) 0" "blocks_ok lo hi (xs @ ys)" "hi \<le> 2 ^ 52" "0 < lo" "page_num p"
    and "\<forall>(q, k)\<in>set xs. q < p" and "ys = [] \<or> p \<le> fst (hd ys)"
  shows "fl_find m (paddr p) prev cur =
    Some (if xs = [] then prev else paddr (fst (last xs)), if ys = [] then 0 else paddr (fst (hd ys)))"
  using assms
proof (induction xs arbitrary: cur prev lo)
  case Nil
  show ?case
  proof (cases ys)
    case Nil
    then show ?thesis using Nil.prems by (simp add: fl_find.simps)
  next
    case (Cons y zs)
    then obtain q k where y: "ys = (q, k) # zs" by (cases y) auto
    then have "\<not> paddr q < paddr p" using Nil.prems by (auto simp: paddr_less)
    then show ?thesis using Nil.prems y by (simp add: fl_find.simps)
  qed
next
  case (Cons x xs)
  obtain q k where x: "x = (q, k)" by (cases x)
  have q: "page_num q" "0 < q" "q < p" using Cons.prems x by auto
  have cur: "cur = paddr q" and rest: "fl_seg m (nxt m q) (xs @ ys) 0" using Cons.prems(1) x by auto
  have "cur \<noteq> 0" "cur < paddr p" using q Cons.prems(5) by (simp_all add: cur paddr_0 paddr_less)
  then have step: "fl_find m (paddr p) prev cur = fl_find m (paddr p) cur (nxt m q)"
    by (subst fl_find.simps) (simp add: cur nxt_def)
  have ok: "blocks_ok (q + k + 1) hi (xs @ ys)" using Cons.prems(2) x by simp
  have "fl_find m (paddr p) cur (nxt m q) =
    Some (if xs = [] then cur else paddr (fst (last xs)), if ys = [] then 0 else paddr (fst (hd ys)))"
    using Cons.prems(6,7) by (intro Cons.IH [OF rest ok Cons.prems(3) _ Cons.prems(5)]) auto
  then show ?case using step x cur by simp
qed

subsection \<open>Insertion with coalescing\<close>

definition join_right :: "nat \<Rightarrow> nat \<Rightarrow> (nat \<times> nat) list \<Rightarrow> (nat \<times> nat) list" where
  "join_right p n ys =
     (case ys of [] \<Rightarrow> [(p, n)]
      | (q, k) # zs \<Rightarrow> if p + n = q then (p, n + k) # zs else (p, n) # ys)"

definition join_left :: "(nat \<times> nat) list \<Rightarrow> (nat \<times> nat) list \<Rightarrow> (nat \<times> nat) list" where
  "join_left xs ys =
     (if xs \<noteq> [] \<and> fst (last xs) + snd (last xs) = fst (hd ys)
      then butlast xs @ (fst (last xs), snd (last xs) + snd (hd ys)) # tl ys
      else xs @ ys)"

definition ins_blk :: "nat \<Rightarrow> nat \<Rightarrow> (nat \<times> nat) list \<Rightarrow> (nat \<times> nat) list" where
  "ins_blk p n bs =
     join_left (takeWhile (\<lambda>b. fst b < p) bs) (join_right p n (dropWhile (\<lambda>b. fst b < p) bs))"

lemma join_right_hd: "\<exists>k zs. join_right p n ys = (p, n + k) # zs"
  by (cases ys) (auto simp: join_right_def intro: exI [of _ 0])

lemma fb_end_paddr:
  assumes "page_num p" "cnt m p = of_nat n" "n < 2 ^ 20"
  shows "fb_end m (paddr p) = paddr (p + n)"
proof -
  have "unat (of_nat (n * 4096) :: u32) = n * 4096" using assms(3) by (intro unat_of_nat_small) simp
  then have "ucast (of_nat (n * 4096) :: u32) = (of_nat (n * 4096) :: addr)"
    by (metis of_nat_unat)
  then show ?thesis using assms(2) paddr_add [of p n]
    by (simp add: fb_end_def cnt_def PGSIZE_def)
qed

lemma header_write_outside:
  "page_num p \<Longrightarrow> p \<in> S \<Longrightarrow> same_outside S m (set_next (paddr p) v (set_num_pages (paddr p) w m))"
  by (rule same_outside_trans [OF set_num_outside set_next_outside])

lemma coalesce_right_seg:
  assumes seg: "fl_seg m c ys 0" and p: "page_num p" "nxt m p = c" "cnt m p = of_nat n" "n < 2 ^ 20"
    and heads: "\<forall>(q, k)\<in>set ys. p + n \<le> q \<and> page_num q" and "0 < n"
  shows "fl_seg (coalesce_right (paddr p) m) (paddr p) (join_right p n ys) 0"
    and "\<And>q. page_num q \<Longrightarrow> q \<noteq> p \<Longrightarrow> nxt (coalesce_right (paddr p) m) q = nxt m q \<and> cnt (coalesce_right (paddr p) m) q = cnt m q"
    and "same_outside {p} m (coalesce_right (paddr p) m)"
proof -
  let ?m = "coalesce_right (paddr p) m"
  have e: "fb_end m (paddr p) = paddr (p + n)" using p by (intro fb_end_paddr)
  show out: "same_outside {p} m ?m"
    using p(1) by (simp add: coalesce_right_def Let_def header_write_outside)
  show other: "nxt ?m q = nxt m q \<and> cnt ?m q = cnt m q" if "page_num q" "q \<noteq> p" for q
    using header_outside [OF out] that by simp
  have nf: "fb_next m (paddr p) = c" using p(2) by (simp add: nxt_def)
  show "fl_seg ?m (paddr p) (join_right p n ys) 0"
  proof (cases ys)
    case Nil
    then have "?m = m" using seg nf by (simp add: coalesce_right_def)
    then show ?thesis using Nil seg p by (simp add: join_right_def)
  next
    case (Cons y zs)
    obtain q k where y: "ys = (q, k) # zs" using Cons by (cases y) auto
    have q: "page_num q" "p + n \<le> q" "c = paddr q" using heads seg y by auto
    have c0: "c \<noteq> 0" using q \<open>0 < n\<close> by (simp add: paddr_0)
    show ?thesis
    proof (cases "p + n = q")
      case False
      then have "fb_end m (paddr p) \<noteq> c" using e q by (auto simp: paddr_inj)
      then have "?m = m" using nf by (simp add: coalesce_right_def)
      then show ?thesis using y False seg p by (simp add: join_right_def)
    next
      case True
      let ?m1 = "set_num_pages (paddr p) (cnt m p + cnt m q) m"
      have m': "?m = set_next (paddr p) (nxt ?m1 q) ?m1"
        using True c0 nf e q by (simp add: coalesce_right_def Let_def nxt_def cnt_def)
      have "q \<noteq> p" using True \<open>0 < n\<close> by simp
      then have "nxt ?m p = nxt m q" "cnt ?m p = of_nat (n + k)"
        using seg y p q unfolding m' by (simp_all add: heap_simps)
      moreover have "fl_seg ?m (nxt m q) zs 0"
      proof -
        have "nxt ?m r = nxt m r \<and> cnt ?m r = cnt m r" if "(r, l) \<in> set zs" for r l
          using other [of r] heads that y \<open>0 < n\<close> by fastforce
        then show ?thesis using seg y fl_seg_cong [of zs ?m m] by auto
      qed
      ultimately show ?thesis using y True by (simp add: join_right_def)
    qed
  qed
qed

lemma coalesce_left_seg:
  assumes seg1: "fl_seg m a (xs @ [(q, k)]) (paddr p)" and seg2: "fl_seg m (paddr p) ((p, n) # zs) 0"
    and pg: "page_num p" "page_num q" "0 < q" "k < 2 ^ 20" "0 < k"
    and heads: "\<forall>(r, l)\<in>set xs. page_num r \<and> r < q" "\<forall>(r, l)\<in>set zs. page_num r \<and> p < r"
    and "q + k \<le> p"
  shows "fl_seg (coalesce_left (paddr q) (paddr p) m) a (join_left (xs @ [(q, k)]) ((p, n) # zs)) 0"
    and "same_outside {q} m (coalesce_left (paddr q) (paddr p) m)"
proof -
  let ?m = "coalesce_left (paddr q) (paddr p) m"
  have s1: "fl_seg m a xs (paddr q)" "cnt m q = of_nat k" "nxt m q = paddr p"
    using seg1 by (auto simp: fl_seg_append)
  have e: "fb_end m (paddr q) = paddr (q + k)" using pg s1 by (intro fb_end_paddr) auto
  have q0: "paddr q \<noteq> 0" using pg by (simp add: paddr_0)
  have pk: "page_num (q + k)" using \<open>q + k \<le> p\<close> pg(1) by simp
  show out: "same_outside {q} m ?m"
    using pg(2) by (simp add: coalesce_left_def Let_def header_write_outside)
  show "fl_seg ?m a (join_left (xs @ [(q, k)]) ((p, n) # zs)) 0"
  proof (cases "q + k = p")
    case False
    then have "fb_end m (paddr q) \<noteq> paddr p" using e pk pg(1) by (simp add: paddr_inj)
    then have "?m = m" by (simp add: coalesce_left_def)
    moreover have "fl_seg m a ((xs @ [(q, k)]) @ (p, n) # zs) 0"
      using seg1 seg2 unfolding fl_seg_append [of m a "xs @ [(q, k)]"] by blast
    ultimately show ?thesis using False by (simp add: join_left_def)
  next
    case True
    let ?m1 = "set_num_pages (paddr q) (cnt m q + cnt m p) m"
    have m': "?m = set_next (paddr q) (nxt ?m1 p) ?m1"
      using True q0 e by (simp add: coalesce_left_def Let_def nxt_def cnt_def)
    have "p \<noteq> q" using True pg(5) by simp
    then have f: "nxt ?m q = nxt m p" "cnt ?m q = of_nat (k + n)"
      using s1 seg2 pg unfolding m' by (simp_all add: heap_simps)
    have fr: "nxt ?m r = nxt m r \<and> cnt ?m r = cnt m r" if "(r, l) \<in> set xs \<or> (r, l) \<in> set zs" for r l
      using header_outside [OF out, of r] heads that \<open>q + k \<le> p\<close> by fastforce
    have "fl_seg ?m a xs (paddr q)" using s1(1) by (rule fl_seg_frame) (use fr in blast)
    moreover have "fl_seg m (nxt m p) zs 0" using seg2 by simp
    then have "fl_seg ?m (nxt m p) zs 0" by (rule fl_seg_frame) (use fr in blast)
    ultimately show ?thesis using f True by (simp add: join_left_def fl_seg_append)
  qed
qed

text \<open>Linking a block in front of the list, and after a block \<open>(q, k)\<close>.\<close>

lemma insert_head_seg:
  assumes seg: "fl_seg m c ys 0" and p: "page_num p" "cnt m p = of_nat n" "n < 2 ^ 20" "0 < n"
    and heads: "\<forall>(r, l)\<in>set ys. p + n \<le> r \<and> page_num r"
  shows "fl_seg (coalesce_right (paddr p) (set_next (paddr p) c m)) (paddr p) (join_right p n ys) 0"
    and "same_outside {p} m (coalesce_right (paddr p) (set_next (paddr p) c m))"
proof -
  let ?m = "set_next (paddr p) c m"
  have segy: "fl_seg ?m c ys 0"
    using seg by (rule fl_seg_frame) (use heads p in \<open>force simp: heap_simps\<close>)
  have "nxt ?m p = c" "cnt ?m p = of_nat n" using p by (simp_all add: heap_simps)
  note cr = coalesce_right_seg [OF segy p(1) this p(3) heads p(4)]
  show "fl_seg (coalesce_right (paddr p) ?m) (paddr p) (join_right p n ys) 0" by (rule cr(1))
  show "same_outside {p} m (coalesce_right (paddr p) ?m)"
    using p(1) by (intro same_outside_trans [OF set_next_outside cr(3)]) simp_all
qed

lemma insert_after_seg:
  assumes segx: "fl_seg m a (xs @ [(q, k)]) c" and segy: "fl_seg m c ys 0"
    and p: "page_num p" "cnt m p = of_nat n" "n < 2 ^ 20" "0 < n"
    and q: "page_num q" "0 < q" "k < 2 ^ 20" "0 < k" "q + k \<le> p"
    and hx: "\<forall>(r, l)\<in>set xs. page_num r \<and> r < q" and hy: "\<forall>(r, l)\<in>set ys. p + n \<le> r \<and> page_num r"
  defines "m' \<equiv> coalesce_left (paddr q) (paddr p)
                (coalesce_right (paddr p) (set_next (paddr p) c (set_next (paddr q) (paddr p) m)))"
  shows "fl_seg m' a (join_left (xs @ [(q, k)]) (join_right p n ys)) 0" and "same_outside {p, q} m m'"
proof -
  let ?m1 = "set_next (paddr q) (paddr p) m"
  let ?m2 = "coalesce_right (paddr p) (set_next (paddr p) c ?m1)"
  have pq: "p \<noteq> q" using q by simp
  have "fl_seg ?m1 c ys 0" using segy by (rule fl_seg_frame) (use hy p q in \<open>force simp: heap_simps\<close>)
  moreover have "cnt ?m1 p = of_nat n" using p q by (simp add: heap_simps)
  ultimately have ih: "fl_seg ?m2 (paddr p) (join_right p n ys) 0" "same_outside {p} ?m1 ?m2"
    using insert_head_seg [of ?m1 c ys p n] p hy by auto
  have fx: "nxt ?m2 r = nxt ?m1 r \<and> cnt ?m2 r = cnt ?m1 r" if "page_num r" "r \<noteq> p" for r
    using header_outside [OF ih(2)] that by simp
  have "fl_seg m a xs (paddr q)" "cnt m q = of_nat k" using segx by (auto simp: fl_seg_append)
  moreover have "nxt ?m2 r = nxt m r \<and> cnt ?m2 r = cnt m r" if "(r, l) \<in> set xs" for r l
    using fx [of r] hx q p that by (fastforce simp: heap_simps)
  ultimately have "fl_seg ?m2 a xs (paddr q)" by (blast intro: fl_seg_frame)
  moreover have "nxt ?m2 q = paddr p" "cnt ?m2 q = of_nat k"
    using fx [OF q(1)] pq p q \<open>cnt m q = of_nat k\<close> by (simp_all add: heap_simps)
  ultimately have sx: "fl_seg ?m2 a (xs @ [(q, k)]) (paddr p)" by (auto simp: fl_seg_append)
  obtain d zs where jr: "join_right p n ys = (p, n + d) # zs" using join_right_hd by blast
  have "set zs \<subseteq> set ys" using jr by (auto simp: join_right_def split: list.splits if_splits)
  then have zs: "\<forall>(r, l)\<in>set zs. page_num r \<and> p < r" using hy p(4) by fastforce
  note cl = coalesce_left_seg [OF sx ih(1) [unfolded jr] p(1) q(1,2,3,4) hx zs q(5)]
  show "fl_seg m' a (join_left (xs @ [(q, k)]) (join_right p n ys)) 0"
    using cl(1) unfolding jr m'_def .
  have "same_outside {p, q} m ?m1" using q by (intro set_next_outside) simp_all
  moreover have "same_outside {p, q} ?m1 ?m2" using ih(2) by (rule same_outside_mono) simp
  moreover have "same_outside {p, q} ?m2 m'" unfolding m'_def using cl(2) by (rule same_outside_mono) simp
  ultimately show "same_outside {p, q} m m'" by (blast intro: same_outside_trans)
qed

lemma ins_blk_split:
  assumes ok: "blocks_ok lo hi bs" and new: "{p..<p + n} \<inter> free_pages bs = {}" "0 < n"
  obtains xs ys where "bs = xs @ ys" "xs = takeWhile (\<lambda>b. fst b < p) bs" "ys = dropWhile (\<lambda>b. fst b < p) bs"
    "\<forall>(q, k)\<in>set xs. q + k \<le> p \<and> 0 < k" "\<forall>(q, k)\<in>set ys. p + n \<le> q \<and> 0 < k"
proof -
  let ?xs = "takeWhile (\<lambda>b. fst b < p) bs" and ?ys = "dropWhile (\<lambda>b. fst b < p) bs"
  have pos: "0 < k" if "(q, k) \<in> set bs" for q k using blocks_ok_mem [OF ok that] by simp
  have left: "q + k \<le> p \<and> 0 < k" if "(q, k) \<in> set ?xs" for q k
  proof -
    have m: "(q, k) \<in> set bs" "q < p" using that by (auto dest: set_takeWhileD)
    have "p \<notin> {q..<q + k}" using new m(1) by (force simp: free_pages_def)
    then show ?thesis using m pos by auto
  qed
  have sorted: "q \<ge> p" if "(q, k) \<in> set ?ys" for q k
    using that ok
  proof (induction bs arbitrary: lo)
    case (Cons b bs)
    obtain r l where b: "b = (r, l)" by (cases b)
    show ?case
    proof (cases "r < p")
      case True
      then show ?thesis using Cons b by auto
    next
      case False
      moreover have "blocks_ok (r + l + 1) hi bs" using Cons.prems(2) b by simp
      ultimately show ?thesis using Cons.prems(1) b blocks_ok_mem [of "r + l + 1" hi bs q k] by auto
    qed
  qed simp
  have right: "p + n \<le> q \<and> 0 < k" if "(q, k) \<in> set ?ys" for q k
  proof -
    have m: "(q, k) \<in> set bs" using that by (rule set_dropWhileD)
    have "q \<notin> {p..<p + n}" using new(1) mem_free_pages [OF m pos [OF m]] by blast
    then show ?thesis using m pos sorted [OF that] by auto
  qed
  show thesis by (rule that [of ?xs ?ys]) (use left right in auto)
qed

text \<open>The rest of the state is untouched.\<close>

definition only_list :: "'z kmem_scheme \<Rightarrow> 'z kmem_scheme \<Rightarrow> bool" where
  "only_list s s' \<longleftrightarrow> s' = s\<lparr>ram := ram s', freelist := freelist s'\<rparr>"

lemma free_insert_correct:
  assumes seg: "fl_seg (ram s) (freelist s) bs 0" and ok: "blocks_ok lo hi bs"
    and hi: "hi \<le> 2 ^ 20" and lo: "0 < lo" "lo \<le> p" and n: "0 < n" "p + n \<le> hi"
    and new: "{p..<p + n} \<inter> free_pages bs = {}"
  shows "\<exists>s'. free_insert (paddr p) n s = Ok s' \<and> fl_seg (ram s') (freelist s') (ins_blk p n bs) 0 \<and>
    same_outside (free_pages bs \<union> {p..<p + n}) (ram s) (ram s') \<and> only_list s s'"
proof -
  obtain xs ys where bs: "bs = xs @ ys" and xs: "xs = takeWhile (\<lambda>b. fst b < p) bs"
      and ys: "ys = dropWhile (\<lambda>b. fst b < p) bs"
      and L: "\<forall>(q, k)\<in>set xs. q + k \<le> p \<and> 0 < k" and R: "\<forall>(q, k)\<in>set ys. p + n \<le> q \<and> 0 < k"
    by (rule ins_blk_split [OF ok new n(1)])
  have mem: "lo \<le> q \<and> 0 < k \<and> q + k \<le> hi" if "(q, k) \<in> set bs" for q k using blocks_ok_mem [OF ok that] .
  have pgs: "page_num q" if "(q, k) \<in> set bs" for q k using mem [OF that] hi by simp
  have pg: "page_num p" and n20: "n < 2 ^ 20" using n hi lo by simp_all
  let ?F = "free_pages bs \<union> {p..<p + n}"
  let ?m1 = "set_num_pages (paddr p) (of_nat n) (ram s)"
  have heads: "q \<noteq> p" if "(q, k) \<in> set bs" for q k
  proof -
    from that bs have "(q, k) \<in> set xs \<or> (q, k) \<in> set ys" by simp
    then show ?thesis using L R n(1) by (auto split: prod.splits)
  qed
  have seg1: "fl_seg ?m1 (freelist s) (xs @ ys) 0"
    using seg unfolding bs [symmetric] by (rule fl_seg_frame) (use heads pgs pg in \<open>auto simp: heap_simps\<close>)
  then obtain c where segx: "fl_seg ?m1 (freelist s) xs c" and segy: "fl_seg ?m1 c ys 0"
    by (auto simp: fl_seg_append)
  define prev where "prev = (if xs = [] then 0 else paddr (fst (last xs)))"
  have cc: "c = (if ys = [] then 0 else paddr (fst (hd ys)))" using segy by (cases ys) auto
  have fnd: "fl_find ?m1 (paddr p) 0 (freelist s) = Some (prev, c)"
    unfolding prev_def cc
  proof (rule fl_find_walks [OF seg1])
    show "blocks_ok lo hi (xs @ ys)" using ok bs by simp
    show "\<forall>(q, k)\<in>set xs. q < p" using L by fastforce
    show "ys = [] \<or> p \<le> fst (hd ys)" using R by (cases ys) auto
  qed (use hi lo pg in auto)
  have Rh: "\<forall>(q, k)\<in>set ys. p + n \<le> q \<and> page_num q" using R pgs bs by auto
  have cp: "cnt ?m1 p = of_nat n" using pg by (simp add: heap_simps)
  have pin: "p \<in> ?F" using n by simp
  have o1: "same_outside ?F (ram s) ?m1" using pg pin by (rule set_num_outside)
  show ?thesis
  proof (cases "xs = []")
    case True
    note ins = insert_head_seg [OF segy pg cp n20 n(1) Rh]
    let ?s' = "s\<lparr>ram := coalesce_right (paddr p) (set_next (paddr p) c ?m1), freelist := paddr p\<rparr>"
    have "free_insert (paddr p) n s = Ok ?s'"
      using fnd True by (simp add: free_insert_def prev_def link_block_def coalesce_left_def)
    moreover have "same_outside ?F (ram s) (ram ?s')"
      using same_outside_trans [OF o1 same_outside_mono [OF ins(2)]] pin by simp
    moreover have "fl_seg (ram ?s') (freelist ?s') (ins_blk p n bs) 0"
      using ins(1) True by (simp add: ins_blk_def xs [symmetric] ys [symmetric] join_left_def)
    moreover have "only_list s ?s'" by (simp add: only_list_def)
    ultimately show ?thesis by blast
  next
    case False
    then obtain xs' q k where xq: "xs = xs' @ [(q, k)]" by (metis append_butlast_last_id surj_pair)
    have qm: "(q, k) \<in> set bs" using xq bs by simp
    have q: "page_num q" "0 < q" "k < 2 ^ 20" "0 < k" "q + k \<le> p"
      using pgs [OF qm] mem [OF qm] L xq hi lo by auto
    have "blocks_ok lo hi (xs' @ (q, k) # ys)" using ok bs xq by simp
    from blocks_ok_heads [OF this] have hx: "\<forall>(r, l)\<in>set xs'. page_num r \<and> r < q"
      using pgs bs xq by fastforce
    note ins = insert_after_seg [OF segx [unfolded xq] segy pg cp n20 n(1) q hx Rh]
    let ?m' = "coalesce_left (paddr q) (paddr p)
                 (coalesce_right (paddr p) (set_next (paddr p) c (set_next (paddr q) (paddr p) ?m1)))"
    let ?s' = "s\<lparr>ram := ?m'\<rparr>"
    have "prev = paddr q" "prev \<noteq> 0" using xq q by (simp_all add: prev_def paddr_0)
    then have "free_insert (paddr p) n s = Ok ?s'"
      using fnd by (simp add: free_insert_def link_block_def)
    moreover have "same_outside ?F (ram s) (ram ?s')"
      using same_outside_trans [OF o1 same_outside_mono [OF ins(2)]] pin mem_free_pages [OF qm q(4)] by simp
    moreover have "fl_seg (ram ?s') (freelist ?s') (ins_blk p n bs) 0"
      using ins(1) by (simp add: ins_blk_def xs [symmetric] ys [symmetric] xq)
    moreover have "only_list s ?s'" by (simp add: only_list_def)
    ultimately show ?thesis by blast
  qed
qed

lemma join_right_ok:
  assumes "blocks_ok (p + n) hi ys" "0 < n" "p + n \<le> hi" "lo \<le> p" "\<forall>(q, k)\<in>set ys. p + n \<le> q"
  shows "blocks_ok lo hi (join_right p n ys)" and "free_pages (join_right p n ys) = {p..<p + n} \<union> free_pages ys"
  using assms by (auto simp: join_right_def add.assoc split: list.splits prod.splits)

lemma join_left_ok:
  assumes "blocks_ok lo hi xs" "blocks_ok p hi ((p, m) # zs)" "\<forall>(q, k)\<in>set xs. q + k \<le> p" "lo \<le> p"
  shows "blocks_ok lo hi (join_left xs ((p, m) # zs))"
    and "free_pages (join_left xs ((p, m) # zs)) = free_pages xs \<union> {p..<p + m} \<union> free_pages zs"
proof -
  have "blocks_ok lo hi (join_left xs ((p, m) # zs)) \<and>
    free_pages (join_left xs ((p, m) # zs)) = free_pages xs \<union> {p..<p + m} \<union> free_pages zs"
  proof (cases xs rule: rev_cases)
    case Nil
    then show ?thesis using assms by (simp add: join_left_def)
  next
    case (snoc xs' b)
    obtain q k where b: "b = (q, k)" by (cases b)
    show ?thesis
    proof (cases "q + k = p")
      case True
      then have e: "join_left xs ((p, m) # zs) = xs' @ (q, k + m) # zs" by (simp add: join_left_def snoc b)
      show ?thesis unfolding e using assms(1,2) snoc b True
        by (auto simp: blocks_ok_append add.assoc)
    next
      case False
      then have e: "join_left xs ((p, m) # zs) = xs' @ (q, k) # (p, m) # zs" by (simp add: join_left_def snoc b)
      show ?thesis unfolding e using assms(1-3) snoc b False by (auto simp: blocks_ok_append)
    qed
  qed
  then show "blocks_ok lo hi (join_left xs ((p, m) # zs))"
    and "free_pages (join_left xs ((p, m) # zs)) = free_pages xs \<union> {p..<p + m} \<union> free_pages zs" by blast+
qed

lemma ins_blk_ok:
  assumes ok: "blocks_ok lo hi bs" and n: "0 < n" "p + n \<le> hi" "lo \<le> p"
    and new: "{p..<p + n} \<inter> free_pages bs = {}"
  shows "blocks_ok lo hi (ins_blk p n bs)" and "free_pages (ins_blk p n bs) = free_pages bs \<union> {p..<p + n}"
proof -
  obtain xs ys where bs: "bs = xs @ ys" and xs: "xs = takeWhile (\<lambda>b. fst b < p) bs"
      and ys: "ys = dropWhile (\<lambda>b. fst b < p) bs"
      and L: "\<forall>(q, k)\<in>set xs. q + k \<le> p \<and> 0 < k" and R: "\<forall>(q, k)\<in>set ys. p + n \<le> q \<and> 0 < k"
    by (rule ins_blk_split [OF ok new n(1)])
  have ib: "ins_blk p n bs = join_left xs (join_right p n ys)" by (simp add: ins_blk_def xs [symmetric] ys [symmetric])
  have okx: "blocks_ok lo hi xs" using ok unfolding bs by (simp add: blocks_ok_append)
  have "blocks_ok (if xs = [] then lo else fst (last xs) + snd (last xs) + 1) hi ys"
    using ok unfolding bs blocks_ok_append by (rule conjunct2)
  then have oky: "blocks_ok (p + n) hi ys" using R by (cases ys) auto
  have R': "\<forall>(q, k)\<in>set ys. p + n \<le> q" using R by auto
  have L': "\<forall>(q, k)\<in>set xs. q + k \<le> p" using L by auto
  note jr = join_right_ok [OF oky n(1,2) order_refl R']
  obtain d zs where e: "join_right p n ys = (p, n + d) # zs" using join_right_hd by blast
  note jl = join_left_ok [OF okx jr(1) [unfolded e] L' n(3)]
  show "blocks_ok lo hi (ins_blk p n bs)" unfolding ib e by (rule jl(1))
  have "free_pages (ins_blk p n bs) = free_pages xs \<union> free_pages (join_right p n ys)"
    unfolding ib e jl(2) by (simp add: Un_assoc)
  also have "\<dots> = free_pages bs \<union> {p..<p + n}" unfolding jr(2) bs by auto
  finally show "free_pages (ins_blk p n bs) = free_pages bs \<union> {p..<p + n}" .
qed

subsection \<open>The best-fit search\<close>

definition prev_addr :: "(nat \<times> nat) list \<Rightarrow> addr" where
  "prev_addr xs = (if xs = [] then 0 else paddr (fst (last xs)))"

definition best_split :: "nat \<Rightarrow> (nat \<times> nat) list \<Rightarrow> nat \<Rightarrow> nat \<Rightarrow> (nat \<times> nat) list \<Rightarrow> bool" where
  "best_split n xs p k ys \<longleftrightarrow> n \<le> k \<and> (\<forall>(q, l)\<in>set xs. n \<le> l \<longrightarrow> k < l) \<and> (\<forall>(q, l)\<in>set ys. n \<le> l \<longrightarrow> k \<le> l)"

definition best_ok :: "nat \<Rightarrow> (nat \<times> nat) list \<Rightarrow> addr \<Rightarrow> addr \<Rightarrow> bool" where
  "best_ok n bs bp bc \<longleftrightarrow>
     bc = 0 \<and> bp = 0 \<and> (\<forall>(q, k)\<in>set bs. k < n) \<or>
     (\<exists>xs p k ys. bs = xs @ (p, k) # ys \<and> bc = paddr p \<and> bp = prev_addr xs \<and> best_split n xs p k ys)"

definition blocks_small :: "(nat \<times> nat) list \<Rightarrow> bool" where
  "blocks_small bs \<longleftrightarrow> (\<forall>(q, k)\<in>set bs. 0 < q \<and> page_num q \<and> k < 2 ^ 20)"

lemma u32_cmp: "a < 2 ^ 20 \<Longrightarrow> b < 2 ^ 20 \<Longrightarrow> (of_nat a :: u32) < of_nat b \<longleftrightarrow> a < b"
  by (simp add: word_less_nat_alt unat_of_nat_small)

lemma best_ok_cases:
  assumes "best_ok n bs bp bc"
  obtains (None) "bc = 0" "bp = 0" "\<forall>(q, k)\<in>set bs. k < n"
  | (Some) xs q l ys where "bs = xs @ (q, l) # ys" "bc = paddr q" "bp = prev_addr xs" "best_split n xs q l ys"
  using assms unfolding best_ok_def by blast

lemma best_ok_SomeI: "best_split n xs q l ys \<Longrightarrow> best_ok n (xs @ (q, l) # ys) (prev_addr xs) (paddr q)"
  unfolding best_ok_def by blast

text \<open>One turn of the search: block \<open>(p, k)\<close> is looked at after the blocks \<open>seen\<close>.\<close>

lemma best_ok_step:
  assumes best: "best_ok n seen bp bc" and small: "blocks_small (seen @ [(p, k)])"
    and cnts: "\<forall>(q, l)\<in>set seen. cnt m q = of_nat l"
  defines "better \<equiv> n \<le> k \<and> (bc = 0 \<or> of_nat k < fb_num_pages m bc)"
  shows "better \<Longrightarrow> best_ok n (seen @ [(p, k)]) (prev_addr seen) (paddr p)"
    and "\<not> better \<Longrightarrow> best_ok n (seen @ [(p, k)]) bp bc"
proof -
  have "(better \<longrightarrow> best_ok n (seen @ [(p, k)]) (prev_addr seen) (paddr p)) \<and>
        (\<not> better \<longrightarrow> best_ok n (seen @ [(p, k)]) bp bc)"
    using best
  proof (cases rule: best_ok_cases)
    case None
    then have "better \<longrightarrow> best_split n seen p k []" unfolding better_def best_split_def by fastforce
    moreover have "\<not> better \<longrightarrow> best_ok n (seen @ [(p, k)]) bp bc"
      using None unfolding better_def best_ok_def by auto
    ultimately show ?thesis using best_ok_SomeI [of n seen p k "[]"] by blast
  next
    case (Some xs q l ys)
    have "bc \<noteq> 0" "fb_num_pages m bc = of_nat l" "l < 2 ^ 20" "k < 2 ^ 20"
      using small cnts Some by (auto simp: blocks_small_def paddr_0 cnt_def)
    then have better: "better \<longleftrightarrow> n \<le> k \<and> k < l" using u32_cmp [of k l] by (auto simp: better_def)
    have "better \<longrightarrow> best_split n seen p k []" using Some(1,4) unfolding better best_split_def by fastforce
    moreover have "\<not> better \<longrightarrow> best_split n xs q l (ys @ [(p, k)])"
      using Some(1,4) unfolding better best_split_def by auto
    ultimately show ?thesis
      using best_ok_SomeI [of n seen p k "[]"] best_ok_SomeI [of n xs q l "ys @ [(p, k)]"] Some by auto
  qed
  then show "better \<Longrightarrow> best_ok n (seen @ [(p, k)]) (prev_addr seen) (paddr p)"
    and "\<not> better \<Longrightarrow> best_ok n (seen @ [(p, k)]) bp bc" by blast+
qed

lemma fl_best_correct:
  assumes "fl_seg m cur rest 0" "blocks_small (seen @ rest)" "n < 2 ^ 20"
    and "\<forall>(q, k)\<in>set seen. cnt m q = of_nat k"
    and "best_ok n seen bp bc" "prev = prev_addr seen"
  shows "\<exists>bp' bc'. fl_best m (of_nat n) prev cur bp bc = Some (bp', bc') \<and> best_ok n (seen @ rest) bp' bc'"
  using assms
proof (induction rest arbitrary: cur bp bc prev seen)
  case Nil
  then show ?case by (simp add: fl_best.simps)
next
  case (Cons b rest)
  obtain p k where b: "b = (p, k)" by (cases b)
  have p: "0 < p" "page_num p" "k < 2 ^ 20" using Cons.prems(2) b by (auto simp: blocks_small_def)
  have cur: "cur = paddr p" "cur \<noteq> 0" "cnt m p = of_nat k" "fl_seg m (nxt m p) rest 0"
    using Cons.prems(1) b p by (auto simp: paddr_0)
  have num: "fb_num_pages m cur = of_nat k" "fb_next m cur = nxt m p" using cur by (simp_all add: cnt_def nxt_def)
  have fits: "(of_nat n :: u32) \<le> of_nat k \<longleftrightarrow> n \<le> k"
    using u32_cmp [of k n] p Cons.prems(3) by (simp add: not_less [symmetric])
  have seen': "\<forall>(q, l)\<in>set (seen @ [b]). cnt m q = of_nat l" using Cons.prems(4) b cur by auto
  have pv: "cur = prev_addr (seen @ [b])" using b cur by (simp add: prev_addr_def)
  have small: "blocks_small ((seen @ [b]) @ rest)" using Cons.prems(2) by simp
  note IH = Cons.IH [OF cur(4) small Cons.prems(3) seen' _ pv, simplified]
  have small1: "blocks_small (seen @ [(p, k)])" using Cons.prems(2) b by (auto simp: blocks_small_def)
  note step = best_ok_step [OF Cons.prems(5) small1 Cons.prems(4)]
  show ?case
  proof (cases "n \<le> k \<and> (bc = 0 \<or> of_nat k < fb_num_pages m bc)")
    case True
    then have "fl_best m (of_nat n) prev cur bp bc = fl_best m (of_nat n) cur (nxt m p) prev cur"
      using cur(2) fits num by (subst fl_best.simps) simp
    moreover have "best_ok n (seen @ [b]) prev cur"
      using step(1) [OF True] b cur(1) Cons.prems(6) by simp
    ultimately show ?thesis using IH by presburger
  next
    case False
    then have "fl_best m (of_nat n) prev cur bp bc = fl_best m (of_nat n) cur (nxt m p) bp bc"
      using cur(2) fits num by (subst fl_best.simps) auto
    moreover have "best_ok n (seen @ [b]) bp bc" using step(2) [OF False] b by simp
    ultimately show ?thesis using IH by presburger
  qed
qed

end
