(* ===== verification/Kalloc_Inv.thy ===== *)
theory Kalloc_Inv
  imports Kalloc_Spec
begin

text \<open>
  The allocator invariant \<open>kmem_inv\<close> and the theorems on whole operations:
  \<open>kinit\<close> establishes it, \<open>kalloc_contig\<close> and \<open>kfree_contig\<close> keep it and move exactly one
  run of pages between the free set and the caller. The locale \<open>page_allocator\<close> is
  the contract the other kernel components use.
\<close>

section \<open>Taking a run out of the list\<close>

definition take_blk :: "(nat \<times> nat) list \<Rightarrow> nat \<Rightarrow> nat \<Rightarrow> nat \<Rightarrow> (nat \<times> nat) list \<Rightarrow> (nat \<times> nat) list" where
  "take_blk xs p k n ys = (if k = n then xs @ ys else xs @ (p + n, k - n) # ys)"

lemma take_blk_ok:
  assumes "blocks_ok lo hi (xs @ (p, k) # ys)" "0 < n" "n \<le> k"
  shows "blocks_ok lo hi (take_blk xs p k n ys)"
    and "free_pages (take_blk xs p k n ys) = free_pages (xs @ (p, k) # ys) - {p..<p + n}"
    and "{p..<p + n} \<subseteq> free_pages (xs @ (p, k) # ys)"
proof -
  have ok: "blocks_ok lo hi xs" "blocks_ok (p + k + 1) hi ys" "p + k \<le> hi"
      and p: "(if xs = [] then lo else fst (last xs) + snd (last xs) + 1) \<le> p"
    using assms(1) by (auto simp: blocks_ok_append)
  show "blocks_ok lo hi (take_blk xs p k n ys)"
    using ok p assms(2,3) by (auto simp: take_blk_def blocks_ok_append intro: blocks_ok_mono)
  have left: "q + l \<le> p" if "(q, l) \<in> set xs" for q l
    using blocks_ok_heads [OF assms(1)] that by fastforce
  have "{p..<p + n} \<inter> free_pages xs = {}" using left by (fastforce simp: free_pages_def)
  moreover have "{p..<p + n} \<inter> free_pages ys = {}"
    using blocks_ok_mem [OF ok(2)] assms(3) by (fastforce simp: free_pages_def)
  ultimately show "free_pages (take_blk xs p k n ys) = free_pages (xs @ (p, k) # ys) - {p..<p + n}"
    using assms(3) by (auto simp: take_blk_def)
  show "{p..<p + n} \<subseteq> free_pages (xs @ (p, k) # ys)" using assms(3) by auto
qed

lemma relink_seg:
  assumes "fl_seg m a (xs @ [(q, l)]) c" "fl_seg m v zs 0" "page_num q"
    and "\<forall>(r, j)\<in>set xs. page_num r \<and> r \<noteq> q" "\<forall>(r, j)\<in>set zs. page_num r \<and> r \<noteq> q"
  shows "fl_seg (set_next (paddr q) v m) a ((xs @ [(q, l)]) @ zs) 0"
proof -
  let ?m = "set_next (paddr q) v m"
  have "fl_seg ?m a xs (paddr q)"
    by (rule fl_seg_frame [of m]) (use assms in \<open>auto simp: fl_seg_append heap_simps\<close>)
  moreover have "fl_seg ?m v zs 0"
    by (rule fl_seg_frame [OF assms(2)]) (use assms in \<open>auto simp: heap_simps\<close>)
  moreover have "cnt ?m q = of_nat l" using assms by (simp add: fl_seg_append heap_simps)
  ultimately show ?thesis using assms(3) by (simp add: fl_seg_append heap_simps)
qed

definition link_prev :: "(nat \<times> nat) list \<Rightarrow> addr \<Rightarrow> 'z kmem_scheme \<Rightarrow> 'z kmem_scheme" where
  "link_prev xs v s = (if xs = [] then s\<lparr>freelist := v\<rparr> else s\<lparr>ram := set_next (prev_addr xs) v (ram s)\<rparr>)"

lemma link_prev_seg:
  assumes "fl_seg (ram s) (freelist s) xs c" "fl_seg (ram s) v zs 0"
    and "\<forall>(r, j)\<in>set (xs @ zs). page_num r" "distinct (map fst (xs @ zs))"
    and "\<forall>(r, j)\<in>set xs. r \<in> S"
  shows "fl_seg (ram (link_prev xs v s)) (freelist (link_prev xs v s)) (xs @ zs) 0"
    and "same_outside S (ram s) (ram (link_prev xs v s))" and "only_list s (link_prev xs v s)"
proof -
  have "fl_seg (ram (link_prev xs v s)) (freelist (link_prev xs v s)) (xs @ zs) 0 \<and>
    same_outside S (ram s) (ram (link_prev xs v s)) \<and> only_list s (link_prev xs v s)"
  proof (cases xs rule: rev_cases)
    case Nil
    then show ?thesis using assms by (simp add: link_prev_def only_list_def)
  next
    case (snoc xs' b)
    obtain q l where b: "b = (q, l)" by (cases b)
    have q: "page_num q" "q \<in> S" using assms(3,5) snoc b by auto
    have "fl_seg (set_next (paddr q) v (ram s)) (freelist s) ((xs' @ [(q, l)]) @ zs) 0"
    proof (rule relink_seg)
      show "fl_seg (ram s) (freelist s) (xs' @ [(q, l)]) c" using assms(1) snoc b by simp
      show "\<forall>(r, j)\<in>set xs'. page_num r \<and> r \<noteq> q" "\<forall>(r, j)\<in>set zs. page_num r \<and> r \<noteq> q"
        using assms(3,4) snoc b by (auto simp: image_iff)
    qed (use assms(2) q in auto)
    then show ?thesis using snoc b q
      by (simp add: link_prev_def prev_addr_def only_list_def heap_simps)
  qed
  then show "fl_seg (ram (link_prev xs v s)) (freelist (link_prev xs v s)) (xs @ zs) 0"
    and "same_outside S (ram s) (ram (link_prev xs v s))" and "only_list s (link_prev xs v s)" by blast+
qed

lemma prev_addr_0: "blocks_small xs \<Longrightarrow> prev_addr xs = 0 \<longleftrightarrow> xs = []"
  by (cases xs rule: rev_cases) (auto simp: prev_addr_def blocks_small_def paddr_0)

lemma blocks_ok_small:
  "blocks_ok lo hi bs \<Longrightarrow> 0 < lo \<Longrightarrow> hi \<le> 2 ^ 20 \<Longrightarrow> blocks_small bs"
  unfolding blocks_small_def using blocks_ok_mem [of lo hi bs] by fastforce

lemma blocks_ok_distinct: "blocks_ok lo hi bs \<Longrightarrow> distinct (map fst bs)"
proof (induction lo hi bs rule: blocks_ok.induct)
  case (2 lo hi p n bs)
  then have "(q, k) \<in> set bs \<Longrightarrow> p + n + 1 \<le> q" for q k by (auto dest: blocks_ok_mem)
  then show ?case using 2 by fastforce
qed simp

lemma unlink_block_correct:
  assumes seg: "fl_seg (ram s) (freelist s) (xs @ (p, k) # ys) 0"
    and ok: "blocks_ok lo hi (xs @ (p, k) # ys)" and b: "0 < lo" "hi \<le> 2 ^ 20" and n: "0 < n" "n \<le> k"
  defines "s' \<equiv> unlink_block (prev_addr xs) (paddr p) n s"
  shows "fl_seg (ram s') (freelist s') (take_blk xs p k n ys) 0"
    and "same_outside (free_pages (xs @ (p, k) # ys)) (ram s) (ram s')" and "only_list s s'"
proof -
  let ?bs = "xs @ (p, k) # ys" and ?S = "free_pages (xs @ (p, k) # ys)"
  note small = blocks_ok_small [OF ok b]
  have pg: "\<forall>(r, j)\<in>set ?bs. page_num r" and k: "k < 2 ^ 20" and p: "page_num p"
    using small by (auto simp: blocks_small_def)
  have dis: "distinct (map fst ?bs)" by (rule blocks_ok_distinct [OF ok])
  have xS: "\<forall>(r, j)\<in>set xs. r \<in> ?S"
    using blocks_ok_mem [OF ok] mem_free_pages [of _ _ ?bs] by fastforce
  have pv: "prev_addr xs = 0 \<longleftrightarrow> xs = []"
    using small by (intro prev_addr_0) (simp add: blocks_small_def)
  have seg': "fl_seg (ram s) (freelist s) xs (paddr p)" "cnt (ram s) p = of_nat k"
      "fl_seg (ram s) (nxt (ram s) p) ys 0"
    using seg by (auto simp: fl_seg_append)
  have eqn: "(of_nat k :: u32) = of_nat n \<longleftrightarrow> k = n"
    using u32_cmp [of n k] k n by (metis le_neq_implies_less le_less_trans less_irrefl)
  have "fl_seg (ram s') (freelist s') (take_blk xs p k n ys) 0 \<and> same_outside ?S (ram s) (ram s') \<and> only_list s s'"
  proof (cases "k = n")
    case True
    then have s': "s' = link_prev xs (nxt (ram s) p) s"
      using seg'(2) eqn pv by (simp add: s'_def unlink_block_def link_prev_def cnt_def nxt_def)
    note link_prev_seg [OF seg'(1,3) _ _ xS]
    moreover have "\<forall>(r, j)\<in>set (xs @ ys). page_num r" "distinct (map fst (xs @ ys))" using pg dis by auto
    ultimately show ?thesis using True unfolding s' take_blk_def by simp
  next
    case False
    let ?q = "p + n" and ?m1 = "set_num_pages (paddr (p + n)) (of_nat (k - n)) (ram s)"
    let ?s1 = "s\<lparr>ram := set_next (paddr (p + n)) (nxt (ram s) p) ?m1\<rparr>"
    have kn: "n < k" using False n by simp
    have q: "page_num ?q" "?q \<in> ?S" and nq: "\<forall>(r, j)\<in>set ?bs. r \<noteq> ?q"
      using blocks_ok_mem [OF ok, of p k] b kn n blocks_ok_heads [OF ok] by fastforce+
    have "paddr p + of_nat n * PGSIZE = paddr ?q" by (rule paddr_add)
    moreover have "cnt (ram s) p - of_nat n = of_nat (k - n)" using seg'(2) kn by simp
    moreover have "fb_next ?m1 (paddr p) = nxt (ram s) p" using p q by (simp add: nxt_def [symmetric] heap_simps)
    ultimately have s': "s' = link_prev xs (paddr ?q) ?s1"
      using seg'(2) eqn pv False
      by (simp add: s'_def unlink_block_def link_prev_def cnt_def Let_def)
    have keep: "nxt (ram ?s1) r = nxt (ram s) r \<and> cnt (ram ?s1) r = cnt (ram s) r" if "(r, j) \<in> set ?bs" for r j
      using that pg nq q by (fastforce simp: heap_simps)
    have x1: "fl_seg (ram ?s1) (freelist ?s1) xs (paddr p)"
    proof -
      have "fl_seg (ram ?s1) (freelist s) xs (paddr p)"
        by (rule fl_seg_frame [OF seg'(1)]) (use keep in auto)
      then show ?thesis by simp
    qed
    have "fl_seg (ram ?s1) (nxt (ram s) p) ys 0"
      by (rule fl_seg_frame [OF seg'(3)]) (use keep in auto)
    then have y1: "fl_seg (ram ?s1) (paddr ?q) ((?q, k - n) # ys) 0" using q(1) by (simp add: heap_simps)
    have "same_outside ?S (ram s) (ram ?s1)" using q
      by (simp add: same_outside_trans [OF set_num_outside set_next_outside])
    moreover have "only_list s ?s1" by (simp add: only_list_def)
    moreover have "\<forall>(r, j)\<in>set (xs @ (?q, k - n) # ys). page_num r" using pg q by auto
    moreover have "distinct (map fst (xs @ (?q, k - n) # ys))" using dis nq by force
    moreover note link_prev_seg [OF x1 y1 _ _ xS]
    ultimately show ?thesis using False unfolding s' take_blk_def
      by (auto simp: only_list_def intro: same_outside_trans)
  qed
  then show "fl_seg (ram s') (freelist s') (take_blk xs p k n ys) 0"
    and "same_outside ?S (ram s) (ram s')" and "only_list s s'" by blast+
qed

section \<open>Reference counts over a run\<close>

lemma NREF_eq: "NREF = 557056" and NRMAP_eq: "NRMAP = 32768"
  by (simp_all add: NREF_def NRMAP_def kconst)

lemma unat_PHYSTOP: "unat PHYSTOP = 557056 * 4096"
  by (simp add: kconst)

lemma PHYSTOP_paddr: "PHYSTOP = paddr 557056"
  by (simp add: kconst paddr_def)

definition on_run :: "nat \<Rightarrow> nat \<Rightarrow> (int \<Rightarrow> int) \<Rightarrow> (nat \<Rightarrow> int) \<Rightarrow> nat \<Rightarrow> int" where
  "on_run p n f rc = (\<lambda>i. if p \<le> i \<and> i < p + n then f (rc i) else rc i)"

lemma on_run_0 [simp]: "on_run p 0 f rc = rc"
  by (auto simp: on_run_def)

lemma on_run_Suc: "on_run p (Suc n) f rc = (on_run p n f rc)(p + n := f (rc (p + n)))"
  by (auto simp: on_run_def)

lemma run_idx: "p + n \<le> NREF \<Longrightarrow> i < n \<Longrightarrow> PA2IDX (paddr p + of_nat i * PGSIZE) = p + i"
  by (simp add: paddr_add NREF_eq)

lemma dec_ref_run:
  assumes "p + n \<le> NREF" "\<forall>i\<in>{p..<p + n}. 0 < ref_count s i"
  shows "for_res [0..<n] (dec_ref (paddr p)) s = Ok (s\<lparr>ref_count := on_run p n (\<lambda>c. c - 1) (ref_count s)\<rparr>)"
  using assms
proof (induction n)
  case (Suc n)
  have "PA2IDX (paddr p + of_nat n * PGSIZE) = p + n" using Suc.prems run_idx by blast
  moreover have "on_run p n (\<lambda>c. c - 1) (ref_count s) (p + n) = ref_count s (p + n)" by (simp add: on_run_def)
  ultimately have "dec_ref (paddr p) n (s\<lparr>ref_count := on_run p n (\<lambda>c. c - 1) (ref_count s)\<rparr>) =
      Ok (s\<lparr>ref_count := on_run p (Suc n) (\<lambda>c. c - 1) (ref_count s)\<rparr>)"
    using Suc.prems spec [of _ "p + n"] unfolding on_run_Suc Ball_def
    by (simp add: dec_ref_def Let_def panic_if_def not_le)
  then show ?case using Suc by (simp add: for_res_append)
qed simp

lemma init_ref_run:
  assumes "p + n \<le> NREF"
  shows "for_res [0..<n] (init_ref (paddr p)) s = Ok (s\<lparr>ref_count := on_run p n (\<lambda>_. 1) (ref_count s)\<rparr>)"
  using assms
proof (induction n)
  case (Suc n)
  have "PA2IDX (paddr p + of_nat n * PGSIZE) = p + n" using Suc.prems run_idx by blast
  then have "init_ref (paddr p) n (s\<lparr>ref_count := on_run p n (\<lambda>_. 1) (ref_count s)\<rparr>) =
      Ok (s\<lparr>ref_count := on_run p (Suc n) (\<lambda>_. 1) (ref_count s)\<rparr>)"
    using Suc.prems unfolding on_run_Suc by (simp add: init_ref_def Let_def)
  then show ?case using Suc by (simp add: for_res_append)
qed simp

lemma dec_ref_run_panics:
  assumes "p + n \<le> NREF" "i \<in> {p..<p + n}" "ref_count s i \<le> 0"
  shows "for_res [0..<n] (dec_ref (paddr p)) s = Panic ''kfree_contig: ref_count already zero''"
  using assms
proof (induction n arbitrary: i)
  case (Suc n)
  show ?case
  proof (cases "\<forall>j\<in>{p..<p + n}. 0 < ref_count s j")
    case False
    then obtain j where j: "j \<in> {p..<p + n}" "ref_count s j \<le> 0" by fastforce
    have "for_res [0..<n] (dec_ref (paddr p)) s = Panic ''kfree_contig: ref_count already zero''"
      using Suc.IH [OF _ j] Suc.prems by simp
    then show ?thesis by (simp add: for_res_append)
  next
    case True
    then have "i = p + n" using Suc.prems by (metis add_Suc_right atLeastLessThan_iff less_Suc_eq not_le)
    moreover have "PA2IDX (paddr p + of_nat n * PGSIZE) = p + n" using Suc.prems run_idx by blast
    moreover have "on_run p n (\<lambda>c. c - 1) (ref_count s) (p + n) = ref_count s (p + n)" by (simp add: on_run_def)
    ultimately have "dec_ref (paddr p) n (s\<lparr>ref_count := on_run p n (\<lambda>c. c - 1) (ref_count s)\<rparr>) =
        Panic ''kfree_contig: ref_count already zero''"
      using Suc.prems by (simp add: dec_ref_def Let_def)
    then show ?thesis using Suc.prems True dec_ref_run [of p n s] by (simp add: for_res_append)
  qed
qed simp

text \<open>The reverse map after clearing the entries of a run.\<close>

definition clear_run :: "nat \<Rightarrow> nat \<Rightarrow> 'z kmem_scheme \<Rightarrow> 'z kmem_scheme" where
  "clear_run p n s = fold (\<lambda>i s. clear_rmap (paddr p + of_nat i * PGSIZE) s) [0..<n] s"

lemma clear_rmap_only: "clear_rmap a s = s\<lparr>reverse_map := reverse_map (clear_rmap a s)\<rparr>"
  by (simp add: clear_rmap_def Let_def)

lemma clear_run_only: "clear_run p n s = s\<lparr>reverse_map := reverse_map (clear_run p n s)\<rparr>"
proof (induction n)
  case (Suc n)
  have "clear_run p (Suc n) s = clear_rmap (paddr p + of_nat n * PGSIZE) (clear_run p n s)"
    by (simp add: clear_run_def)
  then show ?case using Suc clear_rmap_only [of "paddr p + of_nat n * PGSIZE" "clear_run p n s"]
    by (metis (no_types, lifting) kmem.surjective kmem.update_convs(6) kmem.select_convs(6))
qed (simp add: clear_run_def)

lemma clear_run_fields [simp]:
  "ram (clear_run p n s) = ram s" "kend (clear_run p n s) = kend s" "use_lock (clear_run p n s) = use_lock s"
  "freelist (clear_run p n s) = freelist s" "ref_count (clear_run p n s) = ref_count s"
  "kmem.more (clear_run p n s) = kmem.more s"
  by (subst clear_run_only, simp)+

section \<open>The invariant\<close>

definition lo_page :: "'z kmem_scheme \<Rightarrow> nat" where "lo_page s = PA2IDX (PGROUNDUP (kend s))"

definition kend_ok :: "'z kmem_scheme \<Rightarrow> bool" where "kend_ok s \<longleftrightarrow> KERNBASE \<le> kend s \<and> kend s < PHYSTOP - PGSIZE"

definition kmem_inv :: "'z kmem_scheme \<Rightarrow> (nat \<times> nat) list \<Rightarrow> bool" where
  "kmem_inv s bs \<longleftrightarrow> fl_seg (ram s) (freelist s) bs 0 \<and> blocks_ok (lo_page s) NREF bs \<and>
     (\<forall>i\<in>free_pages bs. ref_count s i = 0) \<and> kend_ok s"

lemma lo_page_eq: "kend_ok s \<Longrightarrow> lo_page s = (unat (kend s) + 4095) div 4096"
  by (simp add: lo_page_def kend_ok_def PA2IDX_unat unat_PGROUNDUP word_less_nat_alt kconst)

lemma lo_page_bounds: "kend_ok s \<Longrightarrow> 524288 \<le> lo_page s \<and> lo_page s < NREF"
proof -
  assume k: "kend_ok s"
  then have "2147483648 \<le> unat (kend s)" "unat (kend s) < 2281697280"
    by (simp_all add: kend_ok_def word_le_nat_alt word_less_nat_alt kconst)
  then show ?thesis unfolding lo_page_eq [OF k] NREF_eq by linarith
qed

lemma lo_page_kend: "kend_ok s \<Longrightarrow> lo_page s \<le> p \<Longrightarrow> p < NREF \<Longrightarrow> \<not> paddr p < kend s"
  unfolding lo_page_eq by (simp add: word_less_nat_alt unat_paddr NREF_eq)

lemma kmem_inv_frame:
  assumes "kmem_inv s bs" "same_outside S (ram s) (ram s')" "S \<inter> free_pages bs = {}"
    and "freelist s' = freelist s" "kend s' = kend s" "\<forall>i\<in>free_pages bs. ref_count s' i = ref_count s i"
  shows "kmem_inv s' bs"
proof -
  have ok: "blocks_ok (lo_page s) NREF bs" using assms(1) by (simp add: kmem_inv_def)
  have "fl_seg (ram s') (freelist s) bs 0"
  proof (rule fl_seg_frame [of "ram s"])
    show "fl_seg (ram s) (freelist s) bs 0" using assms(1) by (simp add: kmem_inv_def)
    fix p n assume m: "(p, n) \<in> set bs"
    then have "page_num p" "p \<notin> S"
      using blocks_ok_mem [OF ok m] mem_free_pages [OF m] assms(3) by (auto simp: NREF_eq)
    then show "nxt (ram s') p = nxt (ram s) p \<and> cnt (ram s') p = cnt (ram s) p"
      using header_outside [OF assms(2)] by simp
  qed
  then show ?thesis using assms by (simp add: kmem_inv_def lo_page_def kend_ok_def)
qed

section \<open>Allocation\<close>

definition fits :: "nat \<Rightarrow> (nat \<times> nat) list \<Rightarrow> bool" where
  "fits n bs \<longleftrightarrow> (\<exists>(q, k)\<in>set bs. n \<le> k)"

text \<open>What a successful allocation of \<open>n\<close> pages at page \<open>p\<close> does to the state.\<close>

definition alloc_post :: "'z kmem_scheme \<Rightarrow> (nat \<times> nat) list \<Rightarrow> nat \<Rightarrow> nat \<Rightarrow> 'z kmem_scheme \<Rightarrow> (nat \<times> nat) list \<Rightarrow> bool" where
  "alloc_post s bs n p s' bs' \<longleftrightarrow>
     kmem_inv s' bs' \<and> lo_page s \<le> p \<and> p + n \<le> NREF \<and>
     {p..<p + n} \<subseteq> free_pages bs \<and> free_pages bs' = free_pages bs - {p..<p + n} \<and>
     same_outside (free_pages bs) (ram s) (ram s') \<and>
     (\<forall>a. PA2IDX a \<in> {p..<p + n} \<longrightarrow> ram s' a = 5) \<and>
     s' = s\<lparr>ram := ram s', freelist := freelist s', ref_count := on_run p n (\<lambda>_. 1) (ref_count s)\<rparr>"

lemma fl_best_whole:
  assumes "fl_seg m a bs 0" "blocks_small bs" "n < 2 ^ 20"
  obtains bp bc where "fl_best m (of_nat n) 0 a 0 0 = Some (bp, bc)" "best_ok n bs bp bc"
proof -
  have "best_ok n [] 0 0" "0 = prev_addr []" by (simp_all add: best_ok_def prev_addr_def)
  then show ?thesis using fl_best_correct [of m a bs "[]" n 0 0 0] assms that by auto
qed

lemma kalloc_contig_none:
  assumes inv: "kmem_inv s bs" and n: "n < 2 ^ 20" and no: "\<not> fits n bs"
  shows "kalloc_contig n s = Ok (0, s)"
proof -
  have ok: "blocks_ok (lo_page s) NREF bs" and seg: "fl_seg (ram s) (freelist s) bs 0" and k: "kend_ok s"
    using inv by (auto simp: kmem_inv_def)
  have small: "blocks_small bs"
    using blocks_ok_small [OF ok] lo_page_bounds [OF k] by (simp add: NREF_eq)
  obtain bp bc where b: "fl_best (ram s) (of_nat n) 0 (freelist s) 0 0 = Some (bp, bc)" "best_ok n bs bp bc"
    by (rule fl_best_whole [OF seg small n])
  have "bc = 0" using b(2) no by (cases rule: best_ok_cases) (auto simp: fits_def best_split_def)
  then show ?thesis using b(1) by (simp add: kalloc_contig_def)
qed

lemma kalloc_contig_some:
  assumes inv: "kmem_inv s bs" and n: "0 < n" "n < 2 ^ 20" and yes: "fits n bs"
  obtains xs p k ys s' where "bs = xs @ (p, k) # ys" "best_split n xs p k ys"
    "kalloc_contig n s = Ok (paddr p, s')" "alloc_post s bs n p s' (take_blk xs p k n ys)"
proof -
  have ok: "blocks_ok (lo_page s) NREF bs" and seg: "fl_seg (ram s) (freelist s) bs 0" and k: "kend_ok s"
      and free: "\<forall>i\<in>free_pages bs. ref_count s i = 0"
    using inv by (auto simp: kmem_inv_def)
  have lo: "0 < lo_page s" and hi: "NREF \<le> 2 ^ 20" using lo_page_bounds [OF k] by (simp_all add: NREF_eq)
  have small: "blocks_small bs" using blocks_ok_small [OF ok lo hi] by simp
  obtain bp bc where b: "fl_best (ram s) (of_nat n) 0 (freelist s) 0 0 = Some (bp, bc)" "best_ok n bs bp bc"
    by (rule fl_best_whole [OF seg small n(2)])
  from b(2) show ?thesis
  proof (cases rule: best_ok_cases)
    case None
    then show ?thesis using yes by (fastforce simp: fits_def)
  next
    case (Some xs p k ys)
    have nk: "n \<le> k" using Some(4) by (simp add: best_split_def)
    have p: "lo_page s \<le> p" "p + k \<le> NREF" using blocks_ok_mem [OF ok, of p k] Some(1) by auto
    let ?s1 = "unlink_block bp bc n s"
    let ?s2 = "?s1\<lparr>ref_count := on_run p n (\<lambda>_. 1) (ref_count ?s1)\<rparr>"
    let ?s' = "?s2\<lparr>ram := memset (ram ?s2) bc 5 (of_nat (n * 4096))\<rparr>"
    note un = unlink_block_correct [OF seg [unfolded Some(1)] ok [unfolded Some(1)] lo hi n(1) nk,
        folded Some(1-3)]
    note tb = take_blk_ok [OF ok [unfolded Some(1)] n(1) nk, folded Some(1)]
    have pg: "page_num p" "p + n \<le> NREF" "p + n \<le> 2 ^ 52" "bc \<noteq> 0"
      using p nk lo Some(2) by (simp_all add: NREF_eq paddr_0)
    have run: "kalloc_contig n s = Ok (paddr p, ?s')"
      using b(1) Some(2) pg init_ref_run [OF pg(2), of ?s1] by (simp add: kalloc_contig_def)
    have s1: "?s1 = s\<lparr>ram := ram ?s1, freelist := freelist ?s1\<rparr>" using un(3) by (simp add: only_list_def)
    have f1: "kend ?s1 = kend s" "ref_count ?s1 = ref_count s" by (subst s1, simp)+
    have "kmem_inv ?s1 (take_blk xs p k n ys)"
      using un(1) tb k free f1 by (auto simp: kmem_inv_def lo_page_def kend_ok_def)
    then have inv': "kmem_inv ?s' (take_blk xs p k n ys)"
      by (rule kmem_inv_frame [where S = "{p..<p + n}"])
        (use tb(2) memset_outside [OF pg(1) n(2) pg(3)] Some(2) f1 in \<open>auto simp: on_run_def\<close>)
    have out: "same_outside (free_pages bs) (ram s) (ram ?s')"
      using same_outside_trans [OF un(2) memset_outside [OF pg(1) n(2) pg(3) tb(3)]] Some(2) by simp
    have fill: "\<forall>a. PA2IDX a \<in> {p..<p + n} \<longrightarrow> ram ?s' a = 5"
      using memset_pages [OF pg(1) n(2) pg(3)] Some(2) by simp
    have upd: "?s' = s\<lparr>ram := ram ?s', freelist := freelist ?s', ref_count := on_run p n (\<lambda>_. 1) (ref_count s)\<rparr>"
      by (subst s1) (simp add: f1)
    have "alloc_post s bs n p ?s' (take_blk xs p k n ys)"
      unfolding alloc_post_def using inv' p(1) pg(2) tb(2,3) out fill upd by blast
    then show ?thesis using that Some run by blast
  qed
qed

section \<open>Freeing\<close>

definition rmap_cleared :: "nat \<Rightarrow> nat \<Rightarrow> (nat \<Rightarrow> rmap) \<Rightarrow> nat \<Rightarrow> rmap" where
  "rmap_cleared p n rm = (\<lambda>i. if p \<le> i + 524288 \<and> i + 524288 < p + n then \<lparr>rm_pagetable = 0, rm_va = 0\<rparr> else rm i)"

lemma rmap_cleared_0 [simp]: "rmap_cleared p 0 rm = rm"
  by (rule ext) (auto simp: rmap_cleared_def)

lemma clear_rmap_page:
  assumes "524288 \<le> p" "p < NREF"
  shows "clear_rmap (paddr p) s = s\<lparr>reverse_map := (reverse_map s)(p - 524288 := \<lparr>rm_pagetable = 0, rm_va = 0\<rparr>)\<rparr>"
proof -
  have u: "unat (paddr p) = p * 4096" using assms by (simp add: unat_paddr NREF_eq)
  have "KERNBASE \<le> paddr p" "paddr p < PHYSTOP"
    using assms u by (simp_all add: word_le_nat_alt word_less_nat_alt kconst NREF_eq)
  moreover have "unat (paddr p - KERNBASE) = p * 4096 - 524288 * 4096"
    using \<open>KERNBASE \<le> paddr p\<close> u by (simp add: unat_sub_le kconst)
  then have "unat ((paddr p - KERNBASE) div PGSIZE) = p - 524288"
    using assms by (simp add: unat_div PGSIZE_def)
  ultimately show ?thesis by (simp add: clear_rmap_def)
qed

lemma clear_run_rmap:
  assumes "524288 \<le> p" "p + n \<le> NREF"
  shows "clear_run p n s = s\<lparr>reverse_map := rmap_cleared p n (reverse_map s)\<rparr>"
  using assms
proof (induction n)
  case (Suc n)
  have "clear_run p (Suc n) s = clear_rmap (paddr (p + n)) (clear_run p n s)"
    by (simp add: clear_run_def paddr_add)
  also have "\<dots> = s\<lparr>reverse_map := (rmap_cleared p n (reverse_map s))(p + n - 524288 := \<lparr>rm_pagetable = 0, rm_va = 0\<rparr>)\<rparr>"
    using Suc by (simp add: clear_rmap_page)
  also have "(rmap_cleared p n (reverse_map s))(p + n - 524288 := \<lparr>rm_pagetable = 0, rm_va = 0\<rparr>) =
      rmap_cleared p (Suc n) (reverse_map s)"
  proof
    fix i
    have "i = p + n - 524288 \<longleftrightarrow> i + 524288 = p + n" using Suc.prems by linarith
    then show "((rmap_cleared p n (reverse_map s))(p + n - 524288 := \<lparr>rm_pagetable = 0, rm_va = 0\<rparr>)) i =
        rmap_cleared p (Suc n) (reverse_map s) i"
      by (auto simp: rmap_cleared_def)
  qed
  finally show ?case .
qed (simp add: clear_run_def)

definition free_post :: "'z kmem_scheme \<Rightarrow> (nat \<times> nat) list \<Rightarrow> nat \<Rightarrow> nat \<Rightarrow> 'z kmem_scheme \<Rightarrow> (nat \<times> nat) list \<Rightarrow> bool" where
  "free_post s bs n p s' bs' \<longleftrightarrow>
     kmem_inv s' bs' \<and> free_pages bs' = free_pages bs \<union> {p..<p + n} \<and>
     same_outside (free_pages bs \<union> {p..<p + n}) (ram s) (ram s') \<and>
     s' = s\<lparr>ram := ram s', freelist := freelist s', ref_count := on_run p n (\<lambda>_. 0) (ref_count s),
            reverse_map := rmap_cleared p n (reverse_map s)\<rparr>"

lemma kfree_guard:
  assumes "kend_ok s" "lo_page s \<le> p" "p + n \<le> NREF" "0 < n"
  shows "\<not> (paddr p mod PGSIZE \<noteq> 0 \<or> paddr p < kend s \<or> paddr p + of_nat n * PGSIZE > PHYSTOP)"
proof -
  have "\<not> paddr (p + n) > PHYSTOP" unfolding PHYSTOP_paddr using assms by (subst paddr_less) (simp_all add: NREF_eq)
  moreover have "paddr p mod PGSIZE = 0" using assms by (simp add: NREF_eq)
  ultimately show ?thesis using assms lo_page_kend [of s p] by (simp add: paddr_add)
qed

lemma kfree_contig_last:
  assumes inv: "kmem_inv s bs" and n: "0 < n" and p: "lo_page s \<le> p" "p + n \<le> NREF"
    and refs: "\<forall>i\<in>{p..<p + n}. ref_count s i = 1"
  shows "\<exists>s'. kfree_contig (paddr p) n s = Ok s' \<and> free_post s bs n p s' (ins_blk p n bs)"
proof -
  have ok: "blocks_ok (lo_page s) NREF bs" and k: "kend_ok s" and free: "\<forall>i\<in>free_pages bs. ref_count s i = 0"
    using inv by (auto simp: kmem_inv_def)
  have lo: "524288 \<le> lo_page s" "0 < lo_page s" and hi: "NREF \<le> 2 ^ 20" using lo_page_bounds [OF k] by (auto simp: NREF_eq)
  have new: "{p..<p + n} \<inter> free_pages bs = {}" using refs free by fastforce
  have pg: "page_num p" "p + n \<le> 2 ^ 52" "n < 2 ^ 20" "524288 \<le> p" using p lo by (auto simp: NREF_eq)
  let ?s1 = "s\<lparr>ref_count := on_run p n (\<lambda>_. 0) (ref_count s)\<rparr>"
  have dec: "for_res [0..<n] (dec_ref (paddr p)) s = Ok ?s1"
  proof -
    have "on_run p n (\<lambda>c. c - 1) (ref_count s) = on_run p n (\<lambda>_. 0) (ref_count s)"
      using refs by (auto simp: on_run_def)
    then show ?thesis using dec_ref_run [OF p(2), of s] refs by simp
  qed
  let ?s2 = "?s1\<lparr>reverse_map := rmap_cleared p n (reverse_map s), ram := memset (ram s) (paddr p) 1 (of_nat (n * 4096))\<rparr>"
  have z: "\<not> (\<exists>i\<in>set [0..<n]. ref_count ?s1 (PA2IDX (paddr p + of_nat i * PGSIZE)) > 0)"
    using run_idx [OF p(2)] by (auto simp: on_run_def)
  moreover have "n = 1 \<Longrightarrow> ref_count ?s1 (PA2IDX (paddr p)) = 0" using pg by (simp add: on_run_def)
  ultimately have run: "kfree_contig (paddr p) n s = free_insert (paddr p) n ?s2"
    using kfree_guard [OF k p n] dec clear_run_rmap [OF pg(4) p(2), of ?s1] unfolding clear_run_def
    by (auto simp: kfree_contig_def Let_def)
  have ms: "same_outside {p..<p + n} (ram s) (ram ?s2)" using memset_outside [OF pg(1,3,2)] by simp
  have "kmem_inv ?s2 bs"
    by (rule kmem_inv_frame [OF inv ms new]) (use new in \<open>auto simp: on_run_def\<close>)
  then have seg2: "fl_seg (ram ?s2) (freelist ?s2) bs 0" by (simp add: kmem_inv_def)
  obtain s' where s': "free_insert (paddr p) n ?s2 = Ok s'" "fl_seg (ram s') (freelist s') (ins_blk p n bs) 0"
      "same_outside (free_pages bs \<union> {p..<p + n}) (ram ?s2) (ram s')" "only_list ?s2 s'"
    using free_insert_correct [OF seg2 ok hi lo(2) p(1) n p(2) new] by auto
  have e: "s' = ?s2\<lparr>ram := ram s', freelist := freelist s'\<rparr>" using s'(4) by (simp add: only_list_def)
  have f: "kend s' = kend s" "ref_count s' = on_run p n (\<lambda>_. 0) (ref_count s)" by (subst e, simp)+
  note ib = ins_blk_ok [OF ok n p(2) p(1) new]
  have "kmem_inv s' (ins_blk p n bs)"
    using s'(2) ib f k free by (auto simp: kmem_inv_def lo_page_def kend_ok_def on_run_def)
  moreover have "same_outside (free_pages bs \<union> {p..<p + n}) (ram s) (ram s')"
    using same_outside_trans [OF same_outside_mono [OF ms] s'(3)] by blast
  moreover have "s' = s\<lparr>ram := ram s', freelist := freelist s', ref_count := on_run p n (\<lambda>_. 0) (ref_count s),
      reverse_map := rmap_cleared p n (reverse_map s)\<rparr>" by (subst e) simp
  ultimately have "free_post s bs n p s' (ins_blk p n bs)" unfolding free_post_def using ib(2) by blast
  then show ?thesis using run s'(1) by auto
qed

lemma kfree_shared:
  assumes inv: "kmem_inv s bs" and p: "lo_page s \<le> p" "p < NREF" and ref: "1 < ref_count s p"
  shows "kfree (paddr p) s = Ok (s\<lparr>ref_count := (ref_count s)(p := ref_count s p - 1)\<rparr>)"
    and "kmem_inv (s\<lparr>ref_count := (ref_count s)(p := ref_count s p - 1)\<rparr>) bs"
proof -
  have k: "kend_ok s" and free: "\<forall>i\<in>free_pages bs. ref_count s i = 0" using inv by (auto simp: kmem_inv_def)
  have p1: "p + 1 \<le> NREF" and pg: "page_num p" using p by (auto simp: NREF_eq)
  have "on_run p 1 (\<lambda>c. c - 1) (ref_count s) = (ref_count s)(p := ref_count s p - 1)" by (auto simp: on_run_def)
  then have "for_res [0..<1] (dec_ref (paddr p)) s = Ok (s\<lparr>ref_count := (ref_count s)(p := ref_count s p - 1)\<rparr>)"
    using dec_ref_run [OF p1, of s] ref by simp
  then show "kfree (paddr p) s = Ok (s\<lparr>ref_count := (ref_count s)(p := ref_count s p - 1)\<rparr>)"
    unfolding kfree_def kfree_contig_def using kfree_guard [OF k p(1) p1] ref pg by simp
  show "kmem_inv (s\<lparr>ref_count := (ref_count s)(p := ref_count s p - 1)\<rparr>) bs"
    by (rule kmem_inv_frame [OF inv, where S = "{}"]) (use free ref in auto)
qed

section \<open>Initialisation\<close>

lemma freerange_loop_run:
  assumes "p + n \<le> NREF"
  shows "freerange_loop (paddr p) (paddr (p + n)) rc = Some (on_run p n (\<lambda>_. 1) rc)"
  using assms
proof (induction n arbitrary: p rc)
  case 0
  have "\<not> paddr (p + 1) \<le> paddr p" using 0 by (simp add: not_le paddr_less NREF_eq)
  then show ?case using paddr_add [of p 1] by (simp add: freerange_loop.simps)
next
  case (Suc n)
  have "paddr (p + 1) \<le> paddr (p + Suc n)"
    using Suc.prems paddr_less [of "p + Suc n" "p + 1"] by (simp add: not_less [symmetric] NREF_eq)
  then have "freerange_loop (paddr p) (paddr (p + Suc n)) rc =
      freerange_loop (paddr (Suc p)) (paddr (Suc p + n)) (rc(p := 1))"
    using Suc.prems paddr_add [of p 1] by (subst freerange_loop.simps) (simp add: NREF_eq)
  also have "\<dots> = Some (on_run (Suc p) n (\<lambda>_. 1) (rc(p := 1)))" using Suc.IH [of "Suc p"] Suc.prems by simp
  also have "on_run (Suc p) n (\<lambda>_. 1) (rc(p := 1)) = on_run p (Suc n) (\<lambda>_. 1) rc"
    by (auto simp: on_run_def)
  finally show ?case .
qed

lemma PGROUNDUP_kend: "kend_ok s \<Longrightarrow> PGROUNDUP (kend s) = paddr (lo_page s)"
  unfolding lo_page_def by (rule paddr_PA2IDX [symmetric], subst page_aligned_iff)
    (simp add: unat_PGROUNDUP kend_ok_def word_less_nat_alt kconst)

lemma kinit_inv:
  assumes k: "kend_ok s" and fl: "freelist s = 0"
  shows "\<exists>s'. kinit s = Ok s' \<and> kmem_inv s' [(lo_page s, NREF - lo_page s)] \<and>
    kend s' = kend s \<and> use_lock s' \<and> same_outside {lo_page s..<NREF} (ram s) (ram s') \<and>
    (\<forall>i<NREF. ref_count s' i = 0)"
proof -
  define p n where "p = lo_page s" and "n = NREF - lo_page s"
  have p: "524288 \<le> p" "p < NREF" "p + n = NREF" "0 < n" using lo_page_bounds [OF k] by (auto simp: p_def n_def)
  define s1 where "s1 = s\<lparr>use_lock := False,
    reverse_map := (\<lambda>i. if i < NRMAP then \<lparr>rm_pagetable = 0, rm_va = 0\<rparr> else reverse_map s i),
    ref_count := (\<lambda>i. if i < NREF then 0 else ref_count s i)\<rparr>"
  define s2 where "s2 = s1\<lparr>ref_count := on_run p n (\<lambda>_. 1) (ref_count s1)\<rparr>"
  have loop: "freerange_loop (PGROUNDUP (kend s1)) PHYSTOP (ref_count s1) = Some (ref_count s2)"
    using freerange_loop_run [of p n] p k PGROUNDUP_kend [OF k]
    by (simp add: s2_def s1_def PHYSTOP_paddr NREF_eq [symmetric] p_def)
  have "unat (PHYSTOP - paddr p) = n * 4096"
    unfolding PHYSTOP_paddr using p by (subst unat_sub_le) (simp_all add: word_le_nat_alt unat_paddr NREF_eq)
  then have num: "unat ((PHYSTOP - PGROUNDUP (kend s1)) div PGSIZE) = n"
    using PGROUNDUP_kend [OF k] by (simp add: s1_def p_def unat_div PGSIZE_def)
  have "kmem_inv s2 []" using fl k by (simp add: kmem_inv_def s2_def s1_def kend_ok_def)
  moreover have lo2: "lo_page s2 = p" by (simp add: s2_def s1_def p_def lo_page_def)
  ultimately obtain s' where s': "kfree_contig (paddr p) n s2 = Ok s'" "free_post s2 [] n p s' (ins_blk p n [])"
    using kfree_contig_last [of s2 "[]" n p] p by (auto simp: s2_def on_run_def)
  have "kinit s = Ok (s'\<lparr>use_lock := True\<rparr>)"
    using loop num s'(1) PGROUNDUP_kend [OF k]
    by (simp add: kinit_def freerange_def s1_def [symmetric] s2_def Let_def) (simp add: s1_def p_def s2_def)
  moreover have "ins_blk p n [] = [(p, n)]" by (simp add: ins_blk_def join_left_def join_right_def)
  moreover have e: "s' = s2\<lparr>ram := ram s', freelist := freelist s', ref_count := on_run p n (\<lambda>_. 0) (ref_count s2),
      reverse_map := rmap_cleared p n (reverse_map s2)\<rparr>" using s'(2) unfolding free_post_def by blast
  moreover have "kend s' = kend s" by (subst e) (simp add: s2_def s1_def)
  moreover have "kmem_inv s' [(p, n)]" "same_outside {p..<NREF} (ram s2) (ram s')"
    using s'(2) p(3) calculation(2) unfolding free_post_def by simp_all
  moreover have "ram s2 = ram s" by (simp add: s2_def s1_def)
  moreover have "\<forall>i<NREF. ref_count s' i = 0" by (subst e) (auto simp: on_run_def s2_def s1_def)
  ultimately show ?thesis unfolding n_def [symmetric] unfolding p_def [symmetric]
    by (auto simp: kmem_inv_def lo_page_def kend_ok_def)
qed

text \<open>A call of \<open>kfree_contig\<close> that returns had only referenced pages, and either dropped one of
  several references of a single page or freed a run whose pages had one each.\<close>

lemma kfree_contig_Ok_cases:
  assumes inv: "kmem_inv s bs" and n: "0 < n" and p: "lo_page s \<le> p" "p + n \<le> NREF"
    and ok: "kfree_contig (paddr p) n s = Ok s'"
  obtains (shared) "n = 1" "1 < ref_count s p" "s' = s\<lparr>ref_count := (ref_count s)(p := ref_count s p - 1)\<rparr>" "kmem_inv s' bs"
  | (freed) "\<forall>i\<in>{p..<p + n}. ref_count s i = 1" "free_post s bs n p s' (ins_blk p n bs)"
proof -
  have k: "kend_ok s" using inv by (simp add: kmem_inv_def)
  have pos: "\<forall>i\<in>{p..<p + n}. 0 < ref_count s i"
  proof (rule ccontr)
    assume "\<not> ?thesis"
    then obtain i where i: "i \<in> {p..<p + n}" "ref_count s i \<le> 0" by fastforce
    show False using dec_ref_run_panics [OF p(2) i] ok kfree_guard [OF k p n] by (simp add: kfree_contig_def)
  qed
  have pg: "page_num p" using p n by (simp add: NREF_eq)
  show thesis
  proof (cases "n = 1 \<and> 1 < ref_count s p")
    case True
    then have "kfree (paddr p) s = Ok s'" using ok by (simp add: kfree_def)
    then show thesis using shared True kfree_shared [OF inv p(1)] p(2) by simp
  next
    case False
    have "ref_count s i = 1" if i: "i \<in> {p..<p + n}" for i
    proof (rule ccontr)
      assume "ref_count s i \<noteq> 1"
      then have big: "1 < ref_count s i" using pos i by fastforce
      have n1: "1 < n" using False big i n by (cases "n = 1") auto
      obtain j where j: "i = p + j" "j < n" using i by (metis atLeastLessThan_iff le_iff_add nat_add_left_cancel_less)
      let ?s1 = "s\<lparr>ref_count := on_run p n (\<lambda>c. c - 1) (ref_count s)\<rparr>"
      have "\<exists>i\<in>set [0..<n]. ref_count ?s1 (PA2IDX (paddr p + of_nat i * PGSIZE)) > 0"
        using j big run_idx [OF p(2) j(2)] by (intro bexI [of _ j]) (auto simp: on_run_def)
      then show False using ok dec_ref_run [OF p(2) pos] kfree_guard [OF k p n] n1
        by (simp add: kfree_contig_def)
    qed
    then show thesis using freed kfree_contig_last [OF inv n p] ok by auto
  qed
qed

end
