(* ===== verification/Palloc.thy ===== *)
theory Palloc
  imports Kalloc_Inv
begin

text \<open>
  The contract of the page allocator as its clients see it: a set of free pages, an owner
  for every other page, and single-page \<open>kalloc\<close>/\<open>kfree\<close> that move one page between
  them. The locale \<open>page_allocator\<close> states it over any state that carries a memory; the
  interpretation \<open>kpa\<close> proves it for \<^verbatim>\<open>kernel/kalloc.c\<close>.
\<close>

section \<open>The free set as a function of the state\<close>

definition kwf :: "'z kmem_scheme \<Rightarrow> bool" where "kwf s \<longleftrightarrow> (\<exists>bs. kmem_inv s bs)"

definition free_of :: "'z kmem_scheme \<Rightarrow> nat set" where
  "free_of s = {i. \<exists>bs. kmem_inv s bs \<and> i \<in> free_pages bs}"

lemma fl_seg_unique:
  assumes "fl_seg m a bs 0" "fl_seg m a cs 0" "blocks_small bs" "blocks_small cs"
  shows "bs = cs"
  using assms
proof (induction bs arbitrary: a cs)
  case Nil
  then show ?case by (cases cs) (auto simp: blocks_small_def paddr_0)
next
  case (Cons b bs)
  obtain p n where b: "b = (p, n)" by (cases b)
  have p: "0 < p" "page_num p" "n < 2 ^ 20" using Cons.prems(3) b by (auto simp: blocks_small_def)
  then have "a \<noteq> 0" using Cons.prems(1) b by (simp add: paddr_0)
  then obtain q k ds where cs: "cs = (q, k) # ds" using Cons.prems(2) by (cases cs) auto
  have q: "page_num q" "k < 2 ^ 20" using Cons.prems(4) cs by (auto simp: blocks_small_def)
  have "paddr p = paddr q" using Cons.prems(1,2) b cs by simp
  then have "p = q" using p q paddr_inj by blast
  moreover from this have "(of_nat n :: u32) = of_nat k" using Cons.prems(1,2) b cs by simp
  then have "n = k" using p q of_nat_word_inj [where 'a = 32, of n k] by simp
  ultimately show ?case using Cons.IH [of "nxt m p" ds] Cons.prems b cs by (auto simp: blocks_small_def)
qed

lemma kmem_inv_small: "kmem_inv s bs \<Longrightarrow> blocks_small bs"
  using lo_page_bounds [of s] by (auto simp: kmem_inv_def NREF_eq intro!: blocks_ok_small [of "lo_page s" NREF])

lemma kmem_inv_unique: "kmem_inv s bs \<Longrightarrow> kmem_inv s cs \<Longrightarrow> bs = cs"
  using fl_seg_unique [of "ram s" "freelist s" bs cs] kmem_inv_small [of s bs] kmem_inv_small [of s cs]
  by (simp add: kmem_inv_def)

lemma free_of_eq: "kmem_inv s bs \<Longrightarrow> free_of s = free_pages bs"
  unfolding free_of_def using kmem_inv_unique by blast

definition managed :: "'z kmem_scheme \<Rightarrow> addr \<Rightarrow> bool" where
  "managed s a \<longleftrightarrow> a mod PGSIZE = 0 \<and> lo_page s \<le> PA2IDX a \<and> PA2IDX a < NREF"

lemma managed_nonzero: "kwf s \<Longrightarrow> managed s a \<Longrightarrow> a \<noteq> 0"
  using lo_page_bounds by (fastforce simp: kwf_def kmem_inv_def managed_def PA2IDX_unat)

section \<open>The interface\<close>

locale page_allocator =
  fixes wf :: "'s \<Rightarrow> bool" and avail :: "'s \<Rightarrow> nat set" and owned_range :: "'s \<Rightarrow> addr \<Rightarrow> bool"
    and mem :: "'s \<Rightarrow> memory" and set_mem :: "memory \<Rightarrow> 's \<Rightarrow> 's" and refs :: "'s \<Rightarrow> nat \<Rightarrow> int"
    and alloc :: "'s \<Rightarrow> (addr \<times> 's) res" and dealloc :: "addr \<Rightarrow> 's \<Rightarrow> 's res"
  assumes alloc_empty: "wf s \<Longrightarrow> avail s = {} \<Longrightarrow> alloc s = Ok (0, s)"
    and alloc_some: "wf s \<Longrightarrow> avail s \<noteq> {} \<Longrightarrow> \<exists>a s'. alloc s = Ok (a, s') \<and> a \<noteq> 0 \<and>
        wf s' \<and> owned_range s a \<and> PA2IDX a \<in> avail s \<and> avail s' = avail s - {PA2IDX a} \<and>
        same_outside (avail s) (mem s) (mem s') \<and> refs s' = (refs s)(PA2IDX a := 1) \<and>
        owned_range s' = owned_range s"
    and dealloc_last: "wf s \<Longrightarrow> owned_range s a \<Longrightarrow> refs s (PA2IDX a) = 1 \<Longrightarrow> \<exists>s'. dealloc a s = Ok s' \<and>
        wf s' \<and> avail s' = insert (PA2IDX a) (avail s) \<and> same_outside (avail s') (mem s) (mem s') \<and>
        refs s' = (refs s)(PA2IDX a := 0) \<and> owned_range s' = owned_range s"
    and dealloc_shared: "wf s \<Longrightarrow> owned_range s a \<Longrightarrow> 1 < refs s (PA2IDX a) \<Longrightarrow> \<exists>s'. dealloc a s = Ok s' \<and>
        wf s' \<and> avail s' = avail s \<and> mem s' = mem s \<and>
        refs s' = (refs s)(PA2IDX a := refs s (PA2IDX a) - 1) \<and> owned_range s' = owned_range s"
    and dealloc_dead: "wf s \<Longrightarrow> owned_range s a \<Longrightarrow> refs s (PA2IDX a) \<le> 0 \<Longrightarrow> \<exists>e. dealloc a s = Panic e"
    and avail_refs: "wf s \<Longrightarrow> i \<in> avail s \<Longrightarrow> refs s i = 0"
    and avail_finite: "wf s \<Longrightarrow> finite (avail s)"
    and write_frame: "wf s \<Longrightarrow> same_outside S (mem s) m \<Longrightarrow> S \<inter> avail s = {} \<Longrightarrow>
        wf (set_mem m s) \<and> avail (set_mem m s) = avail s"
    and mem_set_mem: "mem (set_mem m s) = m" and refs_set_mem: "refs (set_mem m s) = refs s"
    and range_set_mem: "owned_range (set_mem m s) = owned_range s"
begin

lemma alloc_total: "wf s \<Longrightarrow> \<exists>a s'. alloc s = Ok (a, s')"
  using alloc_empty alloc_some by (cases "avail s = {}") blast+

lemma alloc_cases:
  assumes "wf s" "alloc s = Ok (a, s')"
  obtains (fail) "a = 0" "s' = s" "avail s = {}"
  | (got) "a \<noteq> 0" "wf s'" "owned_range s a" "PA2IDX a \<in> avail s" "avail s' = avail s - {PA2IDX a}"
      "same_outside (avail s) (mem s) (mem s')" "refs s' = (refs s)(PA2IDX a := 1)"
      "owned_range s' = owned_range s"
  using assms alloc_empty [of s] alloc_some [of s] by (cases "avail s = {}") auto

lemma alloc_wf: "wf s \<Longrightarrow> alloc s = Ok (a, s') \<Longrightarrow> wf s'"
  using alloc_cases by metis

text \<open>A page that is referenced is never handed out again, and its contents survive.\<close>

lemma alloc_fresh:
  assumes "wf s" "alloc s = Ok (a, s')" "a \<noteq> 0" "0 < refs s i"
  shows "i \<noteq> PA2IDX a" and "refs s' i = refs s i" and "PA2IDX b = i \<Longrightarrow> mem s' b = mem s b"
  using assms(1,2) assms(3,4) avail_refs [OF assms(1)]
  by (cases rule: alloc_cases; force simp: same_outside_def)+

lemma alloc_twice_distinct:
  assumes "wf s" "alloc s = Ok (a, s1)" "a \<noteq> 0" "alloc s1 = Ok (b, s2)" "b \<noteq> 0"
  shows "PA2IDX a \<noteq> PA2IDX b" and "a \<noteq> b"
proof -
  have "wf s1" "refs s1 (PA2IDX a) = 1" using assms(1,2,3) by (cases rule: alloc_cases; auto)+
  then show "PA2IDX a \<noteq> PA2IDX b" using alloc_fresh(1) [OF _ assms(4,5)] by simp
  then show "a \<noteq> b" by blast
qed

text \<open>Giving a fresh page back restores the free set and every count.\<close>

lemma alloc_dealloc:
  assumes "wf s" "alloc s = Ok (a, s1)" "a \<noteq> 0"
  shows "\<exists>s2. dealloc a s1 = Ok s2 \<and> wf s2 \<and> avail s2 = avail s \<and> refs s2 = refs s"
  using assms(1,2)
proof (cases rule: alloc_cases)
  case got
  then obtain s2 where "dealloc a s1 = Ok s2" "wf s2" "avail s2 = insert (PA2IDX a) (avail s1)"
      "refs s2 = (refs s1)(PA2IDX a := 0)"
    using dealloc_last [of s1 a] by auto
  then show ?thesis using got avail_refs [OF assms(1) got(4)] by (auto simp: fun_eq_iff)
qed (use assms in simp)

end

section \<open>The allocator of the kernel\<close>

lemma kalloc_empty:
  assumes "kwf s" "free_of s = {}"
  shows "kalloc s = Ok (0, s)"
proof -
  obtain bs where inv: "kmem_inv s bs" using assms(1) by (auto simp: kwf_def)
  then have e: "free_pages bs = {}" using assms(2) free_of_eq by blast
  have "\<not> fits 1 bs"
  proof
    assume "fits 1 bs"
    then obtain q k where "(q, k) \<in> set bs" "1 \<le> k" by (auto simp: fits_def)
    then show False using mem_free_pages [of q k bs] e by simp
  qed
  then show ?thesis using kalloc_contig_none [OF inv, of 1] by (simp add: kalloc_def)
qed

lemma on_run_1: "on_run p 1 f rc = rc(p := f (rc p))"
  by (auto simp: on_run_def)

lemma kalloc_some:
  assumes "kwf s" "free_of s \<noteq> {}"
  shows "\<exists>a s'. kalloc s = Ok (a, s') \<and> a \<noteq> 0 \<and> kwf s' \<and> managed s a \<and> PA2IDX a \<in> free_of s \<and>
    free_of s' = free_of s - {PA2IDX a} \<and> same_outside (free_of s) (ram s) (ram s') \<and>
    ref_count s' = (ref_count s)(PA2IDX a := 1) \<and> managed s' = managed s"
proof -
  obtain bs where inv: "kmem_inv s bs" using assms(1) by (auto simp: kwf_def)
  have free: "free_of s = free_pages bs" using free_of_eq [OF inv] .
  have "fits 1 bs" using assms(2) free unfolding fits_def free_pages_def by fastforce
  then obtain xs p k ys s' where r: "kalloc_contig 1 s = Ok (paddr p, s')" "alloc_post s bs 1 p s' (take_blk xs p k 1 ys)"
    using kalloc_contig_some [OF inv, of 1] by (metis one_less_numeral_iff one_less_power semiring_norm(76) zero_less_numeral zero_less_one)
  then have inv': "kmem_inv s' (take_blk xs p k 1 ys)" and p: "lo_page s \<le> p" "p < NREF" "p \<in> free_pages bs"
      and fp: "free_pages (take_blk xs p k 1 ys) = free_pages bs - {p}"
      and out: "same_outside (free_pages bs) (ram s) (ram s')"
      and e: "s' = s\<lparr>ram := ram s', freelist := freelist s', ref_count := (ref_count s)(p := 1)\<rparr>"
    unfolding alloc_post_def on_run_1 by auto
  have pg: "page_num p" "PA2IDX (paddr p) = p" using p by (simp_all add: NREF_eq)
  have f: "kend s' = kend s" "ref_count s' = (ref_count s)(p := 1)" by (subst e, simp)+
  have m: "managed s (paddr p)" using p pg by (simp add: managed_def)
  show ?thesis using r(1) inv' p fp out f m pg free free_of_eq [OF inv'] managed_nonzero [OF assms(1) m]
    by (intro exI [of _ "paddr p"] exI [of _ s']) (auto simp: kalloc_def kwf_def managed_def lo_page_def)
qed

lemma kfree_last:
  assumes "kwf s" "managed s a" "ref_count s (PA2IDX a) = 1"
  shows "\<exists>s'. kfree a s = Ok s' \<and> kwf s' \<and> free_of s' = insert (PA2IDX a) (free_of s) \<and>
    same_outside (free_of s') (ram s) (ram s') \<and> ref_count s' = (ref_count s)(PA2IDX a := 0) \<and> managed s' = managed s"
proof -
  obtain bs where inv: "kmem_inv s bs" using assms(1) by (auto simp: kwf_def)
  define p where "p = PA2IDX a"
  have a: "a = paddr p" using assms(2) paddr_PA2IDX [of a] by (simp add: managed_def p_def)
  obtain s' where r: "kfree_contig (paddr p) 1 s = Ok s'" "free_post s bs 1 p s' (ins_blk p 1 bs)"
    using kfree_contig_last [OF inv, of 1 p] assms by (auto simp: managed_def p_def [symmetric])
  have e: "s' = s\<lparr>ram := ram s', freelist := freelist s', ref_count := (ref_count s)(p := 0),
        reverse_map := rmap_cleared p 1 (reverse_map s)\<rparr>" and inv': "kmem_inv s' (ins_blk p 1 bs)"
      and fp: "free_pages (ins_blk p 1 bs) = insert p (free_pages bs)"
      and out: "same_outside (insert p (free_pages bs)) (ram s) (ram s')"
    using r(2) unfolding free_post_def on_run_1 by simp_all
  have f: "kend s' = kend s" "ref_count s' = (ref_count s)(p := 0)" by (subst e, simp)+
  show ?thesis using r(1) inv' fp out f a free_of_eq [OF inv] free_of_eq [OF inv'] unfolding p_def [symmetric]
    by (auto simp: kfree_def kwf_def managed_def lo_page_def)
qed

lemma kfree_dead:
  assumes "kwf s" "managed s a" "ref_count s (PA2IDX a) \<le> 0"
  shows "kfree a s = Panic ''kfree_contig: ref_count already zero''"
proof -
  obtain bs where inv: "kmem_inv s bs" using assms(1) by (auto simp: kwf_def)
  define p where "p = PA2IDX a"
  have a: "a = paddr p" and p: "lo_page s \<le> p" "p + 1 \<le> NREF"
    using assms(2) paddr_PA2IDX [of a] by (simp_all add: managed_def p_def)
  have "for_res [0..<1] (dec_ref (paddr p)) s = Panic ''kfree_contig: ref_count already zero''"
    using dec_ref_run_panics [OF p(2), of p s] assms(3) p_def by simp
  then show ?thesis using kfree_guard [of s p 1] inv p
    by (simp add: kfree_def kfree_contig_def a kmem_inv_def)
qed

interpretation kpa: page_allocator kwf free_of managed ram "\<lambda>m s. s\<lparr>ram := m\<rparr>" ref_count kalloc kfree
proof
  fix s :: "'a kmem_scheme" and a i S m
  show "kwf s \<Longrightarrow> managed s a \<Longrightarrow> 1 < ref_count s (PA2IDX a) \<Longrightarrow> \<exists>s'. kfree a s = Ok s' \<and> kwf s' \<and>
      free_of s' = free_of s \<and> ram s' = ram s \<and>
      ref_count s' = (ref_count s)(PA2IDX a := ref_count s (PA2IDX a) - 1) \<and> managed s' = managed s"
  proof -
    assume h: "kwf s" "managed s a" "1 < ref_count s (PA2IDX a)"
    then obtain bs where inv: "kmem_inv s bs" by (auto simp: kwf_def)
    have a: "paddr (PA2IDX a) = a" using h(2) paddr_PA2IDX by (simp add: managed_def)
    note k = kfree_shared [OF inv _ _ h(3)]
    show ?thesis using k h(2) free_of_eq [OF inv] free_of_eq [OF k(2)] a
      by (auto simp: kwf_def managed_def lo_page_def)
  qed
  show "kwf s \<Longrightarrow> i \<in> free_of s \<Longrightarrow> ref_count s i = 0"
    by (auto simp: kwf_def free_of_def kmem_inv_def)
  show "kwf s \<Longrightarrow> finite (free_of s)"
    by (auto simp: kwf_def free_of_eq) (auto simp: free_pages_def)
  show "kwf s \<Longrightarrow> same_outside S (ram s) m \<Longrightarrow> S \<inter> free_of s = {} \<Longrightarrow>
      kwf (s\<lparr>ram := m\<rparr>) \<and> free_of (s\<lparr>ram := m\<rparr>) = free_of s"
  proof -
    assume h: "kwf s" "same_outside S (ram s) m" "S \<inter> free_of s = {}"
    then obtain bs where inv: "kmem_inv s bs" by (auto simp: kwf_def)
    have "kmem_inv (s\<lparr>ram := m\<rparr>) bs"
      by (rule kmem_inv_frame [OF inv]) (use h free_of_eq [OF inv] in auto)
    then show ?thesis using free_of_eq [OF inv] free_of_eq [of "s\<lparr>ram := m\<rparr>" bs] by (auto simp: kwf_def)
  qed
  show "kwf s \<Longrightarrow> managed s a \<Longrightarrow> ref_count s (PA2IDX a) \<le> 0 \<Longrightarrow> \<exists>e. kfree a s = Panic e"
    using kfree_dead by blast
  show "managed (s\<lparr>ram := m\<rparr>) = managed s" by (auto simp: managed_def lo_page_def)
qed (simp_all add: kalloc_empty kalloc_some kfree_last)

lemma kalloc_kend:
  assumes "kwf s" "kalloc s = Ok (a, s')"
  shows "kend s' = kend s"
proof -
  obtain bs where inv: "kmem_inv s bs" using assms(1) by (auto simp: kwf_def)
  show ?thesis
  proof (cases "fits 1 bs")
    case False
    then show ?thesis using kalloc_contig_none [OF inv, of 1] assms(2) by (simp add: kalloc_def)
  next
    case True
    then obtain xs p k ys s'' where r: "kalloc_contig 1 s = Ok (paddr p, s'')" "alloc_post s bs 1 p s'' (take_blk xs p k 1 ys)"
      using kalloc_contig_some [OF inv, of 1] by (metis one_less_numeral_iff one_less_power semiring_norm(76) zero_less_numeral zero_less_one)
    have e: "s'' = s\<lparr>ram := ram s'', freelist := freelist s'', ref_count := on_run p 1 (\<lambda>_. 1) (ref_count s)\<rparr>"
      using r(2) unfolding alloc_post_def by blast
    have "kend s'' = kend s" by (subst e) simp
    then show ?thesis using r(1) assms(2) by (simp add: kalloc_def)
  qed
qed

lemma kalloc_got:
  assumes "kwf s" "kalloc s = Ok (a, s')" "a \<noteq> 0"
  shows "kwf s'" "managed s a" "PA2IDX a \<in> free_of s" "free_of s' = free_of s - {PA2IDX a}"
    "same_outside (free_of s) (ram s) (ram s')" "ref_count s' = (ref_count s)(PA2IDX a := 1)"
    "managed s' = managed s" "kend s' = kend s"
proof -
  show "kend s' = kend s" by (rule kalloc_kend [OF assms(1,2)])
  have "kwf s' \<and> managed s a \<and> PA2IDX a \<in> free_of s \<and> free_of s' = free_of s - {PA2IDX a} \<and>
      same_outside (free_of s) (ram s) (ram s') \<and> ref_count s' = (ref_count s)(PA2IDX a := 1) \<and> managed s' = managed s"
    using assms(1,2) by (cases rule: kpa.alloc_cases) (use assms(3) in auto)
  then show "kwf s'" "managed s a" "PA2IDX a \<in> free_of s" "free_of s' = free_of s - {PA2IDX a}"
    "same_outside (free_of s) (ram s) (ram s')" "ref_count s' = (ref_count s)(PA2IDX a := 1)"
    "managed s' = managed s" by blast+
qed

end
