(* ===== verification/Vm.thy ===== *)
theory Vm
  imports Palloc
begin

text \<open>
  \<^verbatim>\<open>kernel/vm.c\<close>: Sv39 page tables in physical memory, user address spaces with
  copy-on-write sharing and lazy allocation, and the copies between kernel and user memory.
  A page table is the address of its root page; every operation works on the memory of the
  allocator state, and returns the C result with the new state.

  \<open>vmfault\<close> reads \<^verbatim>\<open>myproc()->sz\<close>: the model passes it as an argument \<open>psz\<close>, and so do the
  copies that call it. TLB maintenance and the \<^verbatim>\<open>satp\<close> register are not modelled.
\<close>

section \<open>Walking the tree\<close>

definition pte_addr :: "addr \<Rightarrow> nat \<Rightarrow> addr \<Rightarrow> addr" where
  "pte_addr pagetable level va = pagetable + 8 * PX level va"

definition get_pte :: "addr \<Rightarrow> 'z kmem_scheme \<Rightarrow> u64" where "get_pte pte s = load64 (ram s) pte"

definition set_pte :: "addr \<Rightarrow> u64 \<Rightarrow> 'z kmem_scheme \<Rightarrow> 'z kmem_scheme" where
  "set_pte pte v s = s\<lparr>ram := store64 (ram s) pte v\<rparr>"

definition zero_page :: "addr \<Rightarrow> 'z kmem_scheme \<Rightarrow> 'z kmem_scheme" where
  "zero_page pa s = s\<lparr>ram := memset (ram s) pa 0 4096\<rparr>"

text \<open>\<^verbatim>\<open>for(int level = 2; level > 0; level--)\<close>\<close>

primrec walk_loop :: "nat \<Rightarrow> addr \<Rightarrow> addr \<Rightarrow> bool \<Rightarrow> 'z kmem_scheme \<Rightarrow> (addr \<times> 'z kmem_scheme) res" where
  "walk_loop 0 pagetable va alloc s = Ok (pte_addr pagetable 0 va, s)"
| "walk_loop (Suc l) pagetable va alloc s =
     (let pte = pte_addr pagetable (Suc l) va in
      if get_pte pte s AND PTE_V \<noteq> 0 then walk_loop l (PTE2PA (get_pte pte s)) va alloc s
      else if \<not> alloc then Ok (0, s)
      else bnd (kalloc s) (\<lambda>(pg, s).
        if pg = 0 then Ok (0, s)
        else walk_loop l pg va alloc (set_pte pte (PA2PTE pg OR PTE_V) (zero_page pg s))))"

definition walk :: "addr \<Rightarrow> addr \<Rightarrow> bool \<Rightarrow> 'z kmem_scheme \<Rightarrow> (addr \<times> 'z kmem_scheme) res" where
  "walk pagetable va alloc s = panic_if (va \<ge> MAXVA) ''walk'' (walk_loop 2 pagetable va alloc s)"

definition walkaddr :: "addr \<Rightarrow> addr \<Rightarrow> 'z kmem_scheme \<Rightarrow> addr res" where
  "walkaddr pagetable va s =
     (if va \<ge> MAXVA then Ok 0
      else bnd (walk pagetable va False s) (\<lambda>(pte, s).
        if pte = 0 then Ok 0
        else if get_pte pte s AND PTE_V = 0 then Ok 0
        else if get_pte pte s AND PTE_U = 0 then Ok 0
        else Ok (PTE2PA (get_pte pte s))))"

section \<open>Installing and removing mappings\<close>

text \<open>
  \<open>mappages\<close> stops at \<^verbatim>\<open>a == last\<close>, which is reached after \<^verbatim>\<open>size/PGSIZE\<close> turns: that is
  the fuel it starts with.
\<close>

primrec mappages_loop ::
  "nat \<Rightarrow> addr \<Rightarrow> addr \<Rightarrow> addr \<Rightarrow> addr \<Rightarrow> u64 \<Rightarrow> 'z kmem_scheme \<Rightarrow> (int \<times> 'z kmem_scheme) res" where
  "mappages_loop 0 pagetable a last_a pa perm s = Diverge"
| "mappages_loop (Suc k) pagetable a last_a pa perm s =
     bnd (walk pagetable a True s) (\<lambda>(pte, s).
     if pte = 0 then Ok (- 1, s)
     else panic_if (get_pte pte s AND PTE_V \<noteq> 0) ''mappages: remap'' (
       let s1 = set_pte pte (PA2PTE pa OR perm OR PTE_V) s;
           s2 = (if perm AND PTE_U \<noteq> 0 then record_rmap pa pagetable a s1 else s1)
       in if a = last_a then Ok (0, s2)
          else mappages_loop k pagetable (a + PGSIZE) last_a (pa + PGSIZE) perm s2))"

definition mappages :: "addr \<Rightarrow> addr \<Rightarrow> u64 \<Rightarrow> addr \<Rightarrow> u64 \<Rightarrow> 'z kmem_scheme \<Rightarrow> (int \<times> 'z kmem_scheme) res" where
  "mappages pagetable va sz pa perm s =
     panic_if (va mod PGSIZE \<noteq> 0) ''mappages: va not aligned'' (
     panic_if (sz mod PGSIZE \<noteq> 0) ''mappages: size not aligned'' (
     panic_if (sz = 0) ''mappages: size'' (
     mappages_loop (unat (sz div PGSIZE)) pagetable va (va + sz - PGSIZE) pa perm s)))"

definition kvmmap :: "addr \<Rightarrow> addr \<Rightarrow> addr \<Rightarrow> u64 \<Rightarrow> u64 \<Rightarrow> 'z kmem_scheme \<Rightarrow> 'z kmem_scheme res" where
  "kvmmap kpgtbl va pa sz perm s =
     bnd (mappages kpgtbl va sz pa perm s) (\<lambda>(r, s). panic_if (r \<noteq> 0) ''kvmmap'' (Ok s))"

definition UART0 :: addr where "UART0 = 0x10000000"
definition VIRTIO0 :: addr where "VIRTIO0 = 0x10001000"
definition PLIC :: addr where "PLIC = 0x0c000000"

definition proc_mapstack :: "addr \<Rightarrow> nat \<Rightarrow> 'z kmem_scheme \<Rightarrow> 'z kmem_scheme res" where
  "proc_mapstack kpgtbl i s =
     bnd (kalloc s) (\<lambda>(pa, s).
     panic_if (pa = 0) ''kalloc'' (kvmmap kpgtbl (KSTACK i) pa PGSIZE (PTE_R OR PTE_W) s))"

definition proc_mapstacks :: "addr \<Rightarrow> 'z kmem_scheme \<Rightarrow> 'z kmem_scheme res" where
  "proc_mapstacks kpgtbl s = for_res [0..<NPROC] (proc_mapstack kpgtbl) s"

text \<open>\<^verbatim>\<open>etext\<close> and \<^verbatim>\<open>trampoline\<close> are linker symbols; a null result of \<^verbatim>\<open>kalloc\<close> is not checked.\<close>

definition kvmmake :: "addr \<Rightarrow> addr \<Rightarrow> 'z kmem_scheme \<Rightarrow> (addr \<times> 'z kmem_scheme) res" where
  "kvmmake etext trampoline s =
     bnd (kalloc s) (\<lambda>(kpgtbl, s). undef_if (kpgtbl = 0) (
     bnd (kvmmap kpgtbl UART0 UART0 PGSIZE (PTE_R OR PTE_W) (zero_page kpgtbl s)) (\<lambda>s.
     bnd (kvmmap kpgtbl VIRTIO0 VIRTIO0 PGSIZE (PTE_R OR PTE_W) s) (\<lambda>s.
     bnd (kvmmap kpgtbl PLIC PLIC 0x4000000 (PTE_R OR PTE_W) s) (\<lambda>s.
     bnd (kvmmap kpgtbl KERNBASE KERNBASE (etext - KERNBASE) (PTE_R OR PTE_X) s) (\<lambda>s.
     bnd (kvmmap kpgtbl etext etext (PHYSTOP - etext) (PTE_R OR PTE_W) s) (\<lambda>s.
     bnd (kvmmap kpgtbl TRAMPOLINE trampoline PGSIZE (PTE_R OR PTE_X) s) (\<lambda>s.
     bnd (proc_mapstacks kpgtbl s) (\<lambda>s. Ok (kpgtbl, s))))))))))"

definition uvmcreate :: "'z kmem_scheme \<Rightarrow> (addr \<times> 'z kmem_scheme) res" where
  "uvmcreate s = bnd (kalloc s) (\<lambda>(pagetable, s).
     if pagetable = 0 then Ok (0, s) else Ok (pagetable, zero_page pagetable s))"

definition unmap_one :: "addr \<Rightarrow> addr \<Rightarrow> bool \<Rightarrow> 'z kmem_scheme \<Rightarrow> 'z kmem_scheme res" where
  "unmap_one pagetable a do_free s =
     bnd (walk pagetable a False s) (\<lambda>(pte, s).
     if pte = 0 then Ok s
     else if get_pte pte s AND PTE_V = 0 then Ok s
     else bnd (if do_free then kfree (PTE2PA (get_pte pte s)) s else Ok s) (\<lambda>s. Ok (set_pte pte 0 s)))"

text \<open>
  \<^verbatim>\<open>for(a = va; a < va + npages*PGSIZE; a += PGSIZE)\<close> runs at most \<open>npages\<close> times (not at all
  when the end wraps around).
\<close>

primrec uvmunmap_loop :: "nat \<Rightarrow> addr \<Rightarrow> addr \<Rightarrow> addr \<Rightarrow> bool \<Rightarrow> 'z kmem_scheme \<Rightarrow> 'z kmem_scheme res" where
  "uvmunmap_loop 0 pagetable a e do_free s = (if a < e then Diverge else Ok s)"
| "uvmunmap_loop (Suc k) pagetable a e do_free s =
     (if a < e
      then bnd (unmap_one pagetable a do_free s) (\<lambda>s. uvmunmap_loop k pagetable (a + PGSIZE) e do_free s)
      else Ok s)"

definition uvmunmap :: "addr \<Rightarrow> addr \<Rightarrow> u64 \<Rightarrow> bool \<Rightarrow> 'z kmem_scheme \<Rightarrow> 'z kmem_scheme res" where
  "uvmunmap pagetable va npages do_free s =
     panic_if (va mod PGSIZE \<noteq> 0) ''uvmunmap: not aligned''
       (uvmunmap_loop (unat npages) pagetable va (va + npages * PGSIZE) do_free s)"

text \<open>The page count of \<open>uvmdealloc\<close> is an \<^verbatim>\<open>int\<close>, sign-extended when passed on.\<close>

definition uvmdealloc :: "addr \<Rightarrow> u64 \<Rightarrow> u64 \<Rightarrow> 'z kmem_scheme \<Rightarrow> (u64 \<times> 'z kmem_scheme) res" where
  "uvmdealloc pagetable oldsz newsz s =
     (if newsz \<ge> oldsz then Ok (oldsz, s)
      else if PGROUNDUP newsz < PGROUNDUP oldsz
      then let npages = (ucast ((PGROUNDUP oldsz - PGROUNDUP newsz) div PGSIZE) :: u32)
           in bnd (uvmunmap pagetable (PGROUNDUP newsz) (scast npages) True s) (\<lambda>s. Ok (newsz, s))
      else Ok (newsz, s))"

text \<open>\<open>uvmalloc\<close>'s loop makes at most \<^verbatim>\<open>newsz/PGSIZE + 1\<close> turns before \<open>walk\<close> panics or \<open>a\<close> reaches \<open>newsz\<close>.\<close>

primrec uvmalloc_loop ::
  "nat \<Rightarrow> addr \<Rightarrow> u64 \<Rightarrow> u64 \<Rightarrow> u64 \<Rightarrow> u64 \<Rightarrow> 'z kmem_scheme \<Rightarrow> (u64 \<times> 'z kmem_scheme) res" where
  "uvmalloc_loop 0 pagetable a oldsz newsz xperm s = (if a < newsz then Diverge else Ok (newsz, s))"
| "uvmalloc_loop (Suc k) pagetable a oldsz newsz xperm s =
     (if a < newsz then
        bnd (kalloc s) (\<lambda>(mem, s).
        if mem = 0 then bnd (uvmdealloc pagetable a oldsz s) (\<lambda>(_, s). Ok (0, s))
        else bnd (mappages pagetable a PGSIZE mem (PTE_R OR PTE_U OR xperm) (zero_page mem s)) (\<lambda>(r, s).
          if r \<noteq> 0
          then bnd (kfree mem s) (\<lambda>s. bnd (uvmdealloc pagetable a oldsz s) (\<lambda>(_, s). Ok (0, s)))
          else uvmalloc_loop k pagetable (a + PGSIZE) oldsz newsz xperm s))
      else Ok (newsz, s))"

definition uvmalloc :: "addr \<Rightarrow> u64 \<Rightarrow> u64 \<Rightarrow> u64 \<Rightarrow> 'z kmem_scheme \<Rightarrow> (u64 \<times> 'z kmem_scheme) res" where
  "uvmalloc pagetable oldsz newsz xperm s =
     (if newsz < oldsz then Ok (oldsz, s)
      else let oldsz = PGROUNDUP oldsz
           in uvmalloc_loop (unat newsz div 4096 + 1) pagetable oldsz oldsz newsz xperm s)"

section \<open>Freeing the tree\<close>

partial_function (option) freewalk_from :: "addr \<Rightarrow> nat \<Rightarrow> 'z kmem_scheme \<Rightarrow> 'z kmem_scheme res option" where
  "freewalk_from pagetable i s =
     (if i \<ge> 512 then Some (kfree pagetable s)
      else
        let pte = get_pte (pagetable + 8 * of_nat i) s in
        if pte AND PTE_V \<noteq> 0 \<and> pte AND (PTE_R OR PTE_W OR PTE_X) = 0
        then obnd (freewalk_from (PTE2PA pte) 0 s)
               (\<lambda>s. freewalk_from pagetable (i + 1) (set_pte (pagetable + 8 * of_nat i) 0 s))
        else if pte AND PTE_V \<noteq> 0 then Some (Panic ''freewalk: leaf'')
        else freewalk_from pagetable (i + 1) s)"

definition freewalk :: "addr \<Rightarrow> 'z kmem_scheme \<Rightarrow> 'z kmem_scheme res" where
  "freewalk pagetable s = bnd (loop_res (freewalk_from pagetable 0 s)) (\<lambda>r. r)"

definition uvmfree :: "addr \<Rightarrow> u64 \<Rightarrow> 'z kmem_scheme \<Rightarrow> 'z kmem_scheme res" where
  "uvmfree pagetable sz s =
     bnd (if sz > 0 then uvmunmap pagetable 0 (PGROUNDUP sz div PGSIZE) True s else Ok s)
       (freewalk pagetable)"

section \<open>Copy-on-write and page faults\<close>

definition cow_flags :: "u64 \<Rightarrow> u64" where
  "cow_flags flags = (if flags AND PTE_W \<noteq> 0 then (flags AND NOT PTE_W) OR PTE_COW else flags)"

text \<open>One turn of \<open>uvmcopy\<close>'s loop; the boolean says whether mapping failed.\<close>

definition uvmcopy_page :: "addr \<Rightarrow> addr \<Rightarrow> addr \<Rightarrow> 'z kmem_scheme \<Rightarrow> (bool \<times> 'z kmem_scheme) res" where
  "uvmcopy_page old new i s =
     bnd (walk old i False s) (\<lambda>(pte, s).
     if pte = 0 then Ok (False, s)
     else if get_pte pte s AND PTE_V = 0 then Ok (False, s)
     else
       let pa = PTE2PA (get_pte pte s);
           flags0 = PTE_FLAGS (get_pte pte s);
           flags = cow_flags flags0;
           s1 = (if flags0 AND PTE_W \<noteq> 0 then set_pte pte (PA2PTE pa OR flags) s else s)
       in bnd (mappages new i PGSIZE pa flags s1) (\<lambda>(r, s).
          if r \<noteq> 0 then Ok (True, s)
          else bnd (incref pa s) (\<lambda>s. Ok (False, s))))"

primrec uvmcopy_loop ::
  "nat \<Rightarrow> addr \<Rightarrow> addr \<Rightarrow> addr \<Rightarrow> u64 \<Rightarrow> 'z kmem_scheme \<Rightarrow> (int \<times> 'z kmem_scheme) res" where
  "uvmcopy_loop 0 old new i sz s = (if i < sz then Diverge else Ok (0, s))"
| "uvmcopy_loop (Suc k) old new i sz s =
     (if i < sz then
        bnd (uvmcopy_page old new i s) (\<lambda>(failed, s).
        if failed then bnd (uvmunmap new 0 (i div PGSIZE) True s) (\<lambda>s. Ok (- 1, s))
        else uvmcopy_loop k old new (i + PGSIZE) sz s)
      else Ok (0, s))"

definition uvmcopy :: "addr \<Rightarrow> addr \<Rightarrow> u64 \<Rightarrow> 'z kmem_scheme \<Rightarrow> (int \<times> 'z kmem_scheme) res" where
  "uvmcopy old new sz s = uvmcopy_loop (unat sz div 4096 + 1) old new 0 sz s"

definition uvmclear :: "addr \<Rightarrow> addr \<Rightarrow> 'z kmem_scheme \<Rightarrow> 'z kmem_scheme res" where
  "uvmclear pagetable va s =
     bnd (walk pagetable va False s) (\<lambda>(pte, s).
     panic_if (pte = 0) ''uvmclear'' (Ok (set_pte pte (get_pte pte s AND NOT PTE_U) s)))"

definition ismapped :: "addr \<Rightarrow> addr \<Rightarrow> 'z kmem_scheme \<Rightarrow> bool res" where
  "ismapped pagetable va s =
     bnd (walk pagetable va False s) (\<lambda>(pte, s). Ok (pte \<noteq> 0 \<and> get_pte pte s AND PTE_V \<noteq> 0))"

text \<open>The two cases of \<open>vmfault\<close>.\<close>

definition lazy_fault :: "addr \<Rightarrow> addr \<Rightarrow> 'z kmem_scheme \<Rightarrow> (addr \<times> 'z kmem_scheme) res" where
  "lazy_fault pagetable va s =
     bnd (kalloc s) (\<lambda>(mem, s).
     if mem = 0 then Ok (0, s)
     else bnd (mappages pagetable va PGSIZE mem (PTE_W OR PTE_U OR PTE_R) (zero_page mem s)) (\<lambda>(r, s).
       if r \<noteq> 0 then bnd (kfree mem s) (\<lambda>s. Ok (0, s)) else Ok (mem, s)))"

definition cow_fault :: "addr \<Rightarrow> addr \<Rightarrow> addr \<Rightarrow> 'z kmem_scheme \<Rightarrow> (addr \<times> 'z kmem_scheme) res" where
  "cow_fault pagetable va pte s =
     (let pa = PTE2PA (get_pte pte s) in
      bnd (getref pa s) (\<lambda>ref.
      bnd (if ref > 1 then
             bnd (kalloc s) (\<lambda>(mem, s).
             if mem = 0 then Ok (False, s)
             else
               let s1 = s\<lparr>ram := memmove (ram s) mem pa 4096\<rparr>;
                   s2 = set_pte pte (PA2PTE mem OR PTE_W OR PTE_U OR PTE_R OR PTE_V OR PTE_U) s1
               in bnd (decref pa s2) (\<lambda>(_, s). Ok (True, s)))
           else
             let s1 = set_pte pte (get_pte pte s OR PTE_W) s
             in Ok (True, set_pte pte (get_pte pte s1 AND NOT PTE_COW) s1))
        (\<lambda>(done, s).
         if \<not> done then Ok (0, s)
         else Ok (PTE2PA (get_pte pte s), record_rmap (PTE2PA (get_pte pte s)) pagetable va s))))"

definition vmfault :: "addr \<Rightarrow> addr \<Rightarrow> u64 \<Rightarrow> 'z kmem_scheme \<Rightarrow> (addr \<times> 'z kmem_scheme) res" where
  "vmfault pagetable va0 psz s =
     (if va0 \<ge> psz then Ok (0, s)
      else let va = PGROUNDDOWN va0 in
        bnd (walk pagetable va False s) (\<lambda>(pte, s).
        if pte = 0 \<or> get_pte pte s AND PTE_V = 0 then lazy_fault pagetable va s
        else if get_pte pte s AND PTE_COW \<noteq> 0 \<and> get_pte pte s AND PTE_W = 0
        then cow_fault pagetable va pte s
        else Ok (0, s)))"

section \<open>Copies between kernel and user memory\<close>

text \<open>The address of a user page, mapping it on demand: \<^verbatim>\<open>walkaddr\<close>, then \<^verbatim>\<open>vmfault\<close>.\<close>

definition user_page :: "addr \<Rightarrow> addr \<Rightarrow> u64 \<Rightarrow> 'z kmem_scheme \<Rightarrow> (addr \<times> 'z kmem_scheme) res" where
  "user_page pagetable va0 psz s =
     bnd (walkaddr pagetable va0 s) (\<lambda>pa0. if pa0 = 0 then vmfault pagetable va0 psz s else Ok (pa0, s))"

function copyout :: "addr \<Rightarrow> addr \<Rightarrow> addr \<Rightarrow> u64 \<Rightarrow> u64 \<Rightarrow> 'z kmem_scheme \<Rightarrow> (int \<times> 'z kmem_scheme) res" where
  "copyout pagetable dstva src len psz s =
     (if len = 0 then Ok (0, s)
      else let va0 = PGROUNDDOWN dstva in
        if va0 \<ge> MAXVA then Ok (- 1, s)
        else bnd (user_page pagetable va0 psz s) (\<lambda>(pa0, s).
          if pa0 = 0 then Ok (- 1, s)
          else bnd (walk pagetable va0 False s) (\<lambda>(pte, s). undef_if (pte = 0) (
            if get_pte pte s AND PTE_W = 0 then Ok (- 1, s)
            else
              let n0 = PGSIZE - (dstva - va0); n = (if n0 > len then len else n0)
              in copyout pagetable (va0 + PGSIZE) (src + n) (len - n) psz
                   (s\<lparr>ram := memmove (ram s) (pa0 + (dstva - va0)) src (ucast n)\<rparr>)))))"
  by pat_completeness auto
termination
  by (relation "measure (\<lambda>(pt, d, src, len, psz, s). unat len)") (auto simp: page_chunk_less unat_gt_0)

function copyin :: "addr \<Rightarrow> addr \<Rightarrow> addr \<Rightarrow> u64 \<Rightarrow> u64 \<Rightarrow> 'z kmem_scheme \<Rightarrow> (int \<times> 'z kmem_scheme) res" where
  "copyin pagetable dst srcva len psz s =
     (if len = 0 then Ok (0, s)
      else let va0 = PGROUNDDOWN srcva in
        bnd (user_page pagetable va0 psz s) (\<lambda>(pa0, s).
        if pa0 = 0 then Ok (- 1, s)
        else
          let n0 = PGSIZE - (srcva - va0); n = (if n0 > len then len else n0)
          in copyin pagetable (dst + n) (va0 + PGSIZE) (len - n) psz
               (s\<lparr>ram := memmove (ram s) dst (pa0 + (srcva - va0)) (ucast n)\<rparr>)))"
  by pat_completeness auto
termination
  by (relation "measure (\<lambda>(pt, d, src, len, psz, s). unat len)") (auto simp: page_chunk_less unat_gt_0)

text \<open>The inner loop of \<open>copyinstr\<close>: copy up to \<open>n\<close> bytes, stopping at a null byte.\<close>

primrec copystr_chunk :: "nat \<Rightarrow> addr \<Rightarrow> addr \<Rightarrow> memory \<Rightarrow> bool \<times> memory" where
  "copystr_chunk 0 p dst m = (False, m)"
| "copystr_chunk (Suc n) p dst m =
     (if m p = 0 then (True, m(dst := 0)) else copystr_chunk n (p + 1) (dst + 1) (m(dst := m p)))"

function copyinstr :: "addr \<Rightarrow> addr \<Rightarrow> addr \<Rightarrow> u64 \<Rightarrow> 'z kmem_scheme \<Rightarrow> (int \<times> 'z kmem_scheme) res" where
  "copyinstr pagetable dst srcva maxn s =
     (if maxn = 0 then Ok (- 1, s)
      else let va0 = PGROUNDDOWN srcva in
        bnd (walkaddr pagetable va0 s) (\<lambda>pa0.
        if pa0 = 0 then Ok (- 1, s)
        else
          let n0 = PGSIZE - (srcva - va0); n = (if n0 > maxn then maxn else n0);
              (got_null, m) = copystr_chunk (unat n) (pa0 + (srcva - va0)) dst (ram s)
          in if got_null then Ok (0, s\<lparr>ram := m\<rparr>)
             else copyinstr pagetable (dst + n) (va0 + PGSIZE) (maxn - n) (s\<lparr>ram := m\<rparr>)))"
  by pat_completeness auto
termination
  by (relation "measure (\<lambda>(pt, d, src, len, s). unat len)") (auto simp: page_chunk_less unat_gt_0)

declare copyout.simps [simp del] copyin.simps [simp del] copyinstr.simps [simp del]

end
