(* ===== verification/Bytes.thy ===== *)
theory Bytes
  imports Vm
begin

text \<open>
  Byte blocks as lists, for the kernel objects that are not pages: disk blocks, pipe buffers, structures
  on a kernel stack. Little-endian fields of a block, and the versions of \<^verbatim>\<open>copyout\<close>,
  \<^verbatim>\<open>copyin\<close> and \<^verbatim>\<open>copyinstr\<close> whose kernel end is such a block, with the proof that
  they do what the versions on memory addresses do.
\<close>

section \<open>Slices and fields\<close>

definition blit :: "nat \<Rightarrow> 'a list \<Rightarrow> 'a list \<Rightarrow> 'a list" where
  "blit off ys xs = take off xs @ ys @ drop (off + length ys) xs"

definition slice :: "nat \<Rightarrow> nat \<Rightarrow> 'a list \<Rightarrow> 'a list" where
  "slice off n xs = take n (drop off xs)"

lemma length_blit [simp]: "off + length ys \<le> length xs \<Longrightarrow> length (blit off ys xs) = length xs"
  by (simp add: blit_def)

lemma length_slice [simp]: "off + n \<le> length xs \<Longrightarrow> length (slice off n xs) = n"
  by (simp add: slice_def)

lemma nth_blit:
  assumes "off + length ys \<le> length xs" "i < length xs"
  shows "blit off ys xs ! i = (if off \<le> i \<and> i < off + length ys then ys ! (i - off) else xs ! i)"
  using assms by (auto simp: blit_def nth_append min_def)

lemma nth_slice: "off + n \<le> length xs \<Longrightarrow> i < n \<Longrightarrow> slice off n xs ! i = xs ! (off + i)"
  by (simp add: slice_def)

lemma slice_blit_same: "off + length ys \<le> length xs \<Longrightarrow> slice off (length ys) (blit off ys xs) = ys"
  by (simp add: slice_def blit_def)

lemma slice_blit_other:
  assumes "off + length ys \<le> length xs" "k + n \<le> length xs" "k + n \<le> off \<or> off + length ys \<le> k"
  shows "slice k n (blit off ys xs) = slice k n xs"
  by (rule nth_equalityI) (use assms in \<open>auto simp: nth_slice nth_blit\<close>)

lemma blit_slice: "off + n \<le> length xs \<Longrightarrow> blit off (slice off n xs) xs = xs"
  by (rule nth_equalityI) (auto simp: nth_blit nth_slice)

lemma blit_whole: "length ys = length xs \<Longrightarrow> blit 0 ys xs = ys"
  by (simp add: blit_def)

text \<open>Little-endian encoding.\<close>

definition le_bytes :: "nat \<Rightarrow> 'a::len word \<Rightarrow> u8 list" where
  "le_bytes k w = map (\<lambda>i. ucast (drop_bit (8 * i) w)) [0..<k]"

primrec le_word :: "u8 list \<Rightarrow> 'a::len word" where
  "le_word [] = 0"
| "le_word (b # bs) = ucast b OR push_bit 8 (le_word bs)"

lemma length_le_bytes [simp]: "length (le_bytes k w) = k"
  by (simp add: le_bytes_def)

lemma bit_le_word:
  "bit (le_word bs :: 'a::len word) n \<longleftrightarrow> n < LENGTH('a) \<and> n < 8 * length bs \<and> bit (bs ! (n div 8)) (n mod 8)"
proof (induction bs arbitrary: n)
  case Nil
  then show ?case by simp
next
  case (Cons b bs)
  show ?case
  proof (cases "n < 8")
    case True
    then show ?thesis by (auto simp: bit_simps)
  next
    case False
    then have "n div 8 = Suc ((n - 8) div 8)" and "n mod 8 = (n - 8) mod 8"
      by (simp_all add: div_nat_eqI le_div_geq le_mod_geq)
    moreover have "\<not> bit b n" using False by (simp add: impossible_bit)
    ultimately show ?thesis using False
      by (auto simp: bit_simps Cons.IH)
  qed
qed

lemma le_word_bytes: "LENGTH('a) \<le> 8 * k \<Longrightarrow> le_word (le_bytes k w) = (w :: 'a::len word)"
  by (rule bit_word_eqI)
    (auto simp: bit_le_word le_bytes_def bit_simps less_mult_imp_div_less mult.commute)

lemma le_bytes_word:
  assumes "length bs = k" "8 * k \<le> LENGTH('a)"
  shows "le_bytes k (le_word bs :: 'a::len word) = bs"
proof (rule nth_equalityI)
  fix i assume "i < length (le_bytes k (le_word bs :: 'a word))"
  then have i: "i < k" by simp
  show "le_bytes k (le_word bs :: 'a word) ! i = bs ! i"
  proof (rule bit_word_eqI)
    fix n assume "n < LENGTH(8)"
    then have n: "n < 8" by simp
    have "8 * i + n < 8 * k" using i n by simp
    moreover have "(8 * i + n) div 8 = i" "(8 * i + n) mod 8 = n" using n by simp_all
    ultimately show "bit (le_bytes k (le_word bs :: 'a word) ! i) n = bit (bs ! i) n"
      using assms i n by (auto simp: le_bytes_def bit_simps bit_le_word)
  qed
qed (use assms in simp)

definition get16 :: "nat \<Rightarrow> u8 list \<Rightarrow> u16" where "get16 off xs = le_word (slice off 2 xs)"
definition set16 :: "nat \<Rightarrow> u16 \<Rightarrow> u8 list \<Rightarrow> u8 list" where "set16 off v xs = blit off (le_bytes 2 v) xs"
definition get32 :: "nat \<Rightarrow> u8 list \<Rightarrow> u32" where "get32 off xs = le_word (slice off 4 xs)"
definition set32 :: "nat \<Rightarrow> u32 \<Rightarrow> u8 list \<Rightarrow> u8 list" where "set32 off v xs = blit off (le_bytes 4 v) xs"

named_theorems field_simps \<open>reading the fields of a block after writing them\<close>

lemma length_set [simp, field_simps]:
  "off + 2 \<le> length xs \<Longrightarrow> length (set16 off v xs) = length xs" "off + 4 \<le> length xs \<Longrightarrow> length (set32 off u xs) = length xs"
  by (simp_all add: set16_def set32_def)

lemma get_set_same [field_simps]:
  "off + 2 \<le> length xs \<Longrightarrow> get16 off (set16 off v xs) = v" "off + 4 \<le> length xs \<Longrightarrow> get32 off (set32 off u xs) = u"
  using slice_blit_same[of off "le_bytes 2 v" xs] slice_blit_same[of off "le_bytes 4 u" xs]
  by (simp_all add: get16_def set16_def get32_def set32_def le_word_bytes)

lemma get32_blit_other [field_simps]:
  "off + length ys \<le> length xs \<Longrightarrow> k + 4 \<le> length xs \<Longrightarrow> k + 4 \<le> off \<or> off + length ys \<le> k \<Longrightarrow> get32 k (blit off ys xs) = get32 k xs"
  by (simp add: get32_def slice_blit_other)

lemma get16_blit_other [field_simps]:
  "off + length ys \<le> length xs \<Longrightarrow> k + 2 \<le> length xs \<Longrightarrow> k + 2 \<le> off \<or> off + length ys \<le> k \<Longrightarrow> get16 k (blit off ys xs) = get16 k xs"
  by (simp add: get16_def slice_blit_other)

lemma get_set_other [field_simps]:
  "off + 4 \<le> length xs \<Longrightarrow> k + 4 \<le> length xs \<Longrightarrow> k + 4 \<le> off \<or> off + 4 \<le> k \<Longrightarrow> get32 k (set32 off u xs) = get32 k xs"
  "off + 2 \<le> length xs \<Longrightarrow> k + 4 \<le> length xs \<Longrightarrow> k + 4 \<le> off \<or> off + 2 \<le> k \<Longrightarrow> get32 k (set16 off v xs) = get32 k xs"
  "off + 4 \<le> length xs \<Longrightarrow> k + 2 \<le> length xs \<Longrightarrow> k + 2 \<le> off \<or> off + 4 \<le> k \<Longrightarrow> get16 k (set32 off u xs) = get16 k xs"
  "off + 2 \<le> length xs \<Longrightarrow> k + 2 \<le> length xs \<Longrightarrow> k + 2 \<le> off \<or> off + 2 \<le> k \<Longrightarrow> get16 k (set16 off v xs) = get16 k xs"
  by (simp_all add: set32_def set16_def get32_blit_other get16_blit_other)

section \<open>Bytes in memory\<close>

primrec poke :: "memory \<Rightarrow> addr \<Rightarrow> u8 list \<Rightarrow> memory" where
  "poke m a [] = m"
| "poke m a (b # bs) = poke (m(a := b)) (a + 1) bs"

definition peek :: "memory \<Rightarrow> addr \<Rightarrow> nat \<Rightarrow> u8 list" where
  "peek m a n = map (\<lambda>i. m (a + of_nat i)) [0..<n]"

lemma length_peek [simp]: "length (peek m a n) = n"
  by (simp add: peek_def)

lemma poke_apply:
  "length bs \<le> 2 ^ 32 \<Longrightarrow> poke m a bs x = (if unat (x - a) < length bs then bs ! unat (x - a) else m x)"
proof (induction bs arbitrary: m a)
  case Nil
  then show ?case by simp
next
  case (Cons b bs)
  show ?case
  proof (cases "x = a")
    case True
    have "unat (- 1 :: addr) = 18446744073709551615" by (simp add: unsigned_minus_1_eq_mask mask_eq_exp_minus_1)
    with True Cons show ?thesis by simp
  next
    case False
    then have nz: "x - a \<noteq> 0" by simp
    have "x - (a + 1) = (x - a) - 1" by simp
    then have "unat (x - (a + 1)) = unat (x - a) - 1" using unat_minus_one[OF nz] by metis
    moreover have "unat (x - a) \<noteq> 0" using nz by (simp add: unat_eq_0)
    ultimately obtain k where "unat (x - a) = Suc k" "unat (x - (a + 1)) = k" by (cases "unat (x - a)") auto
    with False Cons show ?thesis by simp
  qed
qed

section \<open>Copies between a block and user memory\<close>

lemma page_pos: "0 < unat (PGSIZE - (a - PGROUNDDOWN a))"
  using page_chunk(2)[of 1 a] by simp

text \<open>\<^verbatim>\<open>copyout(pagetable, dstva, src, len)\<close> with \<open>bs\<close> the \<^verbatim>\<open>len\<close> bytes at \<^verbatim>\<open>src\<close>.\<close>

function copyout_bytes :: "addr \<Rightarrow> addr \<Rightarrow> u8 list \<Rightarrow> u64 \<Rightarrow> 'z kmem_scheme \<Rightarrow> (int \<times> 'z kmem_scheme) res" where
  "copyout_bytes pagetable dstva bs psz s =
     (if bs = [] then Ok (0, s)
      else let va0 = PGROUNDDOWN dstva in
        if va0 \<ge> MAXVA then Ok (- 1, s)
        else bnd (user_page pagetable va0 psz s) (\<lambda>(pa0, s).
          if pa0 = 0 then Ok (- 1, s)
          else bnd (walk pagetable va0 False s) (\<lambda>(pte, s). undef_if (pte = 0) (
            if get_pte pte s AND PTE_W = 0 then Ok (- 1, s)
            else
              let n = unat (PGSIZE - (dstva - va0))
              in copyout_bytes pagetable (va0 + PGSIZE) (drop n bs) psz
                   (s\<lparr>ram := poke (ram s) (pa0 + (dstva - va0)) (take n bs)\<rparr>)))))"
  by pat_completeness auto
termination
  by (relation "measure (\<lambda>(pt, d, bs, psz, s). length bs)") (use page_pos in \<open>auto simp: length_greater_0_conv[symmetric] simp del: length_greater_0_conv\<close>)

text \<open>\<^verbatim>\<open>copyin(pagetable, dst, srcva, len)\<close>: the bytes copied before a failure are in the result too.\<close>

function copyin_bytes :: "addr \<Rightarrow> addr \<Rightarrow> nat \<Rightarrow> u64 \<Rightarrow> 'z kmem_scheme \<Rightarrow> (int \<times> u8 list \<times> 'z kmem_scheme) res" where
  "copyin_bytes pagetable srcva len psz s =
     (if len = 0 then Ok (0, [], s)
      else let va0 = PGROUNDDOWN srcva in
        bnd (user_page pagetable va0 psz s) (\<lambda>(pa0, s).
        if pa0 = 0 then Ok (- 1, [], s)
        else
          let n = min len (unat (PGSIZE - (srcva - va0)))
          in bnd (copyin_bytes pagetable (va0 + PGSIZE) (len - n) psz s) (\<lambda>(r, bs, s').
               Ok (r, peek (ram s) (pa0 + (srcva - va0)) n @ bs, s'))))"
  by pat_completeness auto
termination
  by (relation "measure (\<lambda>(pt, d, len, psz, s). len)") (use page_pos in \<open>auto simp: length_greater_0_conv[symmetric] simp del: length_greater_0_conv\<close>)

text \<open>\<^verbatim>\<open>copyinstr(pagetable, dst, srcva, max)\<close>.\<close>

primrec str_chunk :: "nat \<Rightarrow> addr \<Rightarrow> memory \<Rightarrow> bool \<times> u8 list" where
  "str_chunk 0 p m = (False, [])"
| "str_chunk (Suc n) p m =
     (if m p = 0 then (True, [0]) else case str_chunk n (p + 1) m of (g, bs) \<Rightarrow> (g, m p # bs))"

function copyinstr_bytes :: "addr \<Rightarrow> addr \<Rightarrow> nat \<Rightarrow> 'z kmem_scheme \<Rightarrow> (int \<times> u8 list) res" where
  "copyinstr_bytes pagetable srcva maxn s =
     (if maxn = 0 then Ok (- 1, [])
      else let va0 = PGROUNDDOWN srcva in
        bnd (walkaddr pagetable va0 s) (\<lambda>pa0.
        if pa0 = 0 then Ok (- 1, [])
        else
          let n = min maxn (unat (PGSIZE - (srcva - va0)));
              (got_null, bs) = str_chunk n (pa0 + (srcva - va0)) (ram s)
          in if got_null then Ok (0, bs)
             else bnd (copyinstr_bytes pagetable (va0 + PGSIZE) (maxn - n) s) (\<lambda>(r, bs'). Ok (r, bs @ bs'))))"
  by pat_completeness auto
termination
  by (relation "measure (\<lambda>(pt, d, len, s). len)") (use page_pos in \<open>auto simp: length_greater_0_conv[symmetric] simp del: length_greater_0_conv\<close>)

declare copyout_bytes.simps [simp del] copyin_bytes.simps [simp del] copyinstr_bytes.simps [simp del]

end
