(* ===== verification/Task.thy ===== *)
theory Task
  imports Sched Bytes
begin

text \<open>
  The kernel state with its process table (\<^verbatim>\<open>kernel/proc.c\<close>): sleeping and waking, kill
  flags, copies to and from the current process, the memory side of process creation and destruction
  (\<open>allocproc\<close>, \<open>freeproc\<close>, \<open>growproc\<close>), and sleep locks (\<^verbatim>\<open>kernel/sleeplock.c\<close>).

  A routine is run from its call to its return. Where it would have to wait for another process it
  yields \<open>Diverge\<close>; the routines whose waiting matters return the channel they sleep on instead.
\<close>

section \<open>State\<close>

record ktask = kmem +
  procs :: "proc list"
  cur :: nat                          \<comment> \<open>\<^verbatim>\<open>myproc()\<close>\<close>
  nextpid :: int
  initproc :: nat
  ticks :: u32
  trampoline :: addr                  \<comment> \<open>the linker symbol \<^verbatim>\<open>trampoline\<close>\<close>

definition myproc :: "'z ktask_scheme \<Rightarrow> proc" where
  "myproc s = procs s ! cur s"

definition upd_proc :: "nat \<Rightarrow> (proc \<Rightarrow> proc) \<Rightarrow> 'z ktask_scheme \<Rightarrow> 'z ktask_scheme" where
  "upd_proc i f s = s\<lparr>procs := (procs s)[i := f (procs s ! i)]\<rparr>"

section \<open>Waking, killing\<close>

definition wakeup :: "chan \<Rightarrow> 'z ktask_scheme \<Rightarrow> 'z ktask_scheme" where
  "wakeup c s = s\<lparr>procs := wakeup_tbl (Some (cur s)) c (procs s)\<rparr>"

definition kkill :: "int \<Rightarrow> 'z ktask_scheme \<Rightarrow> int \<times> 'z ktask_scheme" where
  "kkill pd s = (case kkill_tbl pd (procs s) of (r, ps) \<Rightarrow> (r, s\<lparr>procs := ps\<rparr>))"

definition setkilled :: "nat \<Rightarrow> 'z ktask_scheme \<Rightarrow> 'z ktask_scheme" where
  "setkilled i s = upd_proc i (\<lambda>p. p\<lparr>killed := 1\<rparr>) s"

definition is_killed :: "nat \<Rightarrow> 'z ktask_scheme \<Rightarrow> bool" where
  "is_killed i s \<longleftrightarrow> killed (procs s ! i) \<noteq> 0"

section \<open>Copies for the current process\<close>

text \<open>Where the user end or the kernel end of a copy is: an address of the current process, a kernel
  address, or an object of the calling routine.\<close>

datatype iobuf = User addr | Kaddr addr | Local "u8 list"

definition either_copyout :: "iobuf \<Rightarrow> nat \<Rightarrow> u8 list \<Rightarrow> 'z ktask_scheme \<Rightarrow> (int \<times> iobuf \<times> 'z ktask_scheme) res" where
  "either_copyout dst off bs s =
     (case dst of
        User va \<Rightarrow> bnd (copyout_bytes (pagetable (myproc s)) (va + of_nat off) bs (psz (myproc s)) s) (\<lambda>(r, s). Ok (r, dst, s))
      | Kaddr a \<Rightarrow> Ok (0, dst, s\<lparr>ram := poke (ram s) (a + of_nat off) bs\<rparr>)
      | Local xs \<Rightarrow> undef_if (length xs < off + length bs) (Ok (0, Local (blit off bs xs), s)))"

definition either_copyin :: "iobuf \<Rightarrow> nat \<Rightarrow> nat \<Rightarrow> 'z ktask_scheme \<Rightarrow> (int \<times> u8 list \<times> 'z ktask_scheme) res" where
  "either_copyin src off n s =
     (case src of
        User va \<Rightarrow> copyin_bytes (pagetable (myproc s)) (va + of_nat off) n (psz (myproc s)) s
      | Kaddr a \<Rightarrow> Ok (0, peek (ram s) (a + of_nat off) n, s)
      | Local xs \<Rightarrow> undef_if (length xs < off + n) (Ok (0, slice off n xs, s)))"

section \<open>Process memory\<close>

definition allocpid :: "'z ktask_scheme \<Rightarrow> int \<times> 'z ktask_scheme" where
  "allocpid s = (nextpid s, s\<lparr>nextpid := nextpid s + 1\<rparr>)"

definition proc_pagetable :: "addr \<Rightarrow> 'z ktask_scheme \<Rightarrow> (addr \<times> 'z ktask_scheme) res" where
  "proc_pagetable tf s =
     bnd (uvmcreate s) (\<lambda>(pt, s).
     if pt = 0 then Ok (0, s)
     else bnd (mappages pt TRAMPOLINE PGSIZE (trampoline s) (PTE_R OR PTE_X) s) (\<lambda>(r, s).
       if r < 0 then bnd (uvmfree pt 0 s) (\<lambda>s. Ok (0, s))
       else bnd (mappages pt TRAPFRAME PGSIZE tf (PTE_R OR PTE_W) s) (\<lambda>(r, s).
         if r < 0 then bnd (uvmunmap pt TRAMPOLINE 1 False s) (\<lambda>s. bnd (uvmfree pt 0 s) (\<lambda>s. Ok (0, s)))
         else Ok (pt, s))))"

definition proc_freepagetable :: "addr \<Rightarrow> u64 \<Rightarrow> 'z ktask_scheme \<Rightarrow> 'z ktask_scheme res" where
  "proc_freepagetable pt sz s =
     bnd (uvmunmap pt TRAMPOLINE 1 False s) (\<lambda>s. bnd (uvmunmap pt TRAPFRAME 1 False s) (\<lambda>s. uvmfree pt sz s))"

definition freeproc :: "nat \<Rightarrow> 'z ktask_scheme \<Rightarrow> 'z ktask_scheme res" where
  "freeproc i s =
     (let p = procs s ! i in
      bnd (if trapframe p \<noteq> 0 then kfree (trapframe p) s else Ok s) (\<lambda>s.
      bnd (if pagetable p \<noteq> 0 then proc_freepagetable (pagetable p) (psz p) s else Ok s) (\<lambda>s.
      Ok (upd_proc i free_fields s))))"

text \<open>\<^verbatim>\<open>for(p = proc; p < &proc[NPROC]; p++) if(p->state == UNUSED) goto found;\<close>\<close>

function find_unused :: "proc list \<Rightarrow> nat \<Rightarrow> nat option" where
  "find_unused ps i =
     (if i < length ps then if pstate (ps ! i) = UNUSED then Some i else find_unused ps (i + 1) else None)"
  by pat_completeness auto
termination by (relation "measure (\<lambda>(ps, i). length ps - i)") auto

declare find_unused.simps [simp del]

definition allocproc :: "'z ktask_scheme \<Rightarrow> (nat option \<times> 'z ktask_scheme) res" where
  "allocproc s =
     (case find_unused (procs s) 0 of
        None \<Rightarrow> Ok (None, s)
      | Some i \<Rightarrow>
          let (pd, s) = allocpid s; s = upd_proc i (alloc_fields pd) s in
          bnd (kalloc s) (\<lambda>(tf, s).
          let s = upd_proc i (\<lambda>p. p\<lparr>trapframe := tf\<rparr>) s in
          if tf = 0 then bnd (freeproc i s) (\<lambda>s. Ok (None, s))
          else bnd (proc_pagetable tf s) (\<lambda>(pt, s).
            let s = upd_proc i (\<lambda>p. p\<lparr>pagetable := pt\<rparr>) s in
            if pt = 0 then bnd (freeproc i s) (\<lambda>s. Ok (None, s))
            else Ok (Some i, upd_proc i sched_fields s))))"

definition growproc :: "int \<Rightarrow> 'z ktask_scheme \<Rightarrow> (int \<times> 'z ktask_scheme) res" where
  "growproc n s =
     (let sz = psz (myproc s); pt = pagetable (myproc s) in
      if n > 0 then
        if sz + of_int n > TRAPFRAME then Ok (- 1, s)
        else bnd (uvmalloc pt sz (sz + of_int n) PTE_W s) (\<lambda>(sz', s).
          if sz' = 0 then Ok (- 1, s) else Ok (0, upd_proc (cur s) (\<lambda>p. p\<lparr>psz := sz'\<rparr>) s))
      else if n < 0 then
        bnd (uvmdealloc pt sz (sz + of_int n) s) (\<lambda>(sz', s). Ok (0, upd_proc (cur s) (\<lambda>p. p\<lparr>psz := sz'\<rparr>) s))
      else Ok (0, upd_proc (cur s) (\<lambda>p. p\<lparr>psz := sz\<rparr>) s))"

text \<open>Children of an exiting process go to \<^verbatim>\<open>initproc\<close>, which is woken for each.\<close>

definition reparent :: "nat \<Rightarrow> 'z ktask_scheme \<Rightarrow> 'z ktask_scheme" where
  "reparent p s =
     fold (\<lambda>i s. if parent (procs s ! i) = Some p
                 then wakeup (ChanProc (initproc s)) (upd_proc i (\<lambda>q. q\<lparr>parent := Some (initproc s)\<rparr>) s)
                 else s) [0..<length (procs s)] s"

section \<open>Sleep locks\<close>

record sleeplock =
  slocked :: bool
  spid :: int

definition initsleeplock :: sleeplock where
  "initsleeplock = \<lparr>slocked = False, spid = 0\<rparr>"

text \<open>\<open>None\<close>: the caller has to sleep on the lock.\<close>

definition acquiresleep_try :: "int \<Rightarrow> sleeplock \<Rightarrow> sleeplock option" where
  "acquiresleep_try pd lk = (if slocked lk then None else Some (lk\<lparr>slocked := True, spid := pd\<rparr>))"

definition acquiresleep :: "sleeplock \<Rightarrow> 'z ktask_scheme \<Rightarrow> sleeplock res" where
  "acquiresleep lk s = loop_res (acquiresleep_try (pid (myproc s)) lk)"

definition releasesleep :: "chan \<Rightarrow> sleeplock \<Rightarrow> 'z ktask_scheme \<Rightarrow> sleeplock \<times> 'z ktask_scheme" where
  "releasesleep c lk s = (lk\<lparr>slocked := False, spid := 0\<rparr>, wakeup c s)"

definition holdingsleep :: "sleeplock \<Rightarrow> 'z ktask_scheme \<Rightarrow> bool" where
  "holdingsleep lk s \<longleftrightarrow> slocked lk \<and> spid lk = pid (myproc s)"

section \<open>Frame facts\<close>

lemma wakeup_frame [simp, frame_simps]:
  "ram (wakeup c s) = ram s" "kend (wakeup c s) = kend s" "freelist (wakeup c s) = freelist s"
  "ref_count (wakeup c s) = ref_count s" "reverse_map (wakeup c s) = reverse_map s" "cur (wakeup c s) = cur s"
  "nextpid (wakeup c s) = nextpid s" "initproc (wakeup c s) = initproc s" "ticks (wakeup c s) = ticks s"
  "trampoline (wakeup c s) = trampoline s" "ktask.more (wakeup c s) = ktask.more s"
  by (simp_all add: wakeup_def)

lemma wakeup_myproc [simp]: "cur s < length (procs s) \<Longrightarrow> myproc (wakeup c s) = myproc s"
  by (simp add: myproc_def wakeup_def wakeup_tbl_def)

lemma wakeup_length [simp]: "length (procs (wakeup c s)) = length (procs s)"
  by (simp add: wakeup_def wakeup_tbl_def)

lemma acquiresleep_Ok: "\<not> slocked lk \<Longrightarrow> acquiresleep lk s = Ok \<lparr>slocked = True, spid = pid (myproc s)\<rparr>"
  by (simp add: acquiresleep_def acquiresleep_try_def)

end
