(* ===== verification/Bio.thy ===== *)
theory Bio
  imports Task
begin

text \<open>
  The buffer cache (\<^verbatim>\<open>kernel/bio.c\<close>) over the disk. Buffers are numbered 0 to NBUF - 1 and
  number NBUF is the list head; \<open>bnext\<close> and \<open>bprev\<close> are the pointers of the circular list. A disk
  block is 1024 bytes; \<open>dwrites\<close> records the writes that have reached the disk, latest first, so that
  a crash is a suffix of it.

  \<^verbatim>\<open>virtio_disk_rw\<close> is taken as one step: the block is transferred when it returns.
\<close>

section \<open>State\<close>

record buf =
  valid :: bool
  bdev :: u32
  blockno :: u32
  block :: sleeplock
  refcnt :: u32
  bdata :: "u8 list"

record kbio = ktask +
  bufs :: "buf list"
  bnext :: "nat \<Rightarrow> nat"
  bprev :: "nat \<Rightarrow> nat"
  disk :: "u32 \<Rightarrow> u8 list"
  dwrites :: "(u32 \<times> u8 list) list"

definition BSIZE :: nat where "BSIZE = 1024"

abbreviation bhead :: nat where "bhead \<equiv> NBUF"

definition upd_buf :: "nat \<Rightarrow> (buf \<Rightarrow> buf) \<Rightarrow> 'z kbio_scheme \<Rightarrow> 'z kbio_scheme" where
  "upd_buf i f s = s\<lparr>bufs := (bufs s)[i := f (bufs s ! i)]\<rparr>"

definition set_bnext :: "nat \<Rightarrow> nat \<Rightarrow> 'z kbio_scheme \<Rightarrow> 'z kbio_scheme" where
  "set_bnext i j s = s\<lparr>bnext := (bnext s)(i := j)\<rparr>"

definition set_bprev :: "nat \<Rightarrow> nat \<Rightarrow> 'z kbio_scheme \<Rightarrow> 'z kbio_scheme" where
  "set_bprev i j s = s\<lparr>bprev := (bprev s)(i := j)\<rparr>"

section \<open>Operations\<close>

text \<open>\<open>b->next = head.next; b->prev = &head; head.next->prev = b; head.next = b;\<close>\<close>

definition link_front :: "nat \<Rightarrow> 'z kbio_scheme \<Rightarrow> 'z kbio_scheme" where
  "link_front b s =
     (let s1 = set_bnext b (bnext s bhead) s;
          s2 = set_bprev b bhead s1;
          s3 = set_bprev (bnext s2 bhead) b s2
      in set_bnext bhead b s3)"

definition unlink_buf :: "nat \<Rightarrow> 'z kbio_scheme \<Rightarrow> 'z kbio_scheme" where
  "unlink_buf b s =
     (let s1 = set_bprev (bnext s b) (bprev s b) s
      in set_bnext (bprev s1 b) (bnext s1 b) s1)"

definition binit :: "'z kbio_scheme \<Rightarrow> 'z kbio_scheme" where
  "binit s =
     fold (\<lambda>b s. link_front b (upd_buf b (\<lambda>x. x\<lparr>block := initsleeplock\<rparr>) s)) [0..<NBUF]
       (set_bnext bhead bhead (set_bprev bhead bhead s))"

text \<open>The two scans of \<open>bget\<close>, forward for the block and backward for an unused buffer.\<close>

partial_function (option) bget_cached :: "u32 \<Rightarrow> u32 \<Rightarrow> nat \<Rightarrow> 'z kbio_scheme \<Rightarrow> nat option option" where
  "bget_cached dev bno b s =
     (if b = bhead then Some None
      else if bdev (bufs s ! b) = dev \<and> blockno (bufs s ! b) = bno then Some (Some b)
      else bget_cached dev bno (bnext s b) s)"

partial_function (option) bget_unused :: "nat \<Rightarrow> 'z kbio_scheme \<Rightarrow> nat option option" where
  "bget_unused b s =
     (if b = bhead then Some None
      else if refcnt (bufs s ! b) = 0 then Some (Some b)
      else bget_unused (bprev s b) s)"

definition lock_buf :: "nat \<Rightarrow> 'z kbio_scheme \<Rightarrow> (nat \<times> 'z kbio_scheme) res" where
  "lock_buf b s = bnd (acquiresleep (block (bufs s ! b)) s) (\<lambda>lk. Ok (b, upd_buf b (\<lambda>x. x\<lparr>block := lk\<rparr>) s))"

definition bget :: "u32 \<Rightarrow> u32 \<Rightarrow> 'z kbio_scheme \<Rightarrow> (nat \<times> 'z kbio_scheme) res" where
  "bget dev bno s =
     bnd (loop_res (bget_cached dev bno (bnext s bhead) s)) (\<lambda>r. case r of
       Some b \<Rightarrow> lock_buf b (upd_buf b (\<lambda>x. x\<lparr>refcnt := refcnt x + 1\<rparr>) s)
     | None \<Rightarrow>
         bnd (loop_res (bget_unused (bprev s bhead) s)) (\<lambda>r. case r of
           Some b \<Rightarrow> lock_buf b (upd_buf b (\<lambda>x. x\<lparr>bdev := dev, blockno := bno, valid := False, refcnt := 1\<rparr>) s)
         | None \<Rightarrow> Panic ''bget: no buffers''))"

definition virtio_disk_rw :: "nat \<Rightarrow> bool \<Rightarrow> 'z kbio_scheme \<Rightarrow> 'z kbio_scheme" where
  "virtio_disk_rw b wr s =
     (let x = bufs s ! b in
      if wr then s\<lparr>disk := (disk s)(blockno x := bdata x), dwrites := (blockno x, bdata x) # dwrites s\<rparr>
      else upd_buf b (\<lambda>x. x\<lparr>bdata := disk s (blockno x)\<rparr>) s)"

definition bread :: "u32 \<Rightarrow> u32 \<Rightarrow> 'z kbio_scheme \<Rightarrow> (nat \<times> 'z kbio_scheme) res" where
  "bread dev bno s =
     bnd (bget dev bno s) (\<lambda>(b, s).
     if \<not> valid (bufs s ! b)
     then Ok (b, upd_buf b (\<lambda>x. x\<lparr>valid := True\<rparr>) (virtio_disk_rw b False s))
     else Ok (b, s))"

definition bwrite :: "nat \<Rightarrow> 'z kbio_scheme \<Rightarrow> 'z kbio_scheme res" where
  "bwrite b s = panic_if (\<not> holdingsleep (block (bufs s ! b)) s) ''bwrite'' (Ok (virtio_disk_rw b True s))"

definition brelse :: "nat \<Rightarrow> 'z kbio_scheme \<Rightarrow> 'z kbio_scheme res" where
  "brelse b s =
     panic_if (\<not> holdingsleep (block (bufs s ! b)) s) ''brelse''
       (let (lk, s1) = releasesleep (ChanBuf b) (block (bufs s ! b)) s;
            s2 = upd_buf b (\<lambda>x. x\<lparr>block := lk\<rparr>) s1;
            s3 = upd_buf b (\<lambda>x. x\<lparr>refcnt := refcnt x - 1\<rparr>) s2
        in Ok (if refcnt (bufs s3 ! b) = 0 then link_front b (unlink_buf b s3) else s3))"

definition bpin :: "nat \<Rightarrow> 'z kbio_scheme \<Rightarrow> 'z kbio_scheme" where
  "bpin b s = upd_buf b (\<lambda>x. x\<lparr>refcnt := refcnt x + 1\<rparr>) s"

definition bunpin :: "nat \<Rightarrow> 'z kbio_scheme \<Rightarrow> 'z kbio_scheme" where
  "bunpin b s = upd_buf b (\<lambda>x. x\<lparr>refcnt := refcnt x - 1\<rparr>) s"

text \<open>The modification a caller makes to \<^verbatim>\<open>b->data\<close> between \<open>bread\<close> and \<open>log_write\<close> or \<open>bwrite\<close>.\<close>

definition set_data :: "nat \<Rightarrow> u8 list \<Rightarrow> 'z kbio_scheme \<Rightarrow> 'z kbio_scheme" where
  "set_data b xs s = upd_buf b (\<lambda>x. x\<lparr>bdata := xs\<rparr>) s"

abbreviation data_of :: "nat \<Rightarrow> 'z kbio_scheme \<Rightarrow> u8 list" where
  "data_of b s \<equiv> bdata (bufs s ! b)"

end
