(* ===== verification/Bio_Ring.thy ===== *)
theory Bio_Ring
  imports Bio
begin

text \<open>
  The circular doubly linked list of buffers as a list, most recently used first: what unlinking, linking at
  the front and the two scans of \<open>bget\<close> do to it.
\<close>

section \<open>Pointer paths\<close>

fun path_of :: "('a \<Rightarrow> 'a) \<Rightarrow> 'a list \<Rightarrow> bool" where
  "path_of f (x # y # zs) \<longleftrightarrow> f x = y \<and> path_of f (y # zs)"
| "path_of f _ \<longleftrightarrow> True"

lemma path_of_append: "path_of f (xs @ y # zs) \<longleftrightarrow> path_of f (xs @ [y]) \<and> path_of f (y # zs)"
proof (induction xs)
  case (Cons x xs)
  then show ?case by (cases xs) auto
qed simp

lemma path_of_upd: "x \<notin> set (butlast l) \<Longrightarrow> path_of (f(x := y)) l \<longleftrightarrow> path_of f l"
proof (induction l)
  case (Cons z l)
  then show ?case by (cases l) auto
qed simp

lemma path_splice:
  assumes "path_of f (us @ p # b # n # vs)" "p \<notin> set us" "p \<notin> set (butlast (n # vs))"
  shows "path_of (f(p := n)) (us @ p # n # vs)"
proof -
  from assms(1) have 1: "path_of f (us @ [p])" and 2: "path_of f (n # vs)"
    using path_of_append[of f us p "b # n # vs"] path_of_append[of f "us @ [p, b]" n vs] by auto
  have "path_of (f(p := n)) (us @ [p])" using 1 assms(2) by (subst path_of_upd) simp_all
  moreover have "path_of (f(p := n)) (n # vs)" using 2 assms(3) by (subst path_of_upd) simp_all
  ultimately show ?thesis using path_of_append[of "f(p := n)" us p "n # vs"] by simp
qed

definition ring :: "(nat \<Rightarrow> nat) \<Rightarrow> (nat \<Rightarrow> nat) \<Rightarrow> nat list \<Rightarrow> bool" where
  "ring nx pv xs \<longleftrightarrow> distinct (bhead # xs) \<and> path_of nx (bhead # xs @ [bhead]) \<and> path_of pv (rev (bhead # xs @ [bhead]))"

lemma unlink_fields [simp]:
  "bnext (unlink_buf b s) = (bnext s)(bprev (set_bprev (bnext s b) (bprev s b) s) b := bnext s b)"
  "bprev (unlink_buf b s) = (bprev s)(bnext s b := bprev s b)"
  by (simp_all add: unlink_buf_def set_bnext_def set_bprev_def)

lemma link_fields:
  assumes "b \<noteq> bhead"
  shows "bnext (link_front b s) = (bnext s)(b := bnext s bhead, bhead := b)"
    "bprev (link_front b s) = (bprev s)(b := bhead, bnext s bhead := b)"
  using assms by (simp_all add: link_front_def set_bnext_def set_bprev_def)

lemma ring_unlink:
  assumes "ring (bnext s) (bprev s) (xs @ b # ys)"
  shows "ring (bnext (unlink_buf b s)) (bprev (unlink_buf b s)) (xs @ ys)"
proof -
  let ?f = "bnext s" and ?g = "bprev s"
  obtain us p where us: "bhead # xs = us @ [p]" by (cases xs rule: rev_cases) auto
  obtain n vs where vs: "ys @ [bhead] = n # vs" by (cases ys) auto
  have "bhead # (xs @ b # ys) @ [bhead] = (bhead # xs) @ b # (ys @ [bhead])" by simp
  then have l: "bhead # (xs @ b # ys) @ [bhead] = us @ p # b # n # vs" unfolding us vs by simp
  have "bhead # (xs @ ys) @ [bhead] = (bhead # xs) @ (ys @ [bhead])" by simp
  then have l': "bhead # (xs @ ys) @ [bhead] = us @ p # n # vs" unfolding us vs by simp
  have d: "distinct (bhead # xs @ b # ys)" and f: "path_of ?f (us @ p # b # n # vs)"
    and g: "path_of ?g (rev (us @ p # b # n # vs))"
    using assms unfolding ring_def l by auto
  then have g: "path_of ?g (rev vs @ n # b # p # rev us)" by simp
  have sets: "set (butlast (n # vs)) = set ys" "set (butlast (p # rev us)) = set xs"
    using arg_cong[OF vs, of "\<lambda>l. set (butlast l)"] arg_cong[OF us, of "\<lambda>l. set (butlast (rev l))"] by simp_all
  have P: "p \<in> insert bhead (set xs)" "p \<notin> set us"
    using arg_cong[OF us, of set] arg_cong[OF us, of distinct] d by auto
  have N: "n \<in> insert bhead (set ys)" "n \<notin> set vs"
    using arg_cong[OF vs, of set] arg_cong[OF vs, of distinct] d by auto
  have pb: "p \<noteq> b" "n \<noteq> b" "p \<notin> set ys" "n \<notin> set xs" using d P N by auto
  have nxb: "?f b = n" and pvb: "?g b = p"
    using f path_of_append[of ?f "us @ [p]" b "n # vs"] g path_of_append[of ?g "rev vs @ [n]" b "p # rev us"] by auto
  have fields: "bnext (unlink_buf b s) = ?f(p := n)" "bprev (unlink_buf b s) = ?g(n := p)"
    using pb by (simp_all add: nxb pvb set_bprev_def)
  have "path_of (?f(p := n)) (us @ p # n # vs)" using path_splice[OF f P(2)] sets(1) pb(3) by blast
  moreover have "path_of (?g(n := p)) (rev (us @ p # n # vs))" using path_splice[OF g] N(2) sets(2) pb(4) by simp
  ultimately show ?thesis unfolding ring_def l' fields using d by simp
qed

lemma ring_link:
  assumes "ring (bnext s) (bprev s) xs" "b \<notin> set xs" "b \<noteq> bhead"
  shows "ring (bnext (link_front b s)) (bprev (link_front b s)) (b # xs)"
proof -
  let ?f = "bnext s" and ?g = "bprev s"
  obtain n vs where vs: "xs @ [bhead] = n # vs" by (cases xs) auto
  have l: "bhead # xs @ [bhead] = bhead # n # vs" and l': "bhead # (b # xs) @ [bhead] = bhead # b # n # vs"
    using vs by simp_all
  have d: "distinct (bhead # xs)" and f: "path_of ?f (bhead # n # vs)" and g: "path_of ?g (rev vs @ n # [bhead])"
    using assms(1) unfolding ring_def l by auto
  have sets: "set (butlast (n # vs)) = set xs" "insert n (set vs) = insert bhead (set xs)" "distinct (n # vs)"
    using arg_cong[OF vs, of "\<lambda>l. set (butlast l)"] arg_cong[OF vs, of set] arg_cong[OF vs, of distinct] d by auto
  have n: "?f bhead = n" "n \<noteq> b" "b \<notin> set vs" using f assms(2,3) sets(2) by auto
  have "path_of (?f(b := n, bhead := b)) (n # vs)"
    using f d sets(1) assms(2) by (subst path_of_upd, simp, subst path_of_upd) auto
  then have F: "path_of (?f(b := n, bhead := b)) (bhead # b # n # vs)" using assms(3) by simp
  have "path_of ?g (rev vs @ [n])" using g path_of_append[of ?g "rev vs" n "[bhead]"] by simp
  then have "path_of (?g(b := bhead, n := b)) (rev vs @ [n])"
    using n(3) sets(3) by (subst path_of_upd, simp, subst path_of_upd) auto
  then have G: "path_of (?g(b := bhead, n := b)) (rev (bhead # b # n # vs))"
    using n(2) path_of_append[of "?g(b := bhead, n := b)" "rev vs" n "[b, bhead]"] by simp
  show ?thesis
    unfolding ring_def link_fields[OF assms(3)] n(1) l' using F G d assms(2,3) by simp
qed

section \<open>Initialisation and the scans\<close>

lemma link_front_bufs [simp]: "bufs (link_front b s) = bufs s" "bufs (unlink_buf b s) = bufs s"
  by (simp_all add: link_front_def unlink_buf_def set_bnext_def set_bprev_def)

lemma upd_buf_links [simp]: "bnext (upd_buf b f s) = bnext s" "bprev (upd_buf b f s) = bprev s"
  by (simp_all add: upd_buf_def)

lemma binit_ring: "ring (bnext (binit s)) (bprev (binit s)) (rev [0..<NBUF])"
proof -
  let ?s0 = "set_bnext bhead bhead (set_bprev bhead bhead s)"
  let ?step = "\<lambda>b s. link_front b (upd_buf b (\<lambda>x. x\<lparr>block := initsleeplock\<rparr>) s)"
  have "ring (bnext (fold ?step [0..<n] ?s0)) (bprev (fold ?step [0..<n] ?s0)) (rev [0..<n])" if "n \<le> NBUF" for n
    using that
  proof (induction n)
    case 0
    show ?case by (simp add: ring_def set_bnext_def set_bprev_def)
  next
    case (Suc n)
    then have "ring (bnext (fold ?step [0..<n] ?s0)) (bprev (fold ?step [0..<n] ?s0)) (rev [0..<n])" by simp
    then have "ring (bnext (?step n (fold ?step [0..<n] ?s0))) (bprev (?step n (fold ?step [0..<n] ?s0))) (n # rev [0..<n])"
      using Suc.prems by (intro ring_link) auto
    then show ?case by simp
  qed
  then show ?thesis by (simp add: binit_def)
qed

lemma bget_cached_find:
  "path_of (bnext s) (ys @ [bhead]) \<Longrightarrow> bhead \<notin> set ys \<Longrightarrow>
   bget_cached dev bno (hd (ys @ [bhead])) s = Some (find (\<lambda>b. bdev (bufs s ! b) = dev \<and> blockno (bufs s ! b) = bno) ys)"
proof (induction ys)
  case Nil
  then show ?case by (subst bget_cached.simps) simp
next
  case (Cons y ys)
  then have "path_of (bnext s) (ys @ [bhead])" "bnext s y = hd (ys @ [bhead])" by (cases ys; simp)+
  with Cons show ?case by (subst bget_cached.simps) auto
qed

lemma bget_unused_find:
  "path_of (bprev s) (ys @ [bhead]) \<Longrightarrow> bhead \<notin> set ys \<Longrightarrow>
   bget_unused (hd (ys @ [bhead])) s = Some (find (\<lambda>b. refcnt (bufs s ! b) = 0) ys)"
proof (induction ys)
  case Nil
  then show ?case by (subst bget_unused.simps) simp
next
  case (Cons y ys)
  then have "path_of (bprev s) (ys @ [bhead])" "bprev s y = hd (ys @ [bhead])" by (cases ys; simp)+
  with Cons show ?case by (subst bget_unused.simps) auto
qed

lemma ring_scans:
  assumes "ring (bnext s) (bprev s) xs"
  shows "bget_cached dev bno (bnext s bhead) s = Some (find (\<lambda>b. bdev (bufs s ! b) = dev \<and> blockno (bufs s ! b) = bno) xs)"
    "bget_unused (bprev s bhead) s = Some (find (\<lambda>b. refcnt (bufs s ! b) = 0) (rev xs))"
proof -
  have "path_of (bnext s) (xs @ [bhead])" "bnext s bhead = hd (xs @ [bhead])" "bhead \<notin> set xs"
    using assms by (cases xs; auto simp: ring_def)+
  then show "bget_cached dev bno (bnext s bhead) s = Some (find (\<lambda>b. bdev (bufs s ! b) = dev \<and> blockno (bufs s ! b) = bno) xs)"
    using bget_cached_find[of s xs dev bno] by simp
  have "path_of (bprev s) (bhead # rev xs @ [bhead])" using assms by (simp add: ring_def)
  then have "path_of (bprev s) (rev xs @ [bhead])" "bprev s bhead = hd (rev xs @ [bhead])" by (cases "rev xs"; simp)+
  then show "bget_unused (bprev s bhead) s = Some (find (\<lambda>b. refcnt (bufs s ! b) = 0) (rev xs))"
    using bget_unused_find[of s "rev xs"] \<open>bhead \<notin> set xs\<close> by simp
qed

end
