(* ===== verification/Bio_Inv.thy ===== *)
theory Bio_Inv
  imports Bio_Ring
begin

text \<open>
  The invariant of the buffer cache and its meaning: the cache presents one current content for every
  block (\<open>view\<close>), whatever is cached. \<open>P\<close> is the set of blocks pinned by the log, \<open>held\<close> the set of
  blocks whose buffer the running process has locked.
\<close>

section \<open>Invariant and abstraction\<close>

definition bkey :: "'z kbio_scheme \<Rightarrow> nat \<Rightarrow> u32 \<Rightarrow> bool" where
  "bkey s i b \<longleftrightarrow> i < NBUF \<and> bdev (bufs s ! i) = 1 \<and> blockno (bufs s ! i) = b"

definition held :: "'z kbio_scheme \<Rightarrow> u32 set" where
  "held s = {b. \<exists>i. bkey s i b \<and> slocked (block (bufs s ! i))}"

definition view :: "'z kbio_scheme \<Rightarrow> u32 \<Rightarrow> u8 list" where
  "view s b = (case find (\<lambda>i. bdev (bufs s ! i) = 1 \<and> blockno (bufs s ! i) = b) [0..<NBUF] of
     None \<Rightarrow> disk s b | Some i \<Rightarrow> bdata (bufs s ! i))"

definition buf_ok :: "int \<Rightarrow> (u32 \<Rightarrow> u8 list) \<Rightarrow> u32 set \<Rightarrow> buf \<Rightarrow> bool" where
  "buf_ok me d P x \<longleftrightarrow>
     (bdev x = 1 \<and> valid x \<and> length (bdata x) = BSIZE \<and>
        refcnt x = of_bool (slocked (block x)) + of_bool (blockno x \<in> P) \<and>
        (slocked (block x) \<longrightarrow> spid (block x) = me) \<and>
        (\<not> slocked (block x) \<longrightarrow> blockno x \<notin> P \<longrightarrow> bdata x = d (blockno x))) \<or>
     (bdev x = 0 \<and> refcnt x = 0 \<and> \<not> slocked (block x))"

definition lru_ok :: "'z kbio_scheme \<Rightarrow> bool" where
  "lru_ok s \<longleftrightarrow> (\<exists>xs. ring (bnext s) (bprev s) xs \<and> set xs = {..<NBUF})"

definition bwf :: "u32 set \<Rightarrow> 'z kbio_scheme \<Rightarrow> bool" where
  "bwf P s \<longleftrightarrow>
     cur s < length (procs s) \<and> length (bufs s) = NBUF \<and> lru_ok s \<and>
     (\<forall>i < NBUF. buf_ok (pid (myproc s)) (disk s) P (bufs s ! i)) \<and>
     (\<forall>i j b. bkey s i b \<longrightarrow> bkey s j b \<longrightarrow> i = j) \<and>
     (\<forall>b. length (disk s b) = BSIZE) \<and> (\<forall>b \<in> P. \<exists>i. bkey s i b)"

lemma count2_zero: "of_bool p + of_bool q = (0 :: u32) \<longleftrightarrow> \<not> p \<and> \<not> q"
  by (cases p; cases q) simp_all

lemma buf_ok_zero:
  assumes "buf_ok me d P x" "refcnt x = 0"
  shows "\<not> slocked (block x)" "bdev x = 1 \<Longrightarrow> blockno x \<notin> P \<and> bdata x = d (blockno x)"
  using assms by (auto simp: buf_ok_def count2_zero)

lemma view_cached:
  assumes "bwf P s" "bkey s i b"
  shows "view s b = bdata (bufs s ! i)"
proof -
  let ?p = "\<lambda>i. bdev (bufs s ! i) = 1 \<and> blockno (bufs s ! i) = b"
  have "find ?p [0..<NBUF] \<noteq> None" using assms(2) by (auto simp: find_None_iff bkey_def)
  then obtain j where j: "find ?p [0..<NBUF] = Some j" by auto
  then have "bkey s j b" by (auto simp: find_Some_iff bkey_def)
  then have "j = i" using assms by (auto simp: bwf_def)
  with j show ?thesis by (simp add: view_def)
qed

lemma view_uncached: "(\<And>i. \<not> bkey s i b) \<Longrightarrow> view s b = disk s b"
proof -
  assume "\<And>i. \<not> bkey s i b"
  then have "find (\<lambda>i. bdev (bufs s ! i) = 1 \<and> blockno (bufs s ! i) = b) [0..<NBUF] = None"
    by (auto simp: find_None_iff bkey_def)
  then show ?thesis by (simp add: view_def)
qed

lemma bwfD:
  assumes "bwf P s"
  shows "cur s < length (procs s)" "length (bufs s) = NBUF" "lru_ok s"
    "i < NBUF \<Longrightarrow> buf_ok (pid (myproc s)) (disk s) P (bufs s ! i)"
    "bkey s i b \<Longrightarrow> bkey s j b \<Longrightarrow> i = j" "length (disk s b) = BSIZE" "b \<in> P \<Longrightarrow> \<exists>i. bkey s i b"
  using assms unfolding bwf_def by auto

lemma view_length:
  assumes "bwf P s"
  shows "length (view s b) = BSIZE"
proof (cases "\<exists>i. bkey s i b")
  case True
  then obtain i where i: "bkey s i b" ..
  then show ?thesis using view_cached[OF assms i] bwfD(4)[OF assms, of i] by (auto simp: bkey_def buf_ok_def)
next
  case False
  then show ?thesis using view_uncached[of s b] bwfD(6)[OF assms] by simp
qed

lemma buf_key: "bwf P s \<Longrightarrow> i < NBUF \<Longrightarrow> refcnt (bufs s ! i) \<noteq> 0 \<Longrightarrow> bkey s i (blockno (bufs s ! i))"
  using bwfD(4)[of P s i] by (auto simp: buf_ok_def bkey_def)

text \<open>Where no block is held or pinned twice over, a buffer is unused.\<close>

lemma unused_exists:
  assumes "bwf P s" "finite P" "card (held s \<union> P) < NBUF"
  obtains i where "i < NBUF" "refcnt (bufs s ! i) = 0"
proof (rule ccontr)
  assume "\<not> thesis"
  then have busy: "refcnt (bufs s ! i) \<noteq> 0" if "i < NBUF" for i using that \<open>\<And>i. i < NBUF \<Longrightarrow> refcnt (bufs s ! i) = 0 \<Longrightarrow> thesis\<close> by blast
  let ?f = "\<lambda>i. blockno (bufs s ! i)"
  have inj: "inj_on ?f {..<NBUF}"
    using buf_key[OF assms(1) _ busy] bwfD(5)[OF assms(1)] by (intro inj_onI) (metis lessThan_iff)
  have "?f i \<in> held s \<union> P" if "i < NBUF" for i
    using bwfD(4)[OF assms(1) that] busy[OF that] buf_key[OF assms(1) that busy[OF that]]
    by (auto simp: buf_ok_def held_def)
  then have sub: "?f ` {..<NBUF} \<subseteq> held s \<union> P" by auto
  have "held s \<subseteq> ?f ` {..<NBUF}" by (auto simp: held_def bkey_def)
  then have "finite (held s)" using finite_surj by blast
  then have "card (?f ` {..<NBUF}) \<le> card (held s \<union> P)" using sub assms(2) by (intro card_mono) auto
  then show False using card_image[OF inj] assms(3) by simp
qed

lemma finite_held [simp]: "finite (held s)"
proof -
  have "held s \<subseteq> (\<lambda>i. blockno (bufs s ! i)) ` {..<NBUF}" by (auto simp: held_def bkey_def)
  then show ?thesis using finite_surj by blast
qed

section \<open>Replacing one buffer\<close>

abbreviation set_buf :: "nat \<Rightarrow> buf \<Rightarrow> 'z kbio_scheme \<Rightarrow> 'z kbio_scheme" where
  "set_buf i x s \<equiv> s\<lparr>bufs := (bufs s)[i := x]\<rparr>"

lemma nth_upd_buf: "j < length xs \<Longrightarrow> xs[i := x] ! j = (if i = j then x else xs ! j)"
  by (cases "i = j") simp_all

lemma bkey_set_buf:
  "length (bufs s) = NBUF \<Longrightarrow> bkey (set_buf i x s) j b \<longleftrightarrow> (if j = i then i < NBUF \<and> bdev x = 1 \<and> blockno x = b else bkey s j b)"
  by (auto simp: bkey_def nth_upd_buf)

lemma bwf_set_buf:
  assumes "bwf P s" "i < NBUF" "buf_ok (pid (myproc s)) (disk s) P x" "bdev x = 1"
    and "bkey s i (blockno x) \<or> (refcnt (bufs s ! i) = 0 \<and> (\<forall>j. \<not> bkey s j (blockno x)))"
  shows "bwf P (set_buf i x s)"
proof -
  note W = bwfD[OF assms(1)]
  have m: "myproc (set_buf i x s) = myproc s" by (simp add: myproc_def)
  have u: "j = k" if "bkey (set_buf i x s) j b" "bkey (set_buf i x s) k b" for j k b
    using that W(5)[of j b k] assms(5) W(5)[of i b k] W(5)[of i b j] by (auto simp: bkey_set_buf[OF W(2)] split: if_splits)
  have p: "\<exists>j. bkey (set_buf i x s) j b" if "b \<in> P" for b
  proof -
    obtain j where j: "bkey s j b" using W(7)[OF \<open>b \<in> P\<close>] ..
    show ?thesis
    proof (cases "j = i")
      case False
      then show ?thesis using j by (auto simp: bkey_set_buf[OF W(2)])
    next
      case True
      then have "refcnt (bufs s ! i) \<noteq> 0" using j W(4)[OF assms(2)] that by (auto simp: buf_ok_def bkey_def)
      then have "blockno x = b" using assms(5) j True by (auto simp: bkey_def)
      then have "bkey (set_buf i x s) i b" using assms(2,4) by (simp add: bkey_set_buf[OF W(2)])
      then show ?thesis ..
    qed
  qed
  have b: "buf_ok (pid (myproc s)) (disk s) P ((bufs s)[i := x] ! j)" if "j < NBUF" for j
    using W(2,4) assms(3) that by (simp add: nth_upd_buf)
  show ?thesis
    unfolding bwf_def m using W(1,2,3,6) u p b by (auto simp: lru_ok_def)
qed

lemma view_set_buf:
  assumes "bwf P s" "bwf P (set_buf i x s)" "i < NBUF" "bdev x = 1"
    and "bkey s i (blockno x) \<or> (refcnt (bufs s ! i) = 0 \<and> (\<forall>j. \<not> bkey s j (blockno x)))"
  shows "view (set_buf i x s) = (view s)(blockno x := bdata x)"
proof
  fix b
  note W = bwfD[OF assms(1)]
  have k: "bkey (set_buf i x s) j c \<longleftrightarrow> (if j = i then i < NBUF \<and> bdev x = 1 \<and> blockno x = c else bkey s j c)" for j c
    using bkey_set_buf[OF W(2)] .
  show "view (set_buf i x s) b = ((view s)(blockno x := bdata x)) b"
  proof (cases "b = blockno x")
    case True
    then have "bkey (set_buf i x s) i b" using assms(3,4) by (simp add: k)
    then show ?thesis using view_cached[OF assms(2)] W(2) assms(3) True by simp
  next
    case False
    show ?thesis
    proof (cases "\<exists>j. bkey s j b")
      case True
      then obtain j where j: "bkey s j b" ..
      show ?thesis
      proof (cases "j = i")
        case True
        \<comment> \<open>the buffer that is recycled was clean\<close>
        then have r: "refcnt (bufs s ! i) = 0" using assms(5) False j by (auto simp: bkey_def)
        then have "bdata (bufs s ! i) = disk s b"
          using buf_ok_zero(2)[OF W(4)[OF assms(3)] r] j True by (auto simp: bkey_def)
        moreover have "\<not> bkey (set_buf i x s) l b" for l
          using k[of l b] False True W(5)[OF j, of l] by (cases "l = i") auto
        ultimately show ?thesis using view_uncached[of "set_buf i x s" b] view_cached[OF assms(1) j] True False by simp
      next
        case False
        then have "bkey (set_buf i x s) j b" using j by (simp add: k)
        then show ?thesis using view_cached[OF assms(2)] view_cached[OF assms(1) j] False \<open>b \<noteq> blockno x\<close> by simp
      qed
    next
      case none: False
      then have "\<not> bkey (set_buf i x s) j b" for j using k[of j b] False by (auto split: if_splits)
      then show ?thesis using view_uncached[of "set_buf i x s" b] view_uncached[of s b] none False by simp
    qed
  qed
qed

lemma held_set_buf:
  assumes "bwf P s" "i < NBUF" "bdev x = 1" "bkey s i (blockno x) \<or> (refcnt (bufs s ! i) = 0 \<and> (\<forall>j. \<not> bkey s j (blockno x)))"
  shows "held (set_buf i x s) = (if slocked (block x) then insert (blockno x) (held s) else held s - {blockno x})"
proof -
  note W = bwfD[OF assms(1)]
  have lk: "\<not> slocked (block (bufs s ! i))" if "refcnt (bufs s ! i) = 0"
    using buf_ok_zero(1)[OF W(4)[OF assms(2)] that] .
  note k = bkey_set_buf[OF W(2), of i x]
  have n: "(bufs s)[i := x] ! j = (if j = i then x else bufs s ! j)" if "j < NBUF" for j
    using that W(2) by (simp add: nth_upd_buf)
  have "b \<in> held (set_buf i x s) \<longleftrightarrow> (if b = blockno x then slocked (block x) else b \<in> held s)" for b
  proof (cases "b = blockno x")
    case True
    have "j = i" if "bkey (set_buf i x s) j b" for j
      using that assms(4) W(5)[of i b j] True by (cases "j = i") (auto simp: k)
    moreover have "bkey (set_buf i x s) i b" using assms(2,3) True by (simp add: k)
    ultimately have "(\<exists>j. bkey (set_buf i x s) j b \<and> slocked (block ((bufs s)[i := x] ! j))) \<longleftrightarrow> slocked (block ((bufs s)[i := x] ! i))"
      by blast
    then show ?thesis using True n[OF assms(2)] by (simp add: held_def)
  next
    case False
    have "bkey (set_buf i x s) j b \<and> slocked (block ((bufs s)[i := x] ! j)) \<longleftrightarrow> bkey s j b \<and> slocked (block (bufs s ! j))" for j
    proof (cases "j = i")
      case True
      have "\<not> (bkey s i b \<and> slocked (block (bufs s ! i)))" using assms(4) False lk by (auto simp: bkey_def)
      then show ?thesis using True False by (auto simp: k)
    next
      case ne: False
      then show ?thesis using n[of j] by (cases "j < NBUF") (auto simp: k bkey_def)
    qed
    then show ?thesis using False by (simp add: held_def)
  qed
  then have "held (set_buf i x s) = {b. if b = blockno x then slocked (block x) else b \<in> held s}" by blast
  then show ?thesis by (cases "slocked (block x)") auto
qed

end
