(* ===== verification/Bio_Spec.thy ===== *)
theory Bio_Spec
  imports Bio_Inv
begin

text \<open>
  What each operation of the buffer cache does in terms of \<open>view\<close>, \<open>held\<close> and the pinned blocks: \<open>bread\<close>
  returns the current content without changing it, \<open>brelse\<close> and recycling never lose content, \<open>bwrite\<close>
  makes the disk agree.
\<close>

section \<open>Frames\<close>

text \<open>Everything but the buffers, their list and the states of other processes is unchanged.\<close>

definition bframe :: "'z kbio_scheme \<Rightarrow> 'z kbio_scheme \<Rightarrow> bool" where
  "bframe s s' \<longleftrightarrow> (\<exists>ps B n p. s' = s\<lparr>procs := ps, bufs := B, bnext := n, bprev := p\<rparr> \<and>
     length ps = length (procs s) \<and> ps ! cur s = procs s ! cur s)"

lemma bframeI:
  "s' = s\<lparr>procs := ps, bufs := B, bnext := n, bprev := p\<rparr> \<Longrightarrow> length ps = length (procs s) \<Longrightarrow>
   ps ! cur s = procs s ! cur s \<Longrightarrow> bframe s s'"
  by (auto simp: bframe_def)

lemma bframe_refl [simp]: "bframe s s"
  by (rule bframeI[where ps = "procs s" and B = "bufs s" and n = "bnext s" and p = "bprev s"]) simp_all

lemma bframe_set_buf [simp]: "bframe s (set_buf i x s)"
  by (rule bframeI[where ps = "procs s" and B = "(bufs s)[i := x]" and n = "bnext s" and p = "bprev s"]) simp_all

lemma bframe_trans:
  assumes "bframe r s" "bframe s t"
  shows "bframe r t"
proof -
  obtain ps B n p where s: "s = r\<lparr>procs := ps, bufs := B, bnext := n, bprev := p\<rparr>" "length ps = length (procs r)"
    "ps ! cur r = procs r ! cur r" using assms(1) by (auto simp: bframe_def)
  obtain ps' B' n' p' where t: "t = s\<lparr>procs := ps', bufs := B', bnext := n', bprev := p'\<rparr>" "length ps' = length (procs s)"
    "ps' ! cur s = procs s ! cur s" using assms(2) by (auto simp: bframe_def)
  show ?thesis by (rule bframeI[where ps = ps' and B = B' and n = n' and p = p']) (use s t in auto)
qed

lemma bframeD:
  assumes "bframe s s'"
  shows "disk s' = disk s" "dwrites s' = dwrites s" "ram s' = ram s" "cur s' = cur s" "myproc s' = myproc s"
    "kbio.more s' = kbio.more s" "length (procs s') = length (procs s)"
  using assms by (auto simp: bframe_def myproc_def)

section \<open>Holding a buffer\<close>

definition has_buf :: "'z kbio_scheme \<Rightarrow> nat \<Rightarrow> u32 \<Rightarrow> bool" where
  "has_buf s i b \<longleftrightarrow> bkey s i b \<and> slocked (block (bufs s ! i))"

lemma has_buf_held: "has_buf s i b \<Longrightarrow> b \<in> held s"
  by (auto simp: has_buf_def held_def)

lemma has_buf_data: "bwf P s \<Longrightarrow> has_buf s i b \<Longrightarrow> data_of i s = view s b"
  using view_cached by (fastforce simp: has_buf_def)

lemma has_buf_lt: "has_buf s i b \<Longrightarrow> i < NBUF"
  by (simp add: has_buf_def bkey_def)

lemma has_buf_set_buf:
  assumes "bwf P s" "has_buf s j c" "j \<noteq> i"
  shows "has_buf (set_buf i x s) j c"
  using assms bwfD(2)[OF assms(1)] by (auto simp: has_buf_def bkey_set_buf)

lemma has_buf_new:
  assumes "bwf P s" "i < NBUF" "bdev x = 1" "slocked (block x)"
  shows "has_buf (set_buf i x s) i (blockno x)"
  using assms bwfD(2)[OF assms(1)] by (auto simp: has_buf_def bkey_set_buf)

lemma has_buf_busy: "bwf P s \<Longrightarrow> has_buf s i b \<Longrightarrow> refcnt (bufs s ! i) \<noteq> 0"
  using bwfD(4)[of P s i] buf_ok_zero(1) by (fastforce simp: has_buf_def bkey_def)

section \<open>Reading\<close>

lemma find_SomeD: "find q xs = Some x \<Longrightarrow> x \<in> set xs \<and> q x"
  by (induction xs) (auto split: if_splits)

lemma bget_find:
  assumes "bwf P s" "b \<notin> held s" "finite P" "b \<in> P \<or> card (held s \<union> P) < NBUF"
  obtains (hit) i where "bkey s i b" "bget_cached 1 b (bnext s bhead) s = Some (Some i)"
  | (miss) i where "\<forall>j. \<not> bkey s j b" "bget_cached 1 b (bnext s bhead) s = Some None" "i < NBUF"
      "refcnt (bufs s ! i) = 0" "bget_unused (bprev s bhead) s = Some (Some i)"
proof -
  obtain xs where xs: "ring (bnext s) (bprev s) xs" "set xs = {..<NBUF}"
    using bwfD(3)[OF assms(1)] by (auto simp: lru_ok_def)
  let ?p = "\<lambda>i. bdev (bufs s ! i) = 1 \<and> blockno (bufs s ! i) = b" and ?q = "\<lambda>i. refcnt (bufs s ! i) = 0"
  note scan = ring_scans[OF xs(1)]
  show thesis
  proof (cases "find ?p xs")
    case (Some i)
    then have "bkey s i b" using xs(2) by (auto simp: find_Some_iff bkey_def)
    then show thesis using hit Some scan(1) by simp
  next
    case None
    then have no: "\<forall>j. \<not> bkey s j b" using xs(2) by (auto simp: find_None_iff bkey_def)
    then have "card (held s \<union> P) < NBUF" using assms(4) bwfD(7)[OF assms(1), of b] by blast
    then obtain k where k: "k < NBUF" "?q k" using unused_exists[OF assms(1,3)] by blast
    then have "find ?q (rev xs) \<noteq> None" using xs(2) by (auto simp: find_None_iff)
    then obtain i where i: "find ?q (rev xs) = Some i" by blast
    then have "i \<in> set (rev xs)" "?q i" using find_SomeD[OF i] by auto
    then show thesis using miss[OF no, of i] None scan i xs(2) by simp
  qed
qed

lemma upd_buf_set: "i < length (bufs s) \<Longrightarrow> upd_buf i f s = set_buf i (f (bufs s ! i)) s"
  by (simp add: upd_buf_def)

definition bread_post :: "u32 set \<Rightarrow> u32 \<Rightarrow> 'z kbio_scheme \<Rightarrow> nat \<Rightarrow> 'z kbio_scheme \<Rightarrow> bool" where
  "bread_post P b s i s' \<longleftrightarrow> bwf P s' \<and> view s' = view s \<and> held s' = insert b (held s) \<and> has_buf s' i b \<and>
     (\<forall>j c. has_buf s j c \<longrightarrow> has_buf s' j c) \<and> bframe s s'"

lemma bread_postD:
  assumes "bread_post P b s i s'"
  shows "bwf P s'" "view s' = view s" "held s' = insert b (held s)" "has_buf s' i b" "has_buf s j c \<Longrightarrow> has_buf s' j c"
    "bframe s s'"
  using assms by (auto simp: bread_post_def)

lemma bread_ok:
  assumes wf: "bwf P s" and nh: "b \<notin> held s" and room: "finite P" "b \<in> P \<or> card (held s \<union> P) < NBUF"
  shows "\<exists>i s'. bread 1 b s = Ok (i, s') \<and> bread_post P b s i s'"
proof -
  note W = bwfD[OF wf]
  let ?lk = "\<lparr>slocked = True, spid = pid (myproc s)\<rparr>"
  obtain i x where r: "bread 1 b s = Ok (i, set_buf i x s)" and i: "i < NBUF"
    and k: "bkey s i b \<or> (refcnt (bufs s ! i) = 0 \<and> (\<forall>j. \<not> bkey s j b))"
    and x: "bdev x = 1" "blockno x = b" "block x = ?lk" "bdata x = view s b" "valid x" "refcnt x = 1 + of_bool (b \<in> P)"
    and free: "\<not> slocked (block (bufs s ! i))"
  proof -
    show thesis
      using wf nh room
    proof (cases rule: bget_find)
      case (hit i)
      let ?x = "(bufs s ! i)\<lparr>refcnt := refcnt (bufs s ! i) + 1, block := ?lk\<rparr>"
      have i: "i < NBUF" using hit by (simp add: bkey_def)
      have ok: "buf_ok (pid (myproc s)) (disk s) P (bufs s ! i)" using W(4)[OF i] .
      have u: "\<not> slocked (block (bufs s ! i))" using nh hit by (auto simp: held_def)
      have "bread 1 b s = Ok (i, set_buf i ?x s)"
        using hit i W(2) u ok unfolding bread_def bget_def lock_buf_def
        by (auto simp: upd_buf_def acquiresleep_Ok myproc_def buf_ok_def bkey_def)
      then show thesis
        by (rule that) (use i hit ok u view_cached[OF wf hit(1)] in \<open>auto simp: buf_ok_def bkey_def\<close>)
    next
      case (miss i)
      let ?x = "(bufs s ! i)\<lparr>bdev := 1, blockno := b, refcnt := 1, block := ?lk, bdata := disk s b, valid := True\<rparr>"
      have u: "\<not> slocked (block (bufs s ! i))" using buf_ok_zero(1)[OF W(4)[OF miss(3)] miss(4)] .
      have "bread 1 b s = Ok (i, set_buf i ?x s)"
        using miss W(2) u unfolding bread_def bget_def lock_buf_def
        by (simp add: upd_buf_def acquiresleep_Ok myproc_def virtio_disk_rw_def)
      moreover have "b \<notin> P" using miss(1) W(7)[of b] by blast
      ultimately show thesis using miss u view_uncached[of s b]
        by (intro that[of i ?x]) auto
    qed
  qed
  have ok: "buf_ok (pid (myproc s)) (disk s) P x"
    using x view_length[OF wf, of b] by (auto simp: buf_ok_def)
  have wf': "bwf P (set_buf i x s)" by (rule bwf_set_buf[OF wf i ok x(1)]) (use k x in simp)
  have v: "view (set_buf i x s) = view s"
    using view_set_buf[OF wf wf' i x(1)] k x by (simp add: fun_upd_idem)
  have h: "held (set_buf i x s) = insert b (held s)"
    using held_set_buf[OF wf i x(1)] k x by simp
  have "has_buf (set_buf i x s) i b" using has_buf_new[OF wf i x(1)] x by simp
  moreover have "has_buf (set_buf i x s) j c" if "has_buf s j c" for j c
    using that free has_buf_set_buf[OF wf that, of i x] by (cases "j = i") (auto simp: has_buf_def)
  ultimately have "bread_post P b s i (set_buf i x s)" using wf' v h by (simp add: bread_post_def)
  with r show ?thesis by blast
qed

section \<open>Modifying, pinning, writing\<close>

lemma set_data_ok:
  assumes wf: "bwf P s" and hb: "has_buf s i b" and len: "length d = BSIZE"
  shows "bwf P (set_data i d s)" "view (set_data i d s) = (view s)(b := d)" "held (set_data i d s) = held s"
    "has_buf s j c \<Longrightarrow> has_buf (set_data i d s) j c" "bframe s (set_data i d s)"
proof -
  note W = bwfD[OF wf]
  have i: "i < NBUF" and k: "bkey s i b" and l: "slocked (block (bufs s ! i))" using hb by (auto simp: has_buf_def bkey_def)
  let ?x = "(bufs s ! i)\<lparr>bdata := d\<rparr>"
  have e: "set_data i d s = set_buf i ?x s" using i W(2) by (simp add: set_data_def upd_buf_set)
  have x: "bdev ?x = 1" "blockno ?x = b" "block ?x = block (bufs s ! i)" using k by (auto simp: bkey_def)
  have ok: "buf_ok (pid (myproc s)) (disk s) P ?x" using W(4)[OF i] l len k by (auto simp: buf_ok_def bkey_def)
  show wf': "bwf P (set_data i d s)" unfolding e by (rule bwf_set_buf[OF wf i ok x(1)]) (use k x in simp)
  show "view (set_data i d s) = (view s)(b := d)"
    using view_set_buf[OF wf wf'[unfolded e] i x(1)] k x by (simp add: e)
  show "held (set_data i d s) = held s"
    using held_set_buf[OF wf i x(1)] k x l has_buf_held[OF hb] by (auto simp: e)
  show "has_buf (set_data i d s) j c" if "has_buf s j c"
    using that has_buf_set_buf[OF wf that, of i ?x] has_buf_new[OF wf i x(1)] x l k
    by (cases "j = i") (auto simp: e has_buf_def bkey_def)
  show "bframe s (set_data i d s)" by (simp add: e)
qed

text \<open>Changing the pin set together with the reference count of a locked buffer.\<close>

lemma bwf_repin:
  assumes wf: "bwf P s" and hb: "has_buf s i b"
    and Q: "Q = insert b P \<or> Q = P - {b}"
    and x: "x = (bufs s ! i)\<lparr>refcnt := 1 + of_bool (b \<in> Q)\<rparr>"
  shows "bwf Q (set_buf i x s)" "view (set_buf i x s) = view s" "held (set_buf i x s) = held s"
    "has_buf s j c \<Longrightarrow> has_buf (set_buf i x s) j c"
proof -
  note W = bwfD[OF wf]
  have i: "i < NBUF" and k: "bkey s i b" and l: "slocked (block (bufs s ! i))" using hb by (auto simp: has_buf_def bkey_def)
  have bk: "bkey (set_buf i x s) j c \<longleftrightarrow> bkey s j c" for j c
    using k by (cases "j = i") (simp_all add: bkey_set_buf[OF W(2)] x W(2) bkey_def[of s])
  have n: "(bufs s)[i := x] ! j = (if j = i then x else bufs s ! j)" if "j < NBUF" for j
    using that W(2) by (simp add: nth_upd_buf)
  have "buf_ok (pid (myproc s)) (disk s) Q ((bufs s)[i := x] ! j)" if j: "j < NBUF" for j
  proof (cases "j = i")
    case True
    then show ?thesis using W(4)[OF i] l k n[OF j] by (auto simp: buf_ok_def bkey_def x)
  next
    case False
    have "\<not> bkey s j b" using W(5)[OF k, of j] False by auto
    then have "bdev (bufs s ! j) = 1 \<Longrightarrow> blockno (bufs s ! j) \<noteq> b" using j by (auto simp: bkey_def)
    then show ?thesis using W(4)[OF j] n[OF j] False Q by (auto simp: buf_ok_def)
  qed
  then show wf': "bwf Q (set_buf i x s)"
    unfolding bwf_def using W Q k bk by (auto simp: myproc_def lru_ok_def)
  show "view (set_buf i x s) = view s"
  proof
    fix c
    show "view (set_buf i x s) c = view s c"
    proof (cases "\<exists>j. bkey s j c")
      case True
      then obtain j where j: "bkey s j c" ..
      then have "view (set_buf i x s) c = bdata ((bufs s)[i := x] ! j)"
        using view_cached[OF wf', of j c] bk by simp
      then show ?thesis using view_cached[OF wf j] n[of j] j by (auto simp: x bkey_def split: if_splits)
    next
      case False
      then show ?thesis using view_uncached[of "set_buf i x s" c] view_uncached[of s c] bk by simp
    qed
  qed
  have lk: "slocked (block ((bufs s)[i := x] ! j)) = slocked (block (bufs s ! j))" if "j < NBUF" for j
    using n[OF that] by (simp add: x)
  have hb': "has_buf (set_buf i x s) j c \<longleftrightarrow> has_buf s j c" for j c
    using lk[of j] has_buf_lt[of s j c] bk[of j c] by (auto simp: has_buf_def bkey_def)
  then show "held (set_buf i x s) = held s" unfolding held_def has_buf_def[symmetric] by simp
  show "has_buf (set_buf i x s) j c" if "has_buf s j c" using that by (simp add: hb')
qed

lemma held_refcnt:
  assumes "bwf P s" "has_buf s i b"
  shows "refcnt (bufs s ! i) = 1 + of_bool (b \<in> P)"
  using bwfD(4)[OF assms(1), of i] assms(2) by (auto simp: has_buf_def bkey_def buf_ok_def)

lemma bpin_ok:
  assumes "bwf P s" "has_buf s i b" "b \<notin> P"
  shows "bwf (insert b P) (bpin i s)" "view (bpin i s) = view s" "held (bpin i s) = held s"
    "has_buf s j c \<Longrightarrow> has_buf (bpin i s) j c" "bframe s (bpin i s)"
proof -
  have e: "bpin i s = set_buf i ((bufs s ! i)\<lparr>refcnt := 1 + of_bool (b \<in> insert b P)\<rparr>) s"
    using held_refcnt[OF assms(1,2)] assms(3) has_buf_lt[OF assms(2)] bwfD(2)[OF assms(1)]
    by (simp add: bpin_def upd_buf_set)
  note r = bwf_repin[OF assms(1,2) disjI1[OF refl] refl]
  show "bwf (insert b P) (bpin i s)" "view (bpin i s) = view s" "held (bpin i s) = held s"
    "has_buf s j c \<Longrightarrow> has_buf (bpin i s) j c" "bframe s (bpin i s)"
    unfolding e using r by auto
qed

lemma bunpin_ok:
  assumes "bwf P s" "has_buf s i b" "b \<in> P"
  shows "bwf (P - {b}) (bunpin i s)" "view (bunpin i s) = view s" "held (bunpin i s) = held s"
    "has_buf s j c \<Longrightarrow> has_buf (bunpin i s) j c" "bframe s (bunpin i s)"
proof -
  have e: "bunpin i s = set_buf i ((bufs s ! i)\<lparr>refcnt := 1 + of_bool (b \<in> P - {b})\<rparr>) s"
    using held_refcnt[OF assms(1,2)] assms(3) has_buf_lt[OF assms(2)] bwfD(2)[OF assms(1)]
    by (simp add: bunpin_def upd_buf_set)
  note r = bwf_repin[OF assms(1,2) disjI2[OF refl] refl]
  show "bwf (P - {b}) (bunpin i s)" "view (bunpin i s) = view s" "held (bunpin i s) = held s"
    "has_buf s j c \<Longrightarrow> has_buf (bunpin i s) j c" "bframe s (bunpin i s)"
    unfolding e using r by auto
qed

lemma holding_has_buf: "bwf P s \<Longrightarrow> has_buf s i b \<Longrightarrow> holdingsleep (block (bufs s ! i)) s"
  using bwfD(4)[of P s i] by (auto simp: holdingsleep_def has_buf_def bkey_def buf_ok_def)

definition disk_put :: "u32 \<Rightarrow> u8 list \<Rightarrow> 'z kbio_scheme \<Rightarrow> 'z kbio_scheme" where
  "disk_put b d s = s\<lparr>disk := (disk s)(b := d), dwrites := (b, d) # dwrites s\<rparr>"

lemma bwrite_ok:
  assumes wf: "bwf P s" and hb: "has_buf s i b"
  shows "bwrite i s = Ok (disk_put b (view s b) s)" "bwf P (disk_put b (view s b) s)"
    "view (disk_put b (view s b) s) = view s" "held (disk_put b (view s b) s) = held s"
    "has_buf s j c \<Longrightarrow> has_buf (disk_put b (view s b) s) j c"
proof -
  note W = bwfD[OF wf]
  let ?s = "disk_put b (view s b) s"
  have k: "bkey s i b" and i: "i < NBUF" using hb by (auto simp: has_buf_def bkey_def)
  have bn: "blockno (bufs s ! i) = b" using k by (simp add: bkey_def)
  show "bwrite i s = Ok ?s"
    using holding_has_buf[OF wf hb] has_buf_data[OF wf hb] bn
    by (simp add: bwrite_def virtio_disk_rw_def disk_put_def Let_def)
  have bk: "bkey ?s j c \<longleftrightarrow> bkey s j c" for j c by (simp add: bkey_def disk_put_def)
  have "buf_ok (pid (myproc s)) (disk ?s) P (bufs s ! j)" if j: "j < NBUF" for j
  proof (cases "bdev (bufs s ! j) = 1 \<and> blockno (bufs s ! j) = b")
    case True
    then have "j = i" using W(5)[OF k, of j] j by (auto simp: bkey_def)
    then show ?thesis using W(4)[OF i] hb by (auto simp: buf_ok_def has_buf_def)
  next
    case False
    then show ?thesis using W(4)[OF j] by (auto simp: buf_ok_def disk_put_def)
  qed
  moreover have "length (disk ?s c) = BSIZE" for c using W(6)[of c] view_length[OF wf] by (simp add: disk_put_def)
  ultimately show wf': "bwf P ?s"
    unfolding bwf_def bk using W by (auto simp: myproc_def lru_ok_def disk_put_def)
  show "view ?s = view s"
  proof
    fix c
    show "view ?s c = view s c"
    proof (cases "\<exists>j. bkey s j c")
      case True
      then obtain j where j: "bkey s j c" ..
      then show ?thesis using view_cached[OF wf', of j c] view_cached[OF wf j] bk by (simp add: disk_put_def)
    next
      case False
      moreover from this have "c \<noteq> b" using k by auto
      ultimately show ?thesis using view_uncached[of ?s c] view_uncached[of s c] bk by (simp add: disk_put_def)
    qed
  qed
  show "held ?s = held s" by (simp add: held_def bkey_def disk_put_def)
  show "has_buf ?s j c" if "has_buf s j c" using that by (simp add: has_buf_def bkey_def disk_put_def)
qed

section \<open>Releasing\<close>

lemma lru_move:
  assumes "lru_ok s" "i < NBUF"
  shows "lru_ok (link_front i (unlink_buf i s))"
proof -
  obtain xs where xs: "ring (bnext s) (bprev s) xs" "set xs = {..<NBUF}" using assms(1) by (auto simp: lru_ok_def)
  then obtain ys zs where yz: "xs = ys @ i # zs" using assms(2) by (metis lessThan_iff split_list)
  have d: "distinct xs" using xs(1) by (simp add: ring_def)
  have "ring (bnext (unlink_buf i s)) (bprev (unlink_buf i s)) (ys @ zs)" using ring_unlink xs(1) yz by simp
  then have "ring (bnext (link_front i (unlink_buf i s))) (bprev (link_front i (unlink_buf i s))) (i # ys @ zs)"
    using d yz assms(2) by (intro ring_link) auto
  moreover have "set (i # ys @ zs) = {..<NBUF}" using xs(2) yz by auto
  ultimately show ?thesis by (auto simp: lru_ok_def)
qed

text \<open>The invariant does not depend on the order of the list or on other processes.\<close>

lemma bwf_cong:
  assumes "bwf P s" "bufs s' = bufs s" "disk s' = disk s" "lru_ok s'" "cur s' = cur s" "length (procs s') = length (procs s)"
    "procs s' ! cur s = procs s ! cur s"
  shows "bwf P s'" "view s' = view s" "held s' = held s" "has_buf s' i b = has_buf s i b"
proof -
  show "view s' = view s" unfolding view_def unfolding assms(2,3) by (rule refl)
  show "bwf P s'" "held s' = held s" "has_buf s' i b = has_buf s i b"
    using assms by (auto simp: bwf_def bkey_def myproc_def held_def has_buf_def)
qed

definition brelse_post :: "u32 set \<Rightarrow> u32 \<Rightarrow> 'z kbio_scheme \<Rightarrow> nat \<Rightarrow> 'z kbio_scheme \<Rightarrow> bool" where
  "brelse_post P b s i s' \<longleftrightarrow> bwf P s' \<and> view s' = view s \<and> held s' = held s - {b} \<and>
     (\<forall>j c. j \<noteq> i \<longrightarrow> has_buf s j c \<longrightarrow> has_buf s' j c) \<and> bframe s s'"

lemma brelse_postD:
  assumes "brelse_post P b s i s'"
  shows "bwf P s'" "view s' = view s" "held s' = held s - {b}" "j \<noteq> i \<Longrightarrow> has_buf s j c \<Longrightarrow> has_buf s' j c" "bframe s s'"
  using assms by (auto simp: brelse_post_def)

lemma brelse_ok:
  assumes wf: "bwf P s" and hb: "has_buf s i b" and clean: "b \<in> P \<or> view s b = disk s b"
  shows "\<exists>s'. brelse i s = Ok s' \<and> brelse_post P b s i s'"
proof -
  note W = bwfD[OF wf]
  have i: "i < NBUF" and k: "bkey s i b" using hb by (auto simp: has_buf_def bkey_def)
  let ?x = "(bufs s ! i)\<lparr>block := (block (bufs s ! i))\<lparr>slocked := False, spid := 0\<rparr>, refcnt := of_bool (b \<in> P)\<rparr>"
  let ?w = "s\<lparr>procs := wakeup_tbl (Some (cur s)) (ChanBuf i) (procs s), bufs := (bufs s)[i := ?x]\<rparr>"
  define s' where "s' = (if refcnt ?x = 0 then link_front i (unlink_buf i ?w) else ?w)"
  have x: "bdev ?x = 1" "blockno ?x = b" "bdata ?x = view s b" "\<not> slocked (block ?x)"
    using k view_cached[OF wf k] by (auto simp: bkey_def)
  have ok: "buf_ok (pid (myproc s)) (disk s) P ?x"
    using W(4)[OF i] k clean x(3) by (auto simp: buf_ok_def bkey_def)
  have wf1: "bwf P (set_buf i ?x s)" by (rule bwf_set_buf[OF wf i ok x(1)]) (use k x in simp)
  have v1: "view (set_buf i ?x s) = view s"
    using view_set_buf[OF wf wf1 i x(1)] k x by (simp add: fun_upd_idem)
  have h1: "held (set_buf i ?x s) = held s - {b}" using held_set_buf[OF wf i x(1)] k x by simp
  have hb1: "has_buf (set_buf i ?x s) j c" if "j \<noteq> i" "has_buf s j c" for j c
    using has_buf_set_buf[OF wf that(2), of i ?x] that(1) by blast
  have r: "brelse i s = Ok s'"
    using holding_has_buf[OF wf hb] held_refcnt[OF wf hb] i W(2)
    by (simp add: brelse_def releasesleep_def s'_def upd_buf_def wakeup_def Let_def)
  have lru: "lru_ok ?w" using W(3) by (simp add: lru_ok_def wakeup_def)
  have f: "bufs s' = (bufs s)[i := ?x]" "disk s' = disk s" "cur s' = cur s" "procs s' = wakeup_tbl (Some (cur s)) (ChanBuf i) (procs s)"
    by (simp_all add: s'_def wakeup_def link_front_def unlink_buf_def set_bnext_def set_bprev_def)
  have p: "length (procs s') = length (procs s)" "procs s' ! cur s = procs s ! cur s"
    using W(1) by (simp_all add: f wakeup_tbl_def)
  have "lru_ok s'" using lru lru_move[OF lru i] by (cases "b \<in> P") (simp_all add: s'_def)
  note c = bwf_cong[OF wf1, of s', simplified, OF f(1,2) this f(3) p]
  have fr: "bframe s s'"
    by (rule bframeI[where ps = "procs s'" and B = "bufs s'" and n = "bnext s'" and p = "bprev s'", OF _ p])
      (simp add: s'_def wakeup_def link_front_def unlink_buf_def set_bnext_def set_bprev_def)
  have "brelse_post P b s i s'" using c v1 h1 hb1 fr by (simp add: brelse_post_def)
  with r show ?thesis by blast
qed

end
