(* ===== verification/Log.thy ===== *)
theory Log
  imports Bio_Spec
begin

text \<open>
  The write-ahead log (\<^verbatim>\<open>kernel/log.c\<close>): the in-memory header, its encoding in the header
  block, installation, recovery, group commit and \<open>log_write\<close>. \<open>begin_op\<close> yields \<open>Diverge\<close> when it
  would have to sleep; \<open>begin_op_try\<close> is one iteration of its loop.
\<close>

section \<open>State\<close>

record klog = kbio +
  log_start :: u32
  log_outstanding :: int
  log_committing :: bool
  log_dev :: u32
  lh_n :: int
  lh_block :: "u32 list"

text \<open>The header block: \<^verbatim>\<open>int n; int block[LOGBLOCKS]\<close>.\<close>

definition head_n :: "u8 list \<Rightarrow> int" where
  "head_n d = sint (get32 0 d)"

definition head_block :: "u8 list \<Rightarrow> nat \<Rightarrow> u32" where
  "head_block d i = get32 (4 + 4 * i) d"

definition head_bytes :: "int \<Rightarrow> u32 list \<Rightarrow> u8 list \<Rightarrow> u8 list" where
  "head_bytes n bl d = fold (\<lambda>i d. set32 (4 + 4 * i) (bl ! i) d) [0..<nat n] (set32 0 (of_int n) d)"

definition log_blk :: "nat \<Rightarrow> 'z klog_scheme \<Rightarrow> u32" where
  "log_blk tail s = log_start s + of_nat tail + 1"

section \<open>Operations\<close>

definition install_one :: "bool \<Rightarrow> nat \<Rightarrow> 'z klog_scheme \<Rightarrow> 'z klog_scheme res" where
  "install_one recovering tail s =
     undef_if (tail \<ge> LOGBLOCKS) (
     bnd (bread (log_dev s) (log_blk tail s) s) (\<lambda>(lbuf, s).
     bnd (bread (log_dev s) (lh_block s ! tail) s) (\<lambda>(dbuf, s).
     bnd (bwrite dbuf (set_data dbuf (data_of lbuf s) s)) (\<lambda>s.
     bnd (brelse lbuf (if \<not> recovering then bunpin dbuf s else s)) (\<lambda>s.
     brelse dbuf s)))))"

definition install_trans :: "bool \<Rightarrow> 'z klog_scheme \<Rightarrow> 'z klog_scheme res" where
  "install_trans recovering s = for_res [0..<nat (lh_n s)] (install_one recovering) s"

definition read_head :: "'z klog_scheme \<Rightarrow> 'z klog_scheme res" where
  "read_head s =
     bnd (bread (log_dev s) (log_start s) s) (\<lambda>(b, s).
     let d = data_of b s; n = head_n d in
     undef_if (n > int LOGBLOCKS)
       (brelse b (s\<lparr>lh_n := n, lh_block := map (\<lambda>i. if int i < n then head_block d i else lh_block s ! i) [0..<LOGBLOCKS]\<rparr>)))"

definition write_head :: "'z klog_scheme \<Rightarrow> 'z klog_scheme res" where
  "write_head s =
     bnd (bread (log_dev s) (log_start s) s) (\<lambda>(b, s).
     undef_if (lh_n s > int LOGBLOCKS)
       (bnd (bwrite b (set_data b (head_bytes (lh_n s) (lh_block s) (data_of b s)) s)) (\<lambda>s. brelse b s)))"

definition recover_from_log :: "'z klog_scheme \<Rightarrow> 'z klog_scheme res" where
  "recover_from_log s =
     bnd (read_head s) (\<lambda>s. bnd (install_trans True s) (\<lambda>s. write_head (s\<lparr>lh_n := 0\<rparr>)))"

definition initlog :: "u32 \<Rightarrow> u32 \<Rightarrow> 'z klog_scheme \<Rightarrow> 'z klog_scheme res" where
  "initlog dev logstart s =
     panic_if (4 * (LOGBLOCKS + 1) \<ge> BSIZE) ''initlog: too big logheader''
       (recover_from_log (s\<lparr>log_start := logstart, log_dev := dev\<rparr>))"

definition begin_op_try :: "'z klog_scheme \<Rightarrow> 'z klog_scheme option" where
  "begin_op_try s =
     (if log_committing s then None
      else if lh_n s + (log_outstanding s + 1) * int MAXOPBLOCKS > int LOGBLOCKS then None
      else Some (s\<lparr>log_outstanding := log_outstanding s + 1\<rparr>))"

definition begin_op :: "'z klog_scheme \<Rightarrow> 'z klog_scheme res" where
  "begin_op s = loop_res (begin_op_try s)"

definition write_log_one :: "nat \<Rightarrow> 'z klog_scheme \<Rightarrow> 'z klog_scheme res" where
  "write_log_one tail s =
     undef_if (tail \<ge> LOGBLOCKS) (
     bnd (bread (log_dev s) (log_blk tail s) s) (\<lambda>(to, s).
     bnd (bread (log_dev s) (lh_block s ! tail) s) (\<lambda>(from, s).
     bnd (bwrite to (set_data to (data_of from s) s)) (\<lambda>s.
     bnd (brelse from s) (\<lambda>s. brelse to s)))))"

definition write_log :: "'z klog_scheme \<Rightarrow> 'z klog_scheme res" where
  "write_log s = for_res [0..<nat (lh_n s)] write_log_one s"

definition commit :: "'z klog_scheme \<Rightarrow> 'z klog_scheme res" where
  "commit s =
     (if lh_n s > 0 then
        bnd (write_log s) (\<lambda>s. bnd (write_head s) (\<lambda>s. bnd (install_trans False s) (\<lambda>s.
        write_head (s\<lparr>lh_n := 0\<rparr>))))
      else Ok s)"

definition end_op :: "'z klog_scheme \<Rightarrow> 'z klog_scheme res" where
  "end_op s =
     (let s = s\<lparr>log_outstanding := log_outstanding s - 1\<rparr> in
      panic_if (log_committing s) ''log.committing''
        (if log_outstanding s = 0 then
           bnd (commit (s\<lparr>log_committing := True\<rparr>)) (\<lambda>s. Ok (wakeup ChanLog (s\<lparr>log_committing := False\<rparr>)))
         else Ok (wakeup ChanLog s)))"

text \<open>\<^verbatim>\<open>for (i = 0; i < log.lh.n; i++) if (log.lh.block[i] == b->blockno) break;\<close>\<close>

function log_find :: "u32 \<Rightarrow> nat \<Rightarrow> 'z klog_scheme \<Rightarrow> nat" where
  "log_find bno i s = (if int i < lh_n s \<and> lh_block s ! i \<noteq> bno then log_find bno (i + 1) s else i)"
  by pat_completeness auto
termination by (relation "measure (\<lambda>(b, i, s). nat (lh_n s) - i)") auto

declare log_find.simps [simp del]

definition log_write :: "nat \<Rightarrow> 'z klog_scheme \<Rightarrow> 'z klog_scheme res" where
  "log_write b s =
     panic_if (lh_n s \<ge> int LOGBLOCKS) ''too big a transaction'' (
     panic_if (log_outstanding s < 1) ''log_write outside of trans'' (
     let bno = blockno (bufs s ! b);
         i = log_find bno 0 s;
         s = s\<lparr>lh_block := (lh_block s)[i := bno]\<rparr>
     in Ok (if int i = lh_n s then (bpin b s)\<lparr>lh_n := lh_n s + 1\<rparr> else s)))"

end
