(* ===== verification/Fs.thy ===== *)
theory Fs
  imports Log
begin

text \<open>
  The file system (\<^verbatim>\<open>kernel/fs.c\<close>, \<^verbatim>\<open>fs.h\<close>, \<^verbatim>\<open>stat.h\<close>) over the log: the superblock, the block
  allocator, the inode table, file content, directories and path names. An inode pointer is an index of the inode
  table, so the tests of \<^verbatim>\<open>ilock\<close> and \<^verbatim>\<open>iunlock\<close> for a null pointer have no counterpart. A C string is the
  list of its bytes before the terminating zero; the 14 byte name of a directory entry is a list of 14 bytes. The
  messages that \<^verbatim>\<open>balloc\<close>, \<^verbatim>\<open>ialloc\<close> and \<^verbatim>\<open>ireclaim\<close> print are left out.
\<close>

section \<open>State\<close>

record superblock =
  sb_magic :: u32
  sb_size :: u32
  sb_nblocks :: u32
  sb_ninodes :: u32
  sb_nlog :: u32
  sb_logstart :: u32
  sb_inodestart :: u32
  sb_bmapstart :: u32

record inode =
  idev :: u32
  inum :: u32
  iref :: int
  ilk :: sleeplock
  ivalid :: bool
  itype :: u16
  imajor :: u16
  iminor :: u16
  inlink :: u16
  isize :: u32
  iaddrs :: "u32 list"

record kfs = klog +
  sb :: superblock
  itable :: "inode list"

record stat =
  st_dev :: u32
  st_ino :: u32
  st_type :: u16
  st_nlink :: u16
  st_size :: u64

definition FSMAGIC :: u32 where "FSMAGIC = 0x10203040"
definition ROOTINO :: u32 where "ROOTINO = 1"
definition NDIRECT :: nat where "NDIRECT = 12"
definition NINDIRECT :: nat where "NINDIRECT = BSIZE div 4"
definition MAXFILE :: nat where "MAXFILE = NDIRECT + NINDIRECT"
definition DINODE_SIZE :: nat where "DINODE_SIZE = 64"
definition IPB :: nat where "IPB = BSIZE div DINODE_SIZE"
definition BPB :: nat where "BPB = BSIZE * 8"
definition DIRSIZ :: nat where "DIRSIZ = 14"
definition DIRENT_SIZE :: nat where "DIRENT_SIZE = 2 + DIRSIZ"
definition T_DIR :: u16 where "T_DIR = 1"
definition T_FILE :: u16 where "T_FILE = 2"
definition T_DEVICE :: u16 where "T_DEVICE = 3"

lemmas fs_consts [kconst] = FSMAGIC_def ROOTINO_def NDIRECT_def NINDIRECT_def MAXFILE_def DINODE_SIZE_def IPB_def BPB_def
  DIRSIZ_def DIRENT_SIZE_def T_DIR_def T_FILE_def T_DEVICE_def BSIZE_def

definition IBLOCK :: "u32 \<Rightarrow> superblock \<Rightarrow> u32" where
  "IBLOCK i b = i div of_nat IPB + sb_inodestart b"

definition BBLOCK :: "u32 \<Rightarrow> superblock \<Rightarrow> u32" where
  "BBLOCK i b = i div of_nat BPB + sb_bmapstart b"

definition upd_inode :: "nat \<Rightarrow> (inode \<Rightarrow> inode) \<Rightarrow> 'z kfs_scheme \<Rightarrow> 'z kfs_scheme" where
  "upd_inode i f s = s\<lparr>itable := (itable s)[i := f (itable s ! i)]\<rparr>"

abbreviation ino :: "nat \<Rightarrow> 'z kfs_scheme \<Rightarrow> inode" where
  "ino i s \<equiv> itable s ! i"

text \<open>\<^verbatim>\<open>struct superblock\<close> and \<^verbatim>\<open>struct dinode\<close> in a block: four shorts, the size, and 13 block addresses.\<close>

definition sb_of_bytes :: "u8 list \<Rightarrow> superblock" where
  "sb_of_bytes d = \<lparr>sb_magic = get32 0 d, sb_size = get32 4 d, sb_nblocks = get32 8 d, sb_ninodes = get32 12 d,
     sb_nlog = get32 16 d, sb_logstart = get32 20 d, sb_inodestart = get32 24 d, sb_bmapstart = get32 28 d\<rparr>"

definition dinode_off :: "u32 \<Rightarrow> nat" where
  "dinode_off i = unat i mod IPB * DINODE_SIZE"

definition load_dinode :: "u8 list \<Rightarrow> nat \<Rightarrow> inode \<Rightarrow> inode" where
  "load_dinode d o' ip = ip\<lparr>itype := get16 o' d, imajor := get16 (o' + 2) d, iminor := get16 (o' + 4) d,
     inlink := get16 (o' + 6) d, isize := get32 (o' + 8) d, iaddrs := map (\<lambda>i. get32 (o' + 12 + 4 * i) d) [0..<NDIRECT + 1]\<rparr>"

definition store_dinode :: "inode \<Rightarrow> nat \<Rightarrow> u8 list \<Rightarrow> u8 list" where
  "store_dinode ip o' d =
     fold (\<lambda>i. set32 (o' + 12 + 4 * i) (iaddrs ip ! i)) [0..<NDIRECT + 1]
       (set32 (o' + 8) (isize ip) (set16 (o' + 6) (inlink ip) (set16 (o' + 4) (iminor ip)
         (set16 (o' + 2) (imajor ip) (set16 o' (itype ip) d)))))"

section \<open>Blocks\<close>

definition readsb :: "u32 \<Rightarrow> 'z kfs_scheme \<Rightarrow> 'z kfs_scheme res" where
  "readsb dev s =
     bnd (bread dev 1 s) (\<lambda>(bp, s). brelse bp (s\<lparr>sb := sb_of_bytes (data_of bp s)\<rparr>))"

definition bzero :: "u32 \<Rightarrow> u32 \<Rightarrow> 'z kfs_scheme \<Rightarrow> 'z kfs_scheme res" where
  "bzero dev bno s =
     bnd (bread dev bno s) (\<lambda>(bp, s).
     bnd (log_write bp (set_data bp (replicate BSIZE 0) s)) (\<lambda>s. brelse bp s))"

text \<open>\<^verbatim>\<open>for(bi = 0; bi < BPB && b + bi < sb.size; bi++) if((bp->data[bi/8] & 1 << (bi % 8)) == 0)\<close>\<close>

definition bmap_bit :: "u8 list \<Rightarrow> nat \<Rightarrow> bool" where
  "bmap_bit d bi \<longleftrightarrow> d ! (bi div 8) AND push_bit (bi mod 8) 1 \<noteq> 0"

function bfind :: "u8 list \<Rightarrow> nat \<Rightarrow> nat \<Rightarrow> nat \<Rightarrow> nat option" where
  "bfind d b bi sz =
     (if bi < BPB \<and> b + bi < sz then if \<not> bmap_bit d bi then Some bi else bfind d b (bi + 1) sz else None)"
  by pat_completeness auto
termination by (relation "measure (\<lambda>(d, b, bi, sz). BPB - bi)") auto

declare bfind.simps [simp del]

primrec balloc_scan :: "u32 \<Rightarrow> nat list \<Rightarrow> 'z kfs_scheme \<Rightarrow> (u32 \<times> 'z kfs_scheme) res" where
  "balloc_scan dev [] s = Ok (0, s)"
| "balloc_scan dev (b # bs) s =
     undef_if (b \<ge> 2 ^ 31) (
     bnd (bread dev (BBLOCK (of_nat b) (sb s)) s) (\<lambda>(bp, s).
     case bfind (data_of bp s) b 0 (unat (sb_size (sb s))) of
       Some bi \<Rightarrow>
         let d = data_of bp s; d' = d[bi div 8 := d ! (bi div 8) OR push_bit (bi mod 8) 1] in
         bnd (log_write bp (set_data bp d' s)) (\<lambda>s.
         bnd (brelse bp s) (\<lambda>s.
         bnd (bzero dev (of_nat (b + bi)) s) (\<lambda>s. Ok (of_nat (b + bi), s))))
     | None \<Rightarrow> bnd (brelse bp s) (\<lambda>s. balloc_scan dev bs s)))"

definition balloc :: "u32 \<Rightarrow> 'z kfs_scheme \<Rightarrow> (u32 \<times> 'z kfs_scheme) res" where
  "balloc dev s = balloc_scan dev (map (\<lambda>k. k * BPB) [0..<(unat (sb_size (sb s)) + BPB - 1) div BPB]) s"

definition bfree :: "u32 \<Rightarrow> u32 \<Rightarrow> 'z kfs_scheme \<Rightarrow> 'z kfs_scheme res" where
  "bfree dev b s =
     bnd (bread dev (BBLOCK b (sb s)) s) (\<lambda>(bp, s).
     let bi = unat b mod BPB; d = data_of bp s in
     panic_if (\<not> bmap_bit d bi) ''freeing free block'' (
     bnd (log_write bp (set_data bp (d[bi div 8 := d ! (bi div 8) AND NOT (push_bit (bi mod 8) 1)]) s)) (\<lambda>s. brelse bp s)))"

section \<open>Inodes\<close>

definition iinit :: "'z kfs_scheme \<Rightarrow> 'z kfs_scheme" where
  "iinit s = fold (\<lambda>i. upd_inode i (\<lambda>ip. ip\<lparr>ilk := initsleeplock\<rparr>)) [0..<NINODE] s"

text \<open>The scan of \<^verbatim>\<open>iget\<close>: the entry for the inode, and the first empty slot before it.\<close>

primrec iget_scan :: "u32 \<Rightarrow> u32 \<Rightarrow> nat list \<Rightarrow> nat option \<Rightarrow> 'z kfs_scheme \<Rightarrow> nat option \<times> nat option" where
  "iget_scan dev n [] empt s = (None, empt)"
| "iget_scan dev n (i # is) empt s =
     (if iref (ino i s) > 0 \<and> idev (ino i s) = dev \<and> inum (ino i s) = n then (Some i, empt)
      else iget_scan dev n is (if empt = None \<and> iref (ino i s) = 0 then Some i else empt) s)"

definition iget :: "u32 \<Rightarrow> u32 \<Rightarrow> 'z kfs_scheme \<Rightarrow> (nat \<times> 'z kfs_scheme) res" where
  "iget dev n s =
     (case iget_scan dev n [0..<NINODE] None s of
        (Some i, _) \<Rightarrow> Ok (i, upd_inode i (\<lambda>ip. ip\<lparr>iref := iref ip + 1\<rparr>) s)
      | (None, None) \<Rightarrow> Panic ''iget: no inodes''
      | (None, Some i) \<Rightarrow> Ok (i, upd_inode i (\<lambda>ip. ip\<lparr>idev := dev, inum := n, iref := 1, ivalid := False\<rparr>) s))"

primrec ialloc_scan :: "u32 \<Rightarrow> u16 \<Rightarrow> nat list \<Rightarrow> 'z kfs_scheme \<Rightarrow> (nat option \<times> 'z kfs_scheme) res" where
  "ialloc_scan dev ty [] s = Ok (None, s)"
| "ialloc_scan dev ty (n # ns) s =
     undef_if (n \<ge> 2 ^ 31) (
     bnd (bread dev (IBLOCK (of_nat n) (sb s)) s) (\<lambda>(bp, s).
     let d = data_of bp s; o' = dinode_off (of_nat n) in
     if get16 o' d = 0 then
       bnd (log_write bp (set_data bp (set16 o' ty (blit o' (replicate DINODE_SIZE 0) d)) s)) (\<lambda>s.
       bnd (brelse bp s) (\<lambda>s.
       bnd (iget dev (of_nat n) s) (\<lambda>(i, s). Ok (Some i, s))))
     else bnd (brelse bp s) (\<lambda>s. ialloc_scan dev ty ns s)))"

definition ialloc :: "u32 \<Rightarrow> u16 \<Rightarrow> 'z kfs_scheme \<Rightarrow> (nat option \<times> 'z kfs_scheme) res" where
  "ialloc dev ty s = ialloc_scan dev ty [1..<unat (sb_ninodes (sb s))] s"

definition iupdate :: "nat \<Rightarrow> 'z kfs_scheme \<Rightarrow> 'z kfs_scheme res" where
  "iupdate i s =
     bnd (bread (idev (ino i s)) (IBLOCK (inum (ino i s)) (sb s)) s) (\<lambda>(bp, s).
     bnd (log_write bp (set_data bp (store_dinode (ino i s) (dinode_off (inum (ino i s))) (data_of bp s)) s)) (\<lambda>s.
     brelse bp s))"

definition idup :: "nat \<Rightarrow> 'z kfs_scheme \<Rightarrow> 'z kfs_scheme" where
  "idup i s = upd_inode i (\<lambda>ip. ip\<lparr>iref := iref ip + 1\<rparr>) s"

definition ilock :: "nat \<Rightarrow> 'z kfs_scheme \<Rightarrow> 'z kfs_scheme res" where
  "ilock i s =
     panic_if (iref (ino i s) < 1) ''ilock'' (
     bnd (acquiresleep (ilk (ino i s)) s) (\<lambda>lk.
     let s = upd_inode i (\<lambda>ip. ip\<lparr>ilk := lk\<rparr>) s in
     if \<not> ivalid (ino i s) then
       bnd (bread (idev (ino i s)) (IBLOCK (inum (ino i s)) (sb s)) s) (\<lambda>(bp, s).
       let d = data_of bp s; s = upd_inode i (\<lambda>ip. load_dinode d (dinode_off (inum ip)) ip) s in
       bnd (brelse bp s) (\<lambda>s.
       let s = upd_inode i (\<lambda>ip. ip\<lparr>ivalid := True\<rparr>) s in
       panic_if (itype (ino i s) = 0) ''ilock: no type'' (Ok s)))
     else Ok s))"

definition iunlock :: "nat \<Rightarrow> 'z kfs_scheme \<Rightarrow> 'z kfs_scheme res" where
  "iunlock i s =
     panic_if (\<not> holdingsleep (ilk (ino i s)) s \<or> iref (ino i s) < 1) ''iunlock'' (
     let (lk, s) = releasesleep (ChanInode i) (ilk (ino i s)) s in Ok (upd_inode i (\<lambda>ip. ip\<lparr>ilk := lk\<rparr>) s))"

text \<open>\<^verbatim>\<open>itrunc\<close>: the direct blocks, the blocks of the indirect block, the indirect block, then the size.\<close>

definition itrunc_direct :: "nat \<Rightarrow> nat \<Rightarrow> 'z kfs_scheme \<Rightarrow> 'z kfs_scheme res" where
  "itrunc_direct i k s =
     (if iaddrs (ino i s) ! k \<noteq> 0 then
        bnd (bfree (idev (ino i s)) (iaddrs (ino i s) ! k) s) (\<lambda>s.
        Ok (upd_inode i (\<lambda>ip. ip\<lparr>iaddrs := (iaddrs ip)[k := 0]\<rparr>) s))
      else Ok s)"

definition itrunc_indirect :: "nat \<Rightarrow> 'z kfs_scheme \<Rightarrow> 'z kfs_scheme res" where
  "itrunc_indirect i s =
     (let a = iaddrs (ino i s) ! NDIRECT in
      if a \<noteq> 0 then
        bnd (bread (idev (ino i s)) a s) (\<lambda>(bp, s).
        bnd (for_res [0..<NINDIRECT] (\<lambda>j s.
               if get32 (4 * j) (data_of bp s) \<noteq> 0 then bfree (idev (ino i s)) (get32 (4 * j) (data_of bp s)) s else Ok s) s) (\<lambda>s.
        bnd (brelse bp s) (\<lambda>s.
        bnd (bfree (idev (ino i s)) (iaddrs (ino i s) ! NDIRECT) s) (\<lambda>s.
        Ok (upd_inode i (\<lambda>ip. ip\<lparr>iaddrs := (iaddrs ip)[NDIRECT := 0]\<rparr>) s)))))
      else Ok s)"

definition itrunc :: "nat \<Rightarrow> 'z kfs_scheme \<Rightarrow> 'z kfs_scheme res" where
  "itrunc i s =
     bnd (for_res [0..<NDIRECT] (itrunc_direct i) s) (\<lambda>s.
     bnd (itrunc_indirect i s) (\<lambda>s.
     iupdate i (upd_inode i (\<lambda>ip. ip\<lparr>isize := 0\<rparr>) s)))"

definition iput :: "nat \<Rightarrow> 'z kfs_scheme \<Rightarrow> 'z kfs_scheme res" where
  "iput i s =
     bnd (if iref (ino i s) = 1 \<and> ivalid (ino i s) \<and> inlink (ino i s) = 0 then
            bnd (acquiresleep (ilk (ino i s)) s) (\<lambda>lk.
            bnd (itrunc i (upd_inode i (\<lambda>ip. ip\<lparr>ilk := lk\<rparr>) s)) (\<lambda>s.
            bnd (iupdate i (upd_inode i (\<lambda>ip. ip\<lparr>itype := 0\<rparr>) s)) (\<lambda>s.
            let s = upd_inode i (\<lambda>ip. ip\<lparr>ivalid := False\<rparr>) s;
                (lk, s) = releasesleep (ChanInode i) (ilk (ino i s)) s
            in Ok (upd_inode i (\<lambda>ip. ip\<lparr>ilk := lk\<rparr>) s))))
          else Ok s) (\<lambda>s.
     Ok (upd_inode i (\<lambda>ip. ip\<lparr>iref := iref ip - 1\<rparr>) s))"

definition iunlockput :: "nat \<Rightarrow> 'z kfs_scheme \<Rightarrow> 'z kfs_scheme res" where
  "iunlockput i s = bnd (iunlock i s) (iput i)"

definition ireclaim_one :: "u32 \<Rightarrow> nat \<Rightarrow> 'z kfs_scheme \<Rightarrow> 'z kfs_scheme res" where
  "ireclaim_one dev n s =
     undef_if (n \<ge> 2 ^ 31) (
     bnd (bread dev (IBLOCK (of_nat n) (sb s)) s) (\<lambda>(bp, s).
     let d = data_of bp s; o' = dinode_off (of_nat n) in
     bnd (if get16 o' d \<noteq> 0 \<and> get16 (o' + 6) d = 0 then bnd (iget dev (of_nat n) s) (\<lambda>(i, s). Ok (Some i, s)) else Ok (None, s)) (\<lambda>(ip, s).
     bnd (brelse bp s) (\<lambda>s.
     case ip of
       None \<Rightarrow> Ok s
     | Some i \<Rightarrow> bnd (begin_op s) (\<lambda>s. bnd (ilock i s) (\<lambda>s. bnd (iunlock i s) (\<lambda>s. bnd (iput i s) end_op)))))))"

definition ireclaim :: "u32 \<Rightarrow> 'z kfs_scheme \<Rightarrow> 'z kfs_scheme res" where
  "ireclaim dev s = for_res [1..<unat (sb_ninodes (sb s))] (ireclaim_one dev) s"

definition fsinit :: "u32 \<Rightarrow> 'z kfs_scheme \<Rightarrow> 'z kfs_scheme res" where
  "fsinit dev s =
     bnd (readsb dev s) (\<lambda>s.
     panic_if (sb_magic (sb s) \<noteq> FSMAGIC) ''invalid file system'' (
     bnd (initlog dev (sb_logstart (sb s)) s) (\<lambda>s. ireclaim dev s)))"

section \<open>Content\<close>

definition bmap :: "nat \<Rightarrow> u32 \<Rightarrow> 'z kfs_scheme \<Rightarrow> (u32 \<times> 'z kfs_scheme) res" where
  "bmap i bn s =
     (let k = unat bn in
      if k < NDIRECT then
        let a = iaddrs (ino i s) ! k in
        if a = 0 then
          bnd (balloc (idev (ino i s)) s) (\<lambda>(a, s).
          if a = 0 then Ok (0, s) else Ok (a, upd_inode i (\<lambda>ip. ip\<lparr>iaddrs := (iaddrs ip)[k := a]\<rparr>) s))
        else Ok (a, s)
      else
        let k = k - NDIRECT in
        if k < NINDIRECT then
          bnd (let a = iaddrs (ino i s) ! NDIRECT in
               if a = 0 then
                 bnd (balloc (idev (ino i s)) s) (\<lambda>(a, s).
                 if a = 0 then Ok (0, s) else Ok (a, upd_inode i (\<lambda>ip. ip\<lparr>iaddrs := (iaddrs ip)[NDIRECT := a]\<rparr>) s))
               else Ok (a, s)) (\<lambda>(a, s).
          if a = 0 then Ok (0, s)
          else bnd (bread (idev (ino i s)) a s) (\<lambda>(bp, s).
            bnd (let a = get32 (4 * k) (data_of bp s) in
                 if a = 0 then
                   bnd (balloc (idev (ino i s)) s) (\<lambda>(a, s).
                   if a \<noteq> 0 then
                     bnd (log_write bp (set_data bp (set32 (4 * k) a (data_of bp s)) s)) (\<lambda>s. Ok (a, s))
                   else Ok (a, s))
                 else Ok (a, s)) (\<lambda>(a, s).
            bnd (brelse bp s) (\<lambda>s. Ok (a, s)))))
        else Panic ''bmap: out of range'')"

definition stati :: "nat \<Rightarrow> 'z kfs_scheme \<Rightarrow> stat" where
  "stati i s = \<lparr>st_dev = idev (ino i s), st_ino = inum (ino i s), st_type = itype (ino i s), st_nlink = inlink (ino i s),
     st_size = ucast (isize (ino i s))\<rparr>"

text \<open>The loop of \<^verbatim>\<open>readi\<close>. The test on entry excludes a wrap of \<^verbatim>\<open>off + n\<close>, so the counters are numbers.\<close>

function readi_loop :: "nat \<Rightarrow> iobuf \<Rightarrow> nat \<Rightarrow> nat \<Rightarrow> nat \<Rightarrow> 'z kfs_scheme \<Rightarrow> (int \<times> iobuf \<times> 'z kfs_scheme) res" where
  "readi_loop i dst off n tot s =
     (if tot < n then
        bnd (bmap i (of_nat ((off + tot) div BSIZE)) s) (\<lambda>(a, s).
        if a = 0 then Ok (int tot, dst, s)
        else bnd (bread (idev (ino i s)) a s) (\<lambda>(bp, s).
          let m = min (n - tot) (BSIZE - (off + tot) mod BSIZE) in
          bnd (either_copyout dst tot (slice ((off + tot) mod BSIZE) m (data_of bp s)) s) (\<lambda>(r, dst, s).
          if r = - 1 then bnd (brelse bp s) (\<lambda>s. Ok (- 1, dst, s))
          else bnd (brelse bp s) (\<lambda>s. readi_loop i dst off n (tot + m) s))))
      else Ok (int tot, dst, s))"
  by pat_completeness auto
termination by (relation "measure (\<lambda>(i, dst, off, n, tot, s). n - tot)") (auto simp: BSIZE_def)

declare readi_loop.simps [simp del]

definition readi :: "nat \<Rightarrow> iobuf \<Rightarrow> u32 \<Rightarrow> u32 \<Rightarrow> 'z kfs_scheme \<Rightarrow> (int \<times> iobuf \<times> 'z kfs_scheme) res" where
  "readi i dst off n s =
     (if off > isize (ino i s) \<or> off + n < off then Ok (0, dst, s)
      else
        let n = (if off + n > isize (ino i s) then isize (ino i s) - off else n)
        in readi_loop i dst (unat off) (unat n) 0 s)"

function writei_loop :: "nat \<Rightarrow> iobuf \<Rightarrow> nat \<Rightarrow> nat \<Rightarrow> nat \<Rightarrow> 'z kfs_scheme \<Rightarrow> (nat \<times> 'z kfs_scheme) res" where
  "writei_loop i src off n tot s =
     (if tot < n then
        bnd (bmap i (of_nat ((off + tot) div BSIZE)) s) (\<lambda>(a, s).
        if a = 0 then Ok (tot, s)
        else bnd (bread (idev (ino i s)) a s) (\<lambda>(bp, s).
          let m = min (n - tot) (BSIZE - (off + tot) mod BSIZE) in
          bnd (either_copyin src tot m s) (\<lambda>(r, bs, s).
          let s = set_data bp (blit ((off + tot) mod BSIZE) bs (data_of bp s)) s in
          if r = - 1 then bnd (brelse bp s) (\<lambda>s. Ok (tot, s))
          else bnd (log_write bp s) (\<lambda>s. bnd (brelse bp s) (\<lambda>s. writei_loop i src off n (tot + m) s)))))
      else Ok (tot, s))"
  by pat_completeness auto
termination by (relation "measure (\<lambda>(i, src, off, n, tot, s). n - tot)") (auto simp: BSIZE_def)

declare writei_loop.simps [simp del]

definition writei :: "nat \<Rightarrow> iobuf \<Rightarrow> u32 \<Rightarrow> u32 \<Rightarrow> 'z kfs_scheme \<Rightarrow> (int \<times> 'z kfs_scheme) res" where
  "writei i src off n s =
     (if off > isize (ino i s) \<or> off + n < off then Ok (- 1, s)
      else if unat (off + n) > MAXFILE * BSIZE then Ok (- 1, s)
      else
        bnd (writei_loop i src (unat off) (unat n) 0 s) (\<lambda>(tot, s).
        let off = off + of_nat tot;
            s = (if off > isize (ino i s) then upd_inode i (\<lambda>ip. ip\<lparr>isize := off\<rparr>) s else s)
        in bnd (iupdate i s) (\<lambda>s. Ok (int tot, s))))"

section \<open>Directories\<close>

text \<open>\<^verbatim>\<open>strncmp\<close> and \<^verbatim>\<open>strncpy\<close> of \<^verbatim>\<open>string.c\<close> on byte lists; a list that ends stands for a terminated string.\<close>

definition hd0 :: "u8 list \<Rightarrow> u8" where
  "hd0 xs = (case xs of [] \<Rightarrow> 0 | b # _ \<Rightarrow> b)"

primrec strncmp_bytes :: "nat \<Rightarrow> u8 list \<Rightarrow> u8 list \<Rightarrow> int" where
  "strncmp_bytes 0 p q = 0"
| "strncmp_bytes (Suc n) p q =
     (if hd0 p \<noteq> 0 \<and> hd0 p = hd0 q then strncmp_bytes n (tl p) (tl q) else uint (hd0 p) - uint (hd0 q))"

primrec strncpy_bytes :: "nat \<Rightarrow> u8 list \<Rightarrow> u8 list" where
  "strncpy_bytes 0 t = []"
| "strncpy_bytes (Suc n) t = (if hd0 t \<noteq> 0 then hd0 t # strncpy_bytes n (tl t) else replicate (Suc n) 0)"

definition namecmp :: "u8 list \<Rightarrow> u8 list \<Rightarrow> int" where
  "namecmp p q = strncmp_bytes DIRSIZ p q"

text \<open>The offsets \<^verbatim>\<open>off = 0; off < dp->size; off += sizeof(de)\<close>. A directory too big for a 32 bit offset makes
  \<^verbatim>\<open>bmap\<close> panic before the offset wraps.\<close>

definition dirent_offs :: "u32 \<Rightarrow> nat list" where
  "dirent_offs sz = map (\<lambda>k. k * DIRENT_SIZE) [0..<(unat sz + DIRENT_SIZE - 1) div DIRENT_SIZE]"

text \<open>\<^verbatim>\<open>readi(dp, 0, (uint64)&de, off, sizeof(de)) != sizeof(de)\<close> panics.\<close>

definition read_dirent :: "string \<Rightarrow> nat \<Rightarrow> nat \<Rightarrow> 'z kfs_scheme \<Rightarrow> (u8 list \<times> 'z kfs_scheme) res" where
  "read_dirent e i off s =
     bnd (readi i (Local (replicate DIRENT_SIZE 0)) (of_nat off) (of_nat DIRENT_SIZE) s) (\<lambda>(r, de, s).
     panic_if (r \<noteq> int DIRENT_SIZE) e (case de of Local xs \<Rightarrow> Ok (xs, s) | _ \<Rightarrow> Undef))"

primrec dirlookup_scan :: "nat \<Rightarrow> u8 list \<Rightarrow> nat list \<Rightarrow> 'z kfs_scheme \<Rightarrow> ((nat \<times> u32) option \<times> 'z kfs_scheme) res" where
  "dirlookup_scan i name [] s = Ok (None, s)"
| "dirlookup_scan i name (off # offs) s =
     bnd (read_dirent ''dirlookup read'' i off s) (\<lambda>(de, s).
     if get16 0 de = 0 then dirlookup_scan i name offs s
     else if namecmp name (drop 2 de) = 0 then
       bnd (iget (idev (ino i s)) (ucast (get16 0 de)) s) (\<lambda>(j, s). Ok (Some (j, of_nat off), s))
     else dirlookup_scan i name offs s)"

definition dirlookup :: "nat \<Rightarrow> u8 list \<Rightarrow> 'z kfs_scheme \<Rightarrow> ((nat \<times> u32) option \<times> 'z kfs_scheme) res" where
  "dirlookup i name s =
     panic_if (itype (ino i s) \<noteq> T_DIR) ''dirlookup not DIR'' (dirlookup_scan i name (dirent_offs (isize (ino i s))) s)"

text \<open>The offset of the first entry with number 0, or the end of the directory.\<close>

primrec dirlink_scan :: "nat \<Rightarrow> nat list \<Rightarrow> nat \<Rightarrow> 'z kfs_scheme \<Rightarrow> (nat \<times> 'z kfs_scheme) res" where
  "dirlink_scan i [] e s = Ok (e, s)"
| "dirlink_scan i (off # offs) e s =
     bnd (read_dirent ''dirlink read'' i off s) (\<lambda>(de, s).
     if get16 0 de = 0 then Ok (off, s) else dirlink_scan i offs (off + DIRENT_SIZE) s)"

definition dirlink :: "nat \<Rightarrow> u8 list \<Rightarrow> u32 \<Rightarrow> 'z kfs_scheme \<Rightarrow> (int \<times> 'z kfs_scheme) res" where
  "dirlink i name n s =
     bnd (dirlookup i name s) (\<lambda>(r, s).
     case r of
       Some (j, _) \<Rightarrow> bnd (iput j s) (\<lambda>s. Ok (- 1, s))
     | None \<Rightarrow>
         bnd (dirlink_scan i (dirent_offs (isize (ino i s))) 0 s) (\<lambda>(off, s).
         let de = set16 0 (ucast n) (replicate 2 0 @ strncpy_bytes DIRSIZ name) in
         bnd (writei i (Local de) (of_nat off) (of_nat DIRENT_SIZE) s) (\<lambda>(r, s).
         if r \<noteq> int DIRENT_SIZE then Ok (- 1, s) else Ok (0, s))))"

section \<open>Path names\<close>

definition slash :: u8 where "slash = 47"

text \<open>The rest of the path and the new content of \<^verbatim>\<open>name\<close>, or nothing if no element is left.\<close>

definition skipelem :: "u8 list \<Rightarrow> u8 list \<Rightarrow> (u8 list \<times> u8 list) option" where
  "skipelem pth name =
     (let pth = dropWhile (\<lambda>c. c = slash) pth in
      if pth = [] then None
      else
        let elem = takeWhile (\<lambda>c. c \<noteq> slash) pth;
            pth = dropWhile (\<lambda>c. c \<noteq> slash) pth;
            len = length elem;
            name = (if len \<ge> DIRSIZ then blit 0 (take DIRSIZ elem) name else blit 0 (elem @ [0]) name)
        in Some (dropWhile (\<lambda>c. c = slash) pth, name))"

lemma skipelem_shorter: "skipelem pth name = Some (pth', name') \<Longrightarrow> length pth' < length pth"
proof -
  assume "skipelem pth name = Some (pth', name')"
  then have ne: "dropWhile (\<lambda>c. c = slash) pth \<noteq> []"
    and p: "pth' = dropWhile (\<lambda>c. c = slash) (dropWhile (\<lambda>c. c \<noteq> slash) (dropWhile (\<lambda>c. c = slash) pth))"
    by (auto simp: skipelem_def Let_def split: if_splits)
  have "length (dropWhile (\<lambda>c. c \<noteq> slash) (dropWhile (\<lambda>c. c = slash) pth)) < length (dropWhile (\<lambda>c. c = slash) pth)"
    using ne hd_dropWhile[OF ne] by (cases "dropWhile (\<lambda>c. c = slash) pth") (auto intro: le_imp_less_Suc length_dropWhile_le)
  then show ?thesis
    unfolding p using length_dropWhile_le[of "\<lambda>c. c = slash" pth]
      length_dropWhile_le[of "\<lambda>c. c = slash" "dropWhile (\<lambda>c. c \<noteq> slash) (dropWhile (\<lambda>c. c = slash) pth)"] by linarith
qed

function namex_loop :: "nat \<Rightarrow> u8 list \<Rightarrow> bool \<Rightarrow> u8 list \<Rightarrow> 'z kfs_scheme \<Rightarrow> (nat option \<times> u8 list \<times> 'z kfs_scheme) res" where
  "namex_loop i pth nameiparent name s =
     (case skipelem pth name of
        Some (pth, name) \<Rightarrow>
          bnd (ilock i s) (\<lambda>s.
          if itype (ino i s) \<noteq> T_DIR then bnd (iunlockput i s) (\<lambda>s. Ok (None, name, s))
          else if nameiparent \<and> pth = [] then bnd (iunlock i s) (\<lambda>s. Ok (Some i, name, s))
          else
            bnd (dirlookup i name s) (\<lambda>(r, s).
            case r of
              None \<Rightarrow> bnd (iunlockput i s) (\<lambda>s. Ok (None, name, s))
            | Some (next, _) \<Rightarrow> bnd (iunlockput i s) (\<lambda>s. namex_loop next pth nameiparent name s)))
      | None \<Rightarrow> if nameiparent then bnd (iput i s) (\<lambda>s. Ok (None, name, s)) else Ok (Some i, name, s))"
  by pat_completeness auto
termination by (relation "measure (\<lambda>(i, pth, p, name, s). length pth)") (auto dest: skipelem_shorter)

declare namex_loop.simps [simp del]

definition namex :: "u8 list \<Rightarrow> bool \<Rightarrow> u8 list \<Rightarrow> 'z kfs_scheme \<Rightarrow> (nat option \<times> u8 list \<times> 'z kfs_scheme) res" where
  "namex pth nameiparent name s =
     bnd (if pth \<noteq> [] \<and> hd pth = slash then iget (of_nat ROOTDEV) ROOTINO s
          else case cwd (myproc s) of None \<Rightarrow> Undef | Some i \<Rightarrow> Ok (i, idup i s)) (\<lambda>(i, s).
     namex_loop i pth nameiparent name s)"

text \<open>The local array \<^verbatim>\<open>name\<close> is written by \<^verbatim>\<open>skipelem\<close> before it is read.\<close>

definition namei :: "u8 list \<Rightarrow> 'z kfs_scheme \<Rightarrow> (nat option \<times> 'z kfs_scheme) res" where
  "namei pth s = bnd (namex pth False (replicate DIRSIZ 0) s) (\<lambda>(r, _, s). Ok (r, s))"

definition nameiparent :: "u8 list \<Rightarrow> u8 list \<Rightarrow> 'z kfs_scheme \<Rightarrow> (nat option \<times> u8 list \<times> 'z kfs_scheme) res" where
  "nameiparent pth name s = namex pth True name s"

end
