(* ===== verification/Log_Spec.thy ===== *)
theory Log_Spec
  imports Log
begin

text \<open>
  The disk writes of the log as a list: what \<open>write_log\<close>, \<open>write_head\<close>, \<open>install_trans\<close>, \<open>commit\<close> and
  \<open>recover_from_log\<close> write, in which order, starting from a consistent buffer cache.
\<close>

section \<open>The header block\<close>

lemma head_bytes_fold:
  fixes bl :: "u32 list"
  assumes "m \<le> 30" "length d = BSIZE"
  defines "r \<equiv> fold (\<lambda>i d. set32 (4 + 4 * i) (bl ! i) d) [0..<m] d"
  shows "length r = BSIZE" "get32 0 r = get32 0 d" "i < m \<Longrightarrow> get32 (4 + 4 * i) r = bl ! i"
proof -
  have "length r = BSIZE \<and> get32 0 r = get32 0 d \<and> (\<forall>i < m. get32 (4 + 4 * i) r = bl ! i)"
    unfolding r_def using assms(1)
  proof (induction m)
    case 0
    then show ?case using assms(2) by simp
  next
    case (Suc m)
    let ?r = "fold (\<lambda>i d. set32 (4 + 4 * i) (bl ! i) d) [0..<m] d"
    have IH: "length ?r = BSIZE" "get32 0 ?r = get32 0 d" "\<forall>i < m. get32 (4 + 4 * i) ?r = bl ! i" using Suc by auto
    have l: "4 + 4 * m + 4 \<le> length ?r" using Suc.prems IH(1) by (simp add: BSIZE_def)
    have "get32 (4 + 4 * i) (set32 (4 + 4 * m) (bl ! m) ?r) = bl ! i" if "i < Suc m" for i
      using that IH(3) l by (cases "i = m") (auto simp: field_simps)
    then show ?case using IH l by (simp add: field_simps)
  qed
  then show "length r = BSIZE" "get32 0 r = get32 0 d" "i < m \<Longrightarrow> get32 (4 + 4 * i) r = bl ! i" by auto
qed

lemma sint_small: "0 \<le> n \<Longrightarrow> n < 2 ^ 31 \<Longrightarrow> sint (of_int n :: u32) = n"
  by (simp add: signed_of_int signed_take_bit_int_eq_self)

lemma head_bytes_ok:
  assumes "0 \<le> n" "n \<le> 30" "length d = BSIZE"
  shows "length (head_bytes n bl d) = BSIZE" "head_n (head_bytes n bl d) = n" "int i < n \<Longrightarrow> head_block (head_bytes n bl d) i = bl ! i"
proof -
  have m: "nat n \<le> 30" using assms(2) by simp
  have l: "length (set32 0 (of_int n) d) = BSIZE" using assms(3) by (simp add: BSIZE_def)
  note f = head_bytes_fold[OF m l, where bl = bl, folded head_bytes_def]
  show "length (head_bytes n bl d) = BSIZE" by (rule f)
  show "head_n (head_bytes n bl d) = n"
    using f(2) assms by (simp add: head_n_def field_simps BSIZE_def sint_small)
  show "head_block (head_bytes n bl d) i = bl ! i" if "int i < n"
    using f(3)[of i] that by (simp add: head_block_def)
qed

section \<open>Sequences of disk writes\<close>

definition apply_writes :: "(u32 \<times> u8 list) list \<Rightarrow> (u32 \<Rightarrow> u8 list) \<Rightarrow> u32 \<Rightarrow> u8 list" where
  "apply_writes ws d = fold (\<lambda>(b, x) d. d(b := x)) ws d"

lemma apply_writes_simps [simp]:
  "apply_writes [] d = d" "apply_writes ((b, x) # ws) d = apply_writes ws (d(b := x))"
  "apply_writes (ws @ vs) d = apply_writes vs (apply_writes ws d)"
  by (simp_all add: apply_writes_def)

lemma apply_writes_other: "b \<notin> fst ` set ws \<Longrightarrow> apply_writes ws d b = d b"
  by (induction ws arbitrary: d) auto

lemma apply_writes_map:
  "distinct (map f [0..<n]) \<Longrightarrow> i < n \<Longrightarrow> apply_writes (map (\<lambda>i. (f i, g i)) [0..<n]) d (f i) = g i"
proof (induction n arbitrary: d)
  case (Suc n)
  show ?case
  proof (cases "i = n")
    case False
    then have i: "i < n" using Suc.prems by simp
    then have "f i \<in> f ` {0..<n}" by simp
    then have "f i \<noteq> f n" using Suc.prems by auto
    then show ?thesis using Suc i by simp
  qed simp
qed simp

text \<open>\<open>s'\<close> comes from \<open>s\<close> by writing \<open>ws\<close> through the cache; nothing but buffers and disk has changed.\<close>

definition wrote :: "(u32 \<times> u8 list) list \<Rightarrow> 'z klog_scheme \<Rightarrow> 'z klog_scheme \<Rightarrow> bool" where
  "wrote ws s s' \<longleftrightarrow>
     disk s' = apply_writes ws (disk s) \<and> view s' = apply_writes ws (view s) \<and> dwrites s' = rev ws @ dwrites s \<and>
     (\<exists>ps B n p d w. s' = s\<lparr>procs := ps, bufs := B, bnext := n, bprev := p, disk := d, dwrites := w\<rparr> \<and>
        length ps = length (procs s) \<and> ps ! cur s = procs s ! cur s)"

lemma wroteI:
  assumes "s' = s\<lparr>procs := ps, bufs := B, bnext := n, bprev := p, disk := d, dwrites := w\<rparr>"
    "length ps = length (procs s)" "ps ! cur s = procs s ! cur s"
    "d = apply_writes ws (disk s)" "view s' = apply_writes ws (view s)" "w = rev ws @ dwrites s"
  shows "wrote ws s s'"
  unfolding wrote_def
proof (intro conjI exI)
  show "s' = s\<lparr>procs := ps, bufs := B, bnext := n, bprev := p, disk := d, dwrites := w\<rparr>" by (rule assms)
qed (use assms in simp_all)

lemma wroteE:
  assumes "wrote ws s s'"
  obtains ps B n p where
    "s' = s\<lparr>procs := ps, bufs := B, bnext := n, bprev := p, disk := apply_writes ws (disk s), dwrites := rev ws @ dwrites s\<rparr>"
    "length ps = length (procs s)" "ps ! cur s = procs s ! cur s" "view s' = apply_writes ws (view s)"
proof -
  from assms obtain ps B n p d w where s: "s' = s\<lparr>procs := ps, bufs := B, bnext := n, bprev := p, disk := d, dwrites := w\<rparr>"
    "length ps = length (procs s)" "ps ! cur s = procs s ! cur s" and d: "disk s' = apply_writes ws (disk s)"
    and v: "view s' = apply_writes ws (view s)" and w: "dwrites s' = rev ws @ dwrites s"
    unfolding wrote_def by blast
  have "d = apply_writes ws (disk s)" "w = rev ws @ dwrites s" using s(1) d w by simp_all
  then show thesis using that[OF _ s(2,3) v] s(1) by simp
qed

lemma wrote_refl: "wrote [] s s"
  by (rule wroteI[where ps = "procs s" and B = "bufs s" and n = "bnext s" and p = "bprev s" and d = "disk s" and w = "dwrites s"])
    simp_all

lemma wrote_trans:
  assumes "wrote vs r s" "wrote ws s t"
  shows "wrote (vs @ ws) r t"
proof -
  obtain ps B n p where s:
    "s = r\<lparr>procs := ps, bufs := B, bnext := n, bprev := p, disk := apply_writes vs (disk r), dwrites := rev vs @ dwrites r\<rparr>"
    "length ps = length (procs r)" "ps ! cur r = procs r ! cur r" "view s = apply_writes vs (view r)"
    using wroteE[OF assms(1)] .
  obtain ps' B' n' p' where t:
    "t = s\<lparr>procs := ps', bufs := B', bnext := n', bprev := p', disk := apply_writes ws (disk s), dwrites := rev ws @ dwrites s\<rparr>"
    "length ps' = length (procs s)" "ps' ! cur s = procs s ! cur s" "view t = apply_writes ws (view s)"
    using wroteE[OF assms(2)] .
  show ?thesis
    by (rule wroteI[where ps = ps' and B = B' and n = n' and p = p' and d = "disk t" and w = "dwrites t"])
      (use s t in simp_all)
qed

lemma wroteD:
  assumes "wrote ws s s'"
  shows "disk s' = apply_writes ws (disk s)" "view s' = apply_writes ws (view s)" "dwrites s' = rev ws @ dwrites s"
    "log_start s' = log_start s" "log_dev s' = log_dev s" "lh_n s' = lh_n s" "lh_block s' = lh_block s"
    "log_outstanding s' = log_outstanding s" "log_committing s' = log_committing s" "klog.more s' = klog.more s"
    "log_blk i s' = log_blk i s"
  by (rule wroteE[OF assms]; simp add: log_blk_def)+

lemma bframe_wrote: "bframe s s' \<Longrightarrow> view s' = view s \<Longrightarrow> wrote [] s s'"
proof -
  assume v: "view s' = view s" and "bframe s s'"
  then obtain ps B n p where s: "s' = s\<lparr>procs := ps, bufs := B, bnext := n, bprev := p\<rparr>" "length ps = length (procs s)"
    "ps ! cur s = procs s ! cur s" by (auto simp: bframe_def)
  show ?thesis
    by (rule wroteI[where ps = ps and B = B and n = n and p = p and d = "disk s" and w = "dwrites s"]) (use s v in simp_all)
qed

lemma disk_put_wrote:
  fixes s :: "'z klog_scheme"
  assumes "view (disk_put b x s) = (view s)(b := x)"
  shows "wrote [(b, x)] s (disk_put b x s)"
  by (rule wroteI[where ps = "procs s" and B = "bufs s" and n = "bnext s" and p = "bprev s"
        and d = "(disk s)(b := x)" and w = "(b, x) # dwrites s"]) (use assms in \<open>simp_all add: disk_put_def\<close>)

lemma clean_view:
  assumes "bwf P s" "b \<notin> held s" "b \<notin> P"
  shows "view s b = disk s b"
proof (cases "\<exists>i. bkey s i b")
  case True
  then obtain i where i: "bkey s i b" ..
  then have "\<not> slocked (block (bufs s ! i))" using assms(2) by (auto simp: held_def)
  then show ?thesis using view_cached[OF assms(1) i] bwfD(4)[OF assms(1), of i] assms(3) i by (auto simp: buf_ok_def bkey_def)
next
  case False
  then show ?thesis by (simp add: view_uncached)
qed

section \<open>Reading, writing and releasing blocks in the log code\<close>

lemma read_two:
  fixes s :: "'z klog_scheme"
  assumes wf: "bwf P s" "held s = {}" and P: "finite P" "card P < NBUF"
    and ab: "a \<noteq> b" "b \<in> P \<or> a \<in> P \<or> card P + 1 < NBUF"
  shows "\<exists>i s1 j s2. bread 1 a s = Ok (i, s1) \<and> bread 1 b s1 = Ok (j, s2) \<and> wrote [] s s1 \<and> wrote [] s s2 \<and>
    bwf P s2 \<and> held s2 = {a, b} \<and> has_buf s2 i a \<and> has_buf s2 j b \<and> i \<noteq> j"
proof -
  have ra: "a \<in> P \<or> card (held s \<union> P) < NBUF" "a \<notin> held s" using P(2) wf(2) by simp_all
  obtain i s1 where b1: "bread 1 a s = Ok (i, s1)" and p1: "bread_post P a s i s1"
    using bread_ok[OF wf(1) ra(2) P(1) ra(1)] by blast
  note 1 = bread_postD[OF p1]
  have h1: "held s1 = {a}" using 1(3) wf(2) by simp
  have "card ({a} \<union> P) \<le> Suc (card P)" by (simp add: card_insert_if P(1))
  moreover have "a \<in> P \<Longrightarrow> {a} \<union> P = P" by auto
  ultimately have rb: "b \<in> P \<or> card (held s1 \<union> P) < NBUF" "b \<notin> held s1" using ab P(2) h1 by auto
  obtain j s2 where b2: "bread 1 b s1 = Ok (j, s2)" and p2: "bread_post P b s1 j s2"
    using bread_ok[OF 1(1) rb(2) P(1) rb(1)] by blast
  note 2 = bread_postD[OF p2]
  have hi: "has_buf s2 i a" using 2(5)[OF 1(4)] .
  have ij: "i \<noteq> j" using hi 2(4) ab(1) by (auto simp: has_buf_def bkey_def)
  have h2: "held s2 = {a, b}" using 2(3) h1 by auto
  have w1: "wrote [] s s1" using bframe_wrote[OF 1(6,2)] .
  have w2: "wrote [] s s2" using wrote_trans[OF w1 bframe_wrote[OF 2(6,2)]] by simp
  show ?thesis using b1 b2 w1 w2 2(1) h2 hi 2(4) ij by blast
qed

lemma write_held:
  fixes s :: "'z klog_scheme"
  assumes wf: "bwf P s" and hb: "has_buf s i b" and len: "length x = BSIZE"
  shows "\<exists>s'. bwrite i (set_data i x s) = Ok s' \<and> wrote [(b, x)] s s' \<and> bwf P s' \<and> held s' = held s \<and>
    (\<forall>j c. has_buf s j c \<longrightarrow> has_buf s' j c)"
proof -
  note sd = set_data_ok[OF wf hb len]
  let ?s1 = "set_data i x s" and ?s2 = "disk_put b x (set_data i x s)"
  have v: "view ?s1 b = x" using sd(2) by simp
  note bw = bwrite_ok[OF sd(1) sd(4)[OF hb], unfolded v]
  obtain ps B n p where s1: "?s1 = s\<lparr>procs := ps, bufs := B, bnext := n, bprev := p\<rparr>" "length ps = length (procs s)"
    "ps ! cur s = procs s ! cur s" using sd(5) by (auto simp: bframe_def)
  have "view ?s2 = (view s)(b := x)" using bw(3) sd(2) by simp
  then have "wrote [(b, x)] s ?s2"
    by (intro wroteI[where ps = ps and B = B and n = n and p = p and d = "(disk s)(b := x)" and w = "(b, x) # dwrites s"])
      (use s1 in \<open>simp_all add: disk_put_def\<close>)
  then show ?thesis using bw sd by blast
qed

lemma release_held:
  fixes s :: "'z klog_scheme"
  assumes "bwf P s" "has_buf s i b" "b \<in> P \<or> view s b = disk s b"
  shows "\<exists>s'. brelse i s = Ok s' \<and> wrote [] s s' \<and> bwf P s' \<and> held s' = held s - {b} \<and>
    (\<forall>j c. j \<noteq> i \<longrightarrow> has_buf s j c \<longrightarrow> has_buf s' j c)"
proof -
  obtain s' where "brelse i s = Ok s'" and p: "brelse_post P b s i s'" using brelse_ok[OF assms] by blast
  then show ?thesis using brelse_postD[OF p] bframe_wrote by blast
qed

lemma release_two:
  fixes s :: "'z klog_scheme"
  assumes "bwf P s" "held s = {a, b}" "has_buf s i a" "has_buf s j b" "i \<noteq> j"
    "a \<in> P \<or> view s a = disk s a" "b \<in> P \<or> view s b = disk s b"
  shows "\<exists>s1 s2. brelse i s = Ok s1 \<and> brelse j s1 = Ok s2 \<and> wrote [] s s2 \<and> bwf P s2 \<and> held s2 = {}"
proof -
  obtain s1 where 1: "brelse i s = Ok s1" "wrote [] s s1" "bwf P s1" "held s1 = held s - {a}" "has_buf s1 j b"
    using release_held[OF assms(1,3,6)] assms(4,5) by metis
  have "b \<in> P \<or> view s1 b = disk s1 b" using assms(7) wroteD(1,2)[OF 1(2)] by simp
  then obtain s2 where 2: "brelse j s1 = Ok s2" "wrote [] s1 s2" "bwf P s2" "held s2 = held s1 - {b}"
    using release_held[OF 1(3,5)] by blast
  have "wrote [] s s2" using wrote_trans[OF 1(2) 2(2)] by simp
  then show ?thesis using 1 2 assms(2) by auto
qed

section \<open>One iteration\<close>

lemma write_log_one_ok:
  fixes s :: "'z klog_scheme"
  assumes wf: "bwf P s" "held s = {}" and P: "finite P" "card P < NBUF" and dev: "log_dev s = 1"
    and t: "tail < LOGBLOCKS" "lh_block s ! tail \<in> P" "log_blk tail s \<notin> P"
  shows "\<exists>s'. write_log_one tail s = Ok s' \<and> wrote [(log_blk tail s, view s (lh_block s ! tail))] s s' \<and>
    bwf P s' \<and> held s' = {}"
proof -
  let ?a = "log_blk tail s" and ?b = "lh_block s ! tail"
  have ab: "?a \<noteq> ?b" using t by auto
  obtain i s1 j s2 where r: "bread 1 ?a s = Ok (i, s1)" "bread 1 ?b s1 = Ok (j, s2)" "wrote [] s s1" "wrote [] s s2" "bwf P s2"
    "held s2 = {?a, ?b}" "has_buf s2 i ?a" "has_buf s2 j ?b" "i \<noteq> j"
    using read_two[OF wf P ab] t(2) by blast
  have d: "data_of j s2 = view s ?b" using has_buf_data[OF r(5,8)] wroteD(2)[OF r(4)] by simp
  obtain s3 where w: "bwrite i (set_data i (view s ?b) s2) = Ok s3" "wrote [(?a, view s ?b)] s2 s3" "bwf P s3"
    "held s3 = held s2" "has_buf s3 i ?a" "has_buf s3 j ?b"
    using write_held[OF r(5,7) view_length[OF wf(1), of ?b]] r(7,8) by blast
  have cl: "view s3 ?a = disk s3 ?a" using wroteD(1,2)[OF w(2)] by simp
  have h: "held s3 = {?b, ?a}" using w(4) r(6) by auto
  obtain s4 s5 where e: "brelse j s3 = Ok s4" "brelse i s4 = Ok s5" "wrote [] s3 s5" "bwf P s5" "held s5 = {}"
    using release_two[OF w(3) h w(6,5) r(9)[symmetric]] t(2) cl by blast
  have "write_log_one tail s = Ok s5"
    unfolding write_log_one_def using t(1) dev r(1,2) w(1) e(1,2) d wroteD(5,7)[OF r(3)] by simp
  moreover have "wrote [(?a, view s ?b)] s s5"
    using wrote_trans[OF wrote_trans[OF r(4) w(2)] e(3)] by simp
  ultimately show ?thesis using e(4,5) by blast
qed

lemma install_one_ok:
  fixes s :: "'z klog_scheme"
  assumes wf: "bwf P s" "held s = {}" and P: "finite P" "card P < NBUF" and dev: "log_dev s = 1"
    and t: "tail < LOGBLOCKS" "log_blk tail s \<notin> P" "log_blk tail s \<noteq> lh_block s ! tail"
    and rec: "\<not> recovering \<Longrightarrow> lh_block s ! tail \<in> P" "recovering \<Longrightarrow> P = {}"
  shows "\<exists>s'. install_one recovering tail s = Ok s' \<and> wrote [(lh_block s ! tail, view s (log_blk tail s))] s s' \<and>
    bwf (P - {lh_block s ! tail}) s' \<and> held s' = {}"
proof -
  let ?a = "log_blk tail s" and ?b = "lh_block s ! tail"
  have room: "?b \<in> P \<or> ?a \<in> P \<or> card P + 1 < NBUF" using rec by (cases recovering) (auto simp: kconst)
  obtain i s1 j s2 where r: "bread 1 ?a s = Ok (i, s1)" "bread 1 ?b s1 = Ok (j, s2)" "wrote [] s s1" "wrote [] s s2" "bwf P s2"
    "held s2 = {?a, ?b}" "has_buf s2 i ?a" "has_buf s2 j ?b" "i \<noteq> j"
    using read_two[OF wf P t(3) room] by blast
  have d: "data_of i s2 = view s ?a" using has_buf_data[OF r(5,7)] wroteD(2)[OF r(4)] by simp
  obtain s3 where w: "bwrite j (set_data j (view s ?a) s2) = Ok s3" "wrote [(?b, view s ?a)] s2 s3" "bwf P s3"
    "held s3 = held s2" "has_buf s3 i ?a" "has_buf s3 j ?b"
    using write_held[OF r(5,8) view_length[OF wf(1), of ?a]] r(7,8) by blast
  let ?s4 = "if \<not> recovering then bunpin j s3 else s3"
  have u: "bwf (P - {?b}) ?s4" "wrote [] s3 ?s4" "held ?s4 = {?a, ?b}" "has_buf ?s4 i ?a" "has_buf ?s4 j ?b"
    using bunpin_ok[OF w(3,6)] rec w r(6) bframe_wrote wrote_refl[of s3] by (cases recovering; auto)+
  have "disk s ?a = view s ?a" using clean_view[OF wf(1), of ?a] wf(2) t(2) by simp
  then have ca: "view ?s4 ?a = disk ?s4 ?a" and cb: "view ?s4 ?b = disk ?s4 ?b"
    using wroteD(1,2)[OF wrote_trans[OF wrote_trans[OF r(4) w(2)] u(2)]] t(3) by simp_all
  obtain s5 s6 where e: "brelse i ?s4 = Ok s5" "brelse j s5 = Ok s6" "wrote [] ?s4 s6" "bwf (P - {?b}) s6" "held s6 = {}"
    using release_two[OF u(1,3,4,5) r(9)] ca cb by blast
  have "install_one recovering tail s = Ok s6"
    unfolding install_one_def using t(1) dev r(1,2) w(1) e(1,2) d wroteD(5,7)[OF r(3)] by simp
  moreover have "wrote [(?b, view s ?a)] s s6"
    using wrote_trans[OF wrote_trans[OF wrote_trans[OF r(4) w(2)] u(2)] e(3)] by simp
  ultimately show ?thesis using e(4,5) by blast
qed

lemma write_head_ok:
  fixes s :: "'z klog_scheme"
  assumes wf: "bwf P s" "held s = {}" and P: "finite P" "card P < NBUF" and dev: "log_dev s = 1"
    and n: "0 \<le> lh_n s" "lh_n s \<le> 30"
  shows "\<exists>s'. write_head s = Ok s' \<and> wrote [(log_start s, head_bytes (lh_n s) (lh_block s) (view s (log_start s)))] s s' \<and>
    bwf P s' \<and> held s' = {}"
proof -
  let ?a = "log_start s"
  have ra: "?a \<in> P \<or> card (held s \<union> P) < NBUF" "?a \<notin> held s" using P(2) wf(2) by simp_all
  obtain i s1 where b1: "bread 1 ?a s = Ok (i, s1)" and p1: "bread_post P ?a s i s1"
    using bread_ok[OF wf(1) ra(2) P(1) ra(1)] by blast
  note 1 = bread_postD[OF p1]
  have w1: "wrote [] s s1" using bframe_wrote[OF 1(6,2)] .
  let ?x = "head_bytes (lh_n s) (lh_block s) (view s ?a)"
  have x: "length ?x = BSIZE" using head_bytes_ok(1)[OF n view_length[OF wf(1)]] .
  obtain s2 where w: "bwrite i (set_data i ?x s1) = Ok s2" "wrote [(?a, ?x)] s1 s2" "bwf P s2" "held s2 = held s1" "has_buf s2 i ?a"
    using write_held[OF 1(1,4) x] 1(4) by blast
  have "view s2 ?a = disk s2 ?a" using wroteD(1,2)[OF w(2)] by simp
  then obtain s3 where e: "brelse i s2 = Ok s3" "wrote [] s2 s3" "bwf P s3" "held s3 = held s2 - {?a}"
    using release_held[OF w(3,5)] by blast
  have d: "data_of i s1 = view s ?a" using has_buf_data[OF 1(1,4)] 1(2) by simp
  have "write_head s = Ok s3"
    unfolding write_head_def using dev b1 w(1) e(1) d wroteD(6,7)[OF w1] n by (simp add: kconst)
  moreover have "wrote [(?a, ?x)] s s3" using wrote_trans[OF wrote_trans[OF w1 w(2)] e(2)] by simp
  moreover have "held s3 = {}" using e(4) w(4) 1(3) wf(2) by simp
  ultimately show ?thesis using e(3) by blast
qed

end
