(* ===== verification/Log_Crash.thy ===== *)
theory Log_Crash
  imports Log_Spec
begin

text \<open>
  The writes of a commit, recovery after a crash, and the atomicity of a transaction: whatever prefix of the
  commit's writes has reached the disk, recovery leaves either none or all of the transaction.
\<close>

section \<open>The writes of a commit\<close>

definition log_area :: "u32 \<Rightarrow> u32 set" where
  "log_area st = (\<lambda>i. st + of_nat i) ` {..30}"

abbreviation log_len :: "'z klog_scheme \<Rightarrow> nat" where
  "log_len s \<equiv> nat (lh_n s)"

definition log_set :: "'z klog_scheme \<Rightarrow> u32 set" where
  "log_set s = set (take (log_len s) (lh_block s))"

definition log_ready :: "'z klog_scheme \<Rightarrow> bool" where
  "log_ready s \<longleftrightarrow>
     0 \<le> lh_n s \<and> lh_n s < int NBUF \<and> length (lh_block s) = LOGBLOCKS \<and> distinct (take (log_len s) (lh_block s)) \<and>
     bwf (log_set s) s \<and> held s = {} \<and> log_dev s = 1 \<and> log_set s \<inter> log_area (log_start s) = {} \<and>
     head_n (disk s (log_start s)) = 0"

definition head_at :: "int \<Rightarrow> 'z klog_scheme \<Rightarrow> u8 list" where
  "head_at n s = head_bytes n (lh_block s) (view s (log_start s))"

definition log_writes :: "'z klog_scheme \<Rightarrow> (u32 \<times> u8 list) list" where
  "log_writes s = map (\<lambda>i. (log_blk i s, view s (lh_block s ! i))) [0..<log_len s]"

definition home_writes :: "'z klog_scheme \<Rightarrow> (u32 \<times> u8 list) list" where
  "home_writes s = map (\<lambda>i. (lh_block s ! i, view s (lh_block s ! i))) [0..<log_len s]"

definition commit_writes :: "'z klog_scheme \<Rightarrow> (u32 \<times> u8 list) list" where
  "commit_writes s = log_writes s @ (log_start s, head_at (lh_n s) s) # home_writes s @
     [(log_start s, head_bytes 0 (lh_block s) (head_at (lh_n s) s))]"

lemma log_blk_area: "i < 30 \<Longrightarrow> log_blk i s \<in> log_area (log_start s)"
  unfolding log_blk_def log_area_def by (rule image_eqI[of _ _ "Suc i"]) (simp_all add: add.commute)

lemma log_start_area: "st \<in> log_area st"
  unfolding log_area_def by (rule image_eqI[of _ _ 0]) simp_all

lemma log_blk_inj:
  assumes "i < 30" "j < 30" "log_blk i s = log_blk j s"
  shows "i = j"
proof -
  have "(of_nat i :: u32) = of_nat j" using assms(3) by (simp add: log_blk_def)
  then show ?thesis using assms(1,2) by (intro of_nat_word_inj[where 'a = 32]) simp_all
qed

lemma log_blk_not_start: "i < 30 \<Longrightarrow> log_blk i s \<noteq> log_start s"
proof
  assume i: "i < 30" and "log_blk i s = log_start s"
  then have "(of_nat (Suc i) :: u32) = of_nat 0" by (simp add: log_blk_def add.commute)
  then have "Suc i = 0" using i by (intro of_nat_word_inj[where 'a = 32]) simp_all
  then show False by simp
qed

lemma fst_set_upt: "fst ` set (map (\<lambda>i. (f i, g i)) [a..<m]) = f ` {a..<m}"
  by (simp add: image_image)

lemma log_readyD:
  assumes "log_ready s"
  shows "0 \<le> lh_n s" "lh_n s < 30" "length (lh_block s) = 30" "bwf (log_set s) s" "held s = {}" "log_dev s = 1"
    "head_n (disk s (log_start s)) = 0" "finite (log_set s)" "card (log_set s) < NBUF"
    "i < log_len s \<Longrightarrow> lh_block s ! i \<in> log_set s" "b \<in> log_set s \<Longrightarrow> b \<notin> log_area (log_start s)"
    "log_len s < 30"
proof -
  show c: "card (log_set s) < NBUF"
  proof -
    have "card (log_set s) \<le> length (take (log_len s) (lh_block s))" unfolding log_set_def by (rule card_length)
    moreover have "log_len s < 30" using assms unfolding log_ready_def by (auto simp: kconst)
    ultimately show ?thesis by (simp add: kconst)
  qed
  show "lh_block s ! i \<in> log_set s" if "i < log_len s"
  proof -
    have "i < length (take (log_len s) (lh_block s))" using that assms unfolding log_ready_def by (auto simp: kconst)
    then show ?thesis unfolding log_set_def by (metis nth_mem nth_take that)
  qed
qed (use assms in \<open>auto simp: log_ready_def kconst log_set_def\<close>)

lemma write_log_loop:
  assumes R: "log_ready s" and m: "m \<le> log_len s"
  shows "\<exists>s'. for_res [0..<m] write_log_one s = Ok s' \<and> wrote (map (\<lambda>i. (log_blk i s, view s (lh_block s ! i))) [0..<m]) s s' \<and>
    bwf (log_set s) s' \<and> held s' = {}"
  using m
proof (induction m)
  case 0
  then show ?case using log_readyD(4,5)[OF R] wrote_refl by auto
next
  case (Suc m)
  note D = log_readyD[OF R]
  let ?W = "map (\<lambda>i. (log_blk i s, view s (lh_block s ! i))) [0..<m]"
  obtain t where t: "for_res [0..<m] write_log_one s = Ok t" "wrote ?W s t" "bwf (log_set s) t" "held t = {}"
    using Suc by auto
  have m30: "m < 30" using Suc.prems D(12) by simp
  have e: "log_dev t = 1" "lh_block t = lh_block s" "log_blk m t = log_blk m s" using wroteD[OF t(2)] D(6) by auto
  have v: "view t (lh_block s ! m) = view s (lh_block s ! m)"
  proof -
    have "lh_block s ! m \<notin> fst ` set ?W" 
      unfolding fst_set_upt using D(10)[of m] D(11)[of "lh_block s ! m"] log_blk_area[of _ s] m30 Suc.prems by auto
    then show ?thesis using wroteD(2)[OF t(2)] by (simp add: apply_writes_other)
  qed
  have "log_blk m t \<notin> log_set s" using D(11) log_blk_area[OF m30, of s] e(3) by auto
  then obtain u where u: "write_log_one m t = Ok u" "wrote [(log_blk m t, view t (lh_block t ! m))] t u" "bwf (log_set s) u" "held u = {}"
    using write_log_one_ok[OF t(3,4) D(8,9) e(1), of m] D(10)[of m] e(2) m30 Suc.prems by (auto simp: kconst)
  have "wrote (?W @ [(log_blk m s, view s (lh_block s ! m))]) s u" using wrote_trans[OF t(2) u(2)] e v by simp
  then show ?case using t(1) u by (simp add: for_res_append)
qed

lemma install_loop:
  assumes t: "bwf (set (drop k (take n bl))) s" "held s = {}" "log_dev s = 1" "lh_block s = bl" "length bl = 30" "n < 30"
    and d: "distinct (take n bl)" "set (take n bl) \<inter> log_area (log_start s) = {}" "k \<le> n"
  shows "\<exists>s'. for_res [k..<n] (install_one False) s = Ok s' \<and>
    wrote (map (\<lambda>i. (bl ! i, view s (log_blk i s))) [k..<n]) s s' \<and> bwf {} s' \<and> held s' = {}"
  using t d
proof (induction "n - k" arbitrary: k s)
  case 0
  then show ?case using wrote_refl[of s] by auto
next
  case (Suc m)
  let ?P = "set (drop k (take n bl))"
  have k: "k < n" "k < length (take n bl)" using Suc by auto
  have dr: "drop k (take n bl) = bl ! k # drop (Suc k) (take n bl)" using k Suc.prems(5,6) by (metis Cons_nth_drop_Suc nth_take)
  have "distinct (drop k (take n bl))" using Suc.prems(7) by simp
  then have P': "?P - {bl ! k} = set (drop (Suc k) (take n bl))" unfolding dr by auto
  have inP: "bl ! k \<in> ?P" unfolding dr by simp
  have sub: "?P \<subseteq> set (take n bl)" by (rule set_drop_subset)
  have card: "card ?P < NBUF" using card_length[of "drop k (take n bl)"] Suc.prems(6) by (simp add: kconst)
  have la: "log_blk k s \<in> log_area (log_start s)" using log_blk_area[of k s] k Suc.prems(6) by simp
  then have na: "log_blk k s \<notin> ?P" "log_blk k s \<noteq> bl ! k" using Suc.prems(8) sub inP by auto
  obtain u where u: "install_one False k s = Ok u" "wrote [(bl ! k, view s (log_blk k s))] s u" "bwf (?P - {bl ! k}) u" "held u = {}"
    using install_one_ok[OF Suc.prems(1,2) _ card Suc.prems(3), of k False] na inP k Suc.prems(4,6) by (auto simp: kconst)
  note w = wroteD[OF u(2)]
  have "m = n - Suc k" using Suc.hyps(2) by simp
  then obtain v where v: "for_res [Suc k..<n] (install_one False) u = Ok v"
    "wrote (map (\<lambda>i. (bl ! i, view u (log_blk i u))) [Suc k..<n]) u v" "bwf {} v" "held v = {}"
    using Suc.hyps(1)[of "Suc k" u] u(3,4) w P' Suc.prems k by auto
  have "view u (log_blk i u) = view s (log_blk i s)" if "i < n" for i
  proof -
    have "log_blk i s \<in> log_area (log_start s)" using log_blk_area[of i s] that Suc.prems(6) by simp
    then have "log_blk i s \<noteq> bl ! k" using Suc.prems(8) sub inP by auto
    then show ?thesis using w(2) w(11)[of i] by simp
  qed
  then have e: "map (\<lambda>i. (bl ! i, view u (log_blk i u))) [Suc k..<n] = map (\<lambda>i. (bl ! i, view s (log_blk i s))) [Suc k..<n]" by simp
  have "wrote (map (\<lambda>i. (bl ! i, view s (log_blk i s))) [k..<n]) s v"
    using wrote_trans[OF u(2) v(2)[unfolded e]] k(1) by (simp add: upt_conv_Cons)
  then show ?case using u(1) v k(1) by (simp add: upt_conv_Cons)
qed

lemma lh_n_frame [simp]:
  "view (s\<lparr>lh_n := k\<rparr>) = view s" "bwf P (s\<lparr>lh_n := k\<rparr>) = bwf P s" "held (s\<lparr>lh_n := k\<rparr>) = held s"
proof -
  show "view (s\<lparr>lh_n := k\<rparr>) = view s" unfolding view_def by (rule ext) (simp split: option.split)
qed (simp_all add: bwf_def held_def bkey_def lru_ok_def myproc_def)

text \<open>\<open>commit\<close> performs exactly the writes \<open>commit_writes\<close>, in that order, and leaves an empty log.\<close>

lemma commit_ok:
  assumes R: "log_ready s" and n: "lh_n s > 0"
  shows "\<exists>s'. commit s = Ok s' \<and> disk s' = apply_writes (commit_writes s) (disk s) \<and>
    view s' = apply_writes (commit_writes s) (view s) \<and> dwrites s' = rev (commit_writes s) @ dwrites s \<and>
    lh_n s' = 0 \<and> bwf {} s' \<and> held s' = {} \<and> log_start s' = log_start s \<and> log_dev s' = 1 \<and> lh_block s' = lh_block s"
proof -
  note D = log_readyD[OF R]
  let ?n = "log_len s"
  obtain s1 where 1: "write_log s = Ok s1" "wrote (log_writes s) s s1" "bwf (log_set s) s1" "held s1 = {}"
    using write_log_loop[OF R order_refl] by (auto simp: write_log_def log_writes_def)
  note w1 = wroteD[OF 1(2)]
  have "log_start s \<noteq> log_blk i s" if "i < ?n" for i using log_blk_not_start[of i s] that D(12) by simp
  then have st: "log_start s \<notin> fst ` set (log_writes s)" unfolding log_writes_def fst_set_upt by fastforce
  have vs: "view s1 (log_start s) = view s (log_start s)" using w1(2) st by (simp add: apply_writes_other)
  have "0 \<le> lh_n s1" "lh_n s1 \<le> 30" "log_dev s1 = 1" using w1 D by auto
  then obtain s2 where 2: "write_head s1 = Ok s2" "wrote [(log_start s, head_at (lh_n s) s)] s1 s2" "bwf (log_set s) s2" "held s2 = {}"
    using write_head_ok[OF 1(3,4) D(8,9)] w1 vs by (auto simp: head_at_def)
  have w12: "wrote (log_writes s @ [(log_start s, head_at (lh_n s) s)]) s s2" using wrote_trans[OF 1(2) 2(2)] .
  note w2 = wroteD[OF w12]
  have lv: "view s2 (log_blk i s2) = view s (lh_block s ! i)" if "i < ?n" for i
  proof -
    have "distinct (map (\<lambda>i. log_blk i s) [0..<?n])" using log_blk_inj[of _ _ s] D(12) by (auto simp: distinct_map inj_on_def)
    then have "apply_writes (log_writes s) (view s) (log_blk i s) = view s (lh_block s ! i)"
      unfolding log_writes_def using that by (rule apply_writes_map)
    then show ?thesis using w2(2) w2(11)[of i] log_blk_not_start[of i s] that D(12) by simp
  qed
  have "set (drop 0 (take ?n (lh_block s2))) = log_set s" using w2(7) by (simp add: log_set_def)
  moreover have "distinct (take ?n (lh_block s2))" "set (take ?n (lh_block s2)) \<inter> log_area (log_start s2) = {}"
    using R w2 by (auto simp: log_ready_def log_set_def)
  ultimately obtain s3 where 3: "for_res [0..<?n] (install_one False) s2 = Ok s3"
    "wrote (map (\<lambda>i. (lh_block s2 ! i, view s2 (log_blk i s2))) [0..<?n]) s2 s3" "bwf {} s3" "held s3 = {}"
    using install_loop[of 0 ?n "lh_block s2" s2] 2(3,4) w2 D by auto
  have hw: "map (\<lambda>i. (lh_block s2 ! i, view s2 (log_blk i s2))) [0..<?n] = home_writes s"
    using lv w2(7) by (simp add: home_writes_def)
  have w13: "wrote ((log_writes s @ [(log_start s, head_at (lh_n s) s)]) @ home_writes s) s s3"
    using wrote_trans[OF w12 3(2)[unfolded hw]] .
  note w3 = wroteD[OF w13]
  have hs: "log_start s \<notin> fst ` set (home_writes s)" 
    unfolding home_writes_def fst_set_upt using D(10,11) log_start_area by fastforce
  have vst: "view s3 (log_start s) = head_at (lh_n s) s" using w3(2) hs by (simp add: apply_writes_other)
  let ?s3 = "s3\<lparr>lh_n := 0\<rparr>"
  have "bwf {} ?s3" "held ?s3 = {}" "log_dev ?s3 = 1" using 3 w3 D by simp_all
  then obtain s4 where 4: "write_head ?s3 = Ok s4"
    "wrote [(log_start s, head_bytes 0 (lh_block s) (head_at (lh_n s) s))] ?s3 s4" "bwf {} s4" "held s4 = {}"
    using write_head_ok[of "{}" ?s3] w3 vst by (auto simp: kconst)
  note w4 = wroteD[OF 4(2)]
  have "install_trans False s2 = Ok s3" using 3(1) w2(6) by (simp add: install_trans_def)
  then have "commit s = Ok s4" using n 1(1) 2(1) 4(1) by (simp add: commit_def)
  moreover have "disk s4 = apply_writes (commit_writes s) (disk s)" "view s4 = apply_writes (commit_writes s) (view s)"
    "dwrites s4 = rev (commit_writes s) @ dwrites s"
    using w4 w3 by (simp_all add: commit_writes_def)
  ultimately show ?thesis using 4 w4 w3 D by auto
qed

section \<open>Recovery\<close>

definition recover_ready :: "'z klog_scheme \<Rightarrow> bool" where
  "recover_ready s \<longleftrightarrow> bwf {} s \<and> held s = {} \<and> log_dev s = 1 \<and> length (lh_block s) = LOGBLOCKS"

text \<open>What recovery does to a disk.\<close>

definition recover_disk :: "u32 \<Rightarrow> (u32 \<Rightarrow> u8 list) \<Rightarrow> (u32 \<times> u8 list) list" where
  "recover_disk st d = map (\<lambda>i. (head_block (d st) i, d (st + of_nat i + 1))) [0..<nat (head_n (d st))]"

lemma read_head_ok:
  fixes s :: "'z klog_scheme"
  assumes R: "recover_ready s" and n: "head_n (disk s (log_start s)) \<le> 30"
  shows "\<exists>s'. read_head s = Ok s' \<and> bwf {} s' \<and> held s' = {} \<and> disk s' = disk s \<and> view s' = disk s \<and> log_dev s' = 1 \<and>
    log_start s' = log_start s \<and> lh_n s' = head_n (disk s (log_start s)) \<and> length (lh_block s') = 30 \<and>
    (\<forall>i. int i < lh_n s' \<longrightarrow> lh_block s' ! i = head_block (disk s (log_start s)) i)"
proof -
  let ?a = "log_start s" and ?d = "disk s (log_start s)"
  have wf: "bwf {} s" "held s = {}" "log_dev s = 1" "length (lh_block s) = 30" using R by (auto simp: recover_ready_def kconst)
  have ra: "?a \<notin> held s" "?a \<in> {} \<or> card (held s \<union> {}) < NBUF" using wf(2) by (simp_all add: kconst)
  obtain i s1 where b1: "bread 1 ?a s = Ok (i, s1)" and p1: "bread_post {} ?a s i s1"
    using bread_ok[OF wf(1) ra(1) finite.emptyI ra(2)] by blast
  note 1 = bread_postD[OF p1]
  have v: "view s = disk s" by (rule ext) (use clean_view[OF wf(1)] wf(2) in simp)
  have w1: "wrote [] s s1" using bframe_wrote[OF 1(6,2)] .
  have d: "data_of i s1 = ?d" using has_buf_data[OF 1(1,4)] 1(2) v by simp
  let ?bl = "map (\<lambda>j. if int j < head_n ?d then head_block ?d j else lh_block s ! j) [0..<LOGBLOCKS]"
  let ?s1 = "s1\<lparr>lh_n := head_n ?d, lh_block := ?bl\<rparr>"
  have vv: "view ?s1 = view s1" unfolding view_def by (rule ext) (simp split: option.split)
  have wf1: "bwf {} ?s1" using 1(1) by (simp add: bwf_def bkey_def lru_ok_def myproc_def)
  have "held ?s1 = held s1" by (simp add: held_def bkey_def)
  then have hb1: "has_buf ?s1 i ?a" "held ?s1 = {?a}" using 1(3,4) wf(2) by (simp_all add: has_buf_def bkey_def)
  have "view ?s1 ?a = disk ?s1 ?a" using vv 1(2) v wroteD(1)[OF w1] by simp
  then obtain s2 where e: "brelse i ?s1 = Ok s2" "wrote [] ?s1 s2" "bwf {} s2" "held s2 = held ?s1 - {?a}"
    using release_held[OF wf1 hb1(1)] by blast
  note w2 = wroteD[OF e(2)]
  have "read_head s = Ok s2"
    unfolding read_head_def wf(3) b1 bnd.simps prod.case Let_def d wroteD(7)[OF w1] using e(1) n by (simp add: kconst)
  moreover have "lh_block s2 ! j = head_block ?d j" if "int j < lh_n s2" for j
    using that w2 n by (auto simp: kconst)
  moreover have "view s2 = disk s" using w2(2) vv 1(2) v by simp
  ultimately show ?thesis using e w2 wroteD[OF w1] wf hb1 by (auto simp: kconst)
qed

lemma install_rec_loop:
  fixes s :: "'z klog_scheme"
  assumes "bwf {} s" "held s = {}" "log_dev s = 1" "n \<le> 30"
    and "\<And>i. i < n \<Longrightarrow> lh_block s ! i \<notin> log_area (log_start s)"
  shows "\<exists>s'. for_res [0..<n] (install_one True) s = Ok s' \<and>
    wrote (map (\<lambda>i. (lh_block s ! i, view s (log_blk i s))) [0..<n]) s s' \<and> bwf {} s' \<and> held s' = {}"
  using assms(4,5)
proof (induction n)
  case 0
  then show ?case using wrote_refl[of s] assms(1,2) by auto
next
  case (Suc n)
  let ?W = "map (\<lambda>i. (lh_block s ! i, view s (log_blk i s))) [0..<n]"
  obtain t where t: "for_res [0..<n] (install_one True) s = Ok t" "wrote ?W s t" "bwf {} t" "held t = {}" using Suc by auto
  note w = wroteD[OF t(2)]
  have a: "log_blk n s \<in> log_area (log_start s)" using log_blk_area[of n s] Suc.prems(1) by simp
  have "log_blk n s \<notin> fst ` set ?W" unfolding fst_set_upt using a Suc.prems(2) by fastforce
  then have v: "view t (log_blk n t) = view s (log_blk n s)" using w(2) w(11)[of n] by (simp add: apply_writes_other)
  have ne: "log_blk n t \<noteq> lh_block t ! n" using a w(7) w(11)[of n] Suc.prems(2)[of n] by auto
  obtain u where u: "install_one True n t = Ok u" "wrote [(lh_block t ! n, view t (log_blk n t))] t u" "bwf {} u" "held u = {}"
    using install_one_ok[OF t(3,4) finite.emptyI _ _ _ _ ne, of True] w assms(3) Suc.prems(1) by (auto simp: kconst)
  have "wrote (?W @ [(lh_block s ! n, view s (log_blk n s))]) s u" using wrote_trans[OF t(2) u(2)] w(7) v by simp
  then show ?case using t(1) u by (simp add: for_res_append)
qed

lemma recover_ok:
  fixes s :: "'z klog_scheme"
  assumes R: "recover_ready s" and n: "head_n (disk s (log_start s)) \<le> 30"
    and home: "\<And>i. int i < head_n (disk s (log_start s)) \<Longrightarrow> head_block (disk s (log_start s)) i \<notin> log_area (log_start s)"
  shows "\<exists>s'. recover_from_log s = Ok s' \<and>
    (\<forall>b. b \<noteq> log_start s \<longrightarrow> disk s' b = apply_writes (recover_disk (log_start s) (disk s)) (disk s) b) \<and>
    head_n (disk s' (log_start s)) = 0 \<and> lh_n s' = 0 \<and> bwf {} s' \<and> held s' = {}"
proof -
  let ?st = "log_start s" and ?h = "disk s (log_start s)"
  obtain s1 where 1: "read_head s = Ok s1" "bwf {} s1" "held s1 = {}" "disk s1 = disk s" "view s1 = disk s" "log_dev s1 = 1"
    "log_start s1 = ?st" "lh_n s1 = head_n ?h" "\<And>i. int i < lh_n s1 \<Longrightarrow> lh_block s1 ! i = head_block ?h i"
    using read_head_ok[OF R n] by blast
  let ?n = "nat (head_n ?h)"
  have i: "int i < head_n ?h" if "i < ?n" for i using that by simp
  have nn: "?n \<le> 30" using n by simp
  have hm: "lh_block s1 ! i \<notin> log_area (log_start s1)" if "i < ?n" for i using home[OF i[OF that]] 1(7,8,9) i[OF that] by simp
  obtain s2 where 2: "for_res [0..<?n] (install_one True) s1 = Ok s2"
    "wrote (map (\<lambda>i. (lh_block s1 ! i, view s1 (log_blk i s1))) [0..<?n]) s1 s2" "bwf {} s2" "held s2 = {}"
    using install_rec_loop[OF 1(2,3,6), of ?n] nn hm by blast
  have rd: "map (\<lambda>i. (lh_block s1 ! i, view s1 (log_blk i s1))) [0..<?n] = recover_disk ?st (disk s)"
    unfolding recover_disk_def using 1(5,7,8,9) i by (simp add: log_blk_def)
  note w2 = wroteD[OF 2(2)[unfolded rd]]
  let ?s2 = "s2\<lparr>lh_n := 0\<rparr>"
  have "bwf {} ?s2" "held ?s2 = {}" "log_dev ?s2 = 1" using 2 w2 1(6) by simp_all
  then obtain s3 where 3: "write_head ?s2 = Ok s3"
    "wrote [(?st, head_bytes 0 (lh_block s2) (view s2 ?st))] ?s2 s3" "bwf {} s3" "held s3 = {}"
    using write_head_ok[of "{}" ?s2] w2 1(7) by (auto simp: kconst)
  note w3 = wroteD[OF 3(2)]
  have "recover_from_log s = Ok s3"
    using 1(1,8) 2(1) 3(1) by (simp add: recover_from_log_def install_trans_def)
  moreover have "head_n (disk s3 ?st) = 0" using w3(1) head_bytes_ok(2)[of 0 "view s2 ?st"] view_length[OF 2(3)] by simp
  moreover have "disk s3 b = apply_writes (recover_disk ?st (disk s)) (disk s) b" if "b \<noteq> ?st" for b
    using that w3(1) w2(1) 1(4) by simp
  ultimately show ?thesis using 3 w3 by auto
qed

section \<open>Crash atomicity\<close>

lemma log_keys: "log_ready s \<Longrightarrow> fst ` set (log_writes s) \<subseteq> log_area (log_start s) - {log_start s}"
  unfolding log_writes_def fst_set_upt
  using log_blk_area[of _ s] log_blk_not_start[of _ s] log_readyD(12)[of s] by fastforce

lemma home_keys: "log_ready s \<Longrightarrow> fst ` set (home_writes s) = log_set s"
proof -
  assume R: "log_ready s"
  have "take (log_len s) (lh_block s) = map ((!) (lh_block s)) [0..<log_len s]"
    using log_readyD(3,12)[OF R] by (intro nth_equalityI) auto
  then show ?thesis unfolding home_writes_def fst_set_upt log_set_def by simp
qed

lemma apply_home:
  assumes R: "log_ready s"
  shows "apply_writes (home_writes s) e b = (if b \<in> log_set s then view s b else e b)"
proof (cases "b \<in> log_set s")
  case True
  then obtain i where i: "i < log_len s" "b = lh_block s ! i" using home_keys[OF R, unfolded home_writes_def fst_set_upt, symmetric]
    by auto
  have "take (log_len s) (lh_block s) = map ((!) (lh_block s)) [0..<log_len s]"
    using log_readyD(3,12)[OF R] by (intro nth_equalityI) auto
  then have "distinct (map ((!) (lh_block s)) [0..<log_len s])" using R by (auto simp: log_ready_def)
  then show ?thesis unfolding home_writes_def i(2) using i True by (subst apply_writes_map) auto
qed (use home_keys[OF R] in \<open>simp add: apply_writes_other\<close>)

lemma log_contents:
  assumes R: "log_ready s" and i: "i < log_len s"
  shows "apply_writes (log_writes s) e (log_blk i s) = view s (lh_block s ! i)"
proof -
  have "distinct (map (\<lambda>i. log_blk i s) [0..<log_len s])"
    using log_blk_inj[of _ _ s] log_readyD(12)[OF R] by (auto simp: distinct_map inj_on_def)
  then show ?thesis unfolding log_writes_def using i by (rule apply_writes_map)
qed

lemma ready_clean: "log_ready s \<Longrightarrow> b \<notin> log_set s \<Longrightarrow> view s b = disk s b"
  using clean_view[OF log_readyD(4)[of s], of b] log_readyD(5)[of s] by simp

text \<open>The state of the disk after the first \<open>k\<close> writes of a commit, and what recovery finds there.\<close>

lemma crash_before:
  assumes R: "log_ready s" and k: "k \<le> log_len s"
  defines "d \<equiv> apply_writes (take k (commit_writes s)) (disk s)"
  shows "head_n (d (log_start s)) = 0" "b \<notin> log_area (log_start s) \<Longrightarrow> d b = disk s b"
proof -
  have "take k (commit_writes s) = take k (log_writes s)" using k by (simp add: commit_writes_def log_writes_def)
  moreover have sub: "fst ` set (take k (log_writes s)) \<subseteq> log_area (log_start s) - {log_start s}"
    using log_keys[OF R] set_take_subset[of k "log_writes s"] by blast
  ultimately have d: "d b = disk s b" if "b \<notin> log_area (log_start s) \<or> b = log_start s" for b
    unfolding d_def using that by (subst apply_writes_other) auto
  show "head_n (d (log_start s)) = 0" using d log_readyD(7)[OF R] by simp
  show "b \<notin> log_area (log_start s) \<Longrightarrow> d b = disk s b" using d by blast
qed

lemma crash_between:
  assumes R: "log_ready s" and k: "log_len s < k" "k \<le> 2 * log_len s + 1"
  defines "d \<equiv> apply_writes (take k (commit_writes s)) (disk s)"
  shows "head_n (d (log_start s)) = lh_n s" "i < log_len s \<Longrightarrow> head_block (d (log_start s)) i = lh_block s ! i"
    "recover_disk (log_start s) d = home_writes s" "b \<notin> log_area (log_start s) \<Longrightarrow> b \<notin> log_set s \<Longrightarrow> d b = disk s b"
proof -
  note D = log_readyD[OF R]
  let ?st = "log_start s" and ?j = "k - Suc (log_len s)"
  have l: "length (log_writes s) = log_len s" "length (home_writes s) = log_len s" by (simp_all add: log_writes_def home_writes_def)
  have t: "take k (commit_writes s) = log_writes s @ (?st, head_at (lh_n s) s) # take ?j (home_writes s)"
    using k l by (simp add: commit_writes_def take_Cons')
  have hk: "fst ` set (take ?j (home_writes s)) \<subseteq> log_set s"
    using home_keys[OF R] set_take_subset[of ?j "home_writes s"] by blast
  have other: "d b = apply_writes (log_writes s) (disk s) b" if "b \<notin> log_set s" "b \<noteq> ?st" for b
    unfolding d_def t using that hk by (simp, subst apply_writes_other) auto
  have "?st \<notin> log_set s" using D(11) log_start_area by blast
  then have h: "d ?st = head_at (lh_n s) s" unfolding d_def t using hk by (simp, subst apply_writes_other) auto
  note hb = head_bytes_ok[OF D(1) less_imp_le[OF D(2)] view_length[OF D(4), of ?st], where bl = "lh_block s", folded head_at_def]
  show hn: "head_n (d ?st) = lh_n s" unfolding h by (rule hb)
  show hbk: "head_block (d ?st) i = lh_block s ! i" if "i < log_len s" for i unfolding h using that by (intro hb) simp
  have "d (?st + of_nat i + 1) = view s (lh_block s ! i)" if "i < log_len s" for i
  proof -
    have i: "i < 30" using that D(12) by simp
    have "log_blk i s \<notin> log_set s" using D(11) log_blk_area[OF i, of s] by blast
    then show ?thesis using other[of "log_blk i s"] log_blk_not_start[OF i, of s] log_contents[OF R that] by (simp add: log_blk_def)
  qed
  then show "recover_disk ?st d = home_writes s"
    unfolding recover_disk_def home_writes_def hn using hbk by simp
  show "d b = disk s b" if "b \<notin> log_area ?st" "b \<notin> log_set s"
  proof -
    have "b \<noteq> ?st" using that log_start_area by blast
    then show ?thesis using other[OF that(2)] log_keys[OF R] that(1) by (subst (asm) apply_writes_other) auto
  qed
qed

lemma crash_after:
  assumes R: "log_ready s" and k: "2 * log_len s + 1 < k"
  defines "d \<equiv> apply_writes (take k (commit_writes s)) (disk s)"
  shows "head_n (d (log_start s)) = 0" "b \<notin> log_area (log_start s) \<Longrightarrow> d b = view s b"
proof -
  note D = log_readyD[OF R]
  let ?st = "log_start s"
  have "length (commit_writes s) = 2 * log_len s + 2" by (simp add: commit_writes_def log_writes_def home_writes_def)
  then have t: "take k (commit_writes s) = commit_writes s" using k by simp
  have "length (head_at (lh_n s) s) = BSIZE"
    unfolding head_at_def by (rule head_bytes_ok[OF D(1) less_imp_le[OF D(2)] view_length[OF D(4)]])
  then show "head_n (d ?st) = 0" unfolding d_def t using head_bytes_ok(2)[of 0] by (simp add: commit_writes_def)
  show "d b = view s b" if b: "b \<notin> log_area ?st"
  proof -
    have "b \<noteq> ?st" using b log_start_area by blast
    then have "d b = (if b \<in> log_set s then view s b else apply_writes (log_writes s) (disk s) b)"
      unfolding d_def t unfolding commit_writes_def by (simp add: apply_home[OF R])
    moreover have "b \<notin> fst ` set (log_writes s)" using log_keys[OF R] b by blast
    ultimately show ?thesis using ready_clean[OF R, of b] by (auto simp: apply_writes_other)
  qed
qed

end
