(* ===== verification/Trans.thy ===== *)
theory Trans
  imports Fs Log_Crash
begin

text \<open>
  What a file-system routine does inside a transaction, as a change of the cache's view of the disk. \<open>tx k s\<close>:
  the cache and the log are consistent and have room to log \<open>k\<close> more blocks. \<open>tx_step v k s s'\<close>: the step from
  \<open>s\<close> to \<open>s'\<close> makes \<open>v\<close> the content of the disk, logs at most \<open>k\<close> blocks and holds the same buffers.
\<close>

section \<open>Definitions\<close>

definition tframe :: "'z klog_scheme \<Rightarrow> 'z klog_scheme \<Rightarrow> bool" where
  "tframe s s' \<longleftrightarrow> (\<exists>ps B n p m bl. s' = s\<lparr>procs := ps, bufs := B, bnext := n, bprev := p, lh_n := m, lh_block := bl\<rparr> \<and>
     length ps = length (procs s) \<and> ps ! cur s = procs s ! cur s)"

definition tx :: "nat \<Rightarrow> 'z klog_scheme \<Rightarrow> bool" where
  "tx k s \<longleftrightarrow> bwf (log_set s) s \<and> 0 \<le> lh_n s \<and> length (lh_block s) = LOGBLOCKS \<and> 1 \<le> log_outstanding s \<and>
     log_len s + card (held s) + k < NBUF"

definition tx_step :: "(u32 \<Rightarrow> u8 list) \<Rightarrow> nat \<Rightarrow> 'z klog_scheme \<Rightarrow> 'z klog_scheme \<Rightarrow> bool" where
  "tx_step v k s s' \<longleftrightarrow> tframe s s' \<and> view s' = v \<and> held s' = held s \<and> (\<forall>j c. has_buf s j c \<longrightarrow> has_buf s' j c) \<and>
     log_set s \<subseteq> log_set s' \<and> (\<forall>m. tx (k + m) s \<longrightarrow> tx m s')"

definition tx_open :: "u32 \<Rightarrow> nat \<Rightarrow> 'z klog_scheme \<Rightarrow> 'z klog_scheme \<Rightarrow> bool" where
  "tx_open b bp s s' \<longleftrightarrow> b \<notin> held s \<and> tframe s s' \<and> view s' = view s \<and> held s' = insert b (held s) \<and> has_buf s' bp b \<and>
     (\<forall>j c. has_buf s j c \<longrightarrow> has_buf s' j c) \<and> log_set s' = log_set s \<and> (b \<in> log_set s \<or> view s b = disk s b) \<and>
     (\<forall>m. tx (Suc m) s \<longrightarrow> tx m s')"

section \<open>Frames\<close>

lemma tframeI:
  "s' = s\<lparr>procs := ps, bufs := B, bnext := n, bprev := p, lh_n := m, lh_block := bl\<rparr> \<Longrightarrow> length ps = length (procs s) \<Longrightarrow>
   ps ! cur s = procs s ! cur s \<Longrightarrow> tframe s s'"
  unfolding tframe_def by blast

lemma tframe_refl [simp]: "tframe s s"
  by (rule tframeI[where ps = "procs s" and B = "bufs s" and n = "bnext s" and p = "bprev s" and m = "lh_n s" and bl = "lh_block s"]) simp_all

lemma tframe_trans:
  assumes "tframe r s" "tframe s t"
  shows "tframe r t"
proof -
  obtain ps B n p m bl where s: "s = r\<lparr>procs := ps, bufs := B, bnext := n, bprev := p, lh_n := m, lh_block := bl\<rparr>"
    "length ps = length (procs r)" "ps ! cur r = procs r ! cur r" using assms(1) by (auto simp: tframe_def)
  obtain ps' B' n' p' m' bl' where t: "t = s\<lparr>procs := ps', bufs := B', bnext := n', bprev := p', lh_n := m', lh_block := bl'\<rparr>"
    "length ps' = length (procs s)" "ps' ! cur s = procs s ! cur s" using assms(2) by (auto simp: tframe_def)
  show ?thesis by (rule tframeI[where ps = ps' and B = B' and n = n' and p = p' and m = m' and bl = bl']) (use s t in auto)
qed

lemma bframe_tframe: "bframe s s' \<Longrightarrow> tframe s s'"
proof -
  assume "bframe s s'"
  then obtain ps B n p where s: "s' = s\<lparr>procs := ps, bufs := B, bnext := n, bprev := p\<rparr>" "length ps = length (procs s)"
    "ps ! cur s = procs s ! cur s" by (auto simp: bframe_def)
  show ?thesis by (rule tframeI[where ps = ps and B = B and n = n and p = p and m = "lh_n s" and bl = "lh_block s"]) (use s in auto)
qed

lemma tframeD:
  assumes "tframe s s'"
  shows "disk s' = disk s" "dwrites s' = dwrites s" "ram s' = ram s" "cur s' = cur s" "myproc s' = myproc s"
    "klog.more s' = klog.more s" "log_start s' = log_start s" "log_dev s' = log_dev s" "log_outstanding s' = log_outstanding s"
    "log_committing s' = log_committing s" "length (procs s') = length (procs s)"
  using assms by (auto simp: tframe_def myproc_def)

lemma kfs_more:
  fixes s t :: "'z kfs_scheme"
  assumes "klog.more s = klog.more t"
  shows "sb s = sb t" "itable s = itable t" "kfs.more s = kfs.more t"
  using assms by (cases s; cases t; simp)+

lemma tframe_fs:
  assumes "tframe s (s' :: 'z kfs_scheme)"
  shows "sb s' = sb s" "itable s' = itable s" "kfs.more s' = kfs.more s"
  using kfs_more[OF tframeD(6)[OF assms]] by auto

section \<open>Steps\<close>

lemma tx_mono: "tx k s \<Longrightarrow> j \<le> k \<Longrightarrow> tx j s"
  by (auto simp: tx_def)

lemma tx_stepD:
  assumes "tx_step v k s s'"
  shows "tframe s s'" "view s' = v" "held s' = held s" "has_buf s j c \<Longrightarrow> has_buf s' j c" "log_set s \<subseteq> log_set s'"
    "tx (k + m) s \<Longrightarrow> tx m s'"
  using assms by (auto simp: tx_step_def)

lemma tx_step_refl: "tx_step (view s) 0 s s"
  by (simp add: tx_step_def)

lemma tx_step_trans:
  assumes "tx_step v k r s" "tx_step w l s t"
  shows "tx_step w (k + l) r t"
  using assms tframe_trans[of r s t] by (auto simp: tx_step_def add.assoc)

lemma tx_step_mono: "tx_step v k s s' \<Longrightarrow> k \<le> l \<Longrightarrow> tx_step v l s s'"
  unfolding tx_step_def by (metis (no_types, lifting) add_le_mono1 tx_mono)

lemma tx_openD:
  assumes "tx_open b bp s s'"
  shows "b \<notin> held s" "tframe s s'" "view s' = view s" "held s' = insert b (held s)" "has_buf s' bp b"
    "has_buf s j c \<Longrightarrow> has_buf s' j c" "log_set s' = log_set s" "b \<in> log_set s \<or> view s b = disk s b"
    "tx (Suc m) s \<Longrightarrow> tx m s'"
  using assms by (auto simp: tx_open_def)

lemma log_set_bound: "0 \<le> lh_n s \<Longrightarrow> finite (log_set s) \<and> card (log_set s) \<le> log_len s"
  unfolding log_set_def using card_length[of "take (log_len s) (lh_block s)"] by auto

lemma bframe_log:
  fixes s s' :: "'z klog_scheme"
  assumes "bframe s s'"
  shows "lh_n s' = lh_n s" "lh_block s' = lh_block s" "log_set s' = log_set s" "log_outstanding s' = log_outstanding s"
  using assms by (auto simp: bframe_def log_set_def)

lemma tx_read:
  assumes t: "tx 0 s" and nh: "b \<notin> held s"
  shows "\<exists>bp s'. bread 1 b s = Ok (bp, s') \<and> tx_open b bp s s' \<and> data_of bp s' = view s b"
proof -
  have W: "bwf (log_set s) s" and n: "0 \<le> lh_n s" and sz: "log_len s + card (held s) < NBUF" using t by (auto simp: tx_def)
  have P: "finite (log_set s)" "card (log_set s) \<le> log_len s" using log_set_bound[OF n] by auto
  have "card (held s \<union> log_set s) < NBUF" using card_Un_le[of "held s" "log_set s"] P sz by linarith
  then obtain bp s' where r: "bread 1 b s = Ok (bp, s')" and p: "bread_post (log_set s) b s bp s'"
    using bread_ok[OF W nh P(1)] by blast
  note D = bread_postD[OF p] and L = bframe_log[OF bread_postD(6)[OF p]]
  have "tx m s'" if "tx (Suc m) s" for m
    using that D(1,3) L nh finite_held[of s] by (simp add: tx_def)
  moreover have "b \<in> log_set s \<or> view s b = disk s b" using clean_view[OF W nh] by blast
  ultimately have "tx_open b bp s s'" unfolding tx_open_def using nh D L bframe_tframe[OF D(6)] by blast
  moreover have "data_of bp s' = view s b" using has_buf_data[OF D(1,4)] D(2) by simp
  ultimately show ?thesis using r by blast
qed

lemma tx_close:
  assumes o: "tx_open b bp s s1" and st: "tx_step v k s1 s2" and t: "tx (Suc k) s" and c: "b \<in> log_set s2 \<or> v b = view s b"
  shows "\<exists>s3. brelse bp s2 = Ok s3 \<and> tx_step v k s s3"
proof -
  note O = tx_openD[OF o] and S = tx_stepD[OF st]
  have "tx k s1" using O(9)[of k] t by simp
  then have t2: "tx 0 s2" using S(6)[of 0] by simp
  have W: "bwf (log_set s2) s2" using t2 by (simp add: tx_def)
  have hb: "has_buf s2 bp b" using S(4)[OF O(5)] .
  have d: "disk s2 = disk s" using tframeD(1)[OF S(1)] tframeD(1)[OF O(2)] by simp
  have "b \<in> log_set s2 \<or> view s2 b = disk s2 b" using c O(7,8) S(2,5) d by auto
  then obtain s3 where r: "brelse bp s2 = Ok s3" and p: "brelse_post (log_set s2) b s2 bp s3" using brelse_ok[OF W hb] by blast
  note R = brelse_postD[OF p] and L = bframe_log[OF brelse_postD(5)[OF p]]
  have h: "held s3 = held s" using R(3) S(3) O(1,4) by auto
  have "has_buf s3 j e" if "has_buf s j e" for j e
  proof -
    have e: "has_buf s1 j e" and "e \<noteq> b" using O(1,6) that has_buf_held by metis+
    then have "j \<noteq> bp" using O(5) by (auto simp: has_buf_def bkey_def)
    then show ?thesis using R(4) S(4)[OF e] by blast
  qed
  moreover have "tx m s3" if a: "tx (k + m) s" for m
  proof (cases "tx (k + m + 1) s")
    case True
    then have "tx m s2" using O(9)[of "k + m"] S(6)[of m] by simp
    then show ?thesis using R(1) L h S(3) O(1,4) by (simp add: tx_def)
  next
    case False
    then have eq: "log_len s + card (held s) + k + m + 1 = NBUF" using a by (auto simp: tx_def)
    have m: "m > 0" using eq t by (auto simp: tx_def)
    then obtain l where l: "m = Suc l" by (cases m) auto
    then have "tx l s2" using O(9)[of "k + l"] S(6)[of l] a by simp
    then have "log_len s2 + Suc (card (held s)) + l < NBUF" using S(3) O(1,4) by (simp add: tx_def)
    then show ?thesis using \<open>tx l s2\<close> l R(1) L h by (simp add: tx_def)
  qed
  moreover have "tframe s s3" using tframe_trans[OF tframe_trans[OF O(2) S(1)] bframe_tframe[OF R(5)]] .
  moreover have "log_set s \<subseteq> log_set s3" using O(7) S(5) L by auto
  ultimately show ?thesis using r R(2) S(2) h by (auto simp: tx_step_def)
qed

section \<open>Logging a block\<close>

lemma log_find_spec:
  assumes "int i \<le> lh_n s"
  shows "i \<le> log_find b i s \<and> int (log_find b i s) \<le> lh_n s \<and> (\<forall>j. i \<le> j \<longrightarrow> j < log_find b i s \<longrightarrow> lh_block s ! j \<noteq> b) \<and>
    (int (log_find b i s) < lh_n s \<longrightarrow> lh_block s ! log_find b i s = b)"
  using assms
proof (induction b i s rule: log_find.induct)
  case (1 b i s)
  show ?case
  proof (cases "int i < lh_n s \<and> lh_block s ! i \<noteq> b")
    case True
    then have "log_find b i s = log_find b (i + 1) s" by (subst log_find.simps) simp
    then show ?thesis using 1 True by (auto simp: le_Suc_eq Suc_le_eq nat_less_le dest: le_neq_implies_less)
  next
    case False
    then have "log_find b i s = i" by (subst log_find.simps) auto
    then show ?thesis using 1 False by auto
  qed
qed

lemma log_write_form:
  fixes bp :: nat and s :: "'z klog_scheme"
  assumes n: "0 \<le> lh_n s" "lh_n s < int LOGBLOCKS" and l: "length (lh_block s) = LOGBLOCKS" and o: "1 \<le> log_outstanding s"
  defines "b \<equiv> blockno (bufs s ! bp)"
  shows "b \<in> log_set s \<Longrightarrow> log_write bp s = Ok s"
    "b \<notin> log_set s \<Longrightarrow> log_write bp s = Ok ((bpin bp s)\<lparr>lh_n := lh_n s + 1, lh_block := (lh_block s)[log_len s := b]\<rparr>)"
proof -
  let ?i = "log_find b 0 s"
  note F = log_find_spec[of 0 s b]
  have in_iff: "b \<in> log_set s \<longleftrightarrow> int ?i < lh_n s"
  proof
    assume "b \<in> log_set s"
    then obtain j where "j < log_len s" "lh_block s ! j = b" unfolding log_set_def by (auto simp: in_set_conv_nth)
    then show "int ?i < lh_n s" using F n(1) by (metis int_nat_eq le0 linorder_not_less nat_int nat_less_le of_nat_0_le_iff of_nat_less_iff)
  next
    assume "int ?i < lh_n s"
    then have "?i < log_len s" "lh_block s ! ?i = b" using F n by auto
    then show "b \<in> log_set s" unfolding log_set_def using l n by (auto simp: in_set_conv_nth)
  qed
  show "log_write bp s = Ok s" if "b \<in> log_set s"
  proof -
    have "lh_block s ! ?i = b" using that in_iff F n(1) by simp
    then have "(lh_block s)[?i := b] = lh_block s" by (metis list_update_id)
    moreover have "int ?i \<noteq> lh_n s" using that in_iff by simp
    ultimately show ?thesis using n(2) o unfolding log_write_def Let_def b_def[symmetric] by simp
  qed
  show "log_write bp s = Ok ((bpin bp s)\<lparr>lh_n := lh_n s + 1, lh_block := (lh_block s)[log_len s := b]\<rparr>)" if "b \<notin> log_set s"
  proof -
    have e: "int ?i = lh_n s" using that in_iff F n(1) by auto
    then have "?i = log_len s" by linarith
    then show ?thesis using n(2) o e unfolding log_write_def Let_def b_def[symmetric] by (simp add: bpin_def upd_buf_def)
  qed
qed

lemma tx_log:
  assumes t: "tx 1 s" and hb: "has_buf s bp b"
  shows "\<exists>s'. log_write bp s = Ok s' \<and> tx_step (view s) 1 s s' \<and> b \<in> log_set s'"
proof -
  have W: "bwf (log_set s) s" and n: "0 \<le> lh_n s" and l: "length (lh_block s) = LOGBLOCKS" and o: "1 \<le> log_outstanding s"
    and sz: "log_len s + card (held s) + 1 < NBUF" using t by (auto simp: tx_def)
  have lt: "lh_n s < int LOGBLOCKS" using sz by (simp add: kconst)
  have bn: "blockno (bufs s ! bp) = b" using hb by (simp add: has_buf_def bkey_def)
  note F = log_write_form[OF n lt l o, of bp, unfolded bn]
  show ?thesis
  proof (cases "b \<in> log_set s")
    case True
    then show ?thesis using F(1) tx_step_mono[OF tx_step_refl, of 1] by auto
  next
    case False
    let ?s = "(bpin bp s)\<lparr>lh_n := lh_n s + 1, lh_block := (lh_block s)[log_len s := b]\<rparr>"
    note B = bpin_ok[OF W hb False]
    have set: "log_set ?s = insert b (log_set s)"
    proof -
      have "log_len s < length (lh_block s)" using lt l n by simp
      then have "take (Suc (log_len s)) ((lh_block s)[log_len s := b]) = take (log_len s) (lh_block s) @ [b]"
        by (simp add: take_Suc_conv_app_nth)
      moreover have "log_len ?s = Suc (log_len s)" using n by (simp add: nat_add_distrib)
      ultimately show ?thesis by (auto simp: log_set_def)
    qed
    have c: "bwf (insert b (log_set s)) ?s" "view ?s = view (bpin bp s)" "held ?s = held (bpin bp s)" "has_buf ?s i e = has_buf (bpin bp s) i e" for i e
      by (rule bwf_cong[OF B(1)]; use bwfD(3)[OF B(1)] in \<open>simp add: lru_ok_def\<close>)+
    have bf: "bframe s (bpin bp s)" by (rule B(5))
    then obtain ps B' nx p where e: "bpin bp s = s\<lparr>procs := ps, bufs := B', bnext := nx, bprev := p\<rparr>" "length ps = length (procs s)"
      "ps ! cur s = procs s ! cur s" by (auto simp: bframe_def)
    have "tframe s ?s"
      by (rule tframeI[where ps = ps and B = B' and n = nx and p = p and m = "lh_n s + 1" and bl = "(lh_block s)[log_len s := b]"])
        (use e in auto)
    moreover have "tx m ?s" if "tx (1 + m) s" for m
      using that c(1,3) set B(3) bframeD(6)[OF bf] bframe_log[OF bf] n unfolding tx_def by (simp add: nat_add_distrib)
    ultimately have "tx_step (view s) 1 s ?s"
      unfolding tx_step_def using c B(2-4) set by auto
    then show ?thesis using F(2)[OF False] set by blast
  qed
qed

lemma set_data_tx:
  assumes t: "tx 0 s" and hb: "has_buf s bp b" and d: "length d = BSIZE"
  shows "tx_step ((view s)(b := d)) 0 s (set_data bp d s)"
proof -
  have W: "bwf (log_set s) s" using t by (simp add: tx_def)
  note D = set_data_ok[OF W hb d] and L = bframe_log[OF set_data_ok(5)[OF W hb d]]
  have "tx m (set_data bp d s)" if "tx m s" for m
    using that D(1,3) L unfolding tx_def by simp
  then show ?thesis unfolding tx_step_def using D L bframe_tframe[OF D(5)] by auto
qed

lemma tx_write:
  assumes t: "tx 1 s" and hb: "has_buf s bp b" and d: "length d = BSIZE"
  shows "\<exists>s'. log_write bp (set_data bp d s) = Ok s' \<and> tx_step ((view s)(b := d)) 1 s s' \<and> b \<in> log_set s'"
proof -
  note S = set_data_tx[OF tx_mono[OF t] hb d, simplified]
  have "tx 1 (set_data bp d s)" using tx_stepD(6)[OF S, of 1] t by simp
  from tx_log[OF this tx_stepD(4)[OF S hb]] obtain s' where "log_write bp (set_data bp d s) = Ok s'"
    "tx_step (view (set_data bp d s)) 1 (set_data bp d s) s'" "b \<in> log_set s'" by blast
  then show ?thesis using tx_step_trans[OF S] tx_stepD(2)[OF S] by fastforce
qed

text \<open>The two idioms: read a block and release it; read it, change it, log it and release it.\<close>

lemma tx_peek:
  assumes t: "tx 1 s" and nh: "b \<notin> held s"
  obtains bp s1 s2 where "bread 1 b s = Ok (bp, s1)" "tframe s s1" "data_of bp s1 = view s b" "brelse bp s1 = Ok s2"
    "tx_step (view s) 0 s s2"
proof -
  obtain bp s1 where r: "bread 1 b s = Ok (bp, s1)" and o: "tx_open b bp s s1" and d: "data_of bp s1 = view s b"
    using tx_read[OF tx_mono[OF t] nh] by blast
  have st: "tx_step (view s) 0 s1 s1" using tx_step_refl[of s1] tx_openD(3)[OF o] by simp
  obtain s2 where "brelse bp s1 = Ok s2" "tx_step (view s) 0 s s2" using tx_close[OF o st] t by auto
  then show thesis using that[OF r tx_openD(2)[OF o] d] by blast
qed

lemma tx_modify:
  assumes t: "tx 2 s" and nh: "b \<notin> held s"
  obtains bp s1 where "bread 1 b s = Ok (bp, s1)" "tframe s s1" "data_of bp s1 = view s b"
    "\<And>d. length d = BSIZE \<Longrightarrow> \<exists>s2 s3. log_write bp (set_data bp d s1) = Ok s2 \<and> tframe s s2 \<and> brelse bp s2 = Ok s3 \<and>
       tx_step ((view s)(b := d)) 1 s s3"
proof -
  obtain bp s1 where r: "bread 1 b s = Ok (bp, s1)" and o: "tx_open b bp s s1" and d: "data_of bp s1 = view s b"
    using tx_read[OF tx_mono[OF t] nh] by blast
  note O = tx_openD[OF o]
  have t1: "tx 1 s1" using O(9)[of 1] t by (simp add: numeral_2_eq_2)
  have "\<exists>s2 s3. log_write bp (set_data bp x s1) = Ok s2 \<and> tframe s s2 \<and> brelse bp s2 = Ok s3 \<and>
       tx_step ((view s)(b := x)) 1 s s3" if x: "length x = BSIZE" for x
  proof -
    obtain s2 where w: "log_write bp (set_data bp x s1) = Ok s2" and st: "tx_step ((view s1)(b := x)) 1 s1 s2" and i: "b \<in> log_set s2"
      using tx_write[OF t1 O(5) x] by blast
    obtain s3 where "brelse bp s2 = Ok s3" "tx_step ((view s1)(b := x)) 1 s s3"
      using tx_close[OF o st _ disjI1[OF i]] t by (auto simp: numeral_2_eq_2)
    then show ?thesis using w O(3) tframe_trans[OF O(2) tx_stepD(1)[OF st]] by auto
  qed
  then show thesis using that[OF r O(2) d] by blast
qed

end
