(* ===== verification/Fs_Block.thy ===== *)
theory Fs_Block
  imports Trans
begin

text \<open>
  The block allocator of the file system: the bit map as a set of used blocks, and the correctness of \<open>balloc\<close>
  and \<open>bfree\<close> against it.
\<close>

section \<open>The bit map\<close>

text \<open>Block \<open>b\<close> is marked in use in the bit map of a disk content \<open>v\<close>.\<close>

definition used :: "superblock \<Rightarrow> (u32 \<Rightarrow> u8 list) \<Rightarrow> u32 \<Rightarrow> bool" where
  "used q v b \<longleftrightarrow> bmap_bit (v (BBLOCK b q)) (unat b mod BPB)"

definition mark_bit :: "nat \<Rightarrow> u8 list \<Rightarrow> u8 list" where
  "mark_bit bi d = d[bi div 8 := d ! (bi div 8) OR push_bit (bi mod 8) 1]"

definition unmark_bit :: "nat \<Rightarrow> u8 list \<Rightarrow> u8 list" where
  "unmark_bit bi d = d[bi div 8 := d ! (bi div 8) AND NOT (push_bit (bi mod 8) 1)]"

lemma bmap_bit_iff: "bmap_bit d bi \<longleftrightarrow> bit (d ! (bi div 8)) (bi mod 8)"
proof -
  have "(d ! (bi div 8) AND push_bit (bi mod 8) 1 \<noteq> 0) \<longleftrightarrow> bit (d ! (bi div 8)) (bi mod 8)"
    by (metis and_exp_eq_0_iff_not_bit push_bit_of_1)
  then show ?thesis by (simp add: bmap_bit_def)
qed

lemma bit_set_bit:
  assumes "length d = BSIZE" "j < BPB"
  shows "bmap_bit (mark_bit bi d) j \<longleftrightarrow> j = bi \<or> bmap_bit d j"
proof -
  have l: "j div 8 < length d" using assms by (simp add: BPB_def BSIZE_def)
  have m: "j mod 8 < LENGTH(8)" by simp
  show ?thesis
  proof (cases "j div 8 = bi div 8")
    case True
    then have "j = bi \<longleftrightarrow> j mod 8 = bi mod 8" by (metis mult_div_mod_eq)
    then show ?thesis using True l by (auto simp: bmap_bit_iff mark_bit_def bit_simps)
  next
    case False
    then show ?thesis using l by (auto simp: bmap_bit_iff mark_bit_def)
  qed
qed

lemma bit_clear_bit:
  assumes "length d = BSIZE" "j < BPB"
  shows "bmap_bit (unmark_bit bi d) j \<longleftrightarrow> j \<noteq> bi \<and> bmap_bit d j"
proof -
  have l: "j div 8 < length d" using assms by (simp add: BPB_def BSIZE_def)
  show ?thesis
  proof (cases "j div 8 = bi div 8")
    case True
    then have "j = bi \<longleftrightarrow> j mod 8 = bi mod 8" by (metis mult_div_mod_eq)
    then show ?thesis using True l by (auto simp: bmap_bit_iff unmark_bit_def bit_simps)
  next
    case False
    then show ?thesis using l by (auto simp: bmap_bit_iff unmark_bit_def)
  qed
qed

lemma length_set_bit [simp]: "length (mark_bit bi d) = length d" "length (unmark_bit bi d) = length d"
  by (simp_all add: mark_bit_def unmark_bit_def)

lemma unat_back: "of_nat (unat (c :: u32)) = c"
  by simp

lemma unat_div_BPB: "unat (b div of_nat BPB :: u32) = unat b div BPB"
  by (simp add: unat_div BPB_def BSIZE_def)

lemma BBLOCK_eq: "BBLOCK b q = BBLOCK c q \<longleftrightarrow> unat b div BPB = unat c div BPB"
  by (simp add: BBLOCK_def word_eq_unat_iff[of "b div _"] unat_div_BPB)

lemma same_bit: "BBLOCK b q = BBLOCK c q \<Longrightarrow> unat b mod BPB = unat c mod BPB \<longleftrightarrow> b = c"
proof
  assume "BBLOCK b q = BBLOCK c q" "unat b mod BPB = unat c mod BPB"
  then have "unat b = unat c" by (metis BBLOCK_eq mult_div_mod_eq)
  then show "b = c" by (simp add: word_eq_unat_iff)
qed simp

lemma used_set_bit:
  assumes "length (v (BBLOCK b q)) = BSIZE"
  shows "used q (v(BBLOCK b q := mark_bit (unat b mod BPB) (v (BBLOCK b q)))) c \<longleftrightarrow> c = b \<or> used q v c"
  using assms bit_set_bit[OF assms, of "unat c mod BPB"] same_bit[of c q b]
  by (auto simp: used_def BPB_def BSIZE_def)

lemma used_clear_bit:
  assumes "length (v (BBLOCK b q)) = BSIZE"
  shows "used q (v(BBLOCK b q := unmark_bit (unat b mod BPB) (v (BBLOCK b q)))) c \<longleftrightarrow> c \<noteq> b \<and> used q v c"
  using assms bit_clear_bit[OF assms, of "unat c mod BPB"] same_bit[of c q b]
  by (auto simp: used_def BPB_def BSIZE_def)

lemma bfind_spec:
  "case bfind d b bi sz of
     Some k \<Rightarrow> bi \<le> k \<and> k < BPB \<and> b + k < sz \<and> \<not> bmap_bit d k \<and> (\<forall>j. bi \<le> j \<longrightarrow> j < k \<longrightarrow> bmap_bit d j)
   | None \<Rightarrow> \<forall>j. bi \<le> j \<longrightarrow> j < BPB \<longrightarrow> b + j < sz \<longrightarrow> bmap_bit d j"
proof (induction d b bi sz rule: bfind.induct)
  case (1 d b bi sz)
  consider "\<not> (bi < BPB \<and> b + bi < sz)" | "bi < BPB" "b + bi < sz" "\<not> bmap_bit d bi" | "bi < BPB" "b + bi < sz" "bmap_bit d bi" by blast
  then show ?case
  proof cases
    case 3
    then have e: "bfind d b bi sz = bfind d b (bi + 1) sz" by (subst bfind.simps) simp
    have IH: "case bfind d b (bi + 1) sz of
     Some k \<Rightarrow> bi + 1 \<le> k \<and> k < BPB \<and> b + k < sz \<and> \<not> bmap_bit d k \<and> (\<forall>j. bi + 1 \<le> j \<longrightarrow> j < k \<longrightarrow> bmap_bit d j)
   | None \<Rightarrow> \<forall>j. bi + 1 \<le> j \<longrightarrow> j < BPB \<longrightarrow> b + j < sz \<longrightarrow> bmap_bit d j" using 1 3 by simp
    have le: "bi \<le> j \<longleftrightarrow> j = bi \<or> bi + 1 \<le> j" for j by auto
    show ?thesis unfolding e using IH 3 by (auto simp: le split: option.splits)
  qed (subst bfind.simps, auto)+
qed

section \<open>Freeing and allocating\<close>

lemma bzero_ok:
  assumes t: "tx 2 s" and nh: "b \<notin> held s"
  shows "\<exists>s'. bzero 1 b s = Ok s' \<and> tx_step ((view s)(b := replicate BSIZE 0)) 1 s s'"
proof -
  obtain bp s1 where r: "bread 1 b s = Ok (bp, s1)" and
    m: "\<And>d. length d = BSIZE \<Longrightarrow> \<exists>s2 s3. log_write bp (set_data bp d s1) = Ok s2 \<and> tframe s s2 \<and> brelse bp s2 = Ok s3 \<and>
       tx_step ((view s)(b := d)) 1 s s3"
    using tx_modify[OF t nh] by metis
  obtain s2 s3 where "log_write bp (set_data bp (replicate BSIZE 0) s1) = Ok s2" "brelse bp s2 = Ok s3"
    "tx_step ((view s)(b := replicate BSIZE 0)) 1 s s3" using m[of "replicate BSIZE 0"] by auto
  then show ?thesis using r by (simp add: bzero_def)
qed

lemma bfree_ok:
  assumes t: "tx 2 s" and nh: "BBLOCK b (sb s) \<notin> held s"
  shows "if used (sb s) (view s) b
    then \<exists>s'. bfree 1 b s = Ok s' \<and>
      tx_step ((view s)(BBLOCK b (sb s) := unmark_bit (unat b mod BPB) (view s (BBLOCK b (sb s))))) 1 s s'
    else bfree 1 b s = Panic ''freeing free block''"
proof -
  let ?m = "BBLOCK b (sb s)"
  obtain bp s1 where r: "bread 1 ?m s = Ok (bp, s1)" and d: "data_of bp s1 = view s ?m" and
    m: "\<And>d. length d = BSIZE \<Longrightarrow> \<exists>s2 s3. log_write bp (set_data bp d s1) = Ok s2 \<and> tframe s s2 \<and> brelse bp s2 = Ok s3 \<and>
       tx_step ((view s)(?m := d)) 1 s s3"
    using tx_modify[OF t nh] by metis
  have l: "length (view s ?m) = BSIZE" using t view_length by (auto simp: tx_def)
  obtain s2 s3 where "log_write bp (set_data bp (unmark_bit (unat b mod BPB) (view s ?m)) s1) = Ok s2" "brelse bp s2 = Ok s3"
    "tx_step ((view s)(?m := unmark_bit (unat b mod BPB) (view s ?m))) 1 s s3" using m[of "unmark_bit (unat b mod BPB) (view s ?m)"] l by auto
  then show ?thesis using r d by (simp add: bfree_def Let_def used_def unmark_bit_def)
qed

text \<open>What \<open>balloc\<close> needs of the disk: a bit map that covers itself, and block 0 (returned for failure) in use.\<close>

definition bitmap_ok :: "superblock \<Rightarrow> (u32 \<Rightarrow> u8 list) \<Rightarrow> bool" where
  "bitmap_ok q v \<longleftrightarrow> unat (sb_size q) < 2 ^ 31 \<and> used q v 0 \<and> (\<forall>b < sb_size q. BBLOCK b q < sb_size q \<and> used q v (BBLOCK b q))"

text \<open>The result of \<open>balloc\<close>: the first free block, marked and zeroed, or 0 and no change if every block is in use.\<close>

definition balloc_post :: "'z kfs_scheme \<Rightarrow> u32 \<Rightarrow> 'z kfs_scheme \<Rightarrow> bool" where
  "balloc_post s b s' \<longleftrightarrow>
     (if b = 0 then (\<forall>c < sb_size (sb s). used (sb s) (view s) c) \<and> tx_step (view s) 0 s s'
      else b < sb_size (sb s) \<and> \<not> used (sb s) (view s) b \<and> (\<forall>c < b. used (sb s) (view s) c) \<and>
        tx_step ((view s)(BBLOCK b (sb s) := mark_bit (unat b mod BPB) (view s (BBLOCK b (sb s))), b := replicate BSIZE 0)) 2 s s')"

lemma balloc_scan_ok:
  assumes "tx 3 s" "bitmap_ok (sb s) (view s)" "\<And>b. b < sb_size (sb s) \<Longrightarrow> BBLOCK b (sb s) \<notin> held s"
    "\<And>b. b < sb_size (sb s) \<Longrightarrow> \<not> used (sb s) (view s) b \<Longrightarrow> b \<notin> held s"
    "\<And>c. unat c < m * BPB \<Longrightarrow> c < sb_size (sb s) \<Longrightarrow> used (sb s) (view s) c"
    "n = (unat (sb_size (sb s)) + BPB - 1) div BPB"
  shows "\<exists>b s'. balloc_scan 1 (map (\<lambda>k. k * BPB) [m..<n]) s = Ok (b, s') \<and> balloc_post s b s'"
  using assms
proof (induction "n - m" arbitrary: m s)
  case 0
  have "unat (sb_size (sb s)) \<le> n * BPB" unfolding 0(7) by (simp add: BPB_def BSIZE_def)
  moreover have "n * BPB \<le> m * BPB" using 0(1) by simp
  ultimately have le: "unat (sb_size (sb s)) \<le> m * BPB" by linarith
  have "used (sb s) (view s) c" if "c < sb_size (sb s)" for c
    by (rule 0(6)[OF _ that]) (use that le in \<open>simp add: word_less_nat_alt\<close>)
  then show ?case using 0(1) by (simp add: balloc_post_def tx_step_refl)
next
  case (Suc x)
  let ?q = "sb s" and ?b = "m * BPB" and ?sz = "unat (sb_size (sb s))"
  let ?k = "BBLOCK (of_nat (m * BPB)) (sb s)"
  have mn: "m < n" using Suc.hyps(2) by simp
  then have "Suc m \<le> n" by simp
  then have "Suc m * BPB \<le> n * BPB" by (rule mult_le_mono1)
  moreover have "n * BPB \<le> ?sz + BPB - 1" unfolding Suc.prems(6) by simp
  ultimately have lt: "?b < ?sz" by (simp add: BPB_def BSIZE_def)
  have s31: "?sz < 2 ^ 31" using Suc.prems(2) by (simp add: bitmap_ok_def)
  have small: "unat (of_nat (?b + j) :: u32) = ?b + j" if "?b + j < ?sz" for j
    using that s31 by (intro unat_of_nat_small) simp
  have small0: "unat (of_nat ?b :: u32) = ?b" using small[of 0] lt by simp
  have bb: "BBLOCK (of_nat (?b + j)) ?q = ?k" "unat (of_nat (?b + j) :: u32) mod BPB = j" if "j < BPB" "?b + j < ?sz" for j
    using small[OF that(2)] small0 that(1) by (simp_all add: BBLOCK_eq)
  have kb: "?k \<notin> held s" using Suc.prems(3)[of "of_nat ?b"] small0 lt by (simp add: word_less_nat_alt)
  have l: "length (view s ?k) = BSIZE" using Suc.prems(1) view_length by (auto simp: tx_def)
  have upt: "[m..<n] = m # [Suc m..<n]" using mn by (simp add: upt_conv_Cons)
  have nb: "\<not> 2 ^ 31 \<le> ?b" using lt s31 by linarith
  show ?case
  proof (cases "bfind (view s ?k) ?b 0 ?sz")
    case None
    obtain bp s1 s2 where r: "bread 1 ?k s = Ok (bp, s1)" and f: "tframe s s1" and d: "data_of bp s1 = view s ?k" and
      rel: "brelse bp s1 = Ok s2" and st: "tx_step (view s) 0 s s2"
      by (rule tx_peek[OF tx_mono[OF Suc.prems(1)] kb]) auto
    note S = tx_stepD[OF st] and F = tframe_fs[OF tx_stepD(1)[OF st]]
    have all: "used ?q (view s) c" if c: "unat c < Suc m * BPB" "c < sb_size ?q" for c
    proof (cases "unat c < ?b")
      case True
      then show ?thesis using Suc.prems(5) c(2) by blast
    next
      case False
      define j where "j = unat c - ?b"
      then have j: "unat c = ?b + j" "j < BPB" "?b + j < ?sz" using False c by (simp_all add: word_less_nat_alt)
      then have "bmap_bit (view s ?k) j" using bfind_spec[where d = "view s ?k" and b = ?b and bi = 0 and sz = ?sz] None by simp
      moreover have "c = of_nat (?b + j)" using j(1) using unat_back by metis
      ultimately show ?thesis using bb[OF j(2,3)] by (simp add: used_def)
    qed
    have "\<exists>b s'. balloc_scan 1 (map (\<lambda>k. k * BPB) [Suc m..<n]) s2 = Ok (b, s') \<and> balloc_post s2 b s'"
    proof (rule Suc.hyps(1))
      show "x = n - Suc m" using Suc.hyps(2) by simp
      show "tx 3 s2" using S(6)[of 3] Suc.prems(1) by simp
    qed (use Suc.prems all in \<open>simp_all add: F S\<close>)
    then obtain b s' where b: "balloc_scan 1 (map (\<lambda>k. k * BPB) [Suc m..<n]) s2 = Ok (b, s')" "balloc_post s2 b s'" by blast
    have "balloc_post s b s'" using b(2) tx_step_trans[OF st] S(2) F by (auto simp: balloc_post_def split: if_splits)
    then show ?thesis using b(1) r d rel None nb tframe_fs(1)[OF f] by (simp add: upt)
  next
    case (Some bi)
    have sp: "bi < BPB" "?b + bi < ?sz" "\<not> bmap_bit (view s ?k) bi" "\<And>j. j < bi \<Longrightarrow> bmap_bit (view s ?k) j"
      using bfind_spec[where d = "view s ?k" and b = ?b and bi = 0 and sz = ?sz] Some by auto
    let ?c = "of_nat (?b + bi) :: u32"
    have c: "unat ?c = ?b + bi" "BBLOCK ?c ?q = ?k" "unat ?c mod BPB = bi" using small[OF sp(2)] bb[OF sp(1,2)] by auto
    have cs: "?c < sb_size ?q" using c(1) sp(2) by (simp add: word_less_nat_alt)
    have nu: "\<not> used ?q (view s) ?c" using sp(3) c by (simp add: used_def)
    then have ch: "?c \<notin> held s" and cz: "?c \<noteq> 0" using Suc.prems(2,4) cs by (auto simp: bitmap_ok_def)
    obtain bp s1 where r: "bread 1 ?k s = Ok (bp, s1)" and f: "tframe s s1" and d: "data_of bp s1 = view s ?k" and
      mo: "\<And>d. length d = BSIZE \<Longrightarrow> \<exists>s2 s3. log_write bp (set_data bp d s1) = Ok s2 \<and> tframe s s2 \<and> brelse bp s2 = Ok s3 \<and>
       tx_step ((view s)(?k := d)) 1 s s3"
      by (rule tx_modify[OF tx_mono[OF Suc.prems(1)] kb]) auto
    obtain s2 s3 where w: "log_write bp (set_data bp (mark_bit bi (view s ?k)) s1) = Ok s2" "brelse bp s2 = Ok s3"
      and st: "tx_step ((view s)(?k := mark_bit bi (view s ?k))) 1 s s3" using mo[of "mark_bit bi (view s ?k)"] l by auto
    note S = tx_stepD[OF st]
    have t3: "tx 2 s3" using S(6)[of 2] Suc.prems(1) by (simp add: eval_nat_numeral)
    obtain s4 where z: "bzero 1 ?c s3 = Ok s4" "tx_step ((view s3)(?c := replicate BSIZE 0)) 1 s3 s4"
      using bzero_ok[OF t3, of ?c] ch S(3) by auto
    have "tx_step ((view s)(?k := mark_bit bi (view s ?k), ?c := replicate BSIZE 0)) 2 s s4"
      using tx_step_trans[OF st z(2)] S(2) by (simp add: eval_nat_numeral)
    moreover have "used ?q (view s) e" if "e < ?c" for e
    proof (cases "unat e < ?b")
      case True
      then show ?thesis using Suc.prems(5)[of e] that cs by simp
    next
      case False
      define j where "j = unat e - ?b"
      have "unat e < ?b + bi" using that c(1) by (simp add: word_less_nat_alt)
      then have j: "unat e = ?b + j" "j < bi" using False by (simp_all add: j_def)
      then have "e = of_nat (?b + j)" using unat_back by metis
      then show ?thesis using bb[of j] sp j by (simp add: used_def)
    qed
    ultimately have "balloc_post s ?c s4" using cs nu cz c by (simp add: balloc_post_def)
    moreover have "balloc_scan 1 (map (\<lambda>k. k * BPB) [m..<n]) s = Ok (?c, s4)"
      using r d w z(1) Some nb tframe_fs(1)[OF f] by (simp add: upt Let_def mark_bit_def)
    ultimately show ?thesis by blast
  qed
qed

lemma balloc_ok:
  assumes "tx 3 s" "bitmap_ok (sb s) (view s)" "\<And>b. b < sb_size (sb s) \<Longrightarrow> BBLOCK b (sb s) \<notin> held s"
    "\<And>b. b < sb_size (sb s) \<Longrightarrow> \<not> used (sb s) (view s) b \<Longrightarrow> b \<notin> held s"
  shows "\<exists>b s'. balloc 1 s = Ok (b, s') \<and> balloc_post s b s'"
  unfolding balloc_def by (rule balloc_scan_ok[where m = 0]) (use assms in simp_all)

end
