(* ===== verification/Fs_Inode.thy ===== *)
theory Fs_Inode
  imports Fs_Block
begin

text \<open>
  Inodes on disk: the layout written by \<open>iupdate\<close> and read by \<open>ilock\<close>, and the content of a file as \<open>readi\<close> and
  \<open>writei\<close> see it.
\<close>

section \<open>The inode layout\<close>

text \<open>The fields of an inode that live on disk.\<close>

definition same_dinode :: "inode \<Rightarrow> inode \<Rightarrow> bool" where
  "same_dinode a b \<longleftrightarrow> itype a = itype b \<and> imajor a = imajor b \<and> iminor a = iminor b \<and> inlink a = inlink b \<and>
     isize a = isize b \<and> iaddrs a = iaddrs b"

text \<open>The inode numbered \<open>n\<close> in a disk content, in the other fields \<open>ip\<close>.\<close>

definition dinode_at :: "superblock \<Rightarrow> (u32 \<Rightarrow> u8 list) \<Rightarrow> u32 \<Rightarrow> inode \<Rightarrow> inode" where
  "dinode_at q v n ip = load_dinode (v (IBLOCK n q)) (dinode_off n) ip"

lemma store_addrs:
  assumes "length d = BSIZE" "o' + 64 \<le> BSIZE" "k \<le> 13" "length as = 13"
  defines "d' \<equiv> fold (\<lambda>i. set32 (o' + 12 + 4 * i) (as ! i)) [0..<k] d"
  shows "length d' = BSIZE" "i < k \<Longrightarrow> get32 (o' + 12 + 4 * i) d' = as ! i"
    "j + 2 \<le> BSIZE \<Longrightarrow> j + 2 \<le> o' + 12 \<or> o' + 64 \<le> j \<Longrightarrow> get16 j d' = get16 j d"
    "j + 4 \<le> BSIZE \<Longrightarrow> j + 4 \<le> o' + 12 \<or> o' + 64 \<le> j \<Longrightarrow> get32 j d' = get32 j d"
proof -
  have "length d' = BSIZE \<and> (\<forall>i < k. get32 (o' + 12 + 4 * i) d' = as ! i) \<and>
    (\<forall>j. j + 2 \<le> BSIZE \<longrightarrow> j + 2 \<le> o' + 12 \<or> o' + 64 \<le> j \<longrightarrow> get16 j d' = get16 j d) \<and>
    (\<forall>j. j + 4 \<le> BSIZE \<longrightarrow> j + 4 \<le> o' + 12 \<or> o' + 64 \<le> j \<longrightarrow> get32 j d' = get32 j d)"
    using assms(3) unfolding d'_def
  proof (induction k)
    case 0
    show ?case using assms(1) by simp
  next
    case (Suc k)
    let ?e = "fold (\<lambda>i. set32 (o' + 12 + 4 * i) (as ! i)) [0..<k] d"
    have IH: "length ?e = BSIZE" "\<And>i. i < k \<Longrightarrow> get32 (o' + 12 + 4 * i) ?e = as ! i"
      "\<And>j. j + 2 \<le> BSIZE \<Longrightarrow> j + 2 \<le> o' + 12 \<or> o' + 64 \<le> j \<Longrightarrow> get16 j ?e = get16 j d"
      "\<And>j. j + 4 \<le> BSIZE \<Longrightarrow> j + 4 \<le> o' + 12 \<or> o' + 64 \<le> j \<Longrightarrow> get32 j ?e = get32 j d" using Suc by auto
    have w: "o' + 12 + 4 * k + 4 \<le> length ?e" using Suc.prems assms(2) IH(1) by simp
    have old: "get32 (o' + 12 + 4 * i) (set32 (o' + 12 + 4 * k) (as ! k) ?e) = as ! i" if "i < k" for i
      using IH(2)[OF that] that w by (subst get_set_other) auto
    show ?case using IH old w Suc.prems by (auto simp: less_Suc_eq get_set_same get_set_other)
  qed
  then show "length d' = BSIZE" "i < k \<Longrightarrow> get32 (o' + 12 + 4 * i) d' = as ! i"
    "j + 2 \<le> BSIZE \<Longrightarrow> j + 2 \<le> o' + 12 \<or> o' + 64 \<le> j \<Longrightarrow> get16 j d' = get16 j d"
    "j + 4 \<le> BSIZE \<Longrightarrow> j + 4 \<le> o' + 12 \<or> o' + 64 \<le> j \<Longrightarrow> get32 j d' = get32 j d" by auto
qed

lemma load_store_dinode:
  assumes "length d = BSIZE" "o' + 64 \<le> BSIZE" "length (iaddrs ip) = 13"
  shows "length (store_dinode ip o' d) = BSIZE" "same_dinode (load_dinode (store_dinode ip o' d) o' jp) ip"
    "k + 64 \<le> BSIZE \<Longrightarrow> k + 64 \<le> o' \<or> o' + 64 \<le> k \<Longrightarrow> load_dinode (store_dinode ip o' d) k jp = load_dinode d k jp"
proof -
  let ?h = "set32 (o' + 8) (isize ip) (set16 (o' + 6) (inlink ip) (set16 (o' + 4) (iminor ip)
         (set16 (o' + 2) (imajor ip) (set16 o' (itype ip) d))))"
  have e: "store_dinode ip o' d = fold (\<lambda>i. set32 (o' + 12 + 4 * i) (iaddrs ip ! i)) [0..<13] ?h"
    by (simp add: store_dinode_def NDIRECT_def)
  have l: "length ?h = BSIZE" using assms(1,2) by simp
  note A = store_addrs[OF l assms(2) order_refl assms(3), folded e]
  show "length (store_dinode ip o' d) = BSIZE" by (rule A(1))
  have h: "get16 o' ?h = itype ip" "get16 (o' + 2) ?h = imajor ip" "get16 (o' + 4) ?h = iminor ip" "get16 (o' + 6) ?h = inlink ip"
    "get32 (o' + 8) ?h = isize ip" using assms(1,2) by (simp_all add: field_simps)
  have "map (\<lambda>i. get32 (o' + 12 + 4 * i) (store_dinode ip o' d)) [0..<NDIRECT + 1] = iaddrs ip"
    using A(2) assms(3) by (intro nth_equalityI) (simp_all add: NDIRECT_def)
  then show "same_dinode (load_dinode (store_dinode ip o' d) o' jp) ip"
    using A(3)[of o'] A(3)[of "o' + 2"] A(3)[of "o' + 4"] A(3)[of "o' + 6"] A(4)[of "o' + 8"] assms(2) h
    by (simp add: same_dinode_def load_dinode_def)
  assume k: "k + 64 \<le> BSIZE" "k + 64 \<le> o' \<or> o' + 64 \<le> k"
  have o16: "get16 j ?h = get16 j d" if "j + 2 \<le> BSIZE" "j + 2 \<le> o' \<or> o' + 64 \<le> j" for j
    by (rule disjE[OF that(2)]; use that(1) assms(1,2) in \<open>simp add: field_simps\<close>)
  have o32: "get32 j ?h = get32 j d" if "j + 4 \<le> BSIZE" "j + 4 \<le> o' \<or> o' + 64 \<le> j" for j
    by (rule disjE[OF that(2)]; use that(1) assms(1,2) in \<open>simp add: field_simps\<close>)
  have g16: "get16 j (store_dinode ip o' d) = get16 j d" if "k \<le> j" "j + 2 \<le> k + 64" for j
    using A(3)[of j] o16[of j] that k by auto
  have g32: "get32 j (store_dinode ip o' d) = get32 j d" if "k \<le> j" "j + 4 \<le> k + 64" for j
    using A(4)[of j] o32[of j] that k by auto
  show "load_dinode (store_dinode ip o' d) k jp = load_dinode d k jp"
    by (simp add: load_dinode_def g16 g32 NDIRECT_def)
qed

lemma dinode_off_le: "dinode_off n + 64 \<le> BSIZE"
proof -
  have "unat n mod IPB < IPB" by (rule mod_less_divisor) (simp add: IPB_def BSIZE_def DINODE_SIZE_def)
  then show ?thesis by (simp add: dinode_off_def IPB_def BSIZE_def DINODE_SIZE_def)
qed

lemma IBLOCK_eq: "IBLOCK m q = IBLOCK n q \<longleftrightarrow> unat m div IPB = unat n div IPB"
  by (simp add: IBLOCK_def word_eq_unat_iff[of "m div _"] unat_div IPB_def BSIZE_def DINODE_SIZE_def)

lemma dinode_apart:
  assumes "m \<noteq> n" "IBLOCK m q = IBLOCK n q"
  shows "dinode_off m + 64 \<le> dinode_off n \<or> dinode_off n + 64 \<le> dinode_off m"
proof -
  have "unat m mod IPB \<noteq> unat n mod IPB" using assms by (metis IBLOCK_eq mult_div_mod_eq word_eq_unat_iff)
  then show ?thesis by (auto simp: dinode_off_def DINODE_SIZE_def)
qed

lemma dinode_at_store:
  assumes "length (v (IBLOCK n q)) = BSIZE" "length (iaddrs ip) = 13"
  defines "v' \<equiv> v(IBLOCK n q := store_dinode ip (dinode_off n) (v (IBLOCK n q)))"
  shows "same_dinode (dinode_at q v' n jp) ip" "m \<noteq> n \<Longrightarrow> dinode_at q v' m jp = dinode_at q v m jp"
proof -
  note L = load_store_dinode[OF assms(1) dinode_off_le assms(2)]
  show "same_dinode (dinode_at q v' n jp) ip" using L(2) by (simp add: dinode_at_def v'_def)
  show "dinode_at q v' m jp = dinode_at q v m jp" if "m \<noteq> n"
    using L(3)[OF dinode_off_le] dinode_apart[OF that] by (auto simp: dinode_at_def v'_def)
qed

section \<open>iupdate and ilock\<close>

lemma iupdate_ok:
  assumes t: "tx 2 s" and dev: "idev (ino i s) = 1" and a: "length (iaddrs (ino i s)) = 13" and nh: "IBLOCK (inum (ino i s)) (sb s) \<notin> held s"
  shows "\<exists>s'. iupdate i s = Ok s' \<and> tx_step ((view s)(IBLOCK (inum (ino i s)) (sb s) :=
     store_dinode (ino i s) (dinode_off (inum (ino i s))) (view s (IBLOCK (inum (ino i s)) (sb s))))) 1 s s'"
proof -
  let ?k = "IBLOCK (inum (ino i s)) (sb s)"
  let ?d = "store_dinode (ino i s) (dinode_off (inum (ino i s))) (view s ?k)"
  obtain bp s1 where r: "bread 1 ?k s = Ok (bp, s1)" and f: "tframe s s1" and d: "data_of bp s1 = view s ?k" and
    m: "\<And>d. length d = BSIZE \<Longrightarrow> \<exists>s2 s3. log_write bp (set_data bp d s1) = Ok s2 \<and> tframe s s2 \<and> brelse bp s2 = Ok s3 \<and>
       tx_step ((view s)(?k := d)) 1 s s3"
    by (rule tx_modify[OF t nh]) auto
  have "length (view s ?k) = BSIZE" using t view_length by (auto simp: tx_def)
  then have "length ?d = BSIZE" using load_store_dinode(1)[OF _ dinode_off_le a] by simp
  then obtain s2 s3 where "log_write bp (set_data bp ?d s1) = Ok s2" "brelse bp s2 = Ok s3" "tx_step ((view s)(?k := ?d)) 1 s s3"
    using m by blast
  then show ?thesis using r d dev tframe_fs[OF f] by (simp add: iupdate_def)
qed

text \<open>Changing an inode of the table leaves the cache and the log alone.\<close>

lemma tx_upd_inode [simp]: "tx k (upd_inode i f s) = tx k s" "view (upd_inode i f s) = view s" "held (upd_inode i f s) = held s"
  "sb (upd_inode i f s) = sb s" "log_set (upd_inode i f s) = log_set s"
proof -
  have l: "log_set (upd_inode i f s) = log_set s" by (simp add: log_set_def upd_inode_def)
  have v: "view (upd_inode i f s) = view s" by (rule ext) (simp add: view_def upd_inode_def split: option.split)
  have h: "held (upd_inode i f s) = held s" by (simp add: held_def bkey_def upd_inode_def)
  have "bwf P (upd_inode i f s) = bwf P s" for P by (simp add: bwf_def bkey_def lru_ok_def myproc_def upd_inode_def)
  then show "tx k (upd_inode i f s) = tx k s" using l h by (simp add: tx_def upd_inode_def)
  show "view (upd_inode i f s) = view s" "held (upd_inode i f s) = held s" "sb (upd_inode i f s) = sb s"
    "log_set (upd_inode i f s) = log_set s" using l v h by (simp_all add: upd_inode_def)
qed

lemma disk_upd_inode [simp]: "disk (upd_inode i f s) = disk s"
  by (simp add: upd_inode_def)

lemma ino_upd [simp]: "i < length (itable s) \<Longrightarrow> ino i (upd_inode i f s) = f (ino i s)" "i \<noteq> j \<Longrightarrow> ino j (upd_inode i f s) = ino j s"
  "length (itable (upd_inode i f s)) = length (itable s)"
  by (simp_all add: upd_inode_def)

lemma ilock_reads:
  assumes t: "tx 1 s" and i: "i < length (itable s)" and ref: "1 \<le> iref (ino i s)" and nl: "\<not> slocked (ilk (ino i s))"
    and nv: "\<not> ivalid (ino i s)" and dev: "idev (ino i s) = 1" and nh: "IBLOCK (inum (ino i s)) (sb s) \<notin> held s"
    and ty: "itype (dinode_at (sb s) (view s) (inum (ino i s)) (ino i s)) \<noteq> 0"
  shows "\<exists>s'. ilock i s = Ok s' \<and> view s' = view s \<and> held s' = held s \<and>
    same_dinode (ino i s') (dinode_at (sb s) (view s) (inum (ino i s)) (ino i s)) \<and> ivalid (ino i s') \<and> slocked (ilk (ino i s'))"
proof -
  let ?lk = "\<lparr>slocked = True, spid = pid (myproc s)\<rparr>" and ?k = "IBLOCK (inum (ino i s)) (sb s)"
  let ?s = "upd_inode i (\<lambda>ip. ip\<lparr>ilk := ?lk\<rparr>) s"
  obtain bp s1 where r: "bread 1 ?k ?s = Ok (bp, s1)" and o: "tx_open ?k bp ?s s1" and d: "data_of bp s1 = view s ?k"
    using tx_read[of ?s ?k] tx_mono[OF t, of 0] nh by auto
  note O = tx_openD[OF o] and F = tframe_fs[OF tx_openD(2)[OF o]]
  let ?t = "upd_inode i (\<lambda>ip. load_dinode (view s ?k) (dinode_off (inum ip)) ip) s1"
  have i1: "i < length (itable s1)" using F(2) i by simp
  have n1: "ino i s1 = (ino i s)\<lparr>ilk := ?lk\<rparr>" using F(2) i by simp
  have t1: "tx 0 s1" using O(9)[of 0] t by simp
  have "tx 0 ?t" using t1 by simp
  then have "bwf (log_set ?t) ?t" by (simp only: tx_def)
  moreover have "has_buf ?t bp ?k" using O(5) by (simp add: has_buf_def bkey_def upd_inode_def)
  moreover have "?k \<in> log_set ?t \<or> view ?t ?k = disk ?t ?k" using O(3,7,8) tframeD(1)[OF O(2)] by simp
  ultimately obtain s2 where rel: "brelse bp ?t = Ok s2" and p: "brelse_post (log_set ?t) ?k ?t bp s2" using brelse_ok by blast
  note R = brelse_postD[OF p]
  have it: "itable s2 = itable ?t" using tframe_fs(2)[OF bframe_tframe[OF R(5)]] .
  let ?u = "upd_inode i (\<lambda>ip. ip\<lparr>ivalid := True\<rparr>) s2"
  have ni: "ino i s2 = load_dinode (view s ?k) (dinode_off (inum (ino i s))) ((ino i s)\<lparr>ilk := ?lk\<rparr>)"
    using it i1 n1 by simp
  have i2: "i < length (itable s2)" using it i1 by simp
  have sm: "same_dinode (ino i ?u) (dinode_at (sb s) (view s) (inum (ino i s)) (ino i s))"
    using i2 ni by (simp add: same_dinode_def dinode_at_def load_dinode_def)
  then have "itype (ino i ?u) \<noteq> 0" using ty by (simp add: same_dinode_def)
  moreover have "acquiresleep (ilk (ino i s)) s = Ok ?lk" using nl by (simp add: acquiresleep_Ok)
  ultimately have "ilock i s = Ok ?u"
    using ref nv dev r d rel i n1 i1 F(1) by (simp add: ilock_def Let_def)
  moreover have "view ?u = view s" "held ?u = held s" using R(2,3) O(1,3,4) by auto
  moreover have "ivalid (ino i ?u)" "slocked (ilk (ino i ?u))" using i2 ni by (simp_all add: load_dinode_def)
  ultimately show ?thesis using sm by blast
qed

section \<open>File content\<close>

text \<open>The block that holds block \<open>k\<close> of a file, 0 if there is none; and the byte at position \<open>p\<close>.\<close>

definition fblk :: "(u32 \<Rightarrow> u8 list) \<Rightarrow> inode \<Rightarrow> nat \<Rightarrow> u32" where
  "fblk v ip k = (if k < NDIRECT then iaddrs ip ! k
     else if iaddrs ip ! NDIRECT = 0 then 0 else get32 (4 * (k - NDIRECT)) (v (iaddrs ip ! NDIRECT)))"

definition content :: "(u32 \<Rightarrow> u8 list) \<Rightarrow> inode \<Rightarrow> nat \<Rightarrow> u8" where
  "content v ip p = v (fblk v ip (p div BSIZE)) ! (p mod BSIZE)"

text \<open>The blocks of a file up to position \<open>n\<close> are allocated and none of them is held.\<close>

definition mapped :: "'z kfs_scheme \<Rightarrow> nat \<Rightarrow> nat \<Rightarrow> bool" where
  "mapped s i n \<longleftrightarrow> n \<le> MAXFILE * BSIZE \<and> idev (ino i s) = 1 \<and> iaddrs (ino i s) ! NDIRECT \<notin> held s \<and>
     (\<forall>p < n. fblk (view s) (ino i s) (p div BSIZE) \<noteq> 0 \<and> fblk (view s) (ino i s) (p div BSIZE) \<notin> held s)"

lemma mapped_step: "mapped s i n \<Longrightarrow> tx_step (view s) k s s' \<Longrightarrow> mapped s' i n"
  using tframe_fs[of s s'] by (auto simp: mapped_def tx_step_def)

lemma bmap_mapped:
  assumes t: "tx 1 s" and m: "mapped s i n" and p: "p < n"
  shows "\<exists>s'. bmap i (of_nat (p div BSIZE)) s = Ok (fblk (view s) (ino i s) (p div BSIZE), s') \<and> tx_step (view s) 0 s s'"
proof -
  let ?k = "p div BSIZE" and ?a = "iaddrs (ino i s) ! NDIRECT"
  have "p < MAXFILE * BSIZE" using p m by (simp add: mapped_def)
  then have lt: "?k < MAXFILE" by (rule less_mult_imp_div_less)
  then have u: "unat (of_nat ?k :: u32) = ?k" by (intro unat_of_nat_small) (simp add: MAXFILE_def NDIRECT_def NINDIRECT_def BSIZE_def)
  have nz: "fblk (view s) (ino i s) ?k \<noteq> 0" and nh: "?a \<notin> held s" and dev: "idev (ino i s) = 1" using m p by (auto simp: mapped_def)
  show ?thesis
  proof (cases "?k < NDIRECT")
    case True
    then show ?thesis using nz tx_step_refl[of s] by (auto simp: bmap_def Let_def u fblk_def)
  next
    case False
    then have a: "?a \<noteq> 0" "get32 (4 * (?k - NDIRECT)) (view s ?a) = fblk (view s) (ino i s) ?k" using nz by (auto simp: fblk_def split: if_splits)
    have k: "?k - NDIRECT < NINDIRECT" using lt False by (simp add: MAXFILE_def)
    obtain bp s1 s2 where r: "bread 1 ?a s = Ok (bp, s1)" and f: "tframe s s1" and d: "data_of bp s1 = view s ?a"
      and rel: "brelse bp s1 = Ok s2" and st: "tx_step (view s) 0 s s2" by (rule tx_peek[OF t nh]) auto
    then show ?thesis using False a nz k dev tframe_fs[OF f] by (auto simp: bmap_def Let_def u)
  qed
qed

lemma div_mod_small: "(r :: nat) < b \<Longrightarrow> (q * b + r) div b = q \<and> (q * b + r) mod b = r"
  by simp

lemma blit_blit: "off + length ys \<le> length xs \<Longrightarrow> blit (off + length ys) zs (blit off ys xs) = blit off (ys @ zs) xs"
  by (simp add: blit_def ac_simps)

lemma slice_content:
  assumes "length (v (fblk v ip (p div BSIZE))) = BSIZE" "p mod BSIZE + m \<le> BSIZE"
  shows "slice (p mod BSIZE) m (v (fblk v ip (p div BSIZE))) = map (content v ip) [p..<p + m]"
proof (rule nth_equalityI)
  fix j assume "j < length (slice (p mod BSIZE) m (v (fblk v ip (p div BSIZE))))"
  then have j: "j < m" using assms by simp
  have B: "0 < BSIZE" by (simp add: BSIZE_def)
  have lt: "p mod BSIZE + j < BSIZE" using j assms(2) by simp
  have e: "p + j = p div BSIZE * BSIZE + (p mod BSIZE + j)" by simp
  have "(p + j) div BSIZE = p div BSIZE" "(p + j) mod BSIZE = p mod BSIZE + j"
    using div_mod_small[OF lt, of "p div BSIZE"] e by metis+
  then show "slice (p mod BSIZE) m (v (fblk v ip (p div BSIZE))) ! j = map (content v ip) [p..<p + m] ! j"
    using j assms by (simp add: nth_slice content_def)
qed (use assms in simp)

lemma readi_loop_ok:
  assumes "tx 1 s" "mapped s i (off + n)" "n \<le> length xs" "tot \<le> n"
  shows "\<exists>s'. readi_loop i (Local xs) off n tot s =
      Ok (int n, Local (blit tot (map (content (view s) (ino i s)) [off + tot..<off + n]) xs), s') \<and> tx_step (view s) 0 s s'"
  using assms
proof (induction "n - tot" arbitrary: tot xs s rule: less_induct)
  case less
  show ?case
  proof (cases "tot < n")
    case False
    then have "tot = n" using less.prems(4) by simp
    then show ?thesis using tx_step_refl[of s] less.prems(3) by (subst readi_loop.simps) (simp add: blit_def)
  next
    case True
    define m where "m = min (n - tot) (BSIZE - (off + tot) mod BSIZE)"
    let ?p = "off + tot" and ?m = m
    let ?b = "fblk (view s) (ino i s) ((off + tot) div BSIZE)"
    let ?bs = "map (content (view s) (ino i s)) [?p..<?p + ?m]"
    have p: "?p < off + n" using True by simp
    obtain s1 where b: "bmap i (of_nat (?p div BSIZE)) s = Ok (?b, s1)" and st: "tx_step (view s) 0 s s1"
      using bmap_mapped[OF less.prems(1,2) p] by blast
    note S = tx_stepD[OF st] and F = tframe_fs[OF tx_stepD(1)[OF st]]
    have t1: "tx 1 s1" using S(6)[of 1] less.prems(1) by simp
    have nz: "?b \<noteq> 0" "?b \<notin> held s1" "idev (ino i s1) = 1" using less.prems(2) p S(3) F by (auto simp: mapped_def)
    obtain bp s2 s3 where r: "bread 1 ?b s1 = Ok (bp, s2)" and f2: "tframe s1 s2" and d: "data_of bp s2 = view s ?b"
      and rel: "brelse bp s2 = Ok s3" and st3: "tx_step (view s) 0 s1 s3" using tx_peek[OF t1 nz(2)] S(2) by metis
    have st': "tx_step (view s) 0 s s3" using tx_step_trans[OF st st3] by simp
    note S3 = tx_stepD[OF st'] and F3 = tframe_fs[OF tx_stepD(1)[OF st']]
    have l: "length (view s ?b) = BSIZE" using less.prems(1) view_length by (auto simp: tx_def)
    have sl: "slice (?p mod BSIZE) ?m (view s ?b) = ?bs" by (rule slice_content[where v = "view s" and ip = "ino i s" and p = ?p, OF l]) (simp add: m_def BSIZE_def)
    have mpos: "0 < ?m" "tot + m \<le> n" using True by (simp_all add: m_def BSIZE_def)
    have fit: "tot + ?m \<le> length xs" using less.prems(3) mpos(2) by simp
    have c: "either_copyout (Local xs) tot ?bs s2 = Ok (0, Local (blit tot ?bs xs), s2)" using fit by (simp add: either_copyout_def)
    have "\<exists>s'. readi_loop i (Local (blit tot ?bs xs)) off n (tot + ?m) s3 =
      Ok (int n, Local (blit (tot + ?m) (map (content (view s3) (ino i s3)) [off + (tot + ?m)..<off + n]) (blit tot ?bs xs)), s') \<and>
      tx_step (view s3) 0 s3 s'"
    proof (rule less.hyps)
      show "n - (tot + ?m) < n - tot" using mpos True by simp
      show "tx 1 s3" using S3(6)[of 1] less.prems(1) by simp
      show "mapped s3 i (off + n)" using mapped_step[OF less.prems(2) st'] .
      show "n \<le> length (blit tot ?bs xs)" using fit less.prems(3) by simp
      show "tot + ?m \<le> n" by (rule mpos)
    qed
    then obtain s' where IH: "readi_loop i (Local (blit tot ?bs xs)) off n (tot + ?m) s3 =
      Ok (int n, Local (blit (tot + ?m) (map (content (view s) (ino i s)) [off + (tot + ?m)..<off + n]) (blit tot ?bs xs)), s')"
      "tx_step (view s) 0 s3 s'" using S3(2) F3(2) by auto
    have join: "blit (tot + ?m) (map (content (view s) (ino i s)) [off + (tot + ?m)..<off + n]) (blit tot ?bs xs) =
      blit tot (map (content (view s) (ino i s)) [?p..<off + n]) xs"
    proof -
      have "[?p..<off + n] = [?p..<?p + ?m] @ [?p + ?m..<off + n]" using mpos(2) upt_add_eq_append[of ?p "?p + ?m" "off + n - (?p + ?m)"] by simp
      then show ?thesis using fit blit_blit[of tot ?bs xs] by (simp add: add.assoc)
    qed
    have "readi_loop i (Local xs) off n tot s = Ok (int n, Local (blit tot (map (content (view s) (ino i s)) [?p..<off + n]) xs), s')"
      unfolding readi_loop.simps[of i "Local xs" off n tot s] Let_def m_def[symmetric]
      using True b nz r d sl c rel IH(1) join F by simp
    moreover have "tx_step (view s) 0 s s'" using tx_step_trans[OF st' IH(2)] by simp
    ultimately show ?thesis by blast
  qed
qed

lemma readi_ok:
  assumes t: "tx 1 s" and m: "mapped s i (unat off + m)" and off: "off \<le> isize (ino i s)" and w: "unat off + unat n < 2 ^ 32"
    and mn: "m = min (unat n) (unat (isize (ino i s)) - unat off)" and xs: "m \<le> length xs"
  shows "\<exists>s'. readi i (Local xs) off n s =
      Ok (int m, Local (blit 0 (map (content (view s) (ino i s)) [unat off..<unat off + m]) xs), s') \<and> tx_step (view s) 0 s s'"
proof -
  have u: "unat (off + n) = unat off + unat n" using w by (intro unat_add_no_wrap) simp
  have nw: "\<not> off + n < off" using u by (simp add: word_less_nat_alt)
  have len: "unat (if off + n > isize (ino i s) then isize (ino i s) - off else n) = m"
    using off u by (auto simp: mn word_less_nat_alt unat_sub word_le_nat_alt min_def)
  have "readi i (Local xs) off n s = readi_loop i (Local xs) (unat off) m 0 s"
    unfolding readi_def Let_def len using nw off by (simp add: leD)
  then show ?thesis using readi_loop_ok[OF t m xs, of 0] by simp
qed

section \<open>Writing\<close>

text \<open>A file whose blocks up to \<open>n\<close> are distinct, and different from its indirect block.\<close>

definition fblks_ok :: "(u32 \<Rightarrow> u8 list) \<Rightarrow> inode \<Rightarrow> nat \<Rightarrow> bool" where
  "fblks_ok v ip n \<longleftrightarrow> (\<forall>p < n. \<forall>q < n. fblk v ip (p div BSIZE) = fblk v ip (q div BSIZE) \<longrightarrow> p div BSIZE = q div BSIZE) \<and>
     (\<forall>p < n. fblk v ip (p div BSIZE) \<noteq> iaddrs ip ! NDIRECT)"

text \<open>The content after writing \<open>bs\<close> at \<open>off\<close>.\<close>

definition written :: "inode \<Rightarrow> nat \<Rightarrow> nat \<Rightarrow> u8 list \<Rightarrow> (u32 \<Rightarrow> u8 list) \<Rightarrow> (u32 \<Rightarrow> u8 list) \<Rightarrow> bool" where
  "written ip n off bs v v' \<longleftrightarrow>
     (\<forall>k. fblk v' ip k = fblk v ip k) \<and>
     (\<forall>p < n. content v' ip p = (if off \<le> p \<and> p < off + length bs then bs ! (p - off) else content v ip p)) \<and>
     (\<forall>b. (\<forall>p < n. b \<noteq> fblk v ip (p div BSIZE)) \<longrightarrow> v' b = v b)"

lemma written_refl: "written ip n off [] v v"
  by (auto simp: written_def)

lemma written_trans:
  assumes "written ip n off as u v" "written ip n (off + length as) bs v w"
  shows "written ip n off (as @ bs) u w"
  using assms by (auto simp: written_def nth_append)

lemma fblk_upd:
  assumes "fblks_ok v ip n" "p < n"
  shows "fblk (v(fblk v ip (p div BSIZE) := d)) ip k = fblk v ip k"
proof -
  have "iaddrs ip ! NDIRECT \<noteq> fblk v ip (p div BSIZE)" using assms by (metis fblks_ok_def)
  then show ?thesis by (simp add: fblk_def)
qed

lemma written_block:
  assumes ok: "fblks_ok v ip n" and p: "p + length bs \<le> n" "bs \<noteq> []" "p mod BSIZE + length bs \<le> BSIZE"
    and l: "length (v (fblk v ip (p div BSIZE))) = BSIZE"
  defines "v' \<equiv> v(fblk v ip (p div BSIZE) := blit (p mod BSIZE) bs (v (fblk v ip (p div BSIZE))))"
  shows "written ip n p bs v v'"
proof -
  have pn: "p < n" using p by (cases bs) auto
  have f: "fblk v' ip k = fblk v ip k" for k unfolding v'_def by (rule fblk_upd[OF ok pn])
  have "content v' ip q = (if p \<le> q \<and> q < p + length bs then bs ! (q - p) else content v ip q)" if q: "q < n" for q
  proof (cases "q div BSIZE = p div BSIZE")
    case True
    have e: "p = p div BSIZE * BSIZE + p mod BSIZE" "q = p div BSIZE * BSIZE + q mod BSIZE" using True mult_div_mod_eq by (metis mult.commute)+
    have qm: "q mod BSIZE < BSIZE" by (simp add: BSIZE_def)
    have "(p mod BSIZE \<le> q mod BSIZE \<and> q mod BSIZE < p mod BSIZE + length bs) = (p \<le> q \<and> q < p + length bs)"
      "q mod BSIZE - p mod BSIZE = q - p" using e by linarith+
    then show ?thesis using True l p(3) qm f by (simp add: content_def v'_def nth_blit)
  next
    case False
    then have ne: "fblk v ip (q div BSIZE) \<noteq> fblk v ip (p div BSIZE)" using ok q pn by (metis fblks_ok_def)
    have "\<not> (p \<le> q \<and> q < p + length bs)"
    proof
      assume a: "p \<le> q \<and> q < p + length bs"
      then have "q = p div BSIZE * BSIZE + (p mod BSIZE + (q - p))" by simp
      moreover have "p mod BSIZE + (q - p) < BSIZE" using a p(3) by linarith
      ultimately have "q div BSIZE = p div BSIZE" using div_mod_small by metis
      then show False using False by simp
    qed
    then show ?thesis using ne f[of "q div BSIZE"] by (auto simp: content_def v'_def)
  qed
  then show ?thesis using f pn by (auto simp: written_def v'_def)
qed

text \<open>The number of blocks between two positions.\<close>

definition chunks :: "nat \<Rightarrow> nat \<Rightarrow> nat" where
  "chunks p e = (if p < e then (e - 1) div BSIZE - p div BSIZE + 1 else 0)"

lemma chunks_step:
  assumes "p < e"
  shows "chunks p e = Suc (chunks (p + min (e - p) (BSIZE - p mod BSIZE)) e)"
proof (cases "e - p \<le> BSIZE - p mod BSIZE")
  case True
  let ?r = "p mod BSIZE + (e - 1 - p)"
  have B: "p mod BSIZE < BSIZE" by (simp add: BSIZE_def)
  have "e - 1 = p div BSIZE * BSIZE + ?r" "?r < BSIZE" using assms True B by auto
  then have "(e - 1) div BSIZE = p div BSIZE" using div_mod_small by metis
  then show ?thesis using assms True by (simp add: chunks_def)
next
  case False
  let ?p = "p + (BSIZE - p mod BSIZE)"
  have B: "p mod BSIZE < BSIZE" by (simp add: BSIZE_def)
  then have "?p = Suc (p div BSIZE) * BSIZE" using div_mult_mod_eq[of p BSIZE] by (simp only: mult_Suc)
  then have d: "?p div BSIZE = Suc (p div BSIZE)" by (metis B div_mult_self_is_m gr_implies_not0 neq0_conv)
  have "?p \<le> e - 1" using False by simp
  then have "Suc (p div BSIZE) \<le> (e - 1) div BSIZE" using d div_le_mono by metis
  then show ?thesis using assms False d by (auto simp: chunks_def min_def)
qed

lemma writei_loop_ok:
  assumes "tx (chunks (off + tot) (off + n) + 2) s" "mapped s i (off + n)" "n \<le> length xs" "tot \<le> n" "fblks_ok (view s) (ino i s) (off + n)"
  shows "\<exists>s' v'. writei_loop i (Local xs) off n tot s = Ok (n, s') \<and>
     written (ino i s) (off + n) (off + tot) (slice tot (n - tot) xs) (view s) v' \<and> tx_step v' (chunks (off + tot) (off + n)) s s'"
  using assms
proof (induction "n - tot" arbitrary: tot s rule: less_induct)
  case less
  show ?case
  proof (cases "tot < n")
    case False
    then have "tot = n" using less.prems(4) by simp
    then show ?thesis using tx_step_refl[of s] written_refl[of "ino i s" "off + n" "off + n" "view s"]
      by (subst writei_loop.simps) (auto simp: slice_def chunks_def)
  next
    case True
    define m where "m = min (n - tot) (BSIZE - (off + tot) mod BSIZE)"
    define c where "c = chunks (off + (tot + m)) (off + n)"
    let ?p = "off + tot" and ?ip = "ino i s"
    let ?b = "fblk (view s) (ino i s) ((off + tot) div BSIZE)"
    let ?bs = "slice tot m xs"
    let ?v = "(view s)(?b := blit (?p mod BSIZE) ?bs (view s ?b))"
    have mpos: "0 < m" "tot + m \<le> n" "?p mod BSIZE + m \<le> BSIZE" using True by (simp_all add: m_def BSIZE_def)
    have ch: "chunks ?p (off + n) = Suc c"
      using chunks_step[of ?p "off + n"] True by (simp add: c_def m_def add.assoc)
    have p: "?p < off + n" using True by simp
    have tx1: "tx 1 s" using tx_mono[OF less.prems(1)] by simp
    obtain s1 where b: "bmap i (of_nat (?p div BSIZE)) s = Ok (?b, s1)" and st: "tx_step (view s) 0 s s1"
      using bmap_mapped[OF tx1 less.prems(2) p] by blast
    note S = tx_stepD[OF st] and F = tframe_fs[OF tx_stepD(1)[OF st]]
    have t1: "tx 2 s1" using S(6)[of 2] tx_mono[OF less.prems(1)] by simp
    have nz: "?b \<noteq> 0" "?b \<notin> held s1" "idev (ino i s1) = 1" using less.prems(2) p S(3) F by (auto simp: mapped_def)
    obtain bp s2 where r: "bread 1 ?b s1 = Ok (bp, s2)" and d: "data_of bp s2 = view s ?b" and
      mo: "\<And>d. length d = BSIZE \<Longrightarrow> \<exists>s3 s4. log_write bp (set_data bp d s2) = Ok s3 \<and> tframe s1 s3 \<and> brelse bp s3 = Ok s4 \<and>
       tx_step ((view s)(?b := d)) 1 s1 s4" using tx_modify[OF t1 nz(2)] S(2) by metis
    have l: "length (view s ?b) = BSIZE" using less.prems(1) view_length by (auto simp: tx_def)
    have fit: "tot + m \<le> length xs" using less.prems(3) mpos(2) by simp
    have lb: "length ?bs = m" using fit by simp
    have "length (blit (?p mod BSIZE) ?bs (view s ?b)) = BSIZE" using l lb mpos(3) by simp
    then obtain s3 s4 where w: "log_write bp (set_data bp (blit (?p mod BSIZE) ?bs (view s ?b)) s2) = Ok s3" "brelse bp s3 = Ok s4"
      "tx_step ?v 1 s1 s4" using mo by blast
    have st4: "tx_step ?v 1 s s4" using tx_step_trans[OF st w(3)] by simp
    note S4 = tx_stepD[OF st4] and F4 = tframe_fs[OF tx_stepD(1)[OF st4]]
    have wr: "written ?ip (off + n) ?p ?bs (view s) ?v"
      by (rule written_block[OF less.prems(5)]) (use mpos lb l in auto)
    have fb: "fblk ?v ?ip k = fblk (view s) ?ip k" for k using wr by (simp add: written_def)
    have c': "either_copyin (Local xs) tot m s2 = Ok (0, ?bs, s2)" using fit by (simp add: either_copyin_def)
    have "\<exists>s' v'. writei_loop i (Local xs) off n (tot + m) s4 = Ok (n, s') \<and>
     written (ino i s4) (off + n) (off + (tot + m)) (slice (tot + m) (n - (tot + m)) xs) (view s4) v' \<and> tx_step v' (chunks (off + (tot + m)) (off + n)) s4 s'"
    proof (rule less.hyps)
      show "n - (tot + m) < n - tot" using mpos True by simp
      have "chunks ?p (off + n) + 2 = 1 + (c + 2)" using ch by simp
      then show "tx (chunks (off + (tot + m)) (off + n) + 2) s4" using S4(6)[of "c + 2"] less.prems(1) by (simp add: c_def)
      show "mapped s4 i (off + n)" using less.prems(2) S4(2,3) F4(2) fb by (simp add: mapped_def)
      show "fblks_ok (view s4) (ino i s4) (off + n)" using less.prems(5) S4(2) F4(2) fb by (simp add: fblks_ok_def)
    qed (use less.prems(3) mpos in auto)
    then obtain s' v' where IH: "writei_loop i (Local xs) off n (tot + m) s4 = Ok (n, s')"
      "written ?ip (off + n) (?p + m) (slice (tot + m) (n - (tot + m)) xs) ?v v'" "tx_step v' c s4 s'"
      using S4(2) F4(2) by (auto simp: add.assoc c_def)
    have "slice tot (n - tot) xs = ?bs @ slice (tot + m) (n - (tot + m)) xs"
    proof -
      have "n - tot = m + (n - (tot + m))" using mpos(2) by simp
      then show ?thesis by (simp only: slice_def take_add drop_drop) (simp add: add.commute)
    qed
    then have "written ?ip (off + n) ?p (slice tot (n - tot) xs) (view s) v'" using written_trans[OF wr] IH(2) lb by simp
    moreover have "tx_step v' (chunks ?p (off + n)) s s'" using tx_step_trans[OF st4 IH(3)] ch by simp
    moreover have "writei_loop i (Local xs) off n tot s = Ok (n, s')"
      unfolding writei_loop.simps[of i "Local xs" off n tot s] Let_def m_def[symmetric]
      using True b nz r d c' w IH(1) F by simp
    ultimately show ?thesis by blast
  qed
qed

lemma fblk_addrs: "iaddrs ip = iaddrs jp \<Longrightarrow> fblk v ip k = fblk v jp k"
  by (simp add: fblk_def)

lemma content_addrs: "iaddrs ip = iaddrs jp \<Longrightarrow> content v ip p = content v jp p"
  by (simp add: content_def fblk_addrs[of ip jp])

text \<open>What a write of \<open>n\<close> bytes at \<open>off\<close> into allocated blocks needs.\<close>

definition write_ready :: "'z kfs_scheme \<Rightarrow> nat \<Rightarrow> nat \<Rightarrow> nat \<Rightarrow> bool" where
  "write_ready s i off n \<longleftrightarrow> tx (chunks off (off + n) + 4) s \<and> mapped s i (off + n) \<and> fblks_ok (view s) (ino i s) (off + n) \<and>
     i < length (itable s) \<and> length (iaddrs (ino i s)) = 13 \<and> off \<le> unat (isize (ino i s)) \<and>
     IBLOCK (inum (ino i s)) (sb s) \<notin> insert (iaddrs (ino i s) ! NDIRECT) (held s) \<and>
     (\<forall>p < off + n. fblk (view s) (ino i s) (p div BSIZE) \<noteq> IBLOCK (inum (ino i s)) (sb s))"

definition write_post :: "'z kfs_scheme \<Rightarrow> nat \<Rightarrow> nat \<Rightarrow> u8 list \<Rightarrow> 'z kfs_scheme \<Rightarrow> bool" where
  "write_post s i off bs s' \<longleftrightarrow> tx 1 s' \<and> mapped s' i (off + length bs) \<and>
     unat (isize (ino i s')) = max (unat (isize (ino i s))) (off + length bs) \<and>
     (\<forall>p < off + length bs. content (view s') (ino i s') p = (if off \<le> p then bs ! (p - off) else content (view s) (ino i s) p)) \<and>
     (\<forall>b. b \<noteq> IBLOCK (inum (ino i s)) (sb s) \<longrightarrow> (\<forall>p < off + length bs. b \<noteq> fblk (view s) (ino i s) (p div BSIZE)) \<longrightarrow> view s' b = view s b)"

lemma writei_ok:
  assumes R: "write_ready s i (unat off) (unat n)" and xs: "unat n \<le> length xs"
  shows "\<exists>s'. writei i (Local xs) off n s = Ok (int (unat n), s') \<and> write_post s i (unat off) (take (unat n) xs) s'"
proof -
  let ?e = "unat off + unat n" and ?ip = "ino i s" and ?k = "IBLOCK (inum (ino i s)) (sb s)"
  have A: "tx (chunks (unat off) ?e + 4) s" "mapped s i ?e" "fblks_ok (view s) ?ip ?e" "i < length (itable s)" "length (iaddrs ?ip) = 13"
    "unat off \<le> unat (isize ?ip)" "?k \<noteq> iaddrs ?ip ! NDIRECT" "?k \<notin> held s" "\<And>p. p < ?e \<Longrightarrow> fblk (view s) ?ip (p div BSIZE) \<noteq> ?k"
    using R by (auto simp: write_ready_def)
  have max: "?e \<le> MAXFILE * BSIZE" "MAXFILE * BSIZE < 2 ^ 32" using A(2) by (simp_all add: mapped_def kconst)
  have u: "unat (off + n) = ?e" using max by (intro unat_add_no_wrap) simp
  obtain s1 v where w: "writei_loop i (Local xs) (unat off) (unat n) 0 s = Ok (unat n, s1)"
    and wr: "written ?ip ?e (unat off) (take (unat n) xs) (view s) v" and st: "tx_step v (chunks (unat off) ?e) s s1"
    using writei_loop_ok[of "unat off" 0 "unat n" s i xs] A tx_mono[OF A(1), of "chunks (unat off) ?e + 2"] xs by (auto simp: slice_def)
  note S = tx_stepD[OF st] and F = tframe_fs[OF tx_stepD(1)[OF st]]
  define s2 where "s2 = (if off + n > isize (ino i s1) then upd_inode i (\<lambda>ip. ip\<lparr>isize := off + n\<rparr>) s1 else s1)"
  have i2: "itable s2 = itable s1 \<or> (off + n > isize (ino i s1) \<and> itable s2 = (itable s1)[i := (ino i s1)\<lparr>isize := off + n\<rparr>])"
    by (simp add: s2_def upd_inode_def)
  have n2: "ino i s2 = (if off + n > isize ?ip then ?ip\<lparr>isize := off + n\<rparr> else ?ip)" using F A(4) by (simp add: s2_def)
  have p2: "idev (ino i s2) = 1" "iaddrs (ino i s2) = iaddrs ?ip" "inum (ino i s2) = inum ?ip" using n2 A(2) by (simp_all add: mapped_def)
  have t2: "tx 4 s2" "view s2 = v" "held s2 = held s" "sb s2 = sb s" using S(2,3) S(6)[of 4] A(1) F by (simp_all add: s2_def)
  obtain s3 where up: "iupdate i s2 = Ok s3" and st3: "tx_step (v(?k := store_dinode (ino i s2) (dinode_off (inum ?ip)) (v ?k))) 1 s2 s3"
    using iupdate_ok[OF tx_mono[OF t2(1), of 2], of i] t2(2-4) p2 A(5,8) by auto
  note S3 = tx_stepD[OF st3] and F3 = tframe_fs[OF tx_stepD(1)[OF st3]]
  have ad: "iaddrs (ino i s3) = iaddrs ?ip" "isize (ino i s3) = isize (ino i s2)" "idev (ino i s3) = idev ?ip" using F3(2) n2 by simp_all
  have v3: "view s3 b = v b" if "b \<noteq> ?k" for b using S3(2) that by simp
  have fv: "fblk v ?ip k = fblk (view s) ?ip k" for k using wr by (simp add: written_def)
  have fb: "fblk (view s3) (ino i s3) k = fblk (view s) ?ip k" for k
    unfolding fblk_addrs[OF ad(1)] fv[symmetric] using v3[of "iaddrs ?ip ! NDIRECT"] A(7) by (simp add: fblk_def)
  have ct: "content (view s3) (ino i s3) p = content v ?ip p" if "p < ?e" for p
    using v3 A(9)[OF that] fb fv by (simp add: content_def)
  have l: "length (take (unat n) xs) = unat n" using xs by simp
  have "tx 1 s3" using S3(6)[of 1] tx_mono[OF t2(1), of 2] by (simp add: numeral_2_eq_2)
  moreover have "mapped s3 i ?e" using A(2) fb ad S3(3) t2(3) by (simp add: mapped_def)
  moreover have "unat (isize (ino i s3)) = max (unat (isize ?ip)) ?e" using ad(2) n2 u by (auto simp: word_less_nat_alt)
  moreover have "content (view s3) (ino i s3) p = (if unat off \<le> p then take (unat n) xs ! (p - unat off) else content (view s) ?ip p)" if "p < ?e" for p
    using wr ct[OF that] that l by (auto simp: written_def)
  moreover have "view s3 b = view s b" if "b \<noteq> ?k" "\<forall>p < ?e. b \<noteq> fblk (view s) ?ip (p div BSIZE)" for b
    using wr v3[OF that(1)] that(2) by (simp add: written_def)
  ultimately have "write_post s i (unat off) (take (unat n) xs) s3" using l by (simp add: write_post_def)
  moreover have "writei i (Local xs) off n s = Ok (int (unat n), s3)"
  proof -
    have "\<not> off > isize ?ip" "\<not> off + n < off" "\<not> unat (off + n) > MAXFILE * BSIZE" using A(6) u max by (simp_all add: word_less_nat_alt not_less)
    then show ?thesis using w up unfolding writei_def s2_def by (simp add: Let_def split: if_splits)
  qed
  ultimately show ?thesis by blast
qed

end
