(* ===== verification/Sched_Props.thy ===== *)
theory Sched_Props
  imports Sched
begin

text \<open>
  What the scheduler guarantees: which process a round selects, the range of priorities, the bound on
  waiting for the first slots of the table over every sequence of process-table steps, the starvation
  of the later slots, and the effect of \<open>wakeup\<close> and \<open>kkill\<close>.
\<close>

section \<open>Selection\<close>

definition starving :: "proc list \<Rightarrow> nat \<Rightarrow> bool" where
  "starving ps i \<longleftrightarrow> pstate (ps ! i) = RUNNABLE \<and> wait_ticks (ps ! i) \<ge> SCHED_WMAX"

definition leads :: "proc list \<Rightarrow> nat \<Rightarrow> nat \<Rightarrow> bool" where
  "leads ps n b \<longleftrightarrow> b < n \<and> pstate (ps ! b) = RUNNABLE \<and>
     (\<forall>j < n. pstate (ps ! j) = RUNNABLE \<longrightarrow> priority (ps ! j) \<le> priority (ps ! b)) \<and>
     (\<forall>j < b. pstate (ps ! j) = RUNNABLE \<longrightarrow> priority (ps ! j) < priority (ps ! b))"

definition leader :: "proc list \<Rightarrow> nat \<Rightarrow> nat option \<Rightarrow> bool" where
  "leader ps n best = (case best of None \<Rightarrow> \<forall>j < n. pstate (ps ! j) \<noteq> RUNNABLE | Some b \<Rightarrow> leads ps n b)"

lemma leader_skip: "leader ps n best \<Longrightarrow> pstate (ps ! n) \<noteq> RUNNABLE \<Longrightarrow> leader ps (Suc n) best"
  by (auto simp: leader_def leads_def less_Suc_eq split: option.splits)

lemma leader_keep: "leader ps n (Some b) \<Longrightarrow> priority (ps ! n) \<le> priority (ps ! b) \<Longrightarrow> leader ps (Suc n) (Some b)"
  by (auto simp: leader_def leads_def less_Suc_eq)

lemma leader_new:
  assumes "leader ps n best" "pstate (ps ! n) = RUNNABLE"
    "case best of None \<Rightarrow> True | Some b \<Rightarrow> priority (ps ! n) > priority (ps ! b)"
  shows "leader ps (Suc n) (Some n)"
  using assms by (fastforce simp: leader_def leads_def less_Suc_eq split: option.splits)

definition pick_ok :: "proc list \<Rightarrow> nat option \<Rightarrow> bool" where
  "pick_ok ps r \<longleftrightarrow>
     (case r of Some b \<Rightarrow> b < length ps \<and> starving ps b \<and> (\<forall>j < b. \<not> starving ps j) | None \<Rightarrow> False) \<or>
     (leader ps (length ps) r \<and> (\<forall>j < length ps. \<not> starving ps j))"

lemma sched_pick_ok:
  assumes "leader ps i best" "\<forall>j < i. \<not> starving ps j" "i \<le> length ps"
  shows "pick_ok ps (sched_pick ps i best)"
  using assms
proof (induction ps i best rule: sched_pick.induct)
  case (1 ps i best)
  show ?case
  proof (cases "i < length ps")
    case False
    with 1 show ?thesis by (subst sched_pick.simps) (auto simp: pick_ok_def)
  next
    case True
    consider (skip) "pstate (ps ! i) \<noteq> RUNNABLE" | (starve) "starving ps i"
      | (run) "pstate (ps ! i) = RUNNABLE" "\<not> starving ps i" by blast
    then show ?thesis
    proof cases
      case skip
      with 1(3)[OF True] 1(4-) True show ?thesis
        by (subst sched_pick.simps) (auto simp: starving_def less_Suc_eq intro!: leader_skip)
    next
      case starve
      with 1(5) True show ?thesis
        by (subst sched_pick.simps) (auto simp: pick_ok_def starving_def)
    next
      case run
      then have w: "\<not> wait_ticks (ps ! i) \<ge> SCHED_WMAX" by (simp add: starving_def)
      have ns: "\<forall>j < Suc i. \<not> starving ps j" using 1(5) run by (auto simp: less_Suc_eq)
      show ?thesis
      proof (cases "case best of None \<Rightarrow> True | Some b \<Rightarrow> priority (ps ! i) > priority (ps ! b)")
        case new: True
        from 1(1)[OF True run(1) w new] leader_new[OF 1(4) run(1) new] ns True
        show ?thesis by (subst sched_pick.simps) (use new run(1) w in auto)
      next
        case old: False
        then obtain b where "best = Some b" "priority (ps ! i) \<le> priority (ps ! b)"
          by (auto split: option.splits)
        with 1(2)[OF True run(1) w old] leader_keep 1(4) ns True old
        show ?thesis by (subst sched_pick.simps) (use run(1) w in auto)
      qed
    qed
  qed
qed

lemma pick_first: "pick_ok ps (sched_pick ps 0 None)"
  by (rule sched_pick_ok) (auto simp: leader_def)

lemma pick_Some:
  assumes "sched_pick ps 0 None = Some b"
  shows "b < length ps" "pstate (ps ! b) = RUNNABLE" "starving ps j \<Longrightarrow> j < length ps \<Longrightarrow> starving ps b \<and> b \<le> j"
  using pick_first[of ps] assms by (force simp: pick_ok_def starving_def leader_def leads_def not_less)+

section \<open>Table steps\<close>

text \<open>Every change of the process table. A timer interrupt charges the running process (\<open>ticks\<close>) and makes it yield (\<open>yields\<close>); \<open>others\<close> stands for
  what the rest of the kernel does to the fields that the scheduler does not use: files, directory, memory, name, parent, exit status.\<close>

inductive tstep :: "proc list \<Rightarrow> proc list \<Rightarrow> bool" where
  dispatch: "sched_pick ps 0 None = Some b \<Longrightarrow> tstep ps (sched_start b (sched_age b ps))"
| yields: "i < length ps \<Longrightarrow> pstate (ps ! i) = RUNNING \<Longrightarrow> tstep ps (sched_account i (yield_tbl i ps))"
| ticks: "i < length ps \<Longrightarrow> pstate (ps ! i) = RUNNING \<Longrightarrow> tstep ps (tick_tbl i ps)"
| sleeps: "i < length ps \<Longrightarrow> pstate (ps ! i) = RUNNING \<Longrightarrow> tstep ps (sched_account i (sleep_tbl i c ps))"
| resumes: "i < length ps \<Longrightarrow> pstate (ps ! i) = RUNNING \<Longrightarrow> tstep ps (unsleep_tbl i ps)"
| exits: "i < length ps \<Longrightarrow> pstate (ps ! i) = RUNNING \<Longrightarrow> tstep ps (sched_account i (zombie_tbl i status ps))"
| window: "tstep ps (snd (sched_window w ps))"
| wakes: "tstep ps (wakeup_tbl me c ps)"
| kills: "tstep ps (snd (kkill_tbl pd ps))"
| allocs: "i < length ps \<Longrightarrow> pstate (ps ! i) = UNUSED \<Longrightarrow> tstep ps (ps[i := sched_fields (alloc_fields pd (ps ! i))])"
| frees: "i < length ps \<Longrightarrow> pstate (ps ! i) \<in> {USED, ZOMBIE} \<Longrightarrow> tstep ps (ps[i := free_fields (ps ! i)])"
| inherits: "i < length ps \<Longrightarrow> j < length ps \<Longrightarrow> pstate (ps ! j) = USED \<Longrightarrow> tstep ps (ps[j := inherit_sched (ps ! i) (ps ! j)])"
| starts: "i < length ps \<Longrightarrow> pstate (ps ! i) = USED \<Longrightarrow> tstep ps (runnable_tbl i ps)"
| others: "i < length ps \<Longrightarrow> pstate q = pstate (ps ! i) \<Longrightarrow> priority q = priority (ps ! i) \<Longrightarrow> wait_ticks q = wait_ticks (ps ! i) \<Longrightarrow>
    cpu_ticks q = cpu_ticks (ps ! i) \<Longrightarrow> tstep ps (ps[i := q])"

definition proc0 :: proc where
  "proc0 = \<lparr>pstate = UNUSED, chan = NoChan, killed = 0, xstate = 0, pid = 0, parent = None, kstack = 0,
     psz = 0, pagetable = 0, trapframe = 0, ofile = replicate 16 None, cwd = None, pname = replicate 16 0,
     priority = 0, wait_ticks = 0, cpu_ticks = 0\<rparr>"

inductive treach :: "proc list \<Rightarrow> bool" where
  boot: "treach (replicate 64 proc0)"
| step: "treach ps \<Longrightarrow> tstep ps qs \<Longrightarrow> treach qs"

definition overtakers :: "proc list \<Rightarrow> nat \<Rightarrow> nat set" where
  "overtakers ps i = {k. k < i \<and> wait_ticks (ps ! k) < wait_ticks (ps ! i) - SCHED_WMAX}"

definition wait_ok :: "proc list \<Rightarrow> nat \<Rightarrow> bool" where
  "wait_ok ps i \<longleftrightarrow> wait_ticks (ps ! i) \<ge> 0 \<and> (pstate (ps ! i) \<noteq> RUNNABLE \<longrightarrow> wait_ticks (ps ! i) = 0) \<and>
     (i \<le> nat SCHED_WMAX \<longrightarrow> wait_ticks (ps ! i) - SCHED_WMAX \<le> int (card (overtakers ps i)))"

definition prio_ok :: "proc \<Rightarrow> bool" where
  "prio_ok p \<longleftrightarrow> SCHED_MIN \<le> priority p \<and> priority p \<le> SCHED_MAX"

definition sched_inv :: "proc list \<Rightarrow> bool" where
  "sched_inv ps \<longleftrightarrow> length ps = 64 \<and> (\<forall>i < length ps. prio_ok (ps ! i) \<and> wait_ok ps i)"

lemma card_overtakers_le: "card (overtakers ps i) \<le> i"
  using card_mono[of "{..<i}" "overtakers ps i"] by (auto simp: overtakers_def)

lemma wait_bound: "wait_ok ps i \<Longrightarrow> i \<le> nat SCHED_WMAX \<Longrightarrow> wait_ticks (ps ! i) \<le> SCHED_WMAX + int i"
  using card_overtakers_le[of ps i] by (simp add: wait_ok_def)

text \<open>Steps that leave the waiting times alone.\<close>

lemma wait_ok_same:
  assumes "wait_ok ps i" "i < length ps" "\<And>k. k < length ps \<Longrightarrow> wait_ticks (qs ! k) = wait_ticks (ps ! k)"
    "pstate (ps ! i) = RUNNABLE \<Longrightarrow> pstate (qs ! i) = RUNNABLE"
  shows "wait_ok qs i"
proof -
  have "overtakers qs i = overtakers ps i" using assms(2,3) by (auto simp: overtakers_def)
  then show ?thesis using assms by (auto simp: wait_ok_def)
qed

lemma sched_inv_same:
  assumes "sched_inv ps" "length qs = length ps"
    "\<And>k. k < length ps \<Longrightarrow> wait_ok ps k \<Longrightarrow> wait_ticks (qs ! k) = wait_ticks (ps ! k) \<and> (prio_ok (ps ! k) \<longrightarrow> prio_ok (qs ! k)) \<and>
       (pstate (ps ! k) = RUNNABLE \<longrightarrow> pstate (qs ! k) = RUNNABLE)"
  shows "sched_inv qs"
  using assms unfolding sched_inv_def by (metis wait_ok_same)

text \<open>The step that does not: a process passed over while starving was passed over for one that was not
  counted before.\<close>

lemma dispatch_nth:
  assumes "i < length ps" "b < length ps"
  shows "sched_start b (sched_age b ps) ! i =
    (if i = b then (ps ! b)\<lparr>pstate := RUNNING, wait_ticks := 0\<rparr> else age_proc (ps ! i))"
  using assms by (simp add: sched_start_def sched_age_def nth_list_update)

lemma age_proc_simps [simp]:
  "pstate (age_proc p) = pstate p"
  "wait_ticks (age_proc p) = (if pstate p = RUNNABLE then wait_ticks p + 1 else wait_ticks p)"
  by (simp_all add: age_proc_def Let_def)

lemma dispatch_length [simp]: "length (sched_start b (sched_age b ps)) = length ps"
  by (simp add: sched_start_def sched_age_def)

lemma dispatch_wait_ok:
  assumes inv: "\<forall>k < length ps. wait_ok ps k" and pick: "sched_pick ps 0 None = Some b" and i: "i < length ps"
  shows "wait_ok (sched_start b (sched_age b ps)) i" (is "wait_ok ?qs i")
proof -
  note b = pick_Some[OF pick]
  have le: "wait_ticks (?qs ! k) \<le> wait_ticks (ps ! k) + 1" and ge: "wait_ticks (?qs ! k) \<ge> 0" if "k < length ps" for k
    using inv that b(1) by (auto simp: dispatch_nth wait_ok_def)
  have "wait_ticks (?qs ! i) - SCHED_WMAX \<le> int (card (overtakers ?qs i))" if small: "i \<le> nat SCHED_WMAX"
  proof (cases "i \<noteq> b \<and> starving ps i")
    case False
    then have "wait_ticks (?qs ! i) \<le> SCHED_WMAX"
      using i b(1) inv by (auto simp: dispatch_nth starving_def wait_ok_def kconst)
    then show ?thesis by simp
  next
    case True
    with b(3)[of i] i have bi: "b < i" and bs: "starving ps b" by auto
    let ?e = "wait_ticks (ps ! i) - SCHED_WMAX"
    have e: "?e \<le> int i" using wait_bound[of ps i] inv i small by auto
    have w': "wait_ticks (?qs ! i) = wait_ticks (ps ! i) + 1"
      using True i b(1) by (auto simp: dispatch_nth starving_def)
    have nb: "b \<notin> overtakers ps i"
      using bs e small by (auto simp: overtakers_def starving_def kconst)
    have "insert b (overtakers ps i) \<subseteq> overtakers ?qs i"
    proof
      fix k assume k: "k \<in> insert b (overtakers ps i)"
      show "k \<in> overtakers ?qs i"
      proof (cases "k = b")
        case True
        with bi b(1) i \<open>i \<noteq> b \<and> starving ps i\<close> w' show ?thesis
          by (auto simp: overtakers_def dispatch_nth starving_def)
      next
        case False
        with k le[of k] w' i show ?thesis by (auto simp: overtakers_def)
      qed
    qed
    then have "card (insert b (overtakers ps i)) \<le> card (overtakers ?qs i)"
      by (rule card_mono[rotated]) (simp add: overtakers_def)
    moreover have "card (insert b (overtakers ps i)) = Suc (card (overtakers ps i))"
      using nb by (simp add: overtakers_def)
    moreover have "?e \<le> int (card (overtakers ps i))" using inv i small by (auto simp: wait_ok_def)
    ultimately show ?thesis using w' by simp
  qed
  then show ?thesis using ge[OF i] i b inv by (auto simp: wait_ok_def dispatch_nth)
qed

lemma prio_ok_age [simp]: "prio_ok p \<Longrightarrow> prio_ok (age_proc p)"
  by (auto simp: prio_ok_def age_proc_def kconst Let_def)

lemma dispatch_inv: "sched_inv ps \<Longrightarrow> sched_pick ps 0 None = Some b \<Longrightarrow> sched_inv (sched_start b (sched_age b ps))"
  by (auto simp: sched_inv_def dispatch_wait_ok dispatch_nth[OF _ pick_Some(1)] prio_ok_def[of "_\<lparr>pstate := _, wait_ticks := _\<rparr>"])
    (auto simp: prio_ok_def)

lemma nth_upd: "j < length xs \<Longrightarrow> xs[i := x] ! j = (if i = j then x else xs ! j)"
  by (cases "i = j") simp_all

lemma account_simps:
  assumes "i < length ps"
  shows "wait_ticks (sched_account b ps ! i) = wait_ticks (ps ! i)" "pstate (sched_account b ps ! i) = pstate (ps ! i)"
    "prio_ok (ps ! i) \<Longrightarrow> prio_ok (sched_account b ps ! i)" "length (sched_account b ps) = length ps"
  using assms by (auto simp: sched_account_def Let_def nth_upd prio_ok_def kconst)

lemma tbl_lengths [simp]:
  "length (sched_account b ps) = length ps" "length (yield_tbl i ps) = length ps" "length (sleep_tbl i c ps) = length ps"
  "length (unsleep_tbl i ps) = length ps" "length (zombie_tbl i st ps) = length ps" "length (snd (sched_window w ps)) = length ps"
  "length (wakeup_tbl me c ps) = length ps" "length (snd (kkill_tbl pd ps)) = length ps" "length (runnable_tbl i ps) = length ps"
  "length (tick_tbl i ps) = length ps"
  by (simp_all add: sched_account_def Let_def yield_tbl_def tick_tbl_def sleep_tbl_def unsleep_tbl_def zombie_tbl_def sched_window_def
      wakeup_tbl_def kkill_tbl_def runnable_tbl_def split: option.splits)

lemma find_pid_Some: "find_pid pd ps i = Some k \<Longrightarrow> k < length ps \<and> i \<le> k \<and> pid (ps ! k) = pd"
proof (induction pd ps i rule: find_pid.induct)
  case (1 pd ps i)
  from 1(2) show ?case
    by (subst (asm) find_pid.simps) (use 1(1) in \<open>auto split: if_splits\<close>)
qed

lemmas tbl_defs = yield_tbl_def tick_tbl_def sleep_tbl_def unsleep_tbl_def zombie_tbl_def sched_window_def wakeup_tbl_def wakeup_proc_def
  kkill_tbl_def kill_proc_def runnable_tbl_def alloc_fields_def sched_fields_def free_fields_def inherit_sched_def

lemma yield_inv: "sched_inv ps \<Longrightarrow> sched_inv (yield_tbl i ps)"
  by (erule sched_inv_same) (auto simp: tbl_defs nth_upd prio_ok_def)

lemma leave_inv: "sched_inv ps \<Longrightarrow> pstate (ps ! i) = RUNNING \<Longrightarrow> sched_inv (sleep_tbl i c ps)"
  "sched_inv ps \<Longrightarrow> pstate (ps ! i) = RUNNING \<Longrightarrow> sched_inv (zombie_tbl i st ps)"
  by (erule sched_inv_same; auto simp: tbl_defs nth_upd prio_ok_def)+

lemma account_inv: "sched_inv ps \<Longrightarrow> sched_inv (sched_account i ps)"
  by (erule sched_inv_same) (simp_all add: account_simps)

lemma kkill_inv: "sched_inv ps \<Longrightarrow> sched_inv (snd (kkill_tbl pd ps))"
  by (erule sched_inv_same)
    (auto simp: tbl_defs nth_upd prio_ok_def Let_def split: option.splits dest: find_pid_Some)

lemma quiet_inv:
  "sched_inv ps \<Longrightarrow> sched_inv (snd (sched_window w ps))" "sched_inv ps \<Longrightarrow> sched_inv (wakeup_tbl me c ps)"
  "sched_inv ps \<Longrightarrow> sched_inv (unsleep_tbl i ps)" "sched_inv ps \<Longrightarrow> sched_inv (runnable_tbl i ps)"
  "sched_inv ps \<Longrightarrow> sched_inv (tick_tbl i ps)"
  by (erule sched_inv_same; auto simp: tbl_defs nth_upd prio_ok_def)+

lemma alloc_free_inv:
  "sched_inv ps \<Longrightarrow> pstate (ps ! i) = UNUSED \<Longrightarrow> sched_inv (ps[i := sched_fields (alloc_fields pd (ps ! i))])"
  "sched_inv ps \<Longrightarrow> pstate (ps ! i) \<in> {USED, ZOMBIE} \<Longrightarrow> sched_inv (ps[i := free_fields (ps ! i)])"
  by (erule sched_inv_same; auto simp: tbl_defs nth_upd prio_ok_def wait_ok_def kconst)+

lemma others_inv:
  assumes "sched_inv ps" "pstate q = pstate (ps ! i)" "priority q = priority (ps ! i)" "wait_ticks q = wait_ticks (ps ! i)"
  shows "sched_inv (ps[i := q])"
  using assms(1) by (rule sched_inv_same) (use assms(2-4) in \<open>auto simp: nth_upd prio_ok_def\<close>)

lemma inherit_inv:
  assumes "sched_inv ps" "i < length ps" "pstate (ps ! j) = USED"
  shows "sched_inv (ps[j := inherit_sched (ps ! i) (ps ! j)])"
  using assms(1)
  by (rule sched_inv_same) (use assms in \<open>auto simp: tbl_defs nth_upd prio_ok_def wait_ok_def sched_inv_def\<close>)

lemma tstep_inv: "tstep ps qs \<Longrightarrow> sched_inv ps \<Longrightarrow> sched_inv qs"
  by (induction rule: tstep.induct) (auto intro!: dispatch_inv account_inv yield_inv leave_inv kkill_inv quiet_inv alloc_free_inv inherit_inv others_inv)

lemma treach_inv: "treach ps \<Longrightarrow> sched_inv ps"
proof (induction rule: treach.induct)
  case boot
  show ?case by (auto simp: sched_inv_def proc0_def prio_ok_def wait_ok_def kconst)
qed (rule tstep_inv)

section \<open>Properties\<close>

text \<open>C9: The selection loop of the scheduler returns no process exactly when none is runnable; when some
  runnable process has waited SCHED_WMAX ticks it returns the first such process of the table, and otherwise
  the first of the runnable processes of highest priority.\<close>

theorem sched_pick_correct:
  "sched_pick ps 0 None =
     (if \<exists>i < length ps. starving ps i then Some (LEAST i. starving ps i)
      else if \<exists>i < length ps. pstate (ps ! i) = RUNNABLE then Some (THE i. leads ps (length ps) i) else None)"
proof (cases "\<exists>i < length ps. starving ps i")
  case True
  then obtain i where i: "i < length ps" "starving ps i" by blast
  with pick_first[of ps] obtain b where b: "sched_pick ps 0 None = Some b" "starving ps b" "\<forall>j < b. \<not> starving ps j"
    by (auto simp: pick_ok_def split: option.splits)
  then have "(LEAST i. starving ps i) = b" by (intro Least_equality) (auto simp: not_less[symmetric])
  with True b(1) show ?thesis by simp
next
  case False
  with pick_first[of ps] have l: "leader ps (length ps) (sched_pick ps 0 None)"
    by (auto simp: pick_ok_def leader_def split: option.splits)
  show ?thesis
  proof (cases "sched_pick ps 0 None")
    case None
    with l False show ?thesis by (auto simp: leader_def)
  next
    case (Some b)
    with l have b: "leads ps (length ps) b" by (simp add: leader_def)
    have "i = b" if "leads ps (length ps) i" for i
      using b that by (cases i b rule: linorder_cases) (force simp: leads_def)+
    with b have "(THE i. leads ps (length ps) i) = b" by blast
    moreover have "\<exists>i < length ps. pstate (ps ! i) = RUNNABLE" using b by (auto simp: leads_def)
    ultimately show ?thesis using False Some by auto
  qed
qed

lemma passed_over:
  assumes "starving ps j" "j < i" "i < length ps" "pstate (ps ! i) = RUNNABLE"
  shows "\<exists>b \<le> j. sched_pick ps 0 None = Some b \<and> wait_ticks (sched_start b (sched_age b ps) ! i) = wait_ticks (ps ! i) + 1"
proof -
  have j: "j < length ps" using assms by simp
  with pick_first[of ps] assms(1) obtain b where b: "sched_pick ps 0 None = Some b"
    by (fastforce simp: pick_ok_def split: option.splits)
  have "b \<le> j" "b < length ps" using pick_Some(1,3)[OF b] assms(1) j by auto
  then show ?thesis using b assms by (auto simp: dispatch_nth age_proc_def Let_def)
qed

text \<open>C18: Over every sequence of process-table steps from boot (dispatch, yield, sleep, exit, wakeup, kill,
  allocation, fork, freeing, timer charge, window reset, and changes of the other fields), every priority stays within SCHED_MIN and SCHED_MAX, and a process
  in slot i of the first 51 never waits more than SCHED_WMAX + i scheduling rounds. The limit SCHED_WMAX itself can be passed: when two runnable
  processes have both waited that long, a process in a slot up to the first of them is selected, and the second waits another round.\<close>

theorem sched_bounded_wait:
  assumes "treach ps" "i < 64"
  shows "0 \<le> priority (ps ! i) \<and> priority (ps ! i) \<le> 100 \<and> (i \<le> 50 \<longrightarrow> wait_ticks (ps ! i) \<le> 50 + int i) \<and>
    (\<forall>j < i. pstate (ps ! j) = RUNNABLE \<and> 50 \<le> wait_ticks (ps ! j) \<and> pstate (ps ! i) = RUNNABLE \<longrightarrow>
       (\<exists>b \<le> j. sched_pick ps 0 None = Some b \<and> wait_ticks (sched_start b (sched_age b ps) ! i) = wait_ticks (ps ! i) + 1))"
proof -
  have inv: "sched_inv ps" by (rule treach_inv[OF assms(1)])
  have "\<exists>b \<le> j. sched_pick ps 0 None = Some b \<and> wait_ticks (sched_start b (sched_age b ps) ! i) = wait_ticks (ps ! i) + 1"
    if "j < i" "pstate (ps ! j) = RUNNABLE" "50 \<le> wait_ticks (ps ! j)" "pstate (ps ! i) = RUNNABLE" for j
    by (rule passed_over) (use that inv assms(2) in \<open>auto simp: starving_def sched_inv_def kconst\<close>)
  then show ?thesis using inv assms(2) wait_bound[of ps i] by (auto simp: sched_inv_def prio_ok_def kconst)
qed

definition ex_table :: "proc list" where
  "ex_table = runnable_tbl 3 ((replicate 64 proc0)[3 := sched_fields (alloc_fields 1 proc0)])"

lemma ex_table_reach: "treach (sched_start 3 (sched_age 3 ex_table))"
proof -
  have 1: "treach ((replicate 64 proc0)[3 := sched_fields (alloc_fields 1 proc0)])"
    using treach.step[OF treach.boot, OF tstep.allocs[of 3 _ 1]] by (simp add: proc0_def)
  have "treach ex_table"
    unfolding ex_table_def
    by (rule treach.step[OF 1], rule tstep.starts) (simp_all add: sched_fields_def alloc_fields_def)
  then show ?thesis
  proof (rule treach.step, intro tstep.dispatch)
    show "sched_pick ex_table 0 None = Some 3" by code_simp
  qed
qed

theorem sched_bounded_wait_witness:
  "wait_ticks (sched_start 3 (sched_age 3 ex_table) ! 3) \<le> 53 \<and> treach (sched_start 3 (sched_age 3 ex_table))"
  using sched_bounded_wait[OF ex_table_reach, of 3] ex_table_reach by simp

subsection \<open>Starvation beyond the first 51 slots\<close>

text \<open>One round in which the selected process uses its time slice, is charged by the timer interrupt and yields. The reset of the window, which
  only clears \<open>cpu_ticks\<close>, is left out: the selection depends on states and waiting times alone when somebody starves.\<close>

definition spin_round :: "proc list \<Rightarrow> proc list" where
  "spin_round ps = (case sched_pick ps 0 None of None \<Rightarrow> ps
     | Some b \<Rightarrow> sched_account b (yield_tbl b (tick_tbl b (sched_start b (sched_age b ps)))))"

definition saturated :: "proc list \<Rightarrow> bool" where
  "saturated ps \<longleftrightarrow> 51 < length ps \<and> (\<forall>i < length ps. pstate (ps ! i) = RUNNABLE) \<and>
     (\<lambda>i. wait_ticks (ps ! i)) ` {..<51} = {0..50}"

lemma saturated_pick:
  assumes "saturated ps"
  shows "\<exists>b < 51. sched_pick ps 0 None = Some b \<and> wait_ticks (ps ! b) = 50"
proof -
  have im: "(\<lambda>i. wait_ticks (ps ! i)) ` {..<51::nat} = {0..50}" using assms by (simp add: saturated_def)
  have "50 \<in> (\<lambda>i. wait_ticks (ps ! i)) ` {..<51::nat}" unfolding im by simp
  then obtain j where j: "j < 51" "wait_ticks (ps ! j) = 50" by auto
  with assms have s: "starving ps j" "j < length ps" by (auto simp: saturated_def starving_def kconst)
  with pick_first[of ps] obtain b where b: "sched_pick ps 0 None = Some b"
    by (fastforce simp: pick_ok_def split: option.splits)
  from pick_Some(3)[OF b s] have sb: "starving ps b" "b \<le> j" by auto
  with j have "b < 51" by simp
  then have "wait_ticks (ps ! b) \<in> {0..50}" unfolding im[symmetric] by blast
  with sb have "wait_ticks (ps ! b) = 50" by (auto simp: starving_def kconst)
  with b \<open>b < 51\<close> show ?thesis by blast
qed

lemma spin_round_nth:
  assumes "sched_pick ps 0 None = Some b" "i < length ps" "pstate (ps ! i) = RUNNABLE"
  shows "pstate (spin_round ps ! i) = RUNNABLE" "wait_ticks (spin_round ps ! i) = (if i = b then 0 else wait_ticks (ps ! i) + 1)"
proof -
  have "b < length ps" using pick_Some(1)[OF assms(1)] .
  then show "pstate (spin_round ps ! i) = RUNNABLE" "wait_ticks (spin_round ps ! i) = (if i = b then 0 else wait_ticks (ps ! i) + 1)"
    using assms by (auto simp: spin_round_def account_simps yield_tbl_def tick_tbl_def nth_upd dispatch_nth)
qed

lemma spin_round_length [simp]: "length (spin_round ps) = length ps"
  by (simp add: spin_round_def split: option.split)

lemma saturated_round:
  assumes "saturated ps"
  shows "saturated (spin_round ps)"
proof -
  obtain b where b: "b < 51" "sched_pick ps 0 None = Some b" "wait_ticks (ps ! b) = 50"
    using saturated_pick[OF assms] by blast
  note im = assms[unfolded saturated_def]
  have inj: "inj_on (\<lambda>i. wait_ticks (ps ! i)) {..<51}"
    by (rule eq_card_imp_inj_on) (use im in simp_all)
  have n: "wait_ticks (spin_round ps ! i) = (if i = b then 0 else wait_ticks (ps ! i) + 1)" if "i < 51" for i
    using spin_round_nth(2)[OF b(2), of i] im that by auto
  have "(\<lambda>i. wait_ticks (spin_round ps ! i)) ` {..<51} = insert 0 ((\<lambda>w. w + 1) ` ((\<lambda>i. wait_ticks (ps ! i)) ` ({..<51} - {b})))"
    using n b(1) by (force simp: image_iff)
  also have "(\<lambda>i. wait_ticks (ps ! i)) ` ({..<51} - {b}) = {0..50} - {50}"
    using inj_on_image_set_diff[OF inj, of "{..<51}" "{b}"] im b by simp
  also have "insert 0 ((\<lambda>w. w + 1) ` ({0..50} - {50})) = {0..50::int}"
  proof -
    have "x = 0 \<or> x \<in> (\<lambda>w. w + 1) ` ({0..50} - {50})" if "x \<in> {0..50}" for x :: int
      using that by (cases "x = 0") (auto intro!: image_eqI[of _ _ "x - 1"])
    then have "{0..50::int} \<subseteq> insert 0 ((\<lambda>w. w + 1) ` ({0..50} - {50}))" by blast
    moreover have "insert 0 ((\<lambda>w. w + 1) ` ({0..50} - {50})) \<subseteq> {0..50::int}" by auto
    ultimately show ?thesis by (rule antisym[rotated])
  qed
  finally show ?thesis using im spin_round_nth(1)[OF b(2)] by (auto simp: saturated_def)
qed

text \<open>C39: When more than 51 processes stay runnable, the bound on waiting fails: once the waiting times of the
  first 51 slots cover 0 to 50, every later round selects one of those slots, so a process in a slot from 51 on
  never runs again.\<close>

theorem sched_late_slot_starves:
  assumes "saturated ps"
  shows "\<exists>b < 51. sched_pick ((spin_round ^^ n) ps) 0 None = Some b"
proof -
  have "saturated ((spin_round ^^ n) ps)"
    by (induction n) (use assms saturated_round in auto)
  from saturated_pick[OF this] show ?thesis by blast
qed

definition ex_saturated :: "proc list" where
  "ex_saturated = map (\<lambda>i. proc0\<lparr>pstate := RUNNABLE, pid := int i + 1, priority := 60, wait_ticks := 50 - int i\<rparr>) [0..<51]
     @ [proc0\<lparr>pstate := RUNNABLE, pid := 52, priority := 100, wait_ticks := 60\<rparr>]"

lemma ex_saturated_ok: "saturated ex_saturated"
proof -
  have "(\<lambda>i. wait_ticks (ex_saturated ! i)) ` {..<51} = (\<lambda>i. 50 - int i) ` {..<51}"
    by (rule image_cong) (auto simp: ex_saturated_def nth_append)
  also have "\<dots> = {0..50}"
  proof
    show "{0..50} \<subseteq> (\<lambda>i. 50 - int i) ` {..<51}"
    proof
      fix x :: int assume "x \<in> {0..50}"
      then show "x \<in> (\<lambda>i. 50 - int i) ` {..<51}" by (intro image_eqI[of _ _ "nat (50 - x)"]) auto
    qed
  qed auto
  finally show ?thesis by (auto simp: saturated_def ex_saturated_def nth_append)
qed

theorem sched_late_slot_starves_witness:
  "saturated ex_saturated \<and> (\<exists>b < 51. sched_pick ((spin_round ^^ 1000) ex_saturated) 0 None = Some b)"
  using sched_late_slot_starves[OF ex_saturated_ok] ex_saturated_ok by blast

subsection \<open>Killing by pid\<close>

text \<open>C40: \<open>kkill\<close> with pid 0 finds a free slot, since free slots have pid 0: it reports success, marks the slot
  killed, and the mark survives allocation, so the next process created in that slot starts out killed.\<close>

theorem kkill_zero_kills_future_process:
  assumes "i < length ps" "pstate (ps ! i) = UNUSED" "pid (ps ! i) = 0" "\<forall>j < i. pid (ps ! j) \<noteq> 0"
  shows "fst (kkill_tbl 0 ps) = 0 \<and> pstate (snd (kkill_tbl 0 ps) ! i) = UNUSED \<and>
    killed (sched_fields (alloc_fields pd (snd (kkill_tbl 0 ps) ! i))) = 1"
proof -
  have "find_pid 0 ps k = Some i" if "k \<le> i" for k
    using that
  proof (induction "i - k" arbitrary: k)
    case 0
    then show ?case using assms by (subst find_pid.simps) auto
  next
    case (Suc n)
    then show ?case using assms by (subst find_pid.simps) auto
  qed
  then show ?thesis
    using assms by (simp add: kkill_tbl_def kill_proc_def Let_def sched_fields_def alloc_fields_def)
qed

theorem kkill_zero_kills_future_process_witness:
  "killed (sched_fields (alloc_fields 9 (snd (kkill_tbl 0 (replicate 64 proc0)) ! 0))) = 1"
  using kkill_zero_kills_future_process[of 0 "replicate 64 proc0" 9] by (simp add: proc0_def)

end
