(* ===== verification/Log_Props.thy ===== *)
theory Log_Props
  imports Log_Crash Sched_Props
begin

text \<open>
  Properties of the log and the buffer cache: commit installs a transaction, a crash anywhere in a commit
  leaves all or nothing, admission by \<open>begin_op\<close> keeps the log from overflowing, and a log as full as
  admission allows makes the commit panic.
\<close>

section \<open>A small file-system state\<close>

definition ex_buf0 :: buf where
  "ex_buf0 = \<lparr>valid = False, bdev = 0, blockno = 0, block = initsleeplock, refcnt = 0, bdata = []\<rparr>"

definition ex_disk0 :: "u32 \<Rightarrow> u8 list" where
  "ex_disk0 = (\<lambda>b. replicate BSIZE 0)"

definition ex_boot :: "buf list \<Rightarrow> (u32 \<Rightarrow> u8 list) \<Rightarrow> int \<Rightarrow> u32 list \<Rightarrow> 'z \<Rightarrow> 'z klog_scheme" where
  "ex_boot bs d n bl z = binit
     \<lparr>ram = (\<lambda>_. 0), kend = 0, use_lock = True, freelist = 0, ref_count = (\<lambda>_. 0), reverse_map = (\<lambda>_. \<lparr>rm_pagetable = 0, rm_va = 0\<rparr>),
      procs = [proc0], cur = 0, nextpid = 1, initproc = 0, ticks = 0, trampoline = 0,
      bufs = bs, bnext = (\<lambda>_. 0), bprev = (\<lambda>_. 0), disk = d, dwrites = [],
      log_start = 2, log_outstanding = 1, log_committing = False, log_dev = 1, lh_n = n, lh_block = bl, \<dots> = z\<rparr>"

lemma binit_form:
  assumes "\<And>i. i < length (bufs s) \<Longrightarrow> block (bufs s ! i) = initsleeplock"
  obtains n p where "binit s = s\<lparr>bnext := n, bprev := p\<rparr>"
proof -
  let ?step = "\<lambda>b s. link_front b (upd_buf b (\<lambda>x. x\<lparr>block := initsleeplock\<rparr>) s)"
  have "\<exists>n p. fold ?step l t = t\<lparr>bnext := n, bprev := p\<rparr>"
    if "\<And>i. i < length (bufs t) \<Longrightarrow> block (bufs t ! i) = initsleeplock" for l t
    using that
  proof (induction l arbitrary: t)
    case Nil
    show ?case by (rule exI[of _ "bnext t"], rule exI[of _ "bprev t"]) simp
  next
    case (Cons b l)
    have "(bufs t)[b := (bufs t ! b)\<lparr>block := initsleeplock\<rparr>] = bufs t"
      using Cons.prems[of b] by (cases "b < length (bufs t)") (simp_all add: list_update_same_conv list_update_beyond)
    then have "upd_buf b (\<lambda>x. x\<lparr>block := initsleeplock\<rparr>) t = t" by (simp add: upd_buf_def)
    then have "?step b t = link_front b t" by simp
    also have "\<dots> = t\<lparr>bnext := bnext (link_front b t), bprev := bprev (link_front b t)\<rparr>"
      by (simp add: link_front_def set_bnext_def set_bprev_def Let_def)
    finally obtain n p where f: "?step b t = t\<lparr>bnext := n, bprev := p\<rparr>" by blast
    obtain n' p' where "fold ?step l (?step b t) = (?step b t)\<lparr>bnext := n', bprev := p'\<rparr>"
      using Cons.IH[of "?step b t"] Cons.prems f by auto
    then have "fold ?step (b # l) t = t\<lparr>bnext := n', bprev := p'\<rparr>" using f by simp
    then show ?case by blast
  qed
  from this[of "set_bnext bhead bhead (set_bprev bhead bhead s)" "[0..<NBUF]"] assms
  obtain n p where "binit s = (set_bnext bhead bhead (set_bprev bhead bhead s))\<lparr>bnext := n, bprev := p\<rparr>"
    unfolding binit_def by (auto simp: set_bnext_def set_bprev_def)
  then have "binit s = s\<lparr>bnext := n, bprev := p\<rparr>" by (simp add: set_bnext_def set_bprev_def)
  then show thesis by (rule that)
qed

lemma ex_boot_fields:
  fixes bs :: "buf list" and d :: "u32 \<Rightarrow> u8 list" and n :: int and bl :: "u32 list" and z :: 'z
  assumes "\<And>i. i < length bs \<Longrightarrow> block (bs ! i) = initsleeplock"
  defines "s \<equiv> ex_boot bs d n bl z"
  shows "bufs s = bs" "disk s = d" "dwrites s = []" "myproc s = proc0" "cur s < length (procs s)" "log_start s = 2" "log_dev s = 1"
    "lh_n s = n" "lh_block s = bl" "log_outstanding s = 1" "log_committing s = False" "lru_ok s" "klog.more s = z" "ram s = (\<lambda>_. 0)"
proof -
  let ?r = "\<lparr>ram = (\<lambda>_. 0), kend = 0, use_lock = True, freelist = 0, ref_count = (\<lambda>_. 0), reverse_map = (\<lambda>_. \<lparr>rm_pagetable = 0, rm_va = 0\<rparr>),
      procs = [proc0], cur = 0, nextpid = 1, initproc = 0, ticks = 0, trampoline = 0,
      bufs = bs, bnext = (\<lambda>_. 0), bprev = (\<lambda>_. 0), disk = d, dwrites = [],
      log_start = 2, log_outstanding = 1, log_committing = False, log_dev = 1, lh_n = n, lh_block = bl, \<dots> = z\<rparr>"
  obtain nx pv where s: "s = ?r\<lparr>bnext := nx, bprev := pv\<rparr>"
    unfolding s_def ex_boot_def by (rule binit_form[of ?r]) (use assms(1) in auto)
  show "lru_ok s"
    unfolding lru_ok_def s_def ex_boot_def by (rule exI[of _ "rev [0..<NBUF]"]) (simp add: binit_ring atLeast0LessThan)
  show "bufs s = bs" "disk s = d" "dwrites s = []" "myproc s = proc0" "cur s < length (procs s)" "log_start s = 2" "log_dev s = 1"
    "lh_n s = n" "lh_block s = bl" "log_outstanding s = 1" "log_committing s = False" "klog.more s = z" "ram s = (\<lambda>_. 0)"
    unfolding s by (simp_all add: myproc_def)
qed

text \<open>A cache that holds one pinned block, and an empty cache.\<close>

definition ex_bufs :: "buf list" where
  "ex_bufs = (replicate NBUF ex_buf0)[0 := ex_buf0\<lparr>valid := True, bdev := 1, blockno := 100, refcnt := 1, bdata := replicate BSIZE 7\<rparr>]"

definition ex_log :: klog where
  "ex_log = ex_boot ex_bufs ex_disk0 1 (100 # replicate 29 0) ()"

lemma ex_bufs_nth: "i < NBUF \<Longrightarrow> ex_bufs ! i =
   (if i = 0 then ex_buf0\<lparr>valid := True, bdev := 1, blockno := 100, refcnt := 1, bdata := replicate BSIZE 7\<rparr> else ex_buf0)"
  by (cases "i = 0") (simp_all add: ex_bufs_def kconst)

lemma ex_bufs_length: "length ex_bufs = NBUF"
  by (simp add: ex_bufs_def)

lemma le_word_zero: "le_word (replicate k 0) = 0"
  by (induction k) auto

lemma ex_bufs_init: "i < length ex_bufs \<Longrightarrow> block (ex_bufs ! i) = initsleeplock"
proof -
  assume "i < length ex_bufs"
  then have "i < NBUF" by (simp add: ex_bufs_def)
  then show ?thesis using ex_bufs_nth[of i] by (simp add: ex_buf0_def)
qed

lemma ex_log_fields:
  "bufs ex_log = ex_bufs" "disk ex_log = ex_disk0" "dwrites ex_log = []" "myproc ex_log = proc0" "cur ex_log < length (procs ex_log)"
  "log_start ex_log = 2" "log_dev ex_log = 1" "lh_n ex_log = 1" "lh_block ex_log = 100 # replicate 29 0" "log_outstanding ex_log = 1"
  "log_committing ex_log = False" "lru_ok ex_log"
  unfolding ex_log_def by (rule ex_boot_fields, rule ex_bufs_init, assumption)+

lemma ex_log_ready: "log_ready ex_log"
proof -
  note f = ex_log_fields
  have set: "log_set ex_log = {100}" by (simp add: log_set_def f)
  have key: "bkey ex_log i b \<longleftrightarrow> i = 0 \<and> b = 100" for i b
    by (auto simp: bkey_def f ex_bufs_nth ex_buf0_def kconst split: if_splits)
  have "buf_ok (pid proc0) ex_disk0 {100} (ex_bufs ! i)" if "i < NBUF" for i
    using ex_bufs_nth[OF that] by (simp add: buf_ok_def ex_buf0_def initsleeplock_def BSIZE_def)
  then have "bwf {100} ex_log"
    unfolding bwf_def key using f(5) by (simp add: f ex_bufs_length) (simp add: ex_disk0_def)
  moreover have "held ex_log = {}" by (auto simp: held_def key f ex_bufs_nth ex_buf0_def initsleeplock_def kconst)
  moreover have "(100 :: u32) \<notin> log_area 2"
  proof
    assume "(100 :: u32) \<in> log_area 2"
    then obtain i where "i \<le> 30" "(100 :: u32) = 2 + of_nat i" by (auto simp: log_area_def)
    then have "(of_nat 98 :: u32) = of_nat i" by (simp add: algebra_simps)
    then show False using of_nat_word_inj[where 'a = 32, of 98 i] \<open>i \<le> 30\<close> by simp
  qed
  ultimately show ?thesis
    unfolding log_ready_def set by (simp add: f kconst ex_disk0_def head_n_def get32_def slice_def BSIZE_def le_word_zero)
qed

text \<open>A freshly booted state over any disk.\<close>

definition ex_reboot :: "(u32 \<Rightarrow> u8 list) \<Rightarrow> klog" where
  "ex_reboot d = ex_boot (replicate NBUF ex_buf0) d 0 (replicate 30 0) ()"

lemma ex_reboot_fields:
  "bufs (ex_reboot d) = replicate NBUF ex_buf0" "disk (ex_reboot d) = d" "myproc (ex_reboot d) = proc0"
  "cur (ex_reboot d) < length (procs (ex_reboot d))" "log_start (ex_reboot d) = 2" "log_dev (ex_reboot d) = 1"
  "lh_block (ex_reboot d) = replicate 30 0" "lru_ok (ex_reboot d)"
  unfolding ex_reboot_def by (rule ex_boot_fields, simp add: ex_buf0_def)+

lemma ex_reboot_ready:
  assumes "\<And>b. length (d b) = BSIZE"
  shows "recover_ready (ex_reboot d)"
proof -
  note f = ex_reboot_fields
  have key: "\<not> bkey (ex_reboot d) i b" for i b by (auto simp: bkey_def f ex_buf0_def)
  have "bwf {} (ex_reboot d)"
    unfolding bwf_def using key assms f(4) by (simp add: f buf_ok_def) (simp add: ex_buf0_def initsleeplock_def)
  then show ?thesis by (simp add: recover_ready_def held_def key f kconst)
qed

section \<open>Commit and crash\<close>

text \<open>The disk writes between two states, oldest first.\<close>

definition new_writes :: "'z klog_scheme \<Rightarrow> 'z klog_scheme \<Rightarrow> (u32 \<times> u8 list) list" where
  "new_writes s s' = rev (take (length (dwrites s') - length (dwrites s)) (dwrites s'))"

lemma new_writes_commit:
  assumes "log_ready s" "lh_n s > 0" "commit s = Ok s'"
  shows "new_writes s s' = commit_writes s"
  using commit_ok[OF assms(1,2)] assms(3) by (auto simp: new_writes_def)

lemma commit_writes_length: "length (disk s b) = BSIZE \<Longrightarrow> log_ready s \<Longrightarrow> length (apply_writes (take k (commit_writes s)) (disk s) b) = BSIZE"
proof -
  assume R: "log_ready s" and l: "length (disk s b) = BSIZE"
  note D = log_readyD[OF R]
  have h: "length (head_at (lh_n s) s) = BSIZE"
    unfolding head_at_def by (rule head_bytes_ok[OF D(1) less_imp_le[OF D(2)] view_length[OF D(4)]])
  have c: "length (snd w) = BSIZE" if "w \<in> set (commit_writes s)" for w
    using that view_length[OF D(4)] h head_bytes_ok(1)[of 0 "head_at (lh_n s) s"]
    by (auto simp: commit_writes_def log_writes_def home_writes_def)
  have "length (apply_writes ws d b) = BSIZE" if "length (d b) = BSIZE" "\<forall>w \<in> set ws. length (snd w) = BSIZE" for ws d
    using that by (induction ws arbitrary: d) (auto simp: fun_upd_def)
  from this[of "disk s" "take k (commit_writes s)", OF l] show ?thesis by (blast intro: c in_set_takeD)
qed

text \<open>C1: A transaction is atomic across crashes: if the machine stops after any number k of the disk writes
  of commit and restarts, recovery from the log returns and leaves every block outside the log area with its content
  from before the transaction when k is at most the number of logged blocks, and with its committed content
  otherwise.\<close>

theorem log_commit_crash_atomic:
  assumes "log_ready s" "lh_n s > 0" "commit s = Ok s'"
    and "recover_ready t" "log_start t = log_start s" "disk t = apply_writes (take k (new_writes s s')) (disk s)"
  shows "\<exists>t'. recover_from_log t = Ok t' \<and>
    (\<forall>b. b \<notin> log_area (log_start s) \<longrightarrow> disk t' b = (if k \<le> nat (lh_n s) then disk s b else view s b))"
proof -
  note R = assms(1) and D = log_readyD[OF assms(1)]
  have d: "disk t = apply_writes (take k (commit_writes s)) (disk s)"
    using assms(6) new_writes_commit[OF assms(1-3)] by simp
  have ne: "b \<noteq> log_start t" if "b \<notin> log_area (log_start s)" for b using that log_start_area assms(5) by metis
  consider "k \<le> log_len s" | "log_len s < k" "k \<le> 2 * log_len s + 1" | "2 * log_len s + 1 < k" by linarith
  then show ?thesis
  proof cases
    case 1
    note c = crash_before[OF R 1, folded d]
    from recover_ok[OF assms(4)] c(1) assms(5) obtain t' where "recover_from_log t = Ok t'"
      "\<forall>b. b \<noteq> log_start t \<longrightarrow> disk t' b = apply_writes (recover_disk (log_start t) (disk t)) (disk t) b" by auto
    then show ?thesis using 1 c ne assms(5) by (auto simp: recover_disk_def)
  next
    case 2
    note c = crash_between[OF R 2, folded d]
    have "head_block (disk t (log_start s)) i \<notin> log_area (log_start s)" if "int i < lh_n s" for i
      using c(2)[of i] D(10)[of i] D(11) that by auto
    then obtain t' where t': "recover_from_log t = Ok t'"
      "\<forall>b. b \<noteq> log_start t \<longrightarrow> disk t' b = apply_writes (home_writes s) (disk t) b"
      using recover_ok[OF assms(4)] c(1,3) D(2) assms(5) by auto
    have "disk t' b = view s b" if b: "b \<notin> log_area (log_start s)" for b
      using t'(2) ne[OF b] c(4)[OF b] ready_clean[OF R, of b] by (auto simp: apply_home[OF R])
    then show ?thesis using 2 t'(1) by auto
  next
    case 3
    note c = crash_after[OF R 3, folded d]
    from recover_ok[OF assms(4)] c(1) assms(5) obtain t' where "recover_from_log t = Ok t'"
      "\<forall>b. b \<noteq> log_start t \<longrightarrow> disk t' b = apply_writes (recover_disk (log_start t) (disk t)) (disk t) b" by auto
    then show ?thesis using 3 c ne assms(5) by (auto simp: recover_disk_def)
  qed
qed

lemma ex_log_home: "(100 :: u32) \<notin> log_area 2"
proof
  assume "(100 :: u32) \<in> log_area 2"
  then obtain i where "i \<le> 30" "(100 :: u32) = 2 + of_nat i" by (auto simp: log_area_def)
  then have "(of_nat 98 :: u32) = of_nat i" by (simp add: algebra_simps)
  then show False using of_nat_word_inj[where 'a = 32, of 98 i] \<open>i \<le> 30\<close> by simp
qed

lemma ex_log_view: "view ex_log 100 = replicate BSIZE 7"
proof -
  have "bkey ex_log 0 100" by (simp add: bkey_def ex_log_fields ex_bufs_nth kconst)
  from view_cached[OF log_readyD(4)[OF ex_log_ready] this] show ?thesis
    by (simp add: ex_log_fields ex_bufs_nth kconst)
qed

theorem log_commit_crash_atomic_witness:
  "\<exists>s' t'. commit ex_log = Ok s' \<and> recover_from_log (ex_reboot (apply_writes (take 2 (new_writes ex_log s')) ex_disk0)) = Ok t' \<and>
     disk t' 100 = replicate BSIZE 7 \<and> disk ex_log 100 = replicate BSIZE 0"
proof -
  have n: "lh_n ex_log > 0" by (simp add: ex_log_fields)
  obtain s' where s': "commit ex_log = Ok s'" using commit_ok[OF ex_log_ready n] by blast
  let ?d = "apply_writes (take 2 (new_writes ex_log s')) (disk ex_log)"
  have "recover_ready (ex_reboot ?d)"
    by (rule ex_reboot_ready)
      (use commit_writes_length[OF _ ex_log_ready] new_writes_commit[OF ex_log_ready n s'] in \<open>simp add: ex_log_fields ex_disk0_def\<close>)
  from log_commit_crash_atomic[OF ex_log_ready n s' this, of 2] obtain t' where
    "recover_from_log (ex_reboot ?d) = Ok t'" "disk t' 100 = view ex_log 100"
    using ex_log_home by (auto simp: ex_reboot_fields ex_log_fields)
  then show ?thesis using s' by (auto simp: ex_log_fields ex_disk0_def ex_log_view)
qed

section \<open>Admission\<close>

text \<open>No buffer operation touches the log.\<close>

lemma upd_buf_more [simp]: "kbio.more (upd_buf i f s) = kbio.more s"
  by (simp add: upd_buf_def)

lemma set_link_more [simp]: "kbio.more (set_bnext i j s) = kbio.more s" "kbio.more (set_bprev i j s) = kbio.more s"
  by (simp_all add: set_bnext_def set_bprev_def)

lemma bio_more [simp]:
  "kbio.more (link_front i s) = kbio.more s" "kbio.more (unlink_buf i s) = kbio.more s"
  "kbio.more (bpin i s) = kbio.more s" "kbio.more (bunpin i s) = kbio.more s" "kbio.more (set_data i xs s) = kbio.more s"
  by (simp_all add: link_front_def unlink_buf_def bpin_def bunpin_def set_data_def Let_def)

lemma virtio_disk_rw_more [simp]: "kbio.more (virtio_disk_rw i w s) = kbio.more s"
  by (cases w) (simp_all add: virtio_disk_rw_def Let_def)

lemma wakeup_more [simp]: "kbio.more (wakeup c s) = kbio.more s"
  by (cases s) (simp add: wakeup_def)

lemma lock_buf_more: "lock_buf i s = Ok (j, s') \<Longrightarrow> kbio.more s' = kbio.more s"
  by (auto simp: lock_buf_def bnd_Ok_iff)

lemma bget_more: "bget d b s = Ok (i, s') \<Longrightarrow> kbio.more s' = kbio.more s"
  unfolding bget_def by (auto simp: bnd_Ok_iff loop_res_Ok_iff split: option.splits dest!: lock_buf_more)

lemma bread_more: "bread d b s = Ok (i, s') \<Longrightarrow> kbio.more s' = kbio.more s"
  by (auto simp: bread_def bnd_Ok_iff dest: bget_more split: if_splits)

lemma bwrite_more: "bwrite i s = Ok s' \<Longrightarrow> kbio.more s' = kbio.more s"
  by (auto simp: bwrite_def panic_if_Ok_iff)

lemma brelse_more: "brelse i s = Ok s' \<Longrightarrow> kbio.more s' = kbio.more s"
  by (auto simp: brelse_def panic_if_Ok_iff releasesleep_def Let_def split: if_splits)

lemmas bio_moreD = bread_more bwrite_more brelse_more

lemma write_log_more: "write_log s = Ok s' \<Longrightarrow> kbio.more s' = kbio.more s"
proof -
  have one: "kbio.more u = kbio.more t" if "write_log_one i t = Ok u" for i and t u :: "'a klog_scheme"
    using that by (auto simp: write_log_one_def bnd_Ok_iff undef_if_Ok_iff dest!: bio_moreD)
  assume "write_log s = Ok s'"
  then show ?thesis unfolding write_log_def by (rule for_res_invariant[rotated 2, where I = "\<lambda>t. kbio.more t = kbio.more s"]) (auto dest: one)
qed

lemma install_trans_more: "install_trans r s = Ok s' \<Longrightarrow> kbio.more s' = kbio.more s"
proof -
  have one: "kbio.more u = kbio.more t" if "install_one r i t = Ok u" for i and t u :: "'a klog_scheme"
    using that by (auto simp: install_one_def bnd_Ok_iff undef_if_Ok_iff dest!: bio_moreD split: if_splits)
  assume "install_trans r s = Ok s'"
  then show ?thesis unfolding install_trans_def by (rule for_res_invariant[rotated 2, where I = "\<lambda>t. kbio.more t = kbio.more s"]) (auto dest: one)
qed

lemma write_head_more: "write_head s = Ok s' \<Longrightarrow> kbio.more s' = kbio.more s"
  by (auto simp: write_head_def bnd_Ok_iff undef_if_Ok_iff dest!: bio_moreD)

lemma log_fields_more:
  fixes s t :: "'z klog_scheme"
  assumes "kbio.more s = kbio.more t"
  shows "lh_n s = lh_n t" "log_outstanding s = log_outstanding t" "log_committing s = log_committing t" "lh_block s = lh_block t"
  using assms by (cases s; cases t; simp)+

lemma commit_empties:
  assumes "commit s = Ok s'" "0 \<le> lh_n s"
  shows "lh_n s' = 0" "log_outstanding s' = log_outstanding s"
proof -
  have "lh_n s' = 0 \<and> log_outstanding s' = log_outstanding s"
  proof (cases "lh_n s > 0")
    case False
    then show ?thesis using assms by (simp add: commit_def)
  next
    case True
    then obtain a b c where "write_log s = Ok a" "write_head a = Ok b" "install_trans False b = Ok c" "write_head (c\<lparr>lh_n := 0\<rparr>) = Ok s'"
      using assms(1) by (auto simp: commit_def bnd_Ok_iff)
    show ?thesis
      using log_fields_more[OF write_log_more[OF \<open>write_log s = Ok a\<close>]] log_fields_more[OF write_head_more[OF \<open>write_head a = Ok b\<close>]]
        log_fields_more[OF install_trans_more[OF \<open>install_trans False b = Ok c\<close>]]
        log_fields_more[OF write_head_more[OF \<open>write_head (c\<lparr>lh_n := 0\<rparr>) = Ok s'\<close>]] by simp
  qed
  then show "lh_n s' = 0" "log_outstanding s' = log_outstanding s" by auto
qed

text \<open>File-system calls in any interleaving: a call is admitted by \<open>begin_op\<close>, logs at most MAXOPBLOCKS blocks and
  ends; the list holds the blocks each open call may still log.\<close>

inductive trans_run :: "'z klog_scheme \<Rightarrow> nat list \<Rightarrow> bool" where
  Start: "lh_n s = 0 \<Longrightarrow> log_outstanding s = 0 \<Longrightarrow> trans_run s []"
| Begin: "trans_run s bs \<Longrightarrow> begin_op_try s = Some s' \<Longrightarrow> trans_run s' (MAXOPBLOCKS # bs)"
| Write: "trans_run s bs \<Longrightarrow> i < length bs \<Longrightarrow> 0 < bs ! i \<Longrightarrow> log_write b s = Ok s' \<Longrightarrow> trans_run s' (bs[i := bs ! i - 1])"
| End: "trans_run s (xs @ n # ys) \<Longrightarrow> end_op s = Ok s' \<Longrightarrow> trans_run s' (xs @ ys)"
| Other: "trans_run s bs \<Longrightarrow> kbio.more s' = kbio.more s \<Longrightarrow> trans_run s' bs"

lemma log_find_le: "0 \<le> lh_n s \<Longrightarrow> int i \<le> lh_n s \<Longrightarrow> int (log_find b i s) \<le> lh_n s"
  by (induction b i s rule: log_find.induct) (subst log_find.simps, auto)

lemma log_write_count:
  assumes "log_write b s = Ok s'"
  shows "lh_n s' = lh_n s \<or> lh_n s' = lh_n s + 1" "log_outstanding s' = log_outstanding s"
  using assms by (auto simp: log_write_def panic_if_Ok_iff Let_def bpin_def upd_buf_def split: if_splits)

lemma sum_list_dec: "i < length xs \<Longrightarrow> 0 < xs ! i \<Longrightarrow> Suc (sum_list (xs[i := xs ! i - 1])) = sum_list (xs :: nat list)"
  by (induction xs arbitrary: i) (auto split: nat.splits)

lemma sum_list_bounded: "\<forall>n \<in> set xs. n \<le> m \<Longrightarrow> sum_list xs \<le> length xs * (m :: nat)"
  by (induction xs) auto

lemma trans_run_budget:
  "trans_run s bs \<Longrightarrow> 0 \<le> lh_n s \<and> lh_n s + int (sum_list bs) \<le> int LOGBLOCKS \<and> log_outstanding s = int (length bs) \<and>
     (\<forall>n \<in> set bs. n \<le> MAXOPBLOCKS)"
proof (induction rule: trans_run.induct)
  case (Begin s bs s')
  have "sum_list bs \<le> length bs * MAXOPBLOCKS"
    using Begin.IH sum_list_bounded[of bs MAXOPBLOCKS] by simp
  then show ?case using Begin by (auto simp: begin_op_try_def kconst split: if_splits)
next
  case (Write s bs i b s')
  have "bs ! i - 1 \<le> MAXOPBLOCKS" using Write.IH nth_mem[OF Write.hyps(2)] by fastforce
  then show ?case using Write.IH log_write_count[OF Write.hyps(4)] sum_list_dec[OF Write.hyps(2,3)]
    by (auto dest!: set_update_subset_insert[THEN subsetD])
next
  case (End s xs n ys s')
  show ?case
  proof (cases "log_outstanding s = 1")
    case True
    then obtain t where t: "commit (s\<lparr>log_outstanding := 0, log_committing := True\<rparr>) = Ok t"
      "s' = wakeup ChanLog (t\<lparr>log_committing := False\<rparr>)"
      using End.hyps(2) by (auto simp: end_op_def Let_def panic_if_Ok_iff bnd_Ok_iff)
    then show ?thesis using commit_empties[OF t(1)] End.IH True by (auto simp: wakeup_def)
  next
    case False
    then have "s' = wakeup ChanLog (s\<lparr>log_outstanding := log_outstanding s - 1\<rparr>)"
      using End.hyps(2) by (auto simp: end_op_def Let_def panic_if_Ok_iff)
    then show ?thesis using End.IH by (auto simp: wakeup_def)
  qed
next
  case (Other s bs s')
  then show ?case using log_fields_more[of s' s] by simp
qed (auto simp: kconst)

text \<open>C26: Admission control is sufficient: in every interleaving of file-system calls that each log at most
  MAXOPBLOCKS blocks, the blocks in the log and those still to be logged fit the log together, and log_write by a
  call inside its budget returns with the block recorded inside the header's array.\<close>

theorem log_admission_sufficient:
  assumes "trans_run s bs" "i < length bs" "0 < bs ! i"
  shows "lh_n s + int (sum_list bs) \<le> int LOGBLOCKS \<and> (\<exists>s'. log_write b s = Ok s' \<and> log_outstanding s' = log_outstanding s \<and>
    (\<exists>j. int j \<le> lh_n s \<and> j < LOGBLOCKS \<and> lh_block s' = (lh_block s)[j := blockno (bufs s ! b)]))"
proof -
  note B = trans_run_budget[OF assms(1)]
  have "0 < sum_list bs" using sum_list_dec[OF assms(2,3)] by simp
  then have lt: "lh_n s < int LOGBLOCKS" using B by linarith
  have o: "\<not> log_outstanding s < 1" using B assms(2) by auto
  let ?j = "log_find (blockno (bufs s ! b)) 0 s"
  have j: "int ?j \<le> lh_n s" using B by (simp add: log_find_le)
  then have "?j < LOGBLOCKS" using lt by linarith
  moreover obtain s' where "log_write b s = Ok s'" "log_outstanding s' = log_outstanding s" "lh_block s' = (lh_block s)[?j := blockno (bufs s ! b)]"
    unfolding log_write_def Let_def using lt o by (auto simp: bpin_def upd_buf_def)
  ultimately show ?thesis using B j by blast
qed

theorem log_admission_sufficient_witness:
  "\<exists>s s' s''. begin_op_try (s :: klog) = Some s' \<and> trans_run s' [10] \<and> log_write 0 s' = Ok s''"
proof -
  let ?s = "ex_log\<lparr>lh_n := 0, log_outstanding := 0\<rparr>"
  let ?t = "?s\<lparr>log_outstanding := 1\<rparr>"
  have b: "begin_op_try ?s = Some ?t" by (simp add: begin_op_try_def ex_log_fields kconst)
  have "trans_run ?t [10]" using trans_run.Begin[OF trans_run.Start b] by (simp add: kconst)
  moreover from log_admission_sufficient[OF this, of 0 0] obtain u where "log_write 0 ?t = Ok u" by auto
  ultimately show ?thesis using b by blast
qed

section \<open>A full log\<close>

text \<open>The state of a transaction that fills the log: every logged block is pinned in the cache.\<close>

definition log_full :: "'z klog_scheme \<Rightarrow> bool" where
  "log_full s \<longleftrightarrow> lh_n s = int LOGBLOCKS \<and> length (lh_block s) = LOGBLOCKS \<and> distinct (lh_block s) \<and> log_dev s = 1 \<and>
     bwf (set (lh_block s)) s \<and> set (lh_block s) \<inter> log_area (log_start s) = {}"

lemma full_cache:
  assumes "log_full s" "i < NBUF"
  shows "refcnt (bufs s ! i) \<noteq> 0 \<and> blockno (bufs s ! i) \<in> set (lh_block s)"
proof -
  have W: "bwf (set (lh_block s)) s" and l: "distinct (lh_block s)" "length (lh_block s) = NBUF"
    using assms(1) by (auto simp: log_full_def kconst)
  define f where "f = (\<lambda>b. SOME i. bkey s i b)"
  have k: "bkey s (f b) b" if "b \<in> set (lh_block s)" for b
    unfolding f_def by (rule someI_ex, rule bwfD(7)[OF W that])
  have u: "b = c" if "bkey s j b" "bkey s j c" for j b c using that by (simp add: bkey_def)
  have "inj_on f (set (lh_block s))" by (rule inj_onI) (metis k u)
  then have "card (f ` set (lh_block s)) = NBUF" using l by (simp add: card_image distinct_card)
  moreover have "f ` set (lh_block s) \<subseteq> {..<NBUF}" using k by (auto simp: bkey_def)
  ultimately have "f ` set (lh_block s) = {..<NBUF}" by (simp add: card_subset_eq)
  moreover have "i \<in> {..<NBUF}" using assms(2) by simp
  ultimately obtain b where b: "b \<in> set (lh_block s)" "f b = i" by (metis imageE)
  then have i: "bkey s i b" using k by blast
  then have "buf_ok (pid (myproc s)) (disk s) (set (lh_block s)) (bufs s ! i)" using W assms(2) by (auto simp: bwf_def)
  then show ?thesis using i b(1) count2_zero[of "slocked (block (bufs s ! i))" True] by (auto simp: bkey_def buf_ok_def)
qed

text \<open>C35: A log filled to LOGBLOCKS blocks cannot be committed: NBUF equals LOGBLOCKS, so every buffer is pinned by a
  logged block, the first read of a log block finds no free buffer and commit panics before anything is written.\<close>

theorem full_log_commit_panics:
  assumes "log_full s"
  shows "commit s = Panic ''bget: no buffers''"
proof -
  note F = assms[unfolded log_full_def]
  obtain xs where xs: "ring (bnext s) (bprev s) xs" "set xs = {..<NBUF}" using F by (auto simp: bwf_def lru_ok_def)
  have a: "log_blk 0 s \<in> log_area (log_start s)" unfolding log_blk_def log_area_def
    by (rule image_eqI[of _ _ 1]) auto
  have "blockno (bufs s ! i) \<noteq> log_blk 0 s" if "i \<in> set xs" for i
    using full_cache[OF assms, of i] that xs(2) a F by auto
  then have "find (\<lambda>b. bdev (bufs s ! b) = 1 \<and> blockno (bufs s ! b) = log_blk 0 s) xs = None" by (auto simp: find_None_iff)
  moreover have "find (\<lambda>b. refcnt (bufs s ! b) = 0) (rev xs) = None" using full_cache[OF assms] xs(2) by (auto simp: find_None_iff)
  ultimately have "bread 1 (log_blk 0 s) s = Panic ''bget: no buffers''"
    using ring_scans[OF xs(1)] by (simp add: bread_def bget_def)
  then have "write_log_one 0 s = Panic ''bget: no buffers''" using F by (simp add: write_log_one_def kconst)
  moreover have "[0..<nat (lh_n s)] = 0 # [1..<30]" using F by (simp add: kconst upt_conv_Cons)
  ultimately have "write_log s = Panic ''bget: no buffers''" by (simp add: write_log_def)
  then show ?thesis using F by (simp add: commit_def kconst)
qed

definition ex_full :: klog where
  "ex_full = ex_boot (map (\<lambda>i. ex_buf0\<lparr>valid := True, bdev := 1, blockno := 100 + of_nat i, refcnt := 1, bdata := replicate BSIZE 7\<rparr>) [0..<30])
     ex_disk0 30 (map (\<lambda>i. 100 + of_nat i) [0..<30]) ()"

lemma ex_full_fields:
  "bufs ex_full = map (\<lambda>i. ex_buf0\<lparr>valid := True, bdev := 1, blockno := 100 + of_nat i, refcnt := 1, bdata := replicate BSIZE 7\<rparr>) [0..<30]"
  "disk ex_full = ex_disk0" "cur ex_full < length (procs ex_full)" "log_start ex_full = 2" "log_dev ex_full = 1" "lh_n ex_full = 30"
  "lh_block ex_full = map (\<lambda>i. 100 + of_nat i) [0..<30]" "lru_ok ex_full"
  unfolding ex_full_def by (rule ex_boot_fields, simp add: ex_buf0_def)+

lemma of_nat_u32_inj: "i < 4294967296 \<Longrightarrow> j < 4294967296 \<Longrightarrow> (of_nat i :: u32) = of_nat j \<longleftrightarrow> i = j"
  using of_nat_word_inj[where 'a = 32, of i j] by auto

lemma ex_full_full: "log_full ex_full"
proof -
  note f = ex_full_fields
  have key: "bkey ex_full i b \<longleftrightarrow> i < 30 \<and> b = 100 + of_nat i" for i b
    by (auto simp: bkey_def f kconst)
  have B: "bwf (set (lh_block ex_full)) ex_full"
    unfolding bwf_def key using f(3)
    by (simp add: f kconst ex_buf0_def buf_ok_def initsleeplock_def ex_disk0_def image_iff) (auto simp: of_nat_u32_inj)
  have "(100 :: u32) + of_nat i \<noteq> 2 + of_nat j" if "i < 30" "j \<le> 30" for i j
  proof
    assume "(100 :: u32) + of_nat i = 2 + of_nat j"
    then have "(of_nat (98 + i) :: u32) = of_nat j" by (simp add: algebra_simps)
    then show False using that by (simp add: of_nat_u32_inj del: of_nat_add)
  qed
  then have A: "set (lh_block ex_full) \<inter> log_area 2 = {}" by (auto simp: f log_area_def)
  have "distinct (lh_block ex_full)" by (simp add: f distinct_map inj_on_def of_nat_u32_inj)
  then show ?thesis unfolding log_full_def using A B by (simp add: f kconst)
qed

theorem full_log_commit_panics_witness: "log_full ex_full \<and> commit ex_full = Panic ''bget: no buffers''"
  using full_log_commit_panics[OF ex_full_full] ex_full_full by simp

end
