(* ===== verification/Fs_Props.thy ===== *)
theory Fs_Props
  imports Fs_Inode Log_Props
begin

text \<open>
  What the file system promises inside a transaction, over the content \<open>view s\<close> that the buffer cache presents: block
  allocation and freeing change the bitmap by one bit, an inode written by \<open>iupdate\<close> is the one \<open>ilock\<close> reads back, the
  bytes written by \<open>writei\<close> are the ones \<open>readi\<close> returns, and \<open>skipelem\<close> walks the elements of a path.
\<close>

section \<open>An example file system\<close>

text \<open>An empty cache over a disk of 50 blocks: the bitmap in block 40 marks the blocks below 45, the inodes begin in
  block 32, and inode 1 is an empty file whose first two blocks are 43 and 44.\<close>

definition ex_sb :: superblock where
  "ex_sb = \<lparr>sb_magic = 0x10203040, sb_size = 50, sb_nblocks = 9, sb_ninodes = 16, sb_nlog = 30, sb_logstart = 2,
     sb_inodestart = 32, sb_bmapstart = 40\<rparr>"

definition ex_inode :: inode where
  "ex_inode = \<lparr>idev = 1, inum = 1, iref = 1, ilk = initsleeplock, ivalid = False, itype = 2, imajor = 0, iminor = 0, inlink = 1,
     isize = 0, iaddrs = 43 # 44 # replicate 11 0\<rparr>"

definition ex_fdisk :: "u32 \<Rightarrow> u8 list" where
  "ex_fdisk b = (if b = 40 then replicate 5 255 @ 0x1F # replicate 1018 0 else replicate BSIZE 0)"

definition ex_fs :: kfs where
  "ex_fs = ex_boot (replicate NBUF ex_buf0) ex_fdisk 0 (replicate 30 0) \<lparr>sb = ex_sb, itable = [ex_inode]\<rparr>"

lemma ex_fs_fields:
  "bufs ex_fs = replicate NBUF ex_buf0" "disk ex_fs = ex_fdisk" "cur ex_fs < length (procs ex_fs)" "lh_n ex_fs = 0"
  "lh_block ex_fs = replicate 30 0" "log_outstanding ex_fs = 1" "lru_ok ex_fs"
  "klog.more ex_fs = \<lparr>sb = ex_sb, itable = [ex_inode]\<rparr>"
  unfolding ex_fs_def by (rule ex_boot_fields, simp add: ex_buf0_def)+

lemma kfs_more_sel: "klog.more (s :: kfs) = \<lparr>sb = q, itable = t\<rparr> \<Longrightarrow> sb s = q \<and> itable s = t"
  by (cases s) simp

lemma ex_fs_more: "sb ex_fs = ex_sb" "itable ex_fs = [ex_inode]"
  using kfs_more_sel[OF ex_fs_fields(8)] by simp_all

lemma ex_fs_view: "view ex_fs = ex_fdisk"
proof
  fix b show "view ex_fs b = ex_fdisk b"
    by (simp add: view_def ex_fs_fields ex_buf0_def find_None_iff split: option.split) (auto simp: find_Some_iff)
qed

lemma ex_fs_held: "held ex_fs = {}"
  by (auto simp: held_def bkey_def ex_fs_fields ex_buf0_def)

lemma ex_fdisk_length: "length (ex_fdisk b) = BSIZE"
  by (simp add: ex_fdisk_def BSIZE_def)

lemma ex_fs_tx: "k < NBUF \<Longrightarrow> tx k ex_fs"
proof -
  assume k: "k < NBUF"
  have l: "log_set ex_fs = {}" by (simp add: log_set_def ex_fs_fields)
  have key: "\<not> bkey ex_fs i b" for i b by (auto simp: bkey_def ex_fs_fields ex_buf0_def)
  have "bwf {} ex_fs"
    unfolding bwf_def using ex_fs_fields(3,7) key
    by (simp add: ex_fs_fields ex_fdisk_length buf_ok_def) (simp add: ex_buf0_def initsleeplock_def)
  then show ?thesis using k by (simp add: tx_def l ex_fs_held ex_fs_fields kconst)
qed

lemma ex_bitmap: "list_all (\<lambda>n. bmap_bit (replicate 5 255 @ 0x1F # replicate 1018 0) n = (n < 45)) [0..<50]"
  by code_simp

lemma ex_BBLOCK: "b < 50 \<Longrightarrow> BBLOCK b ex_sb = 40"
proof -
  assume "b < 50"
  then have "unat b div BPB = 0" by (simp add: word_less_nat_alt BPB_def BSIZE_def)
  then have "b div of_nat BPB = 0" by (metis unat_div_BPB unat_eq_zero)
  then show ?thesis by (simp add: BBLOCK_def ex_sb_def)
qed

lemma ex_used: "b < 50 \<Longrightarrow> used ex_sb ex_fdisk b \<longleftrightarrow> b < 45"
proof -
  assume b: "b < 50"
  then have n: "unat b < 50" by (simp add: word_less_nat_alt)
  then have m: "unat b mod BPB = unat b" by (simp add: BPB_def BSIZE_def)
  have "bmap_bit (replicate 5 255 @ 0x1F # replicate 1018 0) (unat b) = (unat b < 45)"
    using bspec[OF ex_bitmap[unfolded list_all_iff], of "unat b"] n by simp
  then show ?thesis by (simp add: used_def ex_BBLOCK[OF b] ex_fdisk_def m word_less_nat_alt)
qed

lemma ex_bitmap_ok: "bitmap_ok ex_sb ex_fdisk"
proof -
  have "sb_size ex_sb = 50" by (simp add: ex_sb_def)
  then show ?thesis by (simp add: bitmap_ok_def ex_BBLOCK ex_used)
qed

section \<open>Blocks\<close>

lemma used_other: "BBLOCK c q \<noteq> k \<Longrightarrow> used q (v(k := d)) c \<longleftrightarrow> used q v c"
  by (simp add: used_def)

text \<open>C20: In a transaction with room for three more buffers, on a disk whose bitmap marks the bitmap blocks themselves,
  \<open>balloc\<close> either returns 0, and then every block of the disk is in use and no content changed, or returns the first free
  block: afterwards the used blocks are the ones used before and that one, it contains zeros, and every other block
  outside the bitmap has its old content.\<close>

theorem balloc_first_free:
  assumes "tx 3 s" "bitmap_ok (sb s) (view s)" "\<forall>b < sb_size (sb s). BBLOCK b (sb s) \<notin> held s"
    "\<forall>b < sb_size (sb s). \<not> used (sb s) (view s) b \<longrightarrow> b \<notin> held s"
  shows "\<exists>b s'. balloc 1 s = Ok (b, s') \<and> held s' = held s \<and>
    (if b = 0 then (\<forall>c < sb_size (sb s). used (sb s) (view s) c) \<and> view s' = view s
     else b < sb_size (sb s) \<and> \<not> used (sb s) (view s) b \<and> (\<forall>c < b. used (sb s) (view s) c) \<and> view s' b = replicate BSIZE 0 \<and>
       (\<forall>c < sb_size (sb s). used (sb s) (view s') c \<longleftrightarrow> c = b \<or> used (sb s) (view s) c) \<and>
       (\<forall>c. c \<noteq> b \<longrightarrow> c \<noteq> BBLOCK b (sb s) \<longrightarrow> view s' c = view s c))"
proof -
  let ?v = "view s"
  obtain b s' where r: "balloc 1 s = Ok (b, s')" and P: "balloc_post s b s'" using balloc_ok[of s] assms by blast
  show ?thesis
  proof (cases "b = 0")
    case True
    then show ?thesis using r P by (auto simp: balloc_post_def tx_step_def)
  next
    case False
    let ?u = "?v(BBLOCK b (sb s) := mark_bit (unat b mod BPB) (?v (BBLOCK b (sb s))))"
    have b: "b < sb_size (sb s)" "\<not> used (sb s) ?v b" "\<forall>c < b. used (sb s) ?v c" and st: "tx_step (?u(b := replicate BSIZE 0)) 2 s s'"
      using P False by (simp_all add: balloc_post_def)
    have l: "length (?v (BBLOCK b (sb s))) = BSIZE" using assms(1) view_length[of "log_set s" s] by (simp add: tx_def)
    have "used (sb s) (view s') c \<longleftrightarrow> c = b \<or> used (sb s) ?v c" if "c < sb_size (sb s)" for c
    proof -
      have "BBLOCK c (sb s) \<noteq> b" using assms(2) b(2) that by (auto simp: bitmap_ok_def)
      then show ?thesis using used_set_bit[where v = ?v and q = "sb s" and b = b, OF l, of c] tx_stepD(2)[OF st] by (simp add: used_other del: fun_upd_apply)
    qed
    then show ?thesis using r b False tx_stepD(2,3)[OF st] by (intro exI[of _ b] exI[of _ s']) simp
  qed
qed

theorem balloc_first_free_witness:
  "\<exists>s'. balloc 1 ex_fs = Ok (45, s') \<and> view s' 45 = replicate BSIZE 0 \<and> used ex_sb (view s') 45 \<and> \<not> used ex_sb (view s') 46"
proof -
  have z: "sb_size ex_sb = 50" by (simp add: ex_sb_def)
  obtain b s' where r: "balloc 1 ex_fs = Ok (b, s')" and P: "if b = 0 then (\<forall>c < 50. used ex_sb ex_fdisk c) \<and> view s' = ex_fdisk
     else b < 50 \<and> \<not> used ex_sb ex_fdisk b \<and> (\<forall>c < b. used ex_sb ex_fdisk c) \<and> view s' b = replicate BSIZE 0 \<and>
       (\<forall>c < 50. used ex_sb (view s') c \<longleftrightarrow> c = b \<or> used ex_sb ex_fdisk c)"
    using balloc_first_free[of ex_fs] ex_fs_tx[of 3] ex_bitmap_ok by (auto simp: ex_fs_more ex_fs_view ex_fs_held z kconst split: if_splits)
  have ne: "\<not> used ex_sb ex_fdisk 45" "\<not> used ex_sb ex_fdisk 46" by (simp_all add: ex_used)
  have b0: "b \<noteq> 0" using P ne by (auto split: if_splits)
  have "\<not> b < 45" using P b0 by (auto simp: ex_used)
  moreover have "\<not> 45 < b" using P b0 ne by auto
  ultimately have "b = 45" by simp
  then show ?thesis using r P ne by simp
qed

text \<open>C33: Freeing a block clears its bit and no other bit of the bitmap, and freeing a block that is not in use is a
  panic.\<close>

theorem bfree_exact:
  assumes "tx 2 s" "BBLOCK b (sb s) \<notin> held s"
  shows "if used (sb s) (view s) b
    then \<exists>s'. bfree 1 b s = Ok s' \<and> tx 1 s' \<and> (\<forall>c. used (sb s) (view s') c \<longleftrightarrow> c \<noteq> b \<and> used (sb s) (view s) c) \<and>
      (\<forall>c. c \<noteq> BBLOCK b (sb s) \<longrightarrow> view s' c = view s c)
    else bfree 1 b s = Panic ''freeing free block''"
proof (cases "used (sb s) (view s) b")
  case True
  let ?v = "view s"
  obtain s' where r: "bfree 1 b s = Ok s'" and
    st: "tx_step (?v(BBLOCK b (sb s) := unmark_bit (unat b mod BPB) (?v (BBLOCK b (sb s))))) 1 s s'"
    using bfree_ok[OF assms] True by auto
  have l: "length (?v (BBLOCK b (sb s))) = BSIZE" using assms(1) view_length[of "log_set s" s] by (simp add: tx_def)
  have "used (sb s) (view s') c \<longleftrightarrow> c \<noteq> b \<and> used (sb s) ?v c" for c
    using used_clear_bit[where v = ?v and q = "sb s" and b = b, OF l, of c] tx_stepD(2)[OF st] by simp
  moreover have "tx 1 s'" using tx_stepD(6)[OF st, of 1] assms(1) by (simp add: numeral_2_eq_2)
  ultimately show ?thesis using True r tx_stepD(2)[OF st] by (auto intro!: exI[of _ s'])
qed (use bfree_ok[OF assms] in simp)

theorem bfree_exact_witness:
  "(\<exists>s'. bfree 1 44 ex_fs = Ok s' \<and> \<not> used ex_sb (view s') 44 \<and> used ex_sb (view s') 43) \<and>
   bfree 1 46 ex_fs = Panic ''freeing free block''"
  using bfree_exact[of ex_fs 44] bfree_exact[of ex_fs 46] ex_fs_tx[of 2]
  by (auto simp: ex_fs_more ex_fs_view ex_fs_held ex_used kconst)

section \<open>Inodes\<close>

text \<open>C28: After \<open>iupdate\<close>, an entry of the inode table for the same inode number whose content is not yet read gets exactly
  the type, numbers, link count, size and block addresses that were written, when \<open>ilock\<close> reads it; and the inodes of
  every other number, in the same block or not, are unchanged on disk.\<close>

theorem iupdate_ilock_roundtrip:
  assumes "tx 2 s" "idev (ino i s) = 1" "length (iaddrs (ino i s)) = 13" "itype (ino i s) \<noteq> 0"
    "IBLOCK (inum (ino i s)) (sb s) \<notin> held s"
    "j < length (itable s)" "1 \<le> iref (ino j s)" "\<not> slocked (ilk (ino j s))" "\<not> ivalid (ino j s)" "idev (ino j s) = 1" "inum (ino j s) = inum (ino i s)"
  shows "\<exists>s1 s2. iupdate i s = Ok s1 \<and> ilock j s1 = Ok s2 \<and> same_dinode (ino j s2) (ino i s) \<and> ivalid (ino j s2) \<and>
    (\<forall>m ip. m \<noteq> inum (ino i s) \<longrightarrow> dinode_at (sb s) (view s1) m ip = dinode_at (sb s) (view s) m ip)"
proof -
  let ?n = "inum (ino i s)" and ?v = "view s"
  obtain s1 where u: "iupdate i s = Ok s1" and
    st: "tx_step (?v(IBLOCK ?n (sb s) := store_dinode (ino i s) (dinode_off ?n) (?v (IBLOCK ?n (sb s))))) 1 s s1"
    using iupdate_ok[OF assms(1-3,5)] by blast
  note S = tx_stepD[OF st] and F = tframe_fs[OF tx_stepD(1)[OF st]]
  have l: "length (?v (IBLOCK ?n (sb s))) = BSIZE" using assms(1) view_length[of "log_set s" s] by (simp add: tx_def)
  note D = dinode_at_store[where v = ?v and n = ?n and q = "sb s", OF l assms(3), folded S(2)]
  have t: "tx 1 s1" using S(6)[of 1] assms(1) by (simp add: numeral_2_eq_2)
  have ty: "itype (dinode_at (sb s1) (view s1) (inum (ino j s1)) (ino j s1)) \<noteq> 0"
    using D(1)[of "ino j s"] F assms(4,11) by (simp add: same_dinode_def)
  have "\<exists>s2. ilock j s1 = Ok s2 \<and> view s2 = view s1 \<and> held s2 = held s1 \<and>
    same_dinode (ino j s2) (dinode_at (sb s1) (view s1) (inum (ino j s1)) (ino j s1)) \<and> ivalid (ino j s2) \<and> slocked (ilk (ino j s2))"
    using ilock_reads[OF t, of j] F S(3) assms(5-11) ty by simp
  then obtain s2 where k: "ilock j s1 = Ok s2" "same_dinode (ino j s2) (dinode_at (sb s) (view s1) ?n (ino j s))" "ivalid (ino j s2)"
    using F assms(11) by auto
  have "same_dinode (ino j s2) (ino i s)" using k(2) D(1)[of "ino j s"] by (simp add: same_dinode_def)
  then show ?thesis using u k D(2) by blast
qed

theorem iupdate_ilock_roundtrip_witness:
  "\<exists>s1 s2. iupdate 0 ex_fs = Ok s1 \<and> ilock 0 s1 = Ok s2 \<and> iaddrs (ino 0 s2) = 43 # 44 # replicate 11 0"
proof -
  have i: "ino 0 ex_fs = ex_inode" "length (itable ex_fs) = 1" by (simp_all add: ex_fs_more)
  show ?thesis
    using iupdate_ilock_roundtrip[of ex_fs 0 0] ex_fs_tx[of 2] by (auto simp: i ex_fs_held ex_inode_def initsleeplock_def kconst same_dinode_def)
qed

section \<open>File content\<close>

text \<open>C3: Writing \<open>n\<close> bytes at an offset inside a file whose blocks are allocated returns \<open>n\<close>, grows the file to the end
  of the write and no further, and a later \<open>readi\<close> of the same range returns the bytes written; the bytes before the
  range and every block outside the file and its inode's block keep their content.\<close>

theorem writei_readi_roundtrip:
  assumes "write_ready s i (unat off) (unat n)" "unat n = length bs" "length buf = length bs"
  shows "\<exists>s1 s2. writei i (Local bs) off n s = Ok (int (length bs), s1) \<and>
    unat (isize (ino i s1)) = max (unat (isize (ino i s))) (unat off + length bs) \<and>
    readi i (Local buf) off n s1 = Ok (int (length bs), Local bs, s2) \<and> view s2 = view s1 \<and>
    (\<forall>p < unat off. content (view s1) (ino i s1) p = content (view s) (ino i s) p) \<and>
    (\<forall>b. b \<noteq> IBLOCK (inum (ino i s)) (sb s) \<longrightarrow> (\<forall>p < unat off + length bs. b \<noteq> fblk (view s) (ino i s) (p div BSIZE)) \<longrightarrow>
       view s1 b = view s b)"
proof -
  let ?e = "unat off + length bs"
  obtain s1 where w: "writei i (Local bs) off n s = Ok (int (length bs), s1)" and P: "write_post s i (unat off) bs s1"
    using writei_ok[OF assms(1), of bs] assms(2) by auto
  then have t: "tx 1 s1" and m: "mapped s1 i ?e" and sz: "unat (isize (ino i s1)) = max (unat (isize (ino i s))) ?e"
    and ct: "\<And>p. p < ?e \<Longrightarrow> content (view s1) (ino i s1) p = (if unat off \<le> p then bs ! (p - unat off) else content (view s) (ino i s) p)"
    and fr: "\<forall>b. b \<noteq> IBLOCK (inum (ino i s)) (sb s) \<longrightarrow> (\<forall>p < ?e. b \<noteq> fblk (view s) (ino i s) (p div BSIZE)) \<longrightarrow> view s1 b = view s b"
    by (auto simp: write_post_def)
  have max: "?e < 2 ^ 32" using m by (simp add: mapped_def kconst)
  have mn: "length bs = min (unat n) (unat (isize (ino i s1)) - unat off)" using sz assms(2) by simp
  have le: "off \<le> isize (ino i s1)" using sz by (simp add: word_le_nat_alt)
  have "map (content (view s1) (ino i s1)) [unat off..<?e] = bs" using ct by (intro nth_equalityI) simp_all
  then obtain s2 where "readi i (Local buf) off n s1 = Ok (int (length bs), Local (blit 0 bs buf), s2)" "tx_step (view s1) 0 s1 s2"
    using readi_ok[OF t m le _ mn, of buf] max assms(2,3) by auto
  then have "readi i (Local buf) off n s1 = Ok (int (length bs), Local bs, s2)" "view s2 = view s1"
    using assms(3) tx_stepD(2) by (simp_all add: blit_def)
  moreover have "\<forall>p < unat off. content (view s1) (ino i s1) p = content (view s) (ino i s) p" using ct by simp
  ultimately show ?thesis using w sz fr by blast
qed

theorem writei_readi_roundtrip_witness:
  "\<exists>s1 s2. writei 0 (Local [7, 8, 9]) 0 3 ex_fs = Ok (3, s1) \<and> readi 0 (Local [0, 0, 0]) 0 3 s1 = Ok (3, Local [7, 8, 9], s2)"
proof -
  have i: "ino 0 ex_fs = ex_inode" "length (itable ex_fs) = 1" by (simp_all add: ex_fs_more)
  have b: "fblk ex_fdisk ex_inode (p div BSIZE) = 43" if "p < 3" for p
    using that by (simp add: fblk_def ex_inode_def kconst)
  have k: "IBLOCK 1 ex_sb = 32" by (simp add: IBLOCK_def ex_sb_def IPB_def BSIZE_def DINODE_SIZE_def)
  have c: "chunks 0 3 = 1" by (simp add: chunks_def BSIZE_def)
  have "inum ex_inode = 1" "iaddrs ex_inode ! NDIRECT = 0" "length (iaddrs ex_inode) = 13" "idev ex_inode = 1" by (simp_all add: ex_inode_def kconst)
  then have "write_ready ex_fs 0 0 3"
    using ex_fs_tx[of 5] b by (simp add: write_ready_def mapped_def fblks_ok_def i ex_fs_view ex_fs_held ex_fs_more k c) (simp add: kconst)
  then show ?thesis using writei_readi_roundtrip[of ex_fs 0 0 3 "[7, 8, 9]" "[0, 0, 0]"] by auto
qed

section \<open>Path names\<close>

text \<open>The names that repeated \<open>skipelem\<close> leaves in its buffer, each up to its terminating zero, and the elements of a path
  by splitting it at every slash.\<close>

function path_names :: "u8 list \<Rightarrow> u8 list \<Rightarrow> u8 list list" where
  "path_names pth name = (case skipelem pth name of None \<Rightarrow> [] | Some (pth', name') \<Rightarrow> takeWhile (\<lambda>c. c \<noteq> 0) name' # path_names pth' name')"
  by pat_completeness auto
termination by (relation "measure (\<lambda>(pth, name). length pth)") (auto dest: skipelem_shorter)

declare path_names.simps [simp del]

fun split_slash :: "u8 list \<Rightarrow> u8 list list" where
  "split_slash [] = [[]]"
| "split_slash (c # cs) = (if c = slash then [] # split_slash cs else (c # hd (split_slash cs)) # tl (split_slash cs))"

abbreviation elements :: "u8 list \<Rightarrow> u8 list list" where
  "elements pth \<equiv> filter (\<lambda>e. e \<noteq> []) (split_slash pth)"

lemma split_slash_ne: "split_slash p \<noteq> []"
  by (cases p) auto

lemma elements_skip: "elements (dropWhile (\<lambda>c. c = slash) p) = elements p"
  by (induction p) auto

lemma split_slash_take: "split_slash p = takeWhile (\<lambda>c. c \<noteq> slash) p #
   (case dropWhile (\<lambda>c. c \<noteq> slash) p of [] \<Rightarrow> [] | _ # q \<Rightarrow> split_slash q)"
  by (induction p) auto

lemma elements_take:
  assumes "p \<noteq> []" "hd p \<noteq> slash"
  shows "elements p = takeWhile (\<lambda>c. c \<noteq> slash) p # elements (dropWhile (\<lambda>c. c \<noteq> slash) p)"
proof (cases "dropWhile (\<lambda>c. c \<noteq> slash) p")
  case Nil
  then have "split_slash p = [takeWhile (\<lambda>c. c \<noteq> slash) p]" using split_slash_take[of p] by (simp only: list.case)
  then show ?thesis unfolding Nil using assms by (cases p) auto
next
  case (Cons c q)
  then have "c = slash" by (metis (mono_tags) hd_dropWhile list.distinct(1) list.sel(1))
  then have "split_slash p = takeWhile (\<lambda>c. c \<noteq> slash) p # split_slash q" "elements (c # q) = elements q"
    using Cons split_slash_take[of p] by simp_all
  then show ?thesis unfolding Cons using assms by (cases p) auto
qed

lemma skipelem_name:
  assumes "length name = DIRSIZ" "0 \<notin> set e"
  defines "name' \<equiv> (if length e \<ge> DIRSIZ then blit 0 (take DIRSIZ e) name else blit 0 (e @ [0]) name)"
  shows "length name' = DIRSIZ" "takeWhile (\<lambda>c. c \<noteq> 0) name' = take DIRSIZ e"
proof -
  have n: "takeWhile (\<lambda>c. c \<noteq> 0) e = e" using assms(2) by (auto simp: takeWhile_eq_all_conv)
  have "takeWhile (\<lambda>c. c \<noteq> 0) (take DIRSIZ e) = take DIRSIZ e"
    using assms(2) by (auto simp: takeWhile_eq_all_conv dest: in_set_takeD)
  then show "length name' = DIRSIZ" "takeWhile (\<lambda>c. c \<noteq> 0) name' = take DIRSIZ e"
    using assms by (auto simp: name'_def blit_def)
qed

text \<open>C32: The names that repeated \<open>skipelem\<close> produces are the non-empty elements of the path between slashes, in order,
  each cut to its first 14 bytes.\<close>

theorem skipelem_elements:
  assumes "length name = DIRSIZ" "0 \<notin> set pth"
  shows "path_names pth name = map (take DIRSIZ) (elements pth)"
  using assms
proof (induction pth name rule: path_names.induct)
  case (1 pth name)
  let ?p = "dropWhile (\<lambda>c. c = slash) pth"
  show ?case
  proof (cases "?p = []")
    case True
    then have "elements pth = []" unfolding elements_skip[of pth, symmetric] by (simp only: split_slash.simps filter.simps simp_thms if_False)
    then show ?thesis using True by (simp add: path_names.simps[of pth] skipelem_def del: dropWhile_eq_Nil_conv)
  next
    case False
    let ?e = "takeWhile (\<lambda>c. c \<noteq> slash) ?p" and ?q = "dropWhile (\<lambda>c. c \<noteq> slash) ?p"
    have h: "hd ?p \<noteq> slash" using hd_dropWhile[OF False] .
    have z: "0 \<notin> set ?e" "0 \<notin> set (dropWhile (\<lambda>c. c = slash) ?q)"
      using 1(3) by (auto dest: set_takeWhileD set_dropWhileD)
    note N = skipelem_name[OF 1(2) z(1)]
    let ?n = "if length ?e \<ge> DIRSIZ then blit 0 (take DIRSIZ ?e) name else blit 0 (?e @ [0]) name"
    have k: "skipelem pth name = Some (dropWhile (\<lambda>c. c = slash) ?q, ?n)" using False by (simp add: skipelem_def Let_def)
    have "path_names (dropWhile (\<lambda>c. c = slash) ?q) ?n = map (take DIRSIZ) (elements (dropWhile (\<lambda>c. c = slash) ?q))"
      by (rule 1(1)[OF k refl N(1) z(2)])
    then have "path_names pth name = take DIRSIZ ?e # map (take DIRSIZ) (elements ?q)"
      using N(2) by (simp add: path_names.simps[of pth] k elements_skip)
    also have "\<dots> = map (take DIRSIZ) (elements ?p)" using elements_take[OF False h] by simp
    finally show ?thesis by (simp add: elements_skip)
  qed
qed

theorem skipelem_elements_witness: "path_names [47, 97, 47, 47, 98, 98, 47] (replicate 14 0) = [[97], [98, 98]]"
  using skipelem_elements[of "replicate 14 0" "[47, 97, 47, 47, 98, 98, 47]"] by (simp add: slash_def DIRSIZ_def)

end
