(* ===== verification/Grep.thy ===== *)
theory Grep
  imports Prelude
begin

text \<open>
  The pattern matcher and the line loop of \<^verbatim>\<open>user/grep.c\<close>. Patterns and texts are the contents of C strings, up to the
  terminating null character; \<open>*text == '\0'\<close> is the empty list. The file descriptor is an argument: \<open>rd n f\<close> is what a read
  of at most \<open>n\<close> bytes returns in the state \<open>f\<close> of the open file, empty at the end of the file or on an error.
\<close>

section \<open>The matcher\<close>

abbreviation (input) NL :: char where "NL \<equiv> CHR 0x0A"
abbreviation (input) NUL :: char where "NUL \<equiv> CHR 0x00"

function matchhere :: "string \<Rightarrow> string \<Rightarrow> bool" and matchstar :: "char \<Rightarrow> string \<Rightarrow> string \<Rightarrow> bool" where
  "matchhere re s =
     (case re of
        [] \<Rightarrow> True
      | c # re1 \<Rightarrow>
          if re1 \<noteq> [] \<and> hd re1 = CHR ''*'' then matchstar c (tl re1) s
          else if c = CHR ''$'' \<and> re1 = [] then s = []
          else if s \<noteq> [] \<and> (c = CHR ''.'' \<or> c = hd s) then matchhere re1 (tl s)
          else False)"
| "matchstar c re s =
     (if matchhere re s then True
      else if s \<noteq> [] \<and> (hd s = c \<or> c = CHR ''.'') then matchstar c re (tl s)
      else False)"
  by pat_completeness auto
termination
  by (relation "measures [\<lambda>x. case x of Inl (re, t) \<Rightarrow> 2 * length re | Inr (c, re, t) \<Rightarrow> 2 * length re + 1,
       \<lambda>x. case x of Inl (re, t) \<Rightarrow> length t | Inr (c, re, t) \<Rightarrow> length t]") (auto simp: neq_Nil_conv)

declare matchhere.simps [simp del] matchstar.simps [simp del]

primrec match_from :: "string \<Rightarrow> string \<Rightarrow> bool" where
  "match_from re [] = matchhere re []"
| "match_from re (t # ts) = (if matchhere re (t # ts) then True else match_from re ts)"

definition match :: "string \<Rightarrow> string \<Rightarrow> bool" where
  "match re s = (if re \<noteq> [] \<and> hd re = CHR ''^'' then matchhere (tl re) s else match_from re s)"

section \<open>What a pattern means\<close>

datatype re_item = One char | Star char

fun re_items :: "string \<Rightarrow> re_item list \<times> bool" where
  "re_items [] = ([], False)"
| "re_items [c] = (if c = CHR ''$'' then ([], True) else ([One c], False))"
| "re_items (c # d # re) = (if d = CHR ''*'' then apfst ((#) (Star c)) (re_items re) else apfst ((#) (One c)) (re_items (d # re)))"

definition char_fits :: "char \<Rightarrow> char \<Rightarrow> bool" where
  "char_fits c t \<longleftrightarrow> c = CHR ''.'' \<or> t = c"

fun item_lang :: "re_item \<Rightarrow> string set" where
  "item_lang (One c) = {[t] | t. char_fits c t}"
| "item_lang (Star c) = {ts. \<forall>t \<in> set ts. char_fits c t}"

primrec re_lang :: "re_item list \<Rightarrow> string set" where
  "re_lang [] = {[]}"
| "re_lang (i # is) = {u @ v | u v. u \<in> item_lang i \<and> v \<in> re_lang is}"

definition at_start :: "re_item list \<times> bool \<Rightarrow> string \<Rightarrow> bool" where
  "at_start p s \<longleftrightarrow> (\<exists>u v. s = u @ v \<and> u \<in> re_lang (fst p) \<and> (snd p \<longrightarrow> v = []))"

lemma at_start_Nil: "at_start ([], e) s \<longleftrightarrow> (e \<longrightarrow> s = [])"
  by (auto simp: at_start_def)

lemma at_start_Cons: "at_start (i # is, e) s \<longleftrightarrow> (\<exists>u v. s = u @ v \<and> u \<in> item_lang i \<and> at_start (is, e) v)"
proof
  assume "at_start (i # is, e) s"
  then obtain x v where x: "s = x @ v" "x \<in> re_lang (i # is)" "e \<longrightarrow> v = []" unfolding at_start_def by auto
  then obtain r u where "x = r @ u" "r \<in> item_lang i" "u \<in> re_lang is" by auto
  with x have "s = r @ (u @ v) \<and> r \<in> item_lang i \<and> at_start (is, e) (u @ v)" unfolding at_start_def by auto
  then show "\<exists>u v. s = u @ v \<and> u \<in> item_lang i \<and> at_start (is, e) v" by blast
next
  assume "\<exists>u v. s = u @ v \<and> u \<in> item_lang i \<and> at_start (is, e) v"
  then obtain r u v where "s = r @ u @ v" "r \<in> item_lang i" "u \<in> re_lang is" "e \<longrightarrow> v = []" unfolding at_start_def by auto
  then have "s = (r @ u) @ v \<and> r @ u \<in> re_lang (i # is) \<and> (e \<longrightarrow> v = [])" by auto
  then show "at_start (i # is, e) s" unfolding at_start_def fst_conv snd_conv by blast
qed

lemma at_start_One: "at_start (apfst ((#) (One c)) p) s \<longleftrightarrow> (\<exists>t ts. s = t # ts \<and> char_fits c t \<and> at_start p ts)"
proof -
  have "(\<exists>u v. s = u @ v \<and> (\<exists>t. u = [t] \<and> char_fits c t) \<and> Q v) \<longleftrightarrow> (\<exists>t ts. s = [t] @ ts \<and> char_fits c t \<and> Q ts)" for Q
    by blast
  then show ?thesis by (cases p) (simp add: at_start_Cons)
qed

lemma at_start_Star:
  "at_start (apfst ((#) (Star c)) p) s \<longleftrightarrow> (\<exists>u v. s = u @ v \<and> (\<forall>t \<in> set u. char_fits c t) \<and> at_start p v)"
  by (cases p) (auto simp: at_start_Cons)

lemma matchhere_Nil: "matchhere [] s"
  by (subst matchhere.simps) simp

lemma matchhere_last: "matchhere [c] s = (if c = CHR ''$'' then s = [] else \<exists>t ts. s = t # ts \<and> char_fits c t)"
  by (subst matchhere.simps) (auto simp: matchhere_Nil char_fits_def neq_Nil_conv)

lemma matchhere_Star: "matchhere (c # CHR ''*'' # re) s = matchstar c re s"
  by (subst matchhere.simps) simp

lemma matchhere_One: "d \<noteq> CHR ''*'' \<Longrightarrow> matchhere (c # d # re) s = (\<exists>t ts. s = t # ts \<and> char_fits c t \<and> matchhere (d # re) ts)"
  by (subst matchhere.simps) (auto simp: char_fits_def neq_Nil_conv)

lemma star_step:
  "(\<exists>u v. s = u @ v \<and> (\<forall>t \<in> set u. char_fits c t) \<and> Q v) \<longleftrightarrow>
   Q s \<or> (\<exists>t ts. s = t # ts \<and> char_fits c t \<and> (\<exists>u v. ts = u @ v \<and> (\<forall>t \<in> set u. char_fits c t) \<and> Q v))"
proof
  assume "\<exists>u v. s = u @ v \<and> (\<forall>t \<in> set u. char_fits c t) \<and> Q v"
  then obtain u v where "s = u @ v" "\<forall>t \<in> set u. char_fits c t" "Q v" by blast
  then show "Q s \<or> (\<exists>t ts. s = t # ts \<and> char_fits c t \<and> (\<exists>u v. ts = u @ v \<and> (\<forall>t \<in> set u. char_fits c t) \<and> Q v))" by (cases u) auto
next
  assume "Q s \<or> (\<exists>t ts. s = t # ts \<and> char_fits c t \<and> (\<exists>u v. ts = u @ v \<and> (\<forall>t \<in> set u. char_fits c t) \<and> Q v))"
  then show "\<exists>u v. s = u @ v \<and> (\<forall>t \<in> set u. char_fits c t) \<and> Q v"
  proof
    assume "Q s"
    then show ?thesis by (intro exI[of _ "[]"] exI[of _ s]) simp
  next
    assume "\<exists>t ts. s = t # ts \<and> char_fits c t \<and> (\<exists>u v. ts = u @ v \<and> (\<forall>t \<in> set u. char_fits c t) \<and> Q v)"
    then obtain t u v where "s = (t # u) @ v" "\<forall>t \<in> set (t # u). char_fits c t" "Q v" by auto
    then show ?thesis by blast
  qed
qed

lemma matchhere_at_start:
  "matchhere re s \<longleftrightarrow> at_start (re_items re) s"
  "matchstar c re' s' \<longleftrightarrow> (\<exists>u v. s' = u @ v \<and> (\<forall>t \<in> set u. char_fits c t) \<and> at_start (re_items re') v)"
proof (induction re s and c re' s' rule: matchhere_matchstar.induct)
  case (1 re s)
  consider "re = []" | c where "re = [c]" | c d re1 where "re = c # d # re1" by (metis list.exhaust)
  then show ?case
  proof cases
    case 1
    then show ?thesis by (simp add: matchhere_Nil at_start_Nil)
  next
    case 2
    then show ?thesis using at_start_One[of c "([], False)" s] by (auto simp: matchhere_last at_start_Nil)
  next
    case 3
    show ?thesis
    proof (cases "d = CHR ''*''")
      case True
      then show ?thesis using "1.IH"(1)[OF 3] 3 by (simp add: matchhere_Star at_start_Star)
    next
      case False
      then have "matchhere (d # re1) (tl s) = at_start (re_items (d # re1)) (tl s)" if "s \<noteq> []" "char_fits c (hd s)"
        using "1.IH"(2)[OF 3] that by (auto simp: char_fits_def)
      then have "\<And>t ts. s = t # ts \<Longrightarrow> char_fits c t \<Longrightarrow> matchhere (d # re1) ts = at_start (re_items (d # re1)) ts" by auto
      then show ?thesis using False 3 by (auto simp: matchhere_One at_start_One)
    qed
  qed
next
  case (2 c re s)
  show ?case
  proof (cases s)
    case Nil
    then show ?thesis using 2 by (subst star_step, subst matchstar.simps) simp
  next
    case (Cons t ts)
    have e: "matchhere re s = at_start (re_items re) s" by (rule "2.IH"(1))
    have "matchstar c re ts \<longleftrightarrow> (\<exists>u v. ts = u @ v \<and> (\<forall>t \<in> set u. char_fits c t) \<and> at_start (re_items re) v)"
      if "\<not> at_start (re_items re) s" "char_fits c t" using "2.IH"(2) that Cons e by (auto simp: char_fits_def)
    then have "matchstar c re s \<longleftrightarrow> at_start (re_items re) s \<or> char_fits c t \<and> (\<exists>u v. ts = u @ v \<and> (\<forall>t \<in> set u. char_fits c t) \<and> at_start (re_items re) v)"
      using Cons e by (subst matchstar.simps) (auto simp: char_fits_def)
    then show ?thesis using Cons by (subst star_step) simp
  qed
qed

lemma match_from_at_start: "match_from re s \<longleftrightarrow> (\<exists>pre s'. s = pre @ s' \<and> at_start (re_items re) s')"
proof (induction s)
  case (Cons t ts)
  have "(\<exists>pre s'. t # ts = pre @ s' \<and> at_start (re_items re) s') \<longleftrightarrow> at_start (re_items re) (t # ts) \<or> (\<exists>pre s'. ts = pre @ s' \<and> at_start (re_items re) s')"
    by (metis append_Cons append_Nil append_eq_Cons_conv)
  then show ?case using Cons by (simp add: matchhere_at_start)
qed (simp add: matchhere_at_start)

text \<open>C19: The matcher decides exactly what patterns mean. \<open>match re s\<close> holds iff the text contains a part \<open>mid\<close> in the language of the
  pattern's items (a character, any character for \<^verbatim>\<open>.\<close>, any repetition of one for \<^verbatim>\<open>*\<close>), at the beginning of the text when the pattern starts
  with \<^verbatim>\<open>^\<close> and at its end when the pattern ends with \<^verbatim>\<open>$\<close>. In particular the greedy-free backtracking of \<open>matchstar\<close> misses no match and both
  recursions end.\<close>

theorem match_equals_language:
  "match re s \<longleftrightarrow>
     (let anchored = (re \<noteq> [] \<and> hd re = CHR ''^''); p = re_items (if anchored then tl re else re) in
      \<exists>pre mid post. s = pre @ mid @ post \<and> mid \<in> re_lang (fst p) \<and> (if anchored then pre = [] else True) \<and> (if snd p then post = [] else True))"
  by (auto simp: match_def match_from_at_start matchhere_at_start at_start_def Let_def)

section \<open>The lines\<close>

text \<open>The inner loop over \<open>p\<close>, the unread part of the buffer: what it writes and where it leaves \<open>p\<close>. \<open>strchr\<close> stops at a null character.\<close>

function grep_scan :: "string \<Rightarrow> string \<Rightarrow> string \<times> string" where
  "grep_scan pattern p =
     (let w = takeWhile (\<lambda>c. c \<noteq> NL \<and> c \<noteq> NUL) p; q = dropWhile (\<lambda>c. c \<noteq> NL \<and> c \<noteq> NUL) p in
      if q \<noteq> [] \<and> hd q = NL
      then let (out, r) = grep_scan pattern (tl q) in ((if match pattern w then w @ [NL] else []) @ out, r)
      else ([], p))"
  by pat_completeness auto
termination
proof (relation "measure (\<lambda>(pattern, p). length p)")
  fix pattern p w q :: string
  assume "q = dropWhile (\<lambda>c. c \<noteq> NL \<and> c \<noteq> NUL) p" "q \<noteq> [] \<and> hd q = NL"
  then have "length (tl q) < length q" "length q \<le> length p" by (simp, simp add: length_dropWhile_le)
  then show "((pattern, tl q), pattern, p) \<in> measure (\<lambda>(pattern, p). length p)" by simp
qed simp

declare grep_scan.simps [simp del]

text \<open>The outer loop; \<open>out\<close> is what has been written. It may go on for ever on an endless file.\<close>

partial_function (option) grep_loop :: "(nat \<Rightarrow> 'f \<Rightarrow> string \<times> 'f) \<Rightarrow> string \<Rightarrow> string \<Rightarrow> 'f \<Rightarrow> string \<Rightarrow> (string \<times> 'f) option" where
  "grep_loop rd pattern buf f out =
     (let (ch, f) = rd (1024 - length buf - 1) f in
      if ch \<noteq> [] then let (o1, r) = grep_scan pattern (buf @ ch) in grep_loop rd pattern r f (out @ o1)
      else Some (out, f))"

definition grep :: "(nat \<Rightarrow> 'f \<Rightarrow> string \<times> 'f) \<Rightarrow> string \<Rightarrow> 'f \<Rightarrow> (string \<times> 'f) option" where
  "grep rd pattern f = grep_loop rd pattern [] f []"

subsection \<open>Chunks do not matter\<close>

lemma grep_scan_line:
  assumes "NL \<notin> set l" "NUL \<notin> set l"
  shows "grep_scan pattern (l @ NL # p) = ((if match pattern l then l @ [NL] else []) @ fst (grep_scan pattern p), snd (grep_scan pattern p))"
proof -
  let ?P = "\<lambda>c. c \<noteq> NL \<and> c \<noteq> NUL"
  have "takeWhile ?P (l @ NL # p) = l" "dropWhile ?P (l @ NL # p) = NL # p" using assms by (induction l) auto
  then show ?thesis by (subst grep_scan.simps) (simp add: case_prod_beta)
qed

lemma grep_scan_none: "NL \<notin> set p \<Longrightarrow> grep_scan pattern p = ([], p)"
proof -
  assume "NL \<notin> set p"
  then have "\<not> (dropWhile (\<lambda>c. c \<noteq> NL \<and> c \<noteq> NUL) p \<noteq> [] \<and> hd (dropWhile (\<lambda>c. c \<noteq> NL \<and> c \<noteq> NUL) p) = NL)"
    using hd_in_set[of "dropWhile (\<lambda>c. c \<noteq> NL \<and> c \<noteq> NUL) p"] set_dropWhileD[of NL "\<lambda>c. c \<noteq> NL \<and> c \<noteq> NUL" p] by metis
  then show ?thesis unfolding grep_scan.simps[of pattern p] Let_def by (rule if_not_P)
qed

primrec unlines :: "string list \<Rightarrow> string" where
  "unlines [] = []"
| "unlines (l # ls) = l @ NL # unlines ls"

lemma unlines_null: "NUL \<notin> set (unlines ls) \<longleftrightarrow> (\<forall>l \<in> set ls. NUL \<notin> set l)"
  by (induction ls) auto

lemma grep_scan_lines:
  assumes "\<forall>l \<in> set ls. NL \<notin> set l \<and> NUL \<notin> set l" "NL \<notin> set r"
  shows "grep_scan pattern (unlines ls @ r) = (unlines (filter (match pattern) ls), r)"
  using assms(1)
  by (induction ls) (auto simp: grep_scan_none[OF assms(2)] grep_scan_line)

text \<open>Every text is some complete lines and a rest.\<close>

lemma lines_exist: "\<exists>ls r. p = unlines ls @ r \<and> (\<forall>l \<in> set ls. NL \<notin> set l) \<and> NL \<notin> set r"
proof (induction "length p" arbitrary: p rule: less_induct)
  case less
  show ?case
  proof (cases "NL \<in> set p")
    case False
    then show ?thesis by (intro exI[of _ "[]"] exI[of _ p]) simp
  next
    case True
    then obtain l q where p: "p = l @ NL # q" "NL \<notin> set l" using split_list_first by metis
    then obtain ls r where "q = unlines ls @ r" "\<forall>l \<in> set ls. NL \<notin> set l" "NL \<notin> set r" using less[of q] by auto
    then show ?thesis using p by (intro exI[of _ "l # ls"] exI[of _ r]) simp
  qed
qed

lemma grep_scan_chunk:
  assumes "NUL \<notin> set x"
  shows "grep_scan pattern (x @ y) =
    (fst (grep_scan pattern x) @ fst (grep_scan pattern (snd (grep_scan pattern x) @ y)), snd (grep_scan pattern (snd (grep_scan pattern x) @ y)))"
proof -
  obtain ls r where x: "x = unlines ls @ r" "\<forall>l \<in> set ls. NL \<notin> set l" "NL \<notin> set r" using lines_exist by blast
  have n: "\<forall>l \<in> set ls. NL \<notin> set l \<and> NUL \<notin> set l" using x(1,2) assms by (auto simp: unlines_null)
  then have "grep_scan pattern (unlines ls @ z) = (unlines (filter (match pattern) ls) @ fst (grep_scan pattern z), snd (grep_scan pattern z))" for z
    by (induction ls) (auto simp: grep_scan_line)
  from this[of "r @ y"] show ?thesis using grep_scan_lines[OF n x(3)] x(1) by simp
qed

text \<open>A file with the given content: a read takes some of it, at least a byte if one is left and one is asked for.\<close>

definition reads :: "(nat \<Rightarrow> string \<Rightarrow> string \<times> string) \<Rightarrow> bool" where
  "reads rd \<longleftrightarrow> (\<forall>n f. \<exists>k \<le> n. rd n f = (take k f, drop k f) \<and> (n > 0 \<and> f \<noteq> [] \<longrightarrow> k > 0))"

text \<open>No line of the text is longer than the buffer allows, \<open>n\<close> characters of the current one being there already.\<close>

primrec short_from :: "nat \<Rightarrow> string \<Rightarrow> bool" where
  "short_from n [] = True"
| "short_from n (c # s) = (if c = NL then short_from 0 s else n < 1022 \<and> short_from (Suc n) s)"

lemma short_from_line: "short_from n (l @ NL # s) \<Longrightarrow> short_from 0 s"
  by (induction l arbitrary: n) (auto split: if_splits)

lemma short_from_unlines: "short_from 0 (unlines ls @ s) \<Longrightarrow> short_from 0 s"
  by (induction ls) (auto dest: short_from_line)

lemma short_from_length: "short_from n (r @ s) \<Longrightarrow> NL \<notin> set r \<Longrightarrow> n \<le> 1022 \<Longrightarrow> n + length r \<le> 1022"
proof (induction r arbitrary: n)
  case (Cons c r)
  then show ?case using Cons.IH[of "Suc n"] by (auto split: if_splits)
qed simp

lemma short_fromI: "n + length l \<le> 1022 \<Longrightarrow> short_from 0 s \<Longrightarrow> short_from n (l @ NL # s)"
  by (induction l arbitrary: n) auto

lemma short_from_rest: "n + length r \<le> 1022 \<Longrightarrow> short_from n r"
  by (induction r arbitrary: n) auto

lemma short_lines: "\<forall>l \<in> set ls. length l \<le> 1022 \<Longrightarrow> length r \<le> 1022 \<Longrightarrow> short_from 0 (unlines ls @ r)"
  by (induction ls) (auto intro: short_fromI short_from_rest)

lemma grep_loop_scan:
  assumes rd: "reads rd" and s: "short_from 0 (buf @ f)" "NL \<notin> set buf" "NUL \<notin> set (buf @ f)"
  shows "grep_loop rd pattern buf f out = Some (out @ fst (grep_scan pattern (buf @ f)), [])"
  using s
proof (induction "length f" arbitrary: buf f out rule: less_induct)
  case less
  have b: "length buf \<le> 1022" using short_from_length[OF less(2,3)] by simp
  obtain k where k: "rd (1024 - length buf - 1) f = (take k f, drop k f)" "f \<noteq> [] \<longrightarrow> k > 0" using rd[unfolded reads_def, rule_format, of "1024 - length buf - 1" f] b by auto
  show ?case
  proof (cases "f = []")
    case True
    then show ?thesis using k less(3) by (subst grep_loop.simps) (simp add: grep_scan_none)
  next
    case False
    let ?c = "take k f"
    have c: "?c \<noteq> []" "length (drop k f) < length f" "f = ?c @ drop k f" using k(2) False by auto
    obtain ls r where x: "buf @ ?c = unlines ls @ r" "\<forall>l \<in> set ls. NL \<notin> set l" "NL \<notin> set r" using lines_exist by blast
    have n: "NUL \<notin> set (buf @ ?c)" using less(4) set_take_subset[of k f] by auto
    then have "\<forall>l \<in> set ls. NL \<notin> set l \<and> NUL \<notin> set l" "NUL \<notin> set r" using x(1,2) unlines_null[of ls] by auto
    then have g: "grep_scan pattern (buf @ ?c) = (unlines (filter (match pattern) ls), r)" using grep_scan_lines x(1,3) by simp
    have e: "buf @ f = unlines ls @ (r @ drop k f)" using x(1) c(3) by (metis append.assoc)
    have "short_from 0 (r @ drop k f)" using less(2) unfolding e by (rule short_from_unlines)
    moreover have "NUL \<notin> set (r @ drop k f)" using less(4) unfolding e by simp
    ultimately have "grep_loop rd pattern r (drop k f) (out @ unlines (filter (match pattern) ls)) =
        Some ((out @ unlines (filter (match pattern) ls)) @ fst (grep_scan pattern (r @ drop k f)), [])"
      using less(1)[OF c(2)] x(3) by blast
    moreover have "fst (grep_scan pattern (buf @ f)) = unlines (filter (match pattern) ls) @ fst (grep_scan pattern (r @ drop k f))"
      using grep_scan_chunk[OF n, of pattern "drop k f"] g c(3) by simp
    ultimately show ?thesis using k(1) g c(1) by (subst grep_loop.simps) simp
  qed
qed

text \<open>C25: \<open>grep\<close> returns and prints exactly the matching lines. For a file of null-free lines that fit the buffer, followed by a last
  part without a newline, however the reads cut it into pieces, the loop reaches the end of the file and has written the lines that
  match, whole and in order; the part after the last newline is never printed.\<close>

theorem grep_prints_matching_lines:
  assumes "reads rd" "\<forall>l \<in> set (r # ls). NL \<notin> set l \<and> NUL \<notin> set l \<and> length l \<le> 1022"
  shows "grep rd pattern (unlines ls @ r) = Some (unlines (filter (match pattern) ls), [])"
proof -
  have "short_from 0 ([] @ (unlines ls @ r))" using short_lines assms(2) by auto
  moreover have "NUL \<notin> set ([] @ (unlines ls @ r))" using assms(2) unlines_null[of ls] by auto
  ultimately have "grep_loop rd pattern [] (unlines ls @ r) [] = Some ([] @ fst (grep_scan pattern ([] @ (unlines ls @ r))), [])"
    using grep_loop_scan[OF assms(1)] by simp
  moreover have "grep_scan pattern (unlines ls @ r) = (unlines (filter (match pattern) ls), r)" using assms(2) by (intro grep_scan_lines) auto
  ultimately show ?thesis by (simp add: grep_def)
qed

text \<open>A file that is read five bytes at a time.\<close>

definition ex_rd :: "nat \<Rightarrow> string \<Rightarrow> string \<times> string" where
  "ex_rd n f = (take (min n 5) f, drop (min n 5) f)"

lemma ex_rd_reads: "reads ex_rd"
proof -
  have "\<exists>k \<le> n. ex_rd n f = (take k f, drop k f) \<and> (n > 0 \<and> f \<noteq> [] \<longrightarrow> k > 0)" for n f
    by (rule exI[of _ "min n 5"]) (simp add: ex_rd_def)
  then show ?thesis by (simp add: reads_def)
qed

theorem grep_prints_matching_lines_witness:
  "grep ex_rd ''^a.*c$'' (unlines [''abc'', ''xabc'', ''ac''] @ ''aac'') = Some (unlines [''abc'', ''ac''], [])"
proof -
  have "\<forall>l \<in> set (''aac'' # [''abc'', ''xabc'', ''ac'']). NL \<notin> set l \<and> NUL \<notin> set l \<and> length l \<le> 1022" by simp
  note g = grep_prints_matching_lines[OF ex_rd_reads this, of "''^a.*c$''"]
  have "match ''^a.*c$'' ''abc''" "\<not> match ''^a.*c$'' ''xabc''" "match ''^a.*c$'' ''ac''" by code_simp+
  then show ?thesis using g by simp
qed

end
