(* ===== verification/Console.thy ===== *)
theory Console
  imports Fs
begin

text \<open>
  Output and input of the kernel: \<^verbatim>\<open>kernel/uart.c\<close>, \<^verbatim>\<open>kernel/console.c\<close>, \<^verbatim>\<open>kernel/printf.c\<close> with its ring of
  logged messages, and \<^verbatim>\<open>procdump\<close> of \<^verbatim>\<open>kernel/proc.c\<close>.

  \<open>uart_tx\<close> is the sequence of bytes written to the transmit register. The waits for the transmitter end when
  it is idle: \<open>uartputc_sync\<close> polls it, and a sleeping \<open>uartwrite\<close> is woken by the transmit interrupt, whose effect is
  \<open>uart_done\<close>. What the device presents to \<open>uartintr\<close> (transmitter idle, the bytes received) is its argument. A
  variadic argument is a number or a string; formatting with an argument that is not there is undefined.
\<close>

section \<open>State\<close>

record kcons = kfs +
  cons_buf :: "u8 list"
  cons_r :: u32
  cons_w :: u32
  cons_e :: u32
  tx_busy :: bool
  uart_tx :: "u8 list"
  lk_buf :: "u8 list"
  lk_r :: int
  lk_w :: int

definition INPUT_BUF_SIZE :: nat where "INPUT_BUF_SIZE = 128"
definition BACKSPACE :: u32 where "BACKSPACE = 0x100"

definition ch :: "char \<Rightarrow> u8" where
  "ch c = of_char c"

definition bytes_of :: "string \<Rightarrow> u8 list" where
  "bytes_of cs = map ch cs"

text \<open>What a call that may sleep came to: it returned, or it sleeps on a channel after handling some bytes.\<close>

datatype io = Ret int | Wait chan int

definition sleep_on :: "chan \<Rightarrow> 'z ktask_scheme \<Rightarrow> 'z ktask_scheme" where
  "sleep_on c s = s\<lparr>procs := sleep_tbl (cur s) c (procs s)\<rparr>"

section \<open>The UART\<close>

definition uartputc_sync :: "u8 \<Rightarrow> 'z kcons_scheme \<Rightarrow> 'z kcons_scheme" where
  "uartputc_sync c s = s\<lparr>uart_tx := uart_tx s @ [c]\<rparr>"

definition uart_done :: "'z kcons_scheme \<Rightarrow> 'z kcons_scheme" where
  "uart_done s = wakeup ChanUart (s\<lparr>tx_busy := False\<rparr>)"

primrec uartwrite :: "u8 list \<Rightarrow> 'z kcons_scheme \<Rightarrow> 'z kcons_scheme" where
  "uartwrite [] s = s"
| "uartwrite (c # cs) s =
     (let s = (if tx_busy s then uart_done s else s) in uartwrite cs (s\<lparr>uart_tx := uart_tx s @ [c], tx_busy := True\<rparr>))"

section \<open>Messages\<close>

definition consputc :: "u32 \<Rightarrow> 'z kcons_scheme \<Rightarrow> 'z kcons_scheme" where
  "consputc c s =
     (if c = BACKSPACE then uartputc_sync 8 (uartputc_sync 32 (uartputc_sync 8 s)) else uartputc_sync (ucast c) s)"

text \<open>The indices are C integers; the increment of \<^verbatim>\<open>logkeeper.w\<close> overflows after 2147483647 characters.\<close>

definition lk_put :: "u8 \<Rightarrow> 'z kcons_scheme \<Rightarrow> 'z kcons_scheme" where
  "lk_put c s = s\<lparr>lk_buf := (lk_buf s)[nat (lk_w s mod int LOG_BUF_SIZE) := c], lk_w := lk_w s + 1\<rparr>"

definition putc_log :: "u8 \<Rightarrow> 'z kcons_scheme \<Rightarrow> 'z kcons_scheme res" where
  "putc_log c s =
     undef_if (lk_w s < 0 \<or> lk_w s + 1 \<ge> 2 ^ 31) (
     let s = lk_put c s
     in Ok (if lk_w s - lk_r s > int LOG_BUF_SIZE then s\<lparr>lk_r := lk_w s - int LOG_BUF_SIZE\<rparr> else s))"

definition putc_both :: "u8 \<Rightarrow> 'z kcons_scheme \<Rightarrow> 'z kcons_scheme res" where
  "putc_both c s = putc_log c (consputc (ucast c) s)"

definition digits :: "u8 list" where
  "digits = bytes_of ''0123456789abcdef''"

text \<open>\<^verbatim>\<open>do { buf[i++] = digits[x % base]; } while((x /= base) != 0);\<close> The quotient is smaller than the number for
  the bases in use, 10 and 16.\<close>

function digit_loop :: "nat \<Rightarrow> nat \<Rightarrow> u8 list" where
  "digit_loop base x =
     digits ! (x mod base) # (if x div base \<noteq> 0 \<and> x div base < x then digit_loop base (x div base) else [])"
  by pat_completeness auto
termination by (relation "measure (\<lambda>(b, x). x)") auto

declare digit_loop.simps [simp del]

definition int_chars :: "u64 \<Rightarrow> nat \<Rightarrow> bool \<Rightarrow> u8 list res" where
  "int_chars xx base sg =
     (let neg = (sg \<and> sint xx < 0) in
      undef_if (neg \<and> sint xx = - (2 ^ 63)) (
      let x = (if neg then - xx else xx);
          buf = digit_loop base (unat x) @ (if neg then [ch CHR ''-''] else [])
      in undef_if (length buf > 20) (Ok (rev buf))))"

definition printint :: "u64 \<Rightarrow> nat \<Rightarrow> bool \<Rightarrow> 'z kcons_scheme \<Rightarrow> 'z kcons_scheme res" where
  "printint xx base sg s = bnd (int_chars xx base sg) (\<lambda>cs. for_res cs putc_both s)"

definition printptr :: "u64 \<Rightarrow> 'z kcons_scheme \<Rightarrow> 'z kcons_scheme res" where
  "printptr x s =
     for_res (bytes_of ''0x'' @ map (\<lambda>i. digits ! unat (drop_bit 60 (push_bit (4 * i) x))) [0..<16]) putc_both s"

datatype varg = Num u64 | Str "u8 list"

text \<open>\<^verbatim>\<open>va_arg\<close> with a number and with a string; the null pointer prints as \<^verbatim>\<open>(null)\<close>.\<close>

definition va_num :: "varg list \<Rightarrow> (u64 \<times> varg list) res" where
  "va_num ap = (case ap of Num x # ap \<Rightarrow> Ok (x, ap) | _ \<Rightarrow> Undef)"

definition va_str :: "varg list \<Rightarrow> (u8 list \<times> varg list) res" where
  "va_str ap = (case ap of Str x # ap \<Rightarrow> Ok (x, ap) | Num x # ap \<Rightarrow> if x = 0 then Ok (bytes_of ''(null)'', ap) else Undef | [] \<Rightarrow> Undef)"

definition sext32 :: "u64 \<Rightarrow> u64" where "sext32 x = scast (ucast x :: u32)"
definition zext32 :: "u64 \<Rightarrow> u64" where "zext32 x = ucast (ucast x :: u32)"

text \<open>One conversion: the characters after \<open>%\<close>, the arguments; the result is the number of characters the conversion
  takes, the arguments left and the new state, or nothing at the end of the format.\<close>

definition print_conv :: "u8 list \<Rightarrow> varg list \<Rightarrow> 'z kcons_scheme \<Rightarrow> (nat \<times> varg list \<times> 'z kcons_scheme) option res" where
  "print_conv fmt ap s =
     (let c0 = hd0 fmt;
          c1 = (if c0 \<noteq> 0 then hd0 (drop 1 fmt) else 0);
          c2 = (if c1 \<noteq> 0 then hd0 (drop 2 fmt) else 0);
          num = (\<lambda>ext base sg k. bnd (va_num ap) (\<lambda>(x, ap). bnd (printint (ext x) base sg s) (\<lambda>s. Ok (Some (k, ap, s)))))
      in
      if c0 = ch CHR ''d'' then num sext32 10 True 1
      else if c0 = ch CHR ''l'' \<and> c1 = ch CHR ''d'' then num id 10 True 2
      else if c0 = ch CHR ''l'' \<and> c1 = ch CHR ''l'' \<and> c2 = ch CHR ''d'' then num id 10 True 3
      else if c0 = ch CHR ''u'' then num zext32 10 False 1
      else if c0 = ch CHR ''l'' \<and> c1 = ch CHR ''u'' then num id 10 False 2
      else if c0 = ch CHR ''l'' \<and> c1 = ch CHR ''l'' \<and> c2 = ch CHR ''u'' then num id 10 False 3
      else if c0 = ch CHR ''x'' then num zext32 16 False 1
      else if c0 = ch CHR ''l'' \<and> c1 = ch CHR ''x'' then num id 16 False 2
      else if c0 = ch CHR ''l'' \<and> c1 = ch CHR ''l'' \<and> c2 = ch CHR ''x'' then num id 16 False 3
      else if c0 = ch CHR ''p'' then bnd (va_num ap) (\<lambda>(x, ap). bnd (printptr x s) (\<lambda>s. Ok (Some (1, ap, s))))
      else if c0 = ch CHR ''c'' then
        bnd (va_num ap) (\<lambda>(x, ap).
        let s = consputc (ucast x) s in
        bnd (va_num ap) (\<lambda>(x, ap). bnd (putc_log (ucast x) s) (\<lambda>s. Ok (Some (1, ap, s)))))
      else if c0 = ch CHR ''s'' then bnd (va_str ap) (\<lambda>(x, ap). bnd (for_res x putc_both s) (\<lambda>s. Ok (Some (1, ap, s))))
      else if c0 = ch CHR ''%'' then bnd (putc_both (ch CHR ''%'') s) (\<lambda>s. Ok (Some (1, ap, s)))
      else if c0 = 0 then Ok None
      else bnd (putc_both (ch CHR ''%'') s) (\<lambda>s. bnd (putc_both c0 s) (\<lambda>s. Ok (Some (1, ap, s)))))"

function print_loop :: "u8 list \<Rightarrow> varg list \<Rightarrow> 'z kcons_scheme \<Rightarrow> 'z kcons_scheme res" where
  "print_loop fmt ap s =
     (case fmt of
        [] \<Rightarrow> Ok s
      | cx # rest \<Rightarrow>
          if cx = 0 then Ok s
          else if cx \<noteq> ch CHR ''%'' then bnd (putc_both cx s) (\<lambda>s. print_loop rest ap s)
          else bnd (print_conv rest ap s) (\<lambda>r. case r of
            None \<Rightarrow> Ok s
          | Some (k, ap, s) \<Rightarrow> print_loop (drop k rest) ap s))"
  by pat_completeness auto
termination by (relation "measure (\<lambda>(fmt, ap, s). length fmt)") auto

declare print_loop.simps [simp del]

definition printf :: "string \<Rightarrow> varg list \<Rightarrow> 'z kcons_scheme \<Rightarrow> 'z kcons_scheme res" where
  "printf fmt ap s = print_loop (bytes_of fmt) ap s"

definition logprintf :: "string \<Rightarrow> varg list \<Rightarrow> 'z kcons_scheme \<Rightarrow> 'z kcons_scheme res" where
  "logprintf fmt ap s = bnd (print_loop (bytes_of fmt) ap (consputc 1 s)) (\<lambda>s. Ok (consputc 2 s))"

definition printfinit :: "'z kcons_scheme \<Rightarrow> 'z kcons_scheme" where
  "printfinit s = s\<lparr>lk_r := 0, lk_w := 0\<rparr>"

text \<open>\<^verbatim>\<open>readsyslog(dist, maxlen)\<close>.\<close>

definition lk_next :: "'z kcons_scheme \<Rightarrow> 'z kcons_scheme" where
  "lk_next s = s\<lparr>lk_r := lk_r s + 1\<rparr>"

function readsyslog_loop :: "addr \<Rightarrow> int \<Rightarrow> int \<Rightarrow> 'z kcons_scheme \<Rightarrow> (int \<times> 'z kcons_scheme) res" where
  "readsyslog_loop dist maxlen n s =
     (if n < maxlen \<and> lk_r s < lk_w s then
        let c = lk_buf s ! nat (lk_r s mod int LOG_BUF_SIZE) in
        bnd (copyout_bytes (pagetable (myproc s)) (dist + of_int n) [c] (psz (myproc s)) s) (\<lambda>(r, s).
        if r < 0 then Ok (- 1, s)
        else readsyslog_loop dist maxlen (n + 1) (lk_next s))
      else Ok (n, s))"
  by pat_completeness auto
termination by (relation "measure (\<lambda>(d, m, n, s). nat (m - n))") auto

declare readsyslog_loop.simps [simp del]

definition readsyslog :: "addr \<Rightarrow> int \<Rightarrow> 'z kcons_scheme \<Rightarrow> (int \<times> 'z kcons_scheme) res" where
  "readsyslog dist maxlen s = readsyslog_loop dist maxlen 0 s"

definition state_name :: "procstate \<Rightarrow> string" where
  "state_name st = (case st of UNUSED \<Rightarrow> ''unused'' | USED \<Rightarrow> ''used'' | SLEEPING \<Rightarrow> ''sleep '' | RUNNABLE \<Rightarrow> ''runble''
     | RUNNING \<Rightarrow> ''run   '' | ZOMBIE \<Rightarrow> ''zombie'')"

definition procdump :: "'z kcons_scheme \<Rightarrow> 'z kcons_scheme res" where
  "procdump s =
     bnd (printf [CHR 10] [] s) (for_res [0..<length (procs s)] (\<lambda>i s.
       let p = procs s ! i in
       if pstate p = UNUSED then Ok s
       else bnd (printf ''%d %s %s pri=%d wait=%d cpu=%d''
              [Num (of_int (pid p)), Str (bytes_of (state_name (pstate p))), Str (takeWhile (\<lambda>c. c \<noteq> 0) (pname p)),
               Num (of_int (priority p)), Num (of_int (wait_ticks p)), Num (of_int (cpu_ticks p))] s)
            (printf [CHR 10] [])))"

section \<open>The console\<close>

function consolewrite_loop :: "iobuf \<Rightarrow> int \<Rightarrow> int \<Rightarrow> 'z kcons_scheme \<Rightarrow> (int \<times> 'z kcons_scheme) res" where
  "consolewrite_loop src n i s =
     (if i < n then
        let nn = (if 32 > n - i then n - i else 32) in
        bnd (either_copyin src (nat i) (nat nn) s) (\<lambda>(r, bs, s).
        if r = - 1 then Ok (i, s) else consolewrite_loop src n (i + nn) (uartwrite bs s))
      else Ok (i, s))"
  by pat_completeness auto
termination by (relation "measure (\<lambda>(src, n, i, s). nat (n - i))") auto

declare consolewrite_loop.simps [simp del]

definition consolewrite :: "iobuf \<Rightarrow> int \<Rightarrow> 'z kcons_scheme \<Rightarrow> (int \<times> 'z kcons_scheme) res" where
  "consolewrite src n s = consolewrite_loop src n 0 s"

text \<open>Taking the next input byte, and storing one in \<open>consoleintr\<close>.\<close>

definition cons_next :: "'z kcons_scheme \<Rightarrow> 'z kcons_scheme" where
  "cons_next s = s\<lparr>cons_r := cons_r s + 1\<rparr>"

definition cons_put :: "u8 \<Rightarrow> 'z kcons_scheme \<Rightarrow> 'z kcons_scheme" where
  "cons_put c s = s\<lparr>cons_buf := (cons_buf s)[unat (cons_e s) mod INPUT_BUF_SIZE := c], cons_e := cons_e s + 1\<rparr>"

text \<open>\<open>n\<close> is the number of bytes still wanted.\<close>

function consoleread_loop :: "iobuf \<Rightarrow> nat \<Rightarrow> nat \<Rightarrow> 'z kcons_scheme \<Rightarrow> (io \<times> iobuf \<times> 'z kcons_scheme) res" where
  "consoleread_loop dst target n s =
     (if n > 0 then
        if cons_r s = cons_w s then
          if is_killed (cur s) s then Ok (Ret (- 1), dst, s)
          else Ok (Wait ChanCons (int (target - n)), dst, sleep_on ChanCons s)
        else
          let c = cons_buf s ! (unat (cons_r s) mod INPUT_BUF_SIZE); s = cons_next s in
          if c = 4 then Ok (Ret (int (target - n)), dst, if n < target then s\<lparr>cons_r := cons_r s - 1\<rparr> else s)
          else bnd (either_copyout dst (target - n) [c] s) (\<lambda>(r, dst, s).
            if r = - 1 then Ok (Ret (int (target - n)), dst, s)
            else if c = 10 then Ok (Ret (int (target - (n - 1))), dst, s)
            else consoleread_loop dst target (n - 1) s)
      else Ok (Ret (int (target - n)), dst, s))"
  by pat_completeness auto
termination by (relation "measure (\<lambda>(dst, target, n, s). n)") auto

declare consoleread_loop.simps [simp del]

definition consoleread :: "iobuf \<Rightarrow> int \<Rightarrow> 'z kcons_scheme \<Rightarrow> (io \<times> iobuf \<times> 'z kcons_scheme) res" where
  "consoleread dst n s = consoleread_loop dst (nat n) (nat n) s"

text \<open>Control-U: erase back to the start of the line.\<close>

function kill_line :: "'z kcons_scheme \<Rightarrow> 'z kcons_scheme" where
  "kill_line s =
     (if cons_e s \<noteq> cons_w s \<and> cons_buf s ! (unat (cons_e s - 1) mod INPUT_BUF_SIZE) \<noteq> 10
      then kill_line (consputc BACKSPACE (s\<lparr>cons_e := cons_e s - 1\<rparr>)) else s)"
  by pat_completeness auto
termination
proof (relation "measure (\<lambda>s. unat (cons_e s - cons_w s))")
  fix s :: "'z kcons_scheme"
  assume "cons_e s \<noteq> cons_w s \<and> cons_buf s ! (unat (cons_e s - 1) mod INPUT_BUF_SIZE) \<noteq> 10"
  then have nz: "cons_e s - cons_w s \<noteq> 0" by simp
  have "cons_e s - 1 - cons_w s = cons_e s - cons_w s - 1" by simp
  then have "unat (cons_e s - 1 - cons_w s) = unat (cons_e s - cons_w s) - 1" using unat_minus_one[OF nz] by metis
  moreover have "unat (cons_e s - cons_w s) \<noteq> 0" using nz by (simp add: unat_eq_0)
  ultimately show "(consputc BACKSPACE (s\<lparr>cons_e := cons_e s - 1\<rparr>), s) \<in> measure (\<lambda>s. unat (cons_e s - cons_w s))"
    by (simp add: consputc_def uartputc_sync_def)
qed simp

declare kill_line.simps [simp del]

definition consoleintr :: "u8 \<Rightarrow> 'z kcons_scheme \<Rightarrow> 'z kcons_scheme res" where
  "consoleintr c s =
     (if c = 16 then procdump s
      else if c = 21 then Ok (kill_line s)
      else if c = 8 \<or> c = 0x7f then
        Ok (if cons_e s \<noteq> cons_w s then consputc BACKSPACE (s\<lparr>cons_e := cons_e s - 1\<rparr>) else s)
      else if c \<noteq> 0 \<and> unat (cons_e s - cons_r s) < INPUT_BUF_SIZE then
        let c = (if c = 13 then 10 else c);
            s = cons_put c (consputc (ucast c) s)
        in Ok (if c = 10 \<or> c = 4 \<or> unat (cons_e s - cons_r s) = INPUT_BUF_SIZE
               then wakeup ChanCons (s\<lparr>cons_w := cons_e s\<rparr>) else s)
      else Ok s)"

definition uartintr :: "bool \<Rightarrow> u8 list \<Rightarrow> 'z kcons_scheme \<Rightarrow> 'z kcons_scheme res" where
  "uartintr idle rx s = for_res rx consoleintr (if idle then uart_done s else s)"

end
