(* ===== verification/File.thy ===== *)
theory File
  imports Console
begin

text \<open>
  Open files: \<^verbatim>\<open>kernel/file.c\<close> with the in-memory files, \<^verbatim>\<open>kernel/pipe.c\<close>, \<^verbatim>\<open>kernel/mem.c\<close> and the collector of
  \<^verbatim>\<open>kernel/gc.c\<close>. A \<^verbatim>\<open>struct file\<close> and a \<^verbatim>\<open>struct memfile\<close> are entries of their tables. A pipe lives in the page that
  \<^verbatim>\<open>kalloc\<close> returned for it, at the offsets of \<^verbatim>\<open>struct pipe\<close> (its lock takes the first 24 bytes). A read or write
  that would sleep returns \<open>Wait\<close> with the number of bytes handled so far; when the process is woken it goes on from
  there.
\<close>

section \<open>State\<close>

datatype fdtype = FD_NONE | FD_PIPE | FD_INODE | FD_DEVICE | FD_MEM

record file_s =
  ftype :: fdtype
  fref :: int
  freadable :: bool
  fwritable :: bool
  fpipe :: addr
  fip :: "nat option"
  fmemf :: "nat option"
  foff :: u32
  fmajor :: u16

record memfile =
  mf_ref :: u32
  mf_size :: u32
  mf_data :: addr
  mf_deleted :: bool

datatype devfn = ConsoleDev

record kfile = kcons +
  ftable :: "file_s list"
  mftable :: "memfile list"
  devsw :: "devfn option list"
  total_allocs :: int

definition NMEMFILE :: nat where "NMEMFILE = 50"
definition CONSOLE :: nat where "CONSOLE = 1"

definition upd_file :: "nat \<Rightarrow> (file_s \<Rightarrow> file_s) \<Rightarrow> 'z kfile_scheme \<Rightarrow> 'z kfile_scheme" where
  "upd_file i f s = s\<lparr>ftable := (ftable s)[i := f (ftable s ! i)]\<rparr>"

definition upd_memf :: "nat \<Rightarrow> (memfile \<Rightarrow> memfile) \<Rightarrow> 'z kfile_scheme \<Rightarrow> 'z kfile_scheme" where
  "upd_memf i f s = s\<lparr>mftable := (mftable s)[i := f (mftable s ! i)]\<rparr>"

definition consoleinit :: "'z kfile_scheme \<Rightarrow> 'z kfile_scheme" where
  "consoleinit s = s\<lparr>devsw := (devsw s)[CONSOLE := Some ConsoleDev]\<rparr>"

section \<open>Counted allocation\<close>

definition meminit :: "'z kfile_scheme \<Rightarrow> 'z kfile_scheme" where
  "meminit s = s\<lparr>total_allocs := 0\<rparr>"

definition mem_alloc :: "'z kfile_scheme \<Rightarrow> (addr \<times> 'z kfile_scheme) res" where
  "mem_alloc s = bnd (kalloc s) (\<lambda>(p, s). if p = 0 then Ok (0, s) else Ok (p, s\<lparr>total_allocs := total_allocs s + 1\<rparr>))"

definition mem_free :: "addr \<Rightarrow> 'z kfile_scheme \<Rightarrow> 'z kfile_scheme res" where
  "mem_free p s = (if p = 0 then Ok s else bnd (kfree p s) (\<lambda>s. Ok (s\<lparr>total_allocs := total_allocs s - 1\<rparr>)))"

section \<open>In-memory files\<close>

primrec find_free :: "('a \<Rightarrow> bool) \<Rightarrow> nat list \<Rightarrow> 'a list \<Rightarrow> nat option" where
  "find_free P [] xs = None"
| "find_free P (i # is) xs = (if P (xs ! i) then Some i else find_free P is xs)"

definition memfile_create :: "'z kfile_scheme \<Rightarrow> (nat option \<times> 'z kfile_scheme) res" where
  "memfile_create s =
     (case find_free (\<lambda>mf. mf_ref mf = 0 \<and> \<not> mf_deleted mf) [0..<NMEMFILE] (mftable s) of
        None \<Rightarrow> Ok (None, s)
      | Some i \<Rightarrow>
          let s = upd_memf i (\<lambda>mf. mf\<lparr>mf_ref := 1, mf_size := 0, mf_deleted := False\<rparr>) s in
          bnd (kalloc s) (\<lambda>(d, s).
          let s = upd_memf i (\<lambda>mf. mf\<lparr>mf_data := d\<rparr>) s in
          if d = 0 then Ok (None, upd_memf i (\<lambda>mf. mf\<lparr>mf_ref := 0, mf_size := 0, mf_deleted := False\<rparr>) s)
          else Ok (Some i, s)))"

definition memfile_delete :: "nat option \<Rightarrow> 'z kfile_scheme \<Rightarrow> int \<times> 'z kfile_scheme" where
  "memfile_delete mf s =
     (case mf of
        None \<Rightarrow> (- 1, s)
      | Some i \<Rightarrow> if mf_ref (mftable s ! i) < 1 then (- 1, s) else (0, upd_memf i (\<lambda>mf. mf\<lparr>mf_deleted := True\<rparr>) s))"

definition gc_one :: "nat \<Rightarrow> 'z kfile_scheme \<Rightarrow> 'z kfile_scheme res" where
  "gc_one i s =
     (let mf = mftable s ! i in
      if mf_deleted mf \<and> mf_ref mf = 0 then
        bnd (if mf_data mf \<noteq> 0 then bnd (kfree (mf_data mf) s) (\<lambda>s. Ok (upd_memf i (\<lambda>mf. mf\<lparr>mf_data := 0\<rparr>) s)) else Ok s) (\<lambda>s.
        logprintf (''GC: Collected memfile [%d] and freed associated memory blocks'' @ [CHR 10]) [Num (of_nat i)]
          (upd_memf i (\<lambda>mf. mf\<lparr>mf_ref := 0, mf_size := 0, mf_deleted := False\<rparr>) s))
      else Ok s)"

definition garbage_collect :: "'z kfile_scheme \<Rightarrow> 'z kfile_scheme res" where
  "garbage_collect s = for_res [0..<NMEMFILE] gc_one s"

section \<open>Pipes\<close>

definition PIPESIZE :: nat where "PIPESIZE = 512"
definition pi_data :: addr where "pi_data = 24"
definition pi_nread :: addr where "pi_nread = 536"
definition pi_nwrite :: addr where "pi_nwrite = 540"
definition pi_readopen :: addr where "pi_readopen = 544"
definition pi_writeopen :: addr where "pi_writeopen = 548"

lemmas pipe_consts [kconst] = PIPESIZE_def pi_data_def pi_nread_def pi_nwrite_def pi_readopen_def pi_writeopen_def

definition pi_get :: "addr \<Rightarrow> addr \<Rightarrow> 'z kmem_scheme \<Rightarrow> u32" where
  "pi_get f pi s = load32 (ram s) (pi + f)"

definition pi_set :: "addr \<Rightarrow> addr \<Rightarrow> u32 \<Rightarrow> 'z kmem_scheme \<Rightarrow> 'z kmem_scheme" where
  "pi_set f pi v s = s\<lparr>ram := store32 (ram s) (pi + f) v\<rparr>"

abbreviation read_chan :: "addr \<Rightarrow> chan" where "read_chan pi \<equiv> ChanPipeRead (unat pi)"
abbreviation write_chan :: "addr \<Rightarrow> chan" where "write_chan pi \<equiv> ChanPipeWrite (unat pi)"

definition pipeclose :: "addr \<Rightarrow> bool \<Rightarrow> 'z kfile_scheme \<Rightarrow> 'z kfile_scheme res" where
  "pipeclose pi writable s =
     (let s = (if writable then wakeup (read_chan pi) (pi_set pi_writeopen pi 0 s)
               else wakeup (write_chan pi) (pi_set pi_readopen pi 0 s)) in
      if pi_get pi_readopen pi s = 0 \<and> pi_get pi_writeopen pi s = 0 then kfree pi s else Ok s)"

text \<open>\<^verbatim>\<open>pi->data[pi->nwrite++ % PIPESIZE] = ch\<close>, and the step of \<^verbatim>\<open>pi->nread\<close>.\<close>

definition pipe_put :: "addr \<Rightarrow> u8 list \<Rightarrow> 'z kmem_scheme \<Rightarrow> 'z kmem_scheme" where
  "pipe_put pi bs s =
     (let w = pi_get pi_nwrite pi s; s = pi_set pi_nwrite pi (w + 1) s
      in s\<lparr>ram := poke (ram s) (pi + pi_data + of_nat (unat w mod PIPESIZE)) bs\<rparr>)"

definition pipe_next :: "addr \<Rightarrow> 'z kmem_scheme \<Rightarrow> 'z kmem_scheme" where
  "pipe_next pi s = pi_set pi_nread pi (pi_get pi_nread pi s + 1) s"

function pipewrite :: "addr \<Rightarrow> addr \<Rightarrow> int \<Rightarrow> int \<Rightarrow> 'z kfile_scheme \<Rightarrow> (io \<times> 'z kfile_scheme) res" where
  "pipewrite pi addr n i s =
     (if i < n then
        if pi_get pi_readopen pi s = 0 \<or> is_killed (cur s) s then Ok (Ret (- 1), s)
        else if pi_get pi_nwrite pi s = pi_get pi_nread pi s + of_nat PIPESIZE then
          Ok (Wait (write_chan pi) i, sleep_on (write_chan pi) (wakeup (read_chan pi) s))
        else bnd (copyin_bytes (pagetable (myproc s)) (addr + of_int i) 1 (psz (myproc s)) s) (\<lambda>(r, bs, s).
          if r = - 1 then Ok (Ret i, wakeup (read_chan pi) s)
          else pipewrite pi addr n (i + 1) (pipe_put pi bs s))
      else Ok (Ret i, wakeup (read_chan pi) s))"
  by pat_completeness auto
termination by (relation "measure (\<lambda>(p, a, n, i, s). nat (n - i))") auto

declare pipewrite.simps [simp del]

function piperead_copy :: "addr \<Rightarrow> addr \<Rightarrow> int \<Rightarrow> int \<Rightarrow> 'z kfile_scheme \<Rightarrow> (int \<times> 'z kfile_scheme) res" where
  "piperead_copy pi addr n i s =
     (if i < n \<and> pi_get pi_nread pi s \<noteq> pi_get pi_nwrite pi s then
        let c = ram s (pi + pi_data + of_nat (unat (pi_get pi_nread pi s) mod PIPESIZE)) in
        bnd (copyout_bytes (pagetable (myproc s)) (addr + of_int i) [c] (psz (myproc s)) s) (\<lambda>(r, s).
        if r = - 1 then Ok (if i = 0 then - 1 else i, s)
        else piperead_copy pi addr n (i + 1) (pipe_next pi s))
      else Ok (i, s))"
  by pat_completeness auto
termination by (relation "measure (\<lambda>(p, a, n, i, s). nat (n - i))") auto

declare piperead_copy.simps [simp del]

definition piperead :: "addr \<Rightarrow> addr \<Rightarrow> int \<Rightarrow> 'z kfile_scheme \<Rightarrow> (io \<times> 'z kfile_scheme) res" where
  "piperead pi addr n s =
     (if pi_get pi_nread pi s = pi_get pi_nwrite pi s \<and> pi_get pi_writeopen pi s \<noteq> 0 then
        if is_killed (cur s) s then Ok (Ret (- 1), s)
        else Ok (Wait (read_chan pi) 0, sleep_on (read_chan pi) s)
      else bnd (piperead_copy pi addr n 0 s) (\<lambda>(i, s). Ok (Ret i, wakeup (write_chan pi) s)))"

section \<open>The file table\<close>

definition filealloc :: "'z kfile_scheme \<Rightarrow> nat option \<times> 'z kfile_scheme" where
  "filealloc s =
     (case find_free (\<lambda>f. fref f = 0) [0..<NFILE] (ftable s) of
        None \<Rightarrow> (None, s)
      | Some i \<Rightarrow> (Some i, upd_file i (\<lambda>f. f\<lparr>fref := 1\<rparr>) s))"

definition filedup :: "nat \<Rightarrow> 'z kfile_scheme \<Rightarrow> 'z kfile_scheme res" where
  "filedup i s =
     panic_if (fref (ftable s ! i) < 1) ''filedup'' (Ok (upd_file i (\<lambda>f. f\<lparr>fref := fref f + 1\<rparr>) s))"

definition fileclose :: "nat \<Rightarrow> 'z kfile_scheme \<Rightarrow> 'z kfile_scheme res" where
  "fileclose i s =
     panic_if (fref (ftable s ! i) < 1) ''fileclose'' (
     let s = upd_file i (\<lambda>f. f\<lparr>fref := fref f - 1\<rparr>) s in
     if fref (ftable s ! i) > 0 then Ok s
     else
       let ff = ftable s ! i; s = upd_file i (\<lambda>f. f\<lparr>fref := 0, ftype := FD_NONE\<rparr>) s in
       case ftype ff of
         FD_PIPE \<Rightarrow> pipeclose (fpipe ff) (fwritable ff) s
       | FD_INODE \<Rightarrow> (case fip ff of None \<Rightarrow> Undef | Some ip \<Rightarrow> bnd (begin_op s) (\<lambda>s. bnd (iput ip s) end_op))
       | FD_DEVICE \<Rightarrow> (case fip ff of None \<Rightarrow> Undef | Some ip \<Rightarrow> bnd (begin_op s) (\<lambda>s. bnd (iput ip s) end_op))
       | FD_MEM \<Rightarrow> (case fmemf ff of None \<Rightarrow> Undef | Some m \<Rightarrow> Ok (upd_memf m (\<lambda>mf. mf\<lparr>mf_ref := mf_ref mf - 1\<rparr>) s))
       | FD_NONE \<Rightarrow> Ok s)"

text \<open>On each error path of \<^verbatim>\<open>pipealloc\<close> no page has been allocated, so \<^verbatim>\<open>mem_free\<close> is not called.\<close>

definition close_opt :: "nat option \<Rightarrow> 'z kfile_scheme \<Rightarrow> 'z kfile_scheme res" where
  "close_opt f s = (case f of None \<Rightarrow> Ok s | Some i \<Rightarrow> fileclose i s)"

definition pipealloc :: "'z kfile_scheme \<Rightarrow> ((nat \<times> nat) option \<times> 'z kfile_scheme) res" where
  "pipealloc s =
     (let (f0, s) = filealloc s;
          (f1, s) = (if f0 = None then (None, s) else filealloc s);
          bad = (\<lambda>s. bnd (close_opt f0 s) (\<lambda>s. bnd (close_opt f1 s) (\<lambda>s. Ok (None, s)))) in
      case (f0, f1) of
        (Some r, Some w) \<Rightarrow>
          bnd (kalloc s) (\<lambda>(pi, s).
          if pi = 0 then bad s
          else
            let s = pi_set pi_nread pi 0 (pi_set pi_nwrite pi 0 (pi_set pi_writeopen pi 1 (pi_set pi_readopen pi 1 s)));
                s = upd_file r (\<lambda>f. f\<lparr>ftype := FD_PIPE, freadable := True, fwritable := False, fpipe := pi\<rparr>) s;
                s = upd_file w (\<lambda>f. f\<lparr>ftype := FD_PIPE, freadable := False, fwritable := True, fpipe := pi\<rparr>) s
            in Ok (Some (r, w), s))
      | _ \<Rightarrow> bad s)"

text \<open>\<^verbatim>\<open>struct stat\<close> as \<^verbatim>\<open>copyout\<close> sees it: the shorts at 8 and 10, four bytes of padding, the size at 16. The local
  structure is not cleared, so the padding has the bytes \<open>pad\<close> that happen to be on the stack.\<close>

definition stat_bytes :: "u8 list \<Rightarrow> stat \<Rightarrow> u8 list" where
  "stat_bytes pad st = le_bytes 4 (st_dev st) @ le_bytes 4 (st_ino st) @ le_bytes 2 (st_type st) @ le_bytes 2 (st_nlink st) @
     pad @ le_bytes 8 (st_size st)"

definition filestat :: "u8 list \<Rightarrow> nat \<Rightarrow> addr \<Rightarrow> 'z kfile_scheme \<Rightarrow> (int \<times> 'z kfile_scheme) res" where
  "filestat pad i addr s =
     (let f = ftable s ! i in
      if ftype f = FD_INODE \<or> ftype f = FD_DEVICE then
        case fip f of None \<Rightarrow> Undef | Some ip \<Rightarrow>
          bnd (ilock ip s) (\<lambda>s.
          let st = stati ip s in
          bnd (iunlock ip s) (\<lambda>s.
          bnd (copyout_bytes (pagetable (myproc s)) addr (stat_bytes pad st) (psz (myproc s)) s) (\<lambda>(r, s).
          if r < 0 then Ok (- 1, s) else Ok (0, s))))
      else Ok (- 1, s))"

definition dev_of :: "u16 \<Rightarrow> 'z kfile_scheme \<Rightarrow> devfn option" where
  "dev_of m s = (if sint m < 0 \<or> sint m \<ge> int NDEV then None else devsw s ! nat (sint m))"

definition fileread_mem :: "nat \<Rightarrow> nat \<Rightarrow> addr \<Rightarrow> int \<Rightarrow> 'z kfile_scheme \<Rightarrow> (int \<times> 'z kfile_scheme) res" where
  "fileread_mem i m addr n s =
     (let mf = mftable s ! m in
      if mf_deleted mf then Ok (- 1, s)
      else
        let s = upd_file i (\<lambda>f. f\<lparr>foff := 0\<rparr>) s; off = foff (ftable s ! i) in
        if mf_data mf = 0 \<or> off \<ge> mf_size mf then Ok (0, s)
        else
          let max_read = sint (mf_size mf - off); n = (if n > max_read then max_read else n) in
          if n > 0 then
            bnd (copyout (pagetable (myproc s)) addr (mf_data mf + ucast off) (of_int n) (psz (myproc s)) s) (\<lambda>(r, s).
            if r < 0 then Ok (- 1, s)
            else
              bnd (printf (''KERNEL PROOF: Reading from physical memory address %p'' @ [CHR 10]) [Num (mf_data mf)]
                     (upd_file i (\<lambda>f. f\<lparr>foff := foff f + of_int n\<rparr>) s)) (\<lambda>s.
              Ok (n, s)))
          else Ok (n, s))"

definition fileread :: "nat \<Rightarrow> addr \<Rightarrow> int \<Rightarrow> 'z kfile_scheme \<Rightarrow> (io \<times> 'z kfile_scheme) res" where
  "fileread i addr n s =
     (let f = ftable s ! i in
      if \<not> freadable f then Ok (Ret (- 1), s)
      else case ftype f of
        FD_PIPE \<Rightarrow> piperead (fpipe f) addr n s
      | FD_DEVICE \<Rightarrow>
          (case dev_of (fmajor f) s of
             None \<Rightarrow> Ok (Ret (- 1), s)
           | Some ConsoleDev \<Rightarrow> bnd (consoleread (User addr) n s) (\<lambda>(r, _, s). Ok (r, s)))
      | FD_INODE \<Rightarrow>
          (case fip f of None \<Rightarrow> Undef | Some ip \<Rightarrow>
             bnd (ilock ip s) (\<lambda>s.
             bnd (readi ip (User addr) (foff f) (of_int n) s) (\<lambda>(r, _, s).
             bnd (iunlock ip (if r > 0 then upd_file i (\<lambda>f. f\<lparr>foff := foff f + of_int r\<rparr>) s else s)) (\<lambda>s.
             Ok (Ret r, s)))))
      | FD_MEM \<Rightarrow>
          (case fmemf f of None \<Rightarrow> Undef | Some m \<Rightarrow> bnd (fileread_mem i m addr n s) (\<lambda>(r, s). Ok (Ret r, s)))
      | FD_NONE \<Rightarrow> Panic ''fileread'')"

text \<open>Writing an inode in chunks of at most \<^verbatim>\<open>((MAXOPBLOCKS-1-1-2) / 2) * BSIZE\<close> bytes, one transaction each.\<close>

definition max_chunk :: int where
  "max_chunk = (int MAXOPBLOCKS - 1 - 1 - 2) div 2 * int BSIZE"

function filewrite_loop :: "nat \<Rightarrow> nat \<Rightarrow> addr \<Rightarrow> int \<Rightarrow> int \<Rightarrow> 'z kfile_scheme \<Rightarrow> (int \<times> 'z kfile_scheme) res" where
  "filewrite_loop f ip addr n i s =
     (if i < n then
        let n1 = (if n - i > max_chunk then max_chunk else n - i) in
        bnd (begin_op s) (\<lambda>s. bnd (ilock ip s) (\<lambda>s.
        bnd (writei ip (User (addr + of_int i)) (foff (ftable s ! f)) (of_int n1) s) (\<lambda>(r, s).
        bnd (iunlock ip (if r > 0 then upd_file f (\<lambda>f. f\<lparr>foff := foff f + of_int r\<rparr>) s else s)) (\<lambda>s.
        bnd (end_op s) (\<lambda>s.
        if r \<noteq> n1 then Ok (i, s) else filewrite_loop f ip addr n (i + n1) s)))))
      else Ok (i, s))"
  by pat_completeness auto
termination by (relation "measure (\<lambda>(f, ip, a, n, i, s). nat (n - i))") (auto simp: max_chunk_def kconst BSIZE_def)

declare filewrite_loop.simps [simp del]

definition filewrite_mem :: "nat \<Rightarrow> nat \<Rightarrow> addr \<Rightarrow> int \<Rightarrow> 'z kfile_scheme \<Rightarrow> (int \<times> 'z kfile_scheme) res" where
  "filewrite_mem i m addr n s =
     (if mf_deleted (mftable s ! m) then Ok (- 1, s)
      else
        bnd (if mf_data (mftable s ! m) = 0 then bnd (kalloc s) (\<lambda>(d, s). Ok (d, upd_memf m (\<lambda>mf. mf\<lparr>mf_data := d\<rparr>) s))
             else Ok (mf_data (mftable s ! m), s)) (\<lambda>(d, s).
        if d = 0 then Ok (- 1, s)
        else
          let max_write = sint (4096 - foff (ftable s ! i)); n = (if n > max_write then max_write else n) in
          if n > 0 then
            bnd (copyin (pagetable (myproc s)) (d + ucast (foff (ftable s ! i))) addr (of_int n) (psz (myproc s)) s) (\<lambda>(r, s).
            if r < 0 then Ok (- 1, s)
            else
              let s = upd_file i (\<lambda>f. f\<lparr>foff := foff f + of_int n\<rparr>) s;
                  off = foff (ftable s ! i);
                  s = (if off > mf_size (mftable s ! m) then upd_memf m (\<lambda>mf. mf\<lparr>mf_size := off\<rparr>) s else s)
              in
              bnd (printf (''KERNEL PROOF: kalloc() gave physical memory address %p'' @ [CHR 10]) [Num d] s) (\<lambda>s.
              bnd (printf (''KERNEL PROOF: Wrote text into %p'' @ [CHR 10]) [Num d] s) (\<lambda>s.
              Ok (n, s))))
          else Ok (n, s)))"

definition filewrite :: "nat \<Rightarrow> addr \<Rightarrow> int \<Rightarrow> 'z kfile_scheme \<Rightarrow> (io \<times> 'z kfile_scheme) res" where
  "filewrite i addr n s =
     (let f = ftable s ! i in
      if \<not> fwritable f then Ok (Ret (- 1), s)
      else case ftype f of
        FD_PIPE \<Rightarrow> pipewrite (fpipe f) addr n 0 s
      | FD_DEVICE \<Rightarrow>
          (case dev_of (fmajor f) s of
             None \<Rightarrow> Ok (Ret (- 1), s)
           | Some ConsoleDev \<Rightarrow> bnd (consolewrite (User addr) n s) (\<lambda>(r, s). Ok (Ret r, s)))
      | FD_INODE \<Rightarrow>
          (case fip f of None \<Rightarrow> Undef | Some ip \<Rightarrow>
             bnd (filewrite_loop i ip addr n 0 s) (\<lambda>(k, s). Ok (Ret (if k = n then n else - 1), s)))
      | FD_MEM \<Rightarrow>
          (case fmemf f of None \<Rightarrow> Undef | Some m \<Rightarrow> bnd (filewrite_mem i m addr n s) (\<lambda>(r, s). Ok (Ret r, s)))
      | FD_NONE \<Rightarrow> Panic ''filewrite'')"

end
