(* ===== verification/Pagetable.thy ===== *)
theory Pagetable
  imports Vm
begin

text \<open>
  Page tables as an abstract object. A table is named by the path of indices that leads to
  it from the root (\<open>tbl\<close>); a page table is a tree (\<open>pt_tree\<close>) when different paths lead to
  different pages. The lemmas say what one store to one entry does to every path, so the
  three-level pointer structure behaves as a map from virtual page numbers to entries
  (\<open>pte_val\<close>).
\<close>

section \<open>Entries of a table\<close>

definition slot :: "addr \<Rightarrow> nat \<Rightarrow> addr" where "slot t i = t + 8 * of_nat i"
definition ent :: "memory \<Rightarrow> addr \<Rightarrow> nat \<Rightarrow> u64" where "ent m t i = load64 m (slot t i)"

abbreviation valid :: "u64 \<Rightarrow> bool" where "valid e \<equiv> e AND PTE_V \<noteq> 0"
definition aligned :: "addr \<Rightarrow> bool" where "aligned a \<longleftrightarrow> a mod PGSIZE = 0"

lemma aligned_simps [simp]:
  "aligned (PTE2PA e)" "aligned (PGROUNDDOWN a)" "aligned (PGROUNDUP a)" "page_num p \<Longrightarrow> aligned (paddr p)"
  by (simp_all add: aligned_def)

lemma aligned_paddr: "aligned a \<Longrightarrow> a = paddr (PA2IDX a)"
  by (simp add: paddr_PA2IDX aligned_def)

lemma PA2IDX_inj: "aligned a \<Longrightarrow> aligned b \<Longrightarrow> PA2IDX a = PA2IDX b \<longleftrightarrow> a = b"
  using aligned_paddr by metis

lemma slot_paddr: "slot (paddr p) i = paddr p + of_nat (8 * i)"
  by (simp add: slot_def)

lemma unat_slot: "aligned t \<Longrightarrow> i < 512 \<Longrightarrow> unat (slot t i) = PA2IDX t * 4096 + 8 * i"
  using unat_paddr_off [of "PA2IDX t" "8 * i"] slot_paddr [of "PA2IDX t" i] PA2IDX_less [of t] aligned_paddr [of t]
  by simp

lemma slot_apart:
  assumes "aligned t" "aligned u" "i < 512" "j < 512" "t \<noteq> u \<or> i \<noteq> j"
  shows "apart (slot t i) 8 (slot u j) 8"
proof -
  have "PA2IDX t \<noteq> PA2IDX u \<or> (PA2IDX t = PA2IDX u \<and> i \<noteq> j)" using assms PA2IDX_inj by metis
  moreover have "PA2IDX t * 4096 + 4096 \<le> 2 ^ 64" "PA2IDX u * 4096 + 4096 \<le> 2 ^ 64"
    using PA2IDX_less [of t] PA2IDX_less [of u] by simp_all
  moreover have "i < j \<or> j < i \<or> i = j" by linarith
  ultimately show ?thesis using assms(3,4) unfolding apart_def unat_slot [OF assms(1,3)] unat_slot [OF assms(2,4)]
    by (cases "PA2IDX t" "PA2IDX u" rule: linorder_cases) (elim disjE; linarith)+
qed

lemma ent_store:
  assumes "aligned t" "aligned u" "i < 512" "j < 512"
  shows "ent (store64 m (slot t i) v) u j = (if t = u \<and> i = j then v else ent m u j)"
  using slot_apart [OF assms] by (auto simp: ent_def mem_simps)

lemma slot_page: "aligned t \<Longrightarrow> i < 512 \<Longrightarrow> k < 8 \<Longrightarrow> PA2IDX (slot t i + of_nat k) = PA2IDX t"
  using PA2IDX_off [of "PA2IDX t" "8 * i + k"] PA2IDX_less [of t] aligned_paddr [of t] slot_paddr [of "PA2IDX t" i]
  by (simp add: add.assoc)

lemma ent_outside:
  assumes "same_outside S m m'" "PA2IDX t \<notin> S" "aligned t" "i < 512"
  shows "ent m' t i = ent m t i"
  unfolding ent_def by (rule load64_cong) (use assms slot_page in \<open>simp add: same_outside_def\<close>)

lemma store_outside: "aligned t \<Longrightarrow> i < 512 \<Longrightarrow> PA2IDX t \<in> S \<Longrightarrow> same_outside S m (store64 m (slot t i) v)"
  using byte_off_page [of "PA2IDX t" "8 * i" 8] PA2IDX_less [of t] aligned_paddr [of t] slot_paddr [of "PA2IDX t" i]
  by (auto simp: same_outside_def store64_def store_le_byte)

lemma zero_page_byte: "aligned t \<Longrightarrow> memset m t 0 4096 a = (if PA2IDX a = PA2IDX t then 0 else m a)"
  using memset_pages [of "PA2IDX t" 1 m 0 a] PA2IDX_less [of t] aligned_paddr [of t] by auto

lemma zero_page_outside: "aligned t \<Longrightarrow> PA2IDX t \<in> S \<Longrightarrow> same_outside S m (memset m t 0 4096)"
  by (auto simp: same_outside_def zero_page_byte)

lemma ent_zero_page:
  assumes "aligned t" "aligned u" "i < 512"
  shows "ent (memset m t 0 4096) u i = (if t = u then 0 else ent m u i)"
proof (cases "t = u")
  case True
  then show ?thesis unfolding ent_def using assms slot_page
    by (simp, intro load64_zero) (simp add: zero_page_byte)
next
  case False
  then show ?thesis using ent_outside [OF zero_page_outside [OF assms(1), of "{PA2IDX t}"]] assms PA2IDX_inj by auto
qed

section \<open>Paths\<close>

primrec tbl :: "memory \<Rightarrow> addr \<Rightarrow> nat list \<Rightarrow> addr option" where
  "tbl m a [] = Some a"
| "tbl m a (i # is) = (if valid (ent m a i) then tbl m (PTE2PA (ent m a i)) is else None)"

definition path :: "nat list \<Rightarrow> bool" where "path \<pi> \<longleftrightarrow> length \<pi> \<le> 2 \<and> set \<pi> \<subseteq> {..<512}"

definition tabs :: "memory \<Rightarrow> addr \<Rightarrow> nat set" where
  "tabs m root = {PA2IDX a |a \<pi>. path \<pi> \<and> tbl m root \<pi> = Some a}"

definition pt_tree :: "memory \<Rightarrow> addr \<Rightarrow> bool" where
  "pt_tree m root \<longleftrightarrow> aligned root \<and>
     (\<forall>\<pi> \<rho> a. path \<pi> \<and> path \<rho> \<and> tbl m root \<pi> = Some a \<and> tbl m root \<rho> = Some a \<longrightarrow> \<pi> = \<rho>)"

lemma path_Nil [simp]: "path []" by (simp add: path_def)
lemma path_snoc: "path (\<pi> @ [i]) \<longleftrightarrow> length \<pi> \<le> 1 \<and> set \<pi> \<subseteq> {..<512} \<and> i < 512" by (auto simp: path_def)
lemma path_butlast: "path (\<pi> @ [i]) \<Longrightarrow> path \<pi> \<and> i < 512" by (auto simp: path_def)

lemma tbl_append: "tbl m a (\<pi> @ \<rho>) = Option.bind (tbl m a \<pi>) (\<lambda>b. tbl m b \<rho>)"
  by (induction \<pi> arbitrary: a) auto

lemma tbl_snoc:
  "tbl m a (\<pi> @ [i]) = (case tbl m a \<pi> of None \<Rightarrow> None
     | Some b \<Rightarrow> if valid (ent m b i) then Some (PTE2PA (ent m b i)) else None)"
  by (simp add: tbl_append split: option.splits)

lemma tbl_aligned: "aligned root \<Longrightarrow> tbl m root \<pi> = Some a \<Longrightarrow> aligned a"
  by (cases \<pi> rule: rev_cases) (auto simp: tbl_snoc split: option.splits if_splits)

lemma tabsI: "path \<pi> \<Longrightarrow> tbl m root \<pi> = Some a \<Longrightarrow> PA2IDX a \<in> tabs m root"
  by (auto simp: tabs_def)

lemma root_in_tabs: "PA2IDX root \<in> tabs m root"
  using tabsI [of "[]"] by simp

lemma tree_inj: "pt_tree m root \<Longrightarrow> path \<pi> \<Longrightarrow> path \<rho> \<Longrightarrow> tbl m root \<pi> = Some a \<Longrightarrow> tbl m root \<rho> = Some a \<Longrightarrow> \<pi> = \<rho>"
  unfolding pt_tree_def by blast

text \<open>A memory change that misses every table leaves every path alone.\<close>

lemma tbl_frame:
  assumes "same_outside S m m'" "S \<inter> tabs m root = {}" "aligned root" "path \<pi>"
  shows "tbl m' root \<pi> = tbl m root \<pi>"
  using assms(4)
proof (induction \<pi> rule: rev_induct)
  case (snoc i \<pi>)
  note pp = path_butlast [OF snoc.prems]
  have "ent m' b i = ent m b i" if "tbl m root \<pi> = Some b" for b
    using ent_outside [OF assms(1)] tabsI [of \<pi> m root b] tbl_aligned [OF assms(3) that] assms(2) pp that by blast
  then show ?case using snoc.IH pp by (auto simp: tbl_snoc split: option.splits)
qed simp

lemma tabs_frame:
  assumes "same_outside S m m'" "S \<inter> tabs m root = {}" "aligned root"
  shows "tabs m' root = tabs m root" and "pt_tree m' root = pt_tree m root"
  unfolding tabs_def pt_tree_def using tbl_frame [OF assms] by (simp_all cong: conj_cong)

text \<open>Storing entry \<open>e\<close> at slot \<open>i\<close> of the table of path \<open>\<pi>\<close>.\<close>

definition same_tables :: "memory \<Rightarrow> memory \<Rightarrow> addr \<Rightarrow> addr \<Rightarrow> nat \<Rightarrow> bool" where
  "same_tables m m' root t i \<longleftrightarrow> (\<forall>\<rho> a j. path \<rho> \<and> tbl m root \<rho> = Some a \<and> j < 512 \<and> (a, j) \<noteq> (t, i) \<longrightarrow> ent m' a j = ent m a j)"

lemma tbl_update_other:
  assumes tree: "pt_tree m root" and t: "path \<pi>" "tbl m root \<pi> = Some t" and same: "same_tables m m' root t i"
    and "path \<rho>" "\<not> prefix (\<pi> @ [i]) \<rho>"
  shows "tbl m' root \<rho> = tbl m root \<rho>"
  using assms(5,6)
proof (induction \<rho> rule: rev_induct)
  case (snoc j \<rho>)
  note pp = path_butlast [OF snoc.prems(1)]
  have IH: "tbl m' root \<rho> = tbl m root \<rho>" using snoc pp by (auto simp: prefix_snoc)
  have "ent m' b j = ent m b j" if b: "tbl m root \<rho> = Some b" for b
  proof -
    have "(b, j) \<noteq> (t, i)" using tree_inj [OF tree t(1) _ t(2), of \<rho>] pp b snoc.prems(2) by auto
    then show ?thesis using same pp b unfolding same_tables_def by blast
  qed
  then show ?case using IH by (auto simp: tbl_snoc split: option.splits)
qed simp

lemma tbl_update_below:
  assumes tree: "pt_tree m root" and t: "path \<pi>" "tbl m root \<pi> = Some t" and same: "same_tables m m' root t i"
  shows "tbl m' root (\<pi> @ i # \<rho>) = (if valid (ent m' t i) then tbl m' (PTE2PA (ent m' t i)) \<rho> else None)"
proof -
  have "\<not> prefix (\<pi> @ [i]) \<pi>" by (auto dest: prefix_length_le)
  then have "tbl m' root \<pi> = Some t" using tbl_update_other [OF assms, of \<pi>] t by simp
  then show ?thesis by (simp add: tbl_append)
qed

lemma tbl_none_below: "tbl m root \<pi> = Some t \<Longrightarrow> \<not> valid (ent m t i) \<Longrightarrow> prefix (\<pi> @ [i]) \<rho> \<Longrightarrow> tbl m root \<rho> = None"
  by (auto simp: prefix_def tbl_append)

lemma tbl_empty_table: "\<forall>j<512. ent m a j = 0 \<Longrightarrow> set \<rho> \<subseteq> {..<512} \<Longrightarrow> tbl m a \<rho> = (if \<rho> = [] then Some a else None)"
  by (cases \<rho>) (auto simp: PTE_V_def)

text \<open>Hanging a fresh, empty table under slot \<open>i\<close> of the table of path \<open>\<pi>\<close>.\<close>

definition new_table :: "memory \<Rightarrow> memory \<Rightarrow> addr \<Rightarrow> nat list \<Rightarrow> nat \<Rightarrow> addr \<Rightarrow> addr \<Rightarrow> bool" where
  "new_table m m' root \<pi> i t pg \<longleftrightarrow>
     pt_tree m root \<and> path (\<pi> @ [i]) \<and> tbl m root \<pi> = Some t \<and> \<not> valid (ent m t i) \<and>
     aligned pg \<and> PA2IDX pg \<notin> tabs m root \<and> same_tables m m' root t i \<and>
     valid (ent m' t i) \<and> PTE2PA (ent m' t i) = pg \<and> (\<forall>j<512. ent m' pg j = 0)"

lemma new_tbl:
  assumes nt: "new_table m m' root \<pi> i t pg" and \<rho>: "path \<rho>"
  shows "tbl m' root \<rho> = (if \<rho> = \<pi> @ [i] then Some pg else tbl m root \<rho>)"
proof -
  have \<pi>': "path \<pi>" and tree: "pt_tree m root" and t: "tbl m root \<pi> = Some t" and free: "\<not> valid (ent m t i)"
      and same: "same_tables m m' root t i" and empty: "\<forall>j<512. ent m' pg j = 0"
      and new: "valid (ent m' t i)" "PTE2PA (ent m' t i) = pg"
    using nt path_butlast unfolding new_table_def by blast+
  show ?thesis
  proof (cases "prefix (\<pi> @ [i]) \<rho>")
    case False
    then show ?thesis using tbl_update_other [OF tree \<pi>' t same \<rho>] by auto
  next
    case True
    then obtain \<sigma> where e: "\<rho> = \<pi> @ i # \<sigma>" by (auto simp: prefix_def)
    have "tbl m' root \<rho> = (if \<sigma> = [] then Some pg else None)"
      using tbl_update_below [OF tree \<pi>' t same, of \<sigma>] new tbl_empty_table [OF empty, of \<sigma>] \<rho>
      by (auto simp: e path_def)
    then show ?thesis using tbl_none_below [OF t free True] e by auto
  qed
qed

lemma new_tabs:
  assumes nt: "new_table m m' root \<pi> i t pg"
  shows "tabs m' root = insert (PA2IDX pg) (tabs m root)"
proof -
  have "tbl m root (\<pi> @ [i]) = None" and \<pi>: "path (\<pi> @ [i])"
    using nt tbl_none_below [of m root \<pi> t i] unfolding new_table_def by auto
  then show ?thesis using new_tbl [OF nt] unfolding tabs_def by (auto split: if_splits) (metis option.distinct(1))+
qed

lemma new_tree:
  assumes nt: "new_table m m' root \<pi> i t pg"
  shows "pt_tree m' root"
proof -
  have tree: "pt_tree m root" and pg: "PA2IDX pg \<notin> tabs m root" using nt unfolding new_table_def by auto
  have "\<rho> = \<sigma>" if "path \<rho>" "path \<sigma>" "tbl m' root \<rho> = Some a" "tbl m' root \<sigma> = Some a" for \<rho> \<sigma> a
    using that new_tbl [OF nt, of \<rho>] new_tbl [OF nt, of \<sigma>] tabsI [of _ m root pg] pg tree_inj [OF tree, of \<rho> \<sigma> a]
    by (auto split: if_splits)
  then show ?thesis using tree unfolding pt_tree_def by blast
qed

section \<open>Entries by virtual address\<close>

definition px :: "nat \<Rightarrow> addr \<Rightarrow> nat" where "px l va = unat (PX l va)"

definition vpn :: "addr \<Rightarrow> nat list" where "vpn va = [px 2 va, px 1 va, px 0 va]"

definition vpath :: "addr \<Rightarrow> nat list" where "vpath va = [px 2 va, px 1 va]"

definition leaf_table :: "memory \<Rightarrow> addr \<Rightarrow> addr \<Rightarrow> addr option" where
  "leaf_table m root va = tbl m root (vpath va)"

definition pte_val :: "memory \<Rightarrow> addr \<Rightarrow> addr \<Rightarrow> u64" where
  "pte_val m root va = (case leaf_table m root va of None \<Rightarrow> 0 | Some t \<Rightarrow> ent m t (px 0 va))"

lemma px_less [simp]: "px l va < 512"
  using PX_less [of l va] by (simp add: px_def word_less_nat_alt)

lemma pte_addr_slot: "pte_addr pt l va = slot pt (px l va)"
  by (simp add: pte_addr_def slot_def px_def)

lemma path_va [simp]: "path [px 2 va]" "path (vpath va)"
  by (simp_all add: path_def vpath_def)

lemma vpn_eq: "vpn va = vpn va' \<longleftrightarrow> vpath va = vpath va' \<and> px 0 va = px 0 va'"
  by (auto simp: vpn_def vpath_def)

lemma vpn_PGROUNDDOWN: "vpn (PGROUNDDOWN va) = vpn va"
proof -
  have "PX l (PGROUNDDOWN va) = PX l va" if "l \<le> 2" for l
    using that by (intro bit_word_eqI) (auto simp: bit_PX PGROUNDDOWN_alt bit_simps ac_simps)
  then show ?thesis by (simp add: vpn_def px_def)
qed

lemma vpn_inj:
  assumes "vpn va = vpn va'" "va < MAXVA" "va' < MAXVA"
  shows "PGROUNDDOWN va = PGROUNDDOWN va'"
proof -
  have "vpn (PGROUNDDOWN va) = vpn (PGROUNDDOWN va')" using assms(1) by (simp add: vpn_PGROUNDDOWN)
  moreover have "PGROUNDDOWN va < MAXVA" "PGROUNDDOWN va' < MAXVA"
    using assms(2,3) PGROUNDDOWN_le le_less_trans by blast+
  moreover from calculation(1) have "PX 2 (PGROUNDDOWN va) = PX 2 (PGROUNDDOWN va')"
      "PX 1 (PGROUNDDOWN va) = PX 1 (PGROUNDDOWN va')" "PX 0 (PGROUNDDOWN va) = PX 0 (PGROUNDDOWN va')"
    by (simp_all add: vpn_def px_def word_eq_unat_iff [of "PX _ (PGROUNDDOWN va)"])
  ultimately show ?thesis by - (rule PX_inj; simp)
qed

lemma pte_val_vpn: "vpn va = vpn va' \<Longrightarrow> pte_val m root va = pte_val m root va'"
  by (auto simp: vpn_eq pte_val_def leaf_table_def split: option.split)

lemma pte_val_frame:
  assumes "same_outside S m m'" "S \<inter> tabs m root = {}" "aligned root"
  shows "pte_val m' root va = pte_val m root va"
proof -
  have "ent m' t (px 0 va) = ent m t (px 0 va)" if "leaf_table m root va = Some t" for t
    using ent_outside [OF assms(1)] tabsI [of _ m root t] tbl_aligned [OF assms(3)] assms(2) that
    unfolding leaf_table_def by (meson disjoint_iff path_va(2) px_less)
  then show ?thesis using tbl_frame [OF assms] by (auto simp: pte_val_def leaf_table_def split: option.splits)
qed

lemma leaf_update:
  assumes tree: "pt_tree m root" and t: "leaf_table m root va = Some t" and same: "same_tables m m' root t (px 0 va)"
  shows "path \<rho> \<Longrightarrow> tbl m' root \<rho> = tbl m root \<rho>" and "tabs m' root = tabs m root" and "pt_tree m' root"
    and "pte_val m' root va' = (if vpn va' = vpn va then ent m' t (px 0 va) else pte_val m root va')"
proof -
  have tt: "tbl m root (vpath va) = Some t" using t by (simp add: leaf_table_def)
  show all: "path \<rho> \<Longrightarrow> tbl m' root \<rho> = tbl m root \<rho>" for \<rho>
    by (rule tbl_update_other [OF tree path_va(2) tt same]) (auto simp: path_def vpath_def dest: prefix_length_le)
  then show "tabs m' root = tabs m root" and "pt_tree m' root"
    using tree unfolding tabs_def pt_tree_def by (simp_all cong: conj_cong)
  show "pte_val m' root va' = (if vpn va' = vpn va then ent m' t (px 0 va) else pte_val m root va')"
  proof (cases "leaf_table m root va'")
    case None
    then have "vpn va' \<noteq> vpn va" using t by (auto simp: vpn_eq leaf_table_def)
    then show ?thesis using None all [OF path_va(2), of va'] by (simp add: pte_val_def leaf_table_def)
  next
    case (Some u)
    then have uu: "tbl m root (vpath va') = Some u" by (simp add: leaf_table_def)
    have l': "leaf_table m' root va' = Some u" using Some all [OF path_va(2)] by (simp add: leaf_table_def)
    show ?thesis
    proof (cases "vpn va' = vpn va")
      case True
      then show ?thesis using Some t l' by (auto simp: pte_val_def vpn_eq leaf_table_def)
    next
      case False
      have "(u, px 0 va') \<noteq> (t, px 0 va)" using False tree_inj [OF tree path_va(2) path_va(2), of va' _ va] tt uu by (auto simp: vpn_eq)
      then have "ent m' u (px 0 va') = ent m u (px 0 va')" using same uu path_va(2) px_less unfolding same_tables_def by blast
      then show ?thesis using False Some l' by (simp add: pte_val_def)
    qed
  qed
qed

end
