(* ===== verification/Vm_Spec.thy ===== *)
theory Vm_Spec
  imports Pagetable
begin

text \<open>
  Correctness of the address-space operations of \<^verbatim>\<open>kernel/vm.c\<close>. \<open>aspace s root\<close> says that
  \<open>root\<close> is a tree of exclusively owned table pages; \<open>pt_frame\<close> bounds what an operation on
  one address space may change. \<open>walk\<close> and \<open>mappages\<close> act on the map \<open>pte_val\<close> as a
  function update, and never change the memory or the mappings of anyone else.
\<close>

section \<open>Address spaces\<close>

definition aspace :: "'z kmem_scheme \<Rightarrow> addr \<Rightarrow> bool" where
  "aspace s root \<longleftrightarrow> kwf s \<and> pt_tree (ram s) root \<and>
     (\<forall>p\<in>tabs (ram s) root. ref_count s p = 1 \<and> lo_page s \<le> p \<and> p < NREF)"

definition pt_frame :: "'z kmem_scheme \<Rightarrow> 'z kmem_scheme \<Rightarrow> addr \<Rightarrow> bool" where
  "pt_frame s s' root \<longleftrightarrow>
     same_outside (free_of s \<union> tabs (ram s) root) (ram s) (ram s') \<and> free_of s' \<subseteq> free_of s \<and>
     tabs (ram s) root \<subseteq> tabs (ram s') root \<and> tabs (ram s') root \<subseteq> tabs (ram s) root \<union> free_of s \<and>
     (\<forall>i. i \<notin> free_of s \<longrightarrow> ref_count s' i = ref_count s i) \<and> kend s' = kend s"

lemma pt_frame_refl [simp]: "pt_frame s s root"
  by (auto simp: pt_frame_def)

lemma pt_frame_trans:
  assumes a: "pt_frame s s1 root" and b: "pt_frame s1 s2 root"
  shows "pt_frame s s2 root"
proof -
  let ?S = "free_of s \<union> tabs (ram s) root"
  have sub: "free_of s1 \<union> tabs (ram s1) root \<subseteq> ?S" using a by (auto simp: pt_frame_def)
  have o1: "same_outside ?S (ram s) (ram s1)" using a by (simp add: pt_frame_def)
  have o2: "same_outside (free_of s1 \<union> tabs (ram s1) root) (ram s1) (ram s2)" using b by (simp add: pt_frame_def)
  have out: "same_outside ?S (ram s) (ram s2)" by (rule same_outside_trans [OF o1 same_outside_mono [OF o2 sub]])
  have fr: "free_of s1 \<subseteq> free_of s" "free_of s2 \<subseteq> free_of s1" using a b by (simp_all add: pt_frame_def)
  have "ref_count s2 i = ref_count s i" if "i \<notin> free_of s" for i
  proof -
    have "i \<notin> free_of s1" using that fr by blast
    then show ?thesis using a b that by (simp add: pt_frame_def)
  qed
  moreover have "tabs (ram s) root \<subseteq> tabs (ram s1) root" "tabs (ram s1) root \<subseteq> tabs (ram s2) root"
      "tabs (ram s2) root \<subseteq> tabs (ram s1) root \<union> free_of s1" "kend s2 = kend s"
    using a b by (simp_all add: pt_frame_def)
  ultimately show ?thesis using out fr sub unfolding pt_frame_def by blast
qed

lemma aspace_aligned: "aspace s root \<Longrightarrow> aligned root"
  by (simp add: aspace_def pt_tree_def)

lemma aspace_not_free: "aspace s root \<Longrightarrow> p \<in> tabs (ram s) root \<Longrightarrow> p \<notin> free_of s"
  using kpa.avail_refs [of s p] by (force simp: aspace_def)

lemma table_addr:
  assumes "aspace s root" "path \<pi>" "tbl (ram s) root \<pi> = Some t"
  shows "aligned t" "lo_page s \<le> PA2IDX t" "PA2IDX t < NREF" "PA2IDX t \<in> tabs (ram s) root"
  using tbl_aligned [OF aspace_aligned [OF assms(1)] assms(3)] tabsI [OF assms(2,3)] assms(1)
  by (auto simp: aspace_def)

lemma slot_nonzero:
  assumes "aspace s root" "path \<pi>" "tbl (ram s) root \<pi> = Some t" "i < 512"
  shows "slot t i \<noteq> 0"
proof -
  have "kend_ok s" using assms(1) by (auto simp: aspace_def kwf_def kmem_inv_def)
  then have "0 < PA2IDX t" using table_addr [OF assms(1-3)] lo_page_bounds by fastforce
  then have "unat (slot t i) \<noteq> 0" using unat_slot [of t i] table_addr(1) [OF assms(1-3)] assms(4) by simp
  then show ?thesis by auto
qed

text \<open>Bookkeeping in the reverse map is invisible to everything else.\<close>

lemma rmap_irrelevant [simp]:
  "kwf (s\<lparr>reverse_map := r\<rparr>) = kwf s" "free_of (s\<lparr>reverse_map := r\<rparr>) = free_of s"
  "aspace (s\<lparr>reverse_map := r\<rparr>) root = aspace s root"
  "pt_frame s0 (s\<lparr>reverse_map := r\<rparr>) root = pt_frame s0 s root"
  "managed (s\<lparr>reverse_map := r\<rparr>) = managed s"
  by (auto simp: kwf_def free_of_def kmem_inv_def lo_page_def kend_ok_def aspace_def pt_frame_def managed_def)

lemma record_rmap_only: "\<exists>r. record_rmap pa pt va s = s\<lparr>reverse_map := r\<rparr>"
proof -
  have "s = s\<lparr>reverse_map := reverse_map s\<rparr>" by simp
  then show ?thesis unfolding record_rmap_def Let_def by metis
qed

lemma record_rmap_simps [simp]:
  "ram (record_rmap pa pt va s) = ram s" "ref_count (record_rmap pa pt va s) = ref_count s"
  "kwf (record_rmap pa pt va s) = kwf s" "free_of (record_rmap pa pt va s) = free_of s"
  "aspace (record_rmap pa pt va s) root = aspace s root"
  "pt_frame s0 (record_rmap pa pt va s) root = pt_frame s0 s root"
  "managed (record_rmap pa pt va s) = managed s" "lo_page (record_rmap pa pt va s) = lo_page s"
  using record_rmap_only [of pa pt va s] by (auto simp: lo_page_def)

text \<open>Another address space, with other table pages, is left alone.\<close>

lemma aspace_other:
  assumes "pt_frame s s' root" "aspace s root'" "kwf s'" "tabs (ram s) root \<inter> tabs (ram s) root' = {}"
  shows "aspace s' root'" and "pte_val (ram s') root' va = pte_val (ram s) root' va"
    and "tabs (ram s') root' = tabs (ram s) root'"
proof -
  have d: "(free_of s \<union> tabs (ram s) root) \<inter> tabs (ram s) root' = {}"
    using assms(4) aspace_not_free [OF assms(2)] by auto
  have o: "same_outside (free_of s \<union> tabs (ram s) root) (ram s) (ram s')" using assms(1) by (simp add: pt_frame_def)
  note al = aspace_aligned [OF assms(2)]
  show "pte_val (ram s') root' va = pte_val (ram s) root' va" by (rule pte_val_frame [OF o d al])
  show t: "tabs (ram s') root' = tabs (ram s) root'" by (rule tabs_frame(1) [OF o d al])
  have "lo_page s' = lo_page s" using assms(1) by (simp add: pt_frame_def lo_page_def)
  then show "aspace s' root'"
    using assms(1,2,3) t tabs_frame(2) [OF o d al] aspace_not_free [OF assms(2)]
    by (auto simp: aspace_def pt_frame_def)
qed

section \<open>walk\<close>

lemma walk_loop_ro:
  "walk_loop l pt va False s = Ok (case tbl (ram s) pt (map (\<lambda>k. px k va) (rev [1..<Suc l])) of
     None \<Rightarrow> 0 | Some t \<Rightarrow> slot t (px 0 va), s)"
  by (induction l arbitrary: pt) (auto simp: Let_def pte_addr_slot get_pte_def ent_def)

lemma walk_ro:
  assumes "va < MAXVA"
  shows "walk root va False s = Ok (case leaf_table (ram s) root va of None \<Rightarrow> 0 | Some t \<Rightarrow> slot t (px 0 va), s)"
proof -
  have "map (\<lambda>k. px k va) (rev [1..<Suc 2]) = vpath va" by (simp add: vpath_def numeral_2_eq_2)
  then show ?thesis using walk_loop_ro [of 2 root va s] assms by (simp add: walk_def leaf_table_def panic_if_def)
qed

lemma new_pte_val:
  assumes nt: "new_table m m' root \<pi> i t pg"
  shows "pte_val m' root va = pte_val m root va"
proof -
  have leaf: "leaf_table m' root va = (if vpath va = \<pi> @ [i] then Some pg else leaf_table m root va)"
    using new_tbl [OF nt path_va(2)] by (simp add: leaf_table_def)
  show ?thesis
  proof (cases "vpath va = \<pi> @ [i]")
    case True
    then have "leaf_table m root va = None"
      using nt tbl_none_below [of m root \<pi> t i "\<pi> @ [i]"] by (simp add: new_table_def leaf_table_def)
    then show ?thesis using True leaf nt by (simp add: pte_val_def new_table_def)
  next
    case False
    have "ent m' u (px 0 va) = ent m u (px 0 va)" if u: "leaf_table m root va = Some u" for u
    proof -
      have "u \<noteq> t"
      proof
        assume "u = t"
        then have "vpath va = \<pi>"
          using tree_inj [of m root "vpath va" \<pi> t] nt u path_butlast [of \<pi> i] by (auto simp: new_table_def leaf_table_def)
        moreover have "length \<pi> \<le> 1" using nt by (simp add: new_table_def path_snoc)
        ultimately show False by (auto simp: vpath_def)
      qed
      then show ?thesis using nt u path_va(2) [of va] px_less [of 0 va]
        unfolding new_table_def same_tables_def leaf_table_def by blast
    qed
    then show ?thesis using False leaf by (auto simp: pte_val_def split: option.splits)
  qed
qed

lemma pte_bit_iff:
  "e AND PTE_V \<noteq> 0 \<longleftrightarrow> bit e 0" "e AND PTE_R \<noteq> 0 \<longleftrightarrow> bit e 1" "e AND PTE_W \<noteq> 0 \<longleftrightarrow> bit e 2"
  "e AND PTE_X \<noteq> 0 \<longleftrightarrow> bit e 3" "e AND PTE_U \<noteq> 0 \<longleftrightarrow> bit e 4" "e AND PTE_COW \<noteq> 0 \<longleftrightarrow> bit e 8"
  unfolding pte_bits push_bit_of_1 by (simp_all only: and_exp_eq_0_iff_not_bit not_not)

lemma PTE_V_bits: "valid (x OR PTE_V)" "valid (x OR y OR PTE_V)"
  unfolding pte_bit_iff by (simp_all add: PTE_V_def bit_simps)

lemma table_entry: "aligned pg \<Longrightarrow> PTE2PA (PA2PTE pg OR PTE_V) = pg"
  using PTE2PA_PA2PTE [of pg PTE_V] by (simp add: aligned_def PTE_V_def)

lemma set_pte_aspace:
  assumes asp: "aspace s root" and t: "path \<pi>" "tbl (ram s) root \<pi> = Some t" "i < 512"
  shows "kwf (set_pte (slot t i) e s)" "free_of (set_pte (slot t i) e s) = free_of s"
proof -
  note ta = table_addr [OF asp t(1,2)]
  have "PA2IDX t \<notin> free_of s" using aspace_not_free [OF asp ta(4)] .
  then show "kwf (set_pte (slot t i) e s)" "free_of (set_pte (slot t i) e s) = free_of s"
    using kpa.write_frame [OF _ store_outside [OF ta(1) t(3), of "{PA2IDX t}"]] asp
    by (auto simp: set_pte_def aspace_def)
qed

text \<open>One level of \<open>walk\<close> that has to allocate a table.\<close>

lemma grow_table:
  assumes asp: "aspace s root" and \<pi>: "path (\<pi> @ [i])" and t: "tbl (ram s) root \<pi> = Some t"
    and free: "\<not> valid (ent (ram s) t i)" and al: "kalloc s = Ok (pg, s1)" "pg \<noteq> 0"
  defines "s2 \<equiv> set_pte (slot t i) (PA2PTE pg OR PTE_V) (zero_page pg s1)"
  shows "aspace s2 root" and "new_table (ram s) (ram s2) root \<pi> i t pg" and "pt_frame s s2 root"
proof -
  have wf: "kwf s" and tree: "pt_tree (ram s) root" using asp by (auto simp: aspace_def)
  note \<pi>' = path_butlast [OF \<pi>]
  note ta = table_addr [OF asp conjunct1 [OF \<pi>'] t]
  note got = kalloc_got [OF wf al]
  have pa: "aligned pg" using got(2) by (simp add: managed_def aligned_def)
  have ptab: "PA2IDX pg \<notin> tabs (ram s) root" using aspace_not_free [OF asp] got(3) by blast
  then have tpg: "t \<noteq> pg" using ta(4) by auto
  let ?m1 = "memset (ram s1) pg 0 4096"
  have m2: "ram s2 = store64 ?m1 (slot t i) (PA2PTE pg OR PTE_V)" by (simp add: s2_def set_pte_def zero_page_def)
  have ent2: "ent (ram s2) u j = (if t = u \<and> i = j then PA2PTE pg OR PTE_V else if u = pg then 0 else ent (ram s1) u j)"
    if "aligned u" "j < 512" for u j
    unfolding m2 using ent_store [OF ta(1) that(1) _ that(2)] \<pi>' ent_zero_page [OF pa that] by auto
  have keep: "ent (ram s1) u j = ent (ram s) u j" if "aligned u" "PA2IDX u \<in> tabs (ram s) root" "j < 512" for u j
    using ent_outside [OF got(5)] aspace_not_free [OF asp] that by blast
  have same: "same_tables (ram s) (ram s2) root t i"
    unfolding same_tables_def
  proof (intro allI impI, elim conjE)
    fix \<rho> a j assume h: "path \<rho>" "tbl (ram s) root \<rho> = Some a" "j < 512" "(a, j) \<noteq> (t, i)"
    note aa = table_addr [OF asp h(1,2)]
    have "a \<noteq> pg" using aa(4) ptab by auto
    then show "ent (ram s2) a j = ent (ram s) a j" using ent2 [OF aa(1) h(3)] keep [OF aa(1,4) h(3)] h(4) by auto
  qed
  have new: "ent (ram s2) t i = PA2PTE pg OR PTE_V" using ent2 [OF ta(1)] \<pi>' by simp
  show nt: "new_table (ram s) (ram s2) root \<pi> i t pg"
    unfolding new_table_def
    using tree \<pi> t free pa ptab same new PTE_V_bits(1) table_entry [OF pa] ent2 [OF pa] tpg by auto
  have o1: "same_outside (free_of s \<union> tabs (ram s) root) (ram s) ?m1"
    using same_outside_trans [OF same_outside_mono [OF got(5)] zero_page_outside [OF pa]] got(3) by blast
  have o2: "same_outside (free_of s \<union> tabs (ram s) root) (ram s) (ram s2)"
    unfolding m2 using same_outside_trans [OF o1 store_outside [OF ta(1)]] \<pi>' ta(4) by blast
  have z: "kwf (zero_page pg s1) \<and> free_of (zero_page pg s1) = free_of s1"
    unfolding zero_page_def using kpa.write_frame [OF got(1) zero_page_outside [OF pa, of "{PA2IDX pg}"]] got(4) by auto
  have w: "kwf s2 \<and> free_of s2 = free_of s1"
    unfolding s2_def set_pte_def
    using kpa.write_frame [OF conjunct1 [OF z] store_outside [OF ta(1), of i "{PA2IDX t}"]] z \<pi>' got(4) aspace_not_free [OF asp ta(4)]
    by auto
  have f: "ref_count s2 = (ref_count s)(PA2IDX pg := 1)" "kend s2 = kend s" "lo_page s2 = lo_page s"
    using got(6,8) by (auto simp: s2_def set_pte_def zero_page_def lo_page_def)
  show "pt_frame s s2 root" using o2 w got(3,4) new_tabs [OF nt] f by (auto simp: pt_frame_def)
  show "aspace s2 root" using asp w new_tree [OF nt] new_tabs [OF nt] f got(2) by (auto simp: aspace_def managed_def)
qed

text \<open>What \<open>walk\<close> with \<open>alloc\<close> promises: the map is unchanged, and the entry exists unless memory ran out.\<close>

definition walk_post :: "'z kmem_scheme \<Rightarrow> addr \<Rightarrow> addr \<Rightarrow> addr \<Rightarrow> 'z kmem_scheme \<Rightarrow> bool" where
  "walk_post s root va a s' \<longleftrightarrow> aspace s' root \<and> pt_frame s s' root \<and>
     (\<forall>v. pte_val (ram s') root v = pte_val (ram s) root v) \<and>
     (if a = 0 then free_of s' = {} else \<exists>t. leaf_table (ram s') root va = Some t \<and> a = slot t (px 0 va))"

lemma walk_post_trans:
  "pt_frame s s1 root \<Longrightarrow> (\<forall>v. pte_val (ram s1) root v = pte_val (ram s) root v) \<Longrightarrow> walk_post s1 root va a s' \<Longrightarrow> walk_post s root va a s'"
  using pt_frame_trans [of s s1 root s'] by (simp add: walk_post_def)

lemma vpath_take: "l \<le> 1 \<Longrightarrow> take (2 - l) (vpath va) = take (2 - Suc l) (vpath va) @ [px (Suc l) va]"
  by (cases l) (auto simp: vpath_def numeral_2_eq_2)

lemma path_take: "path (take n (vpath va))"
  using path_va(2) [of va] set_take_subset [of n "vpath va"] by (auto simp: path_def)

lemma walk_loop_alloc:
  assumes "aspace s root" "l \<le> 2" "tbl (ram s) root (take (2 - l) (vpath va)) = Some t"
  shows "\<exists>a s'. walk_loop l t va True s = Ok (a, s') \<and> walk_post s root va a s'"
  using assms
proof (induction l arbitrary: s t)
  case 0
  have "tbl (ram s) root (vpath va) = Some t" using 0(3) by (simp add: vpath_def)
  then show ?case using 0(1) slot_nonzero [OF 0(1) path_va(2)]
    by (auto simp: walk_post_def pte_addr_slot leaf_table_def)
next
  case (Suc l)
  let ?\<pi> = "take (2 - Suc l) (vpath va)" and ?i = "px (Suc l) va"
  have l: "l \<le> 1" using Suc.prems(2) by simp
  note vt = vpath_take [OF l, of va]
  have \<pi>: "path (?\<pi> @ [?i])" using path_take [of "2 - l" va] vt by simp
  have e: "get_pte (pte_addr t (Suc l) va) s = ent (ram s) t ?i" by (simp add: get_pte_def pte_addr_slot ent_def)
  show ?case
  proof (cases "valid (ent (ram s) t ?i)")
    case True
    then have "tbl (ram s) root (take (2 - l) (vpath va)) = Some (PTE2PA (ent (ram s) t ?i))"
      using Suc.prems(3) unfolding vt by (simp add: tbl_snoc)
    then show ?thesis using Suc.IH [OF Suc.prems(1)] l True e by simp
  next
    case False
    have wf: "kwf s" using Suc.prems(1) by (simp add: aspace_def)
    then obtain pg s1 where al: "kalloc s = Ok (pg, s1)" using kpa.alloc_total by blast
    show ?thesis
    proof (cases "pg = 0")
      case True
      have "s1 = s \<and> free_of s = {}" using wf al by (cases rule: kpa.alloc_cases) (use True in auto)
      then show ?thesis using True al False e Suc.prems(1) by (simp add: walk_post_def)
    next
      case pg: False
      let ?s2 = "set_pte (slot t ?i) (PA2PTE pg OR PTE_V) (zero_page pg s1)"
      note g = grow_table [OF Suc.prems(1) \<pi> Suc.prems(3) False al pg]
      have "tbl (ram ?s2) root (take (2 - l) (vpath va)) = Some pg" unfolding vt using new_tbl [OF g(2) \<pi>] by simp
      then obtain a s' where w: "walk_loop l pg va True ?s2 = Ok (a, s')" "walk_post ?s2 root va a s'"
        using Suc.IH [OF g(1)] l by auto
      have "walk_loop (Suc l) t va True s = Ok (a, s')" using al pg False e w(1) by (simp add: pte_addr_slot)
      then show ?thesis using walk_post_trans [OF g(3) _ w(2)] new_pte_val [OF g(2)] by blast
    qed
  qed
qed

lemma walk_alloc:
  assumes "aspace s root" "va < MAXVA"
  shows "\<exists>a s'. walk root va True s = Ok (a, s') \<and> walk_post s root va a s'"
  using walk_loop_alloc [OF assms(1), of 2 va root] assms(2) by (simp add: walk_def panic_if_def)

section \<open>Writing one entry\<close>

lemma same_tables_store:
  assumes "aspace s root" "aligned t" "i < 512"
  shows "same_tables (ram s) (store64 (ram s) (slot t i) e) root t i"
  unfolding same_tables_def
proof (intro allI impI, elim conjE)
  fix \<rho> a j assume h: "path \<rho>" "tbl (ram s) root \<rho> = Some a" "j < 512" "(a, j) \<noteq> (t, i)"
  have "aligned a" by (rule table_addr(1) [OF assms(1) h(1,2)])
  then show "ent (store64 (ram s) (slot t i) e) a j = ent (ram s) a j"
    using ent_store [OF assms(2) _ assms(3) h(3), of a] h(4) by auto
qed

lemma set_leaf:
  fixes e :: u64
  assumes asp: "aspace s root" and t: "leaf_table (ram s) root va = Some t"
  defines "s' \<equiv> set_pte (slot t (px 0 va)) e s"
  shows "aspace s' root" and "pt_frame s s' root"
    and "pte_val (ram s') root v = (if vpn v = vpn va then e else pte_val (ram s) root v)"
    and "leaf_table (ram s') root v = leaf_table (ram s) root v"
    and "free_of s' = free_of s" and "tabs (ram s') root = tabs (ram s) root"
proof -
  have tt: "tbl (ram s) root (vpath va) = Some t" using t by (simp add: leaf_table_def)
  note ta = table_addr [OF asp path_va(2) tt] and sp = set_pte_aspace [OF asp path_va(2) tt px_less [of 0 va], of e]
  have tree: "pt_tree (ram s) root" using asp by (simp add: aspace_def)
  have m: "ram s' = store64 (ram s) (slot t (px 0 va)) e" by (simp add: s'_def set_pte_def)
  have st: "same_tables (ram s) (ram s') root t (px 0 va)"
    unfolding m by (rule same_tables_store [OF asp ta(1) px_less])
  note lu = leaf_update [OF tree t st]
  show "pte_val (ram s') root v = (if vpn v = vpn va then e else pte_val (ram s) root v)"
    unfolding lu(4) using ent_store [OF ta(1) ta(1) px_less px_less] by (simp add: m)
  show "leaf_table (ram s') root v = leaf_table (ram s) root v"
    using lu(1) [OF path_va(2)] by (simp add: leaf_table_def)
  show "free_of s' = free_of s" "tabs (ram s') root = tabs (ram s) root" using sp(2) lu(2) by (simp_all add: s'_def)
  have f: "ref_count s' = ref_count s" "kend s' = kend s" by (simp_all add: s'_def set_pte_def)
  show "aspace s' root" using asp sp(1) lu(2,3) f unfolding s'_def [symmetric] by (simp add: aspace_def lo_page_def)
  show "pt_frame s s' root" using sp(2) lu(2) f store_outside [OF ta(1) px_less] ta(4) unfolding s'_def [symmetric]
    by (auto simp: pt_frame_def m)
qed

section \<open>mappages\<close>

text \<open>The reference: \<open>n\<close> successive pages mapped to \<open>n\<close> successive frames, as an update of the map.\<close>

primrec map_upd :: "nat \<Rightarrow> addr \<Rightarrow> addr \<Rightarrow> u64 \<Rightarrow> (addr \<Rightarrow> u64) \<Rightarrow> addr \<Rightarrow> u64" where
  "map_upd 0 a pa perm f = f"
| "map_upd (Suc n) a pa perm f =
     map_upd n (a + PGSIZE) (pa + PGSIZE) perm (\<lambda>v. if vpn v = vpn a then PA2PTE pa OR perm OR PTE_V else f v)"

definition map_post ::
  "'z kmem_scheme \<Rightarrow> addr \<Rightarrow> addr \<Rightarrow> nat \<Rightarrow> addr \<Rightarrow> u64 \<Rightarrow> int \<Rightarrow> 'z kmem_scheme \<Rightarrow> bool" where
  "map_post s root a k pa perm r s' \<longleftrightarrow> aspace s' root \<and> pt_frame s s' root \<and>
     (r = 0 \<and> pte_val (ram s') root = map_upd k a pa perm (pte_val (ram s) root) \<or>
      r = - 1 \<and> free_of s' = {} \<and> (\<exists>n<k. pte_val (ram s') root = map_upd n a pa perm (pte_val (ram s) root)))"

text \<open>Mapping the page at \<open>a\<close>, one turn of the loop.\<close>

lemma map_step_cases:
  fixes perm :: u64
  assumes asp: "aspace s root" and a: "a < MAXVA" and inv: "\<not> valid (pte_val (ram s) root a)"
  obtains (fail) s' where "walk_post s root a 0 s'"
      "\<And>k last_a. mappages_loop (Suc k) root a last_a pa perm s = Ok (- 1, s')"
  | (ok) s' where "aspace s' root" "pt_frame s s' root"
      "pte_val (ram s') root = (\<lambda>v. if vpn v = vpn a then PA2PTE pa OR perm OR PTE_V else pte_val (ram s) root v)"
      "\<And>k last_a. mappages_loop (Suc k) root a last_a pa perm s =
         (if a = last_a then Ok (0, s') else mappages_loop k root (a + PGSIZE) last_a (pa + PGSIZE) perm s')"
proof -
  obtain pte s1 where w: "walk root a True s = Ok (pte, s1)" "walk_post s root a pte s1"
    using walk_alloc [OF asp a] by blast
  show thesis
  proof (cases "pte = 0")
    case True
    then show thesis using w by (intro fail [of s1]) auto
  next
    case False
    then obtain t where t: "leaf_table (ram s1) root a = Some t" "pte = slot t (px 0 a)"
      using w(2) by (auto simp: walk_post_def)
    have asp1: "aspace s1 root" and fr: "pt_frame s s1 root" and same: "\<forall>v. pte_val (ram s1) root v = pte_val (ram s) root v"
      using w(2) by (simp_all add: walk_post_def)
    have "get_pte pte s1 = pte_val (ram s1) root a" using t by (simp add: get_pte_def pte_val_def ent_def)
    then have nv: "\<not> valid (get_pte pte s1)" using inv same by simp
    note sl = set_leaf [OF asp1 t(1), of "PA2PTE pa OR perm OR PTE_V", folded t(2)]
    let ?s2 = "set_pte pte (PA2PTE pa OR perm OR PTE_V) s1"
    let ?s3 = "if perm AND PTE_U \<noteq> 0 then record_rmap pa root a ?s2 else ?s2"
    show thesis
    proof (rule ok [of ?s3])
      show "aspace ?s3 root" "pt_frame s ?s3 root" using sl(1) pt_frame_trans [OF fr sl(2)] by simp_all
      show "pte_val (ram ?s3) root = (\<lambda>v. if vpn v = vpn a then PA2PTE pa OR perm OR PTE_V else pte_val (ram s) root v)"
        using sl(3) same by auto
    qed (use w(1) False nv in \<open>auto simp: Let_def\<close>)
  qed
qed

text \<open>The virtual pages \<open>a, a + PGSIZE, \<dots>\<close> of a mapping: aligned, in range, and not mapped yet.\<close>

fun unmapped_run :: "nat \<Rightarrow> addr \<Rightarrow> (addr \<Rightarrow> u64) \<Rightarrow> bool" where
  "unmapped_run 0 a f \<longleftrightarrow> True"
| "unmapped_run (Suc n) a f \<longleftrightarrow> a < MAXVA \<and> \<not> valid (f a) \<and> unmapped_run n (a + PGSIZE) f"

lemma run_vpn_distinct:
  assumes "unmapped_run n b f" "a < b" "a < MAXVA" "aligned a" "aligned b" "unat b + n * 4096 < 2 ^ 64"
  shows "unmapped_run n b (\<lambda>v. if vpn v = vpn a then e else f v)"
  using assms
proof (induction n arbitrary: b)
  case (Suc n)
  have "vpn b \<noteq> vpn a"
    using vpn_inj [of b a] Suc.prems by (auto simp: aligned_def PGROUNDDOWN_id)
  moreover have u: "unat (b + PGSIZE) = unat b + 4096"
    using Suc.prems(6) unat_add_of_nat [of b 4096] by (simp add: PGSIZE_def)
  moreover have "a < b + PGSIZE" using Suc.prems(2) u by (simp add: word_less_nat_alt)
  moreover have "aligned (b + PGSIZE)" using Suc.prems(5) u by (simp add: aligned_def page_aligned_iff)
  ultimately show ?case using Suc by auto
qed simp

lemma next_page:
  assumes "aligned a" "unat a + 4096 < 2 ^ 64"
  shows "unat (a + PGSIZE) = unat a + 4096" "aligned (a + PGSIZE)" "a < a + PGSIZE"
proof -
  show u: "unat (a + PGSIZE) = unat a + 4096"
    using assms(2) unat_add_of_nat [of a 4096] by (simp add: PGSIZE_def)
  show "aligned (a + PGSIZE)" using assms(1) u by (simp add: aligned_def page_aligned_iff)
  show "a < a + PGSIZE" using u by (simp add: word_less_nat_alt)
qed

lemma mappages_loop_correct:
  assumes "aspace s root" "unmapped_run (Suc k) a (pte_val (ram s) root)" "aligned a"
    and "unat a + Suc k * 4096 < 2 ^ 64" "last_a = a + of_nat k * PGSIZE"
  shows "\<exists>r s'. mappages_loop (Suc k) root a last_a pa perm s = Ok (r, s') \<and> map_post s root a (Suc k) pa perm r s'"
  using assms
proof (induction k arbitrary: s a pa)
  case (0 s a pa)
  have a: "a < MAXVA" "\<not> valid (pte_val (ram s) root a)" using 0(2) by simp_all
  show ?case
    by (rule map_step_cases [OF 0(1) a, of pa perm]) (use 0(5) in \<open>auto simp: map_post_def walk_post_def simp del: mappages_loop.simps\<close>)
next
  case (Suc k s a pa)
  have a: "a < MAXVA" "\<not> valid (pte_val (ram s) root a)" and run: "unmapped_run (Suc k) (a + PGSIZE) (pte_val (ram s) root)"
    using Suc.prems(2) by simp_all
  have "unat a + 4096 < 2 ^ 64" using Suc.prems(4) by simp
  note np = next_page [OF Suc.prems(3) this]
  have bnd: "unat (a + PGSIZE) + Suc k * 4096 < 2 ^ 64" using Suc.prems(4) np(1) by simp
  have last: "last_a = (a + PGSIZE) + of_nat k * PGSIZE" using Suc.prems(5) by (simp add: algebra_simps)
  have "unat last_a = unat (a + PGSIZE) + k * 4096"
    unfolding last using unat_add_of_nat [of "a + PGSIZE" "k * 4096"] bnd by (simp add: PGSIZE_def)
  then have ne: "a \<noteq> last_a" using np(1) by auto
  show ?case
  proof (rule map_step_cases [OF Suc.prems(1) a, of pa perm])
    fix s' assume w: "walk_post s root a 0 s'" "\<And>k last_a. mappages_loop (Suc k) root a last_a pa perm s = Ok (- 1, s')"
    have "map_post s root a (Suc (Suc k)) pa perm (- 1) s'"
      using w(1) by (auto simp: map_post_def walk_post_def intro!: exI [of _ 0])
    then show ?thesis using w(2) by blast
  next
    fix s' assume post: "aspace s' root" "pt_frame s s' root"
        "pte_val (ram s') root = (\<lambda>v. if vpn v = vpn a then PA2PTE pa OR perm OR PTE_V else pte_val (ram s) root v)"
      and step: "\<And>k last_a. mappages_loop (Suc k) root a last_a pa perm s =
         (if a = last_a then Ok (0, s') else mappages_loop k root (a + PGSIZE) last_a (pa + PGSIZE) perm s')"
    have "unmapped_run (Suc k) (a + PGSIZE) (pte_val (ram s') root)"
      unfolding post(3) by (rule run_vpn_distinct [OF run np(3) a(1) Suc.prems(3) np(2) bnd])
    then obtain r s3 where r: "mappages_loop (Suc k) root (a + PGSIZE) last_a (pa + PGSIZE) perm s' = Ok (r, s3)"
        "map_post s' root (a + PGSIZE) (Suc k) (pa + PGSIZE) perm r s3"
      using Suc.IH [OF post(1) _ np(2) bnd last] by blast
    have "map_post s root a (Suc (Suc k)) pa perm r s3"
      using r(2) pt_frame_trans [OF post(2)] post(3) unfolding map_post_def
      by (auto intro!: exI [of _ "Suc _"])
    then show ?thesis using step ne r(1) by auto
  qed
qed

lemma unmapped_runI:
  assumes "unat a + n * 4096 \<le> 2 ^ 38" "aligned a" "\<forall>v. a \<le> v \<and> unat v < unat a + n * 4096 \<longrightarrow> \<not> valid (f v)"
  shows "unmapped_run n a f"
  using assms
proof (induction n arbitrary: a)
  case (Suc n)
  have np: "unat (a + PGSIZE) = unat a + 4096" "aligned (a + PGSIZE)" "a < a + PGSIZE"
    using next_page [OF Suc.prems(2)] Suc.prems(1) by auto
  have "unmapped_run n (a + PGSIZE) f"
  proof (rule Suc.IH)
    show "\<forall>v. a + PGSIZE \<le> v \<and> unat v < unat (a + PGSIZE) + n * 4096 \<longrightarrow> \<not> valid (f v)"
      using Suc.prems(3) np by (auto simp: word_le_nat_alt)
  qed (use Suc.prems(1) np in auto)
  moreover have "a < MAXVA" using Suc.prems(1) by (simp add: word_less_nat_alt MAXVA_def)
  moreover have "\<not> valid (f a)" using Suc.prems(3) by auto
  ultimately show ?case by simp
qed simp

lemma mappages_correct:
  assumes asp: "aspace s root" and va: "aligned va" and sz: "aligned sz" "sz \<noteq> 0" "unat va + unat sz \<le> 2 ^ 38"
    and un: "\<forall>v. va \<le> v \<and> unat v < unat va + unat sz \<longrightarrow> \<not> valid (pte_val (ram s) root v)"
  shows "\<exists>r s'. mappages root va sz pa perm s = Ok (r, s') \<and> map_post s root va (unat sz div 4096) pa perm r s'"
proof -
  define k where "k = unat sz div 4096 - 1"
  have uz: "unat sz mod 4096 = 0" "0 < unat sz" using sz by (auto simp: aligned_def page_aligned_iff unat_gt_0)
  then have k: "unat sz div 4096 = Suc k" "unat sz = Suc k * 4096" unfolding k_def by auto
  have szw: "sz = of_nat (Suc k * 4096)" using k(2) by (metis of_nat_unat ucast_id)
  have last: "va + sz - PGSIZE = va + of_nat k * PGSIZE" unfolding szw by (simp add: PGSIZE_def algebra_simps)
  have run: "unmapped_run (Suc k) va (pte_val (ram s) root)" by (rule unmapped_runI) (use va sz un k in auto)
  have "unat va + Suc k * 4096 < 2 ^ 64" using sz(3) k(2) by simp
  from mappages_loop_correct [OF asp run va this last, of pa perm]
  show ?thesis unfolding mappages_def using va sz k by (simp add: aligned_def unat_div PGSIZE_def)
qed

end
