(* ===== verification/Vm_Cow.thy ===== *)
theory Vm_Cow
  imports Vm_Spec
begin

text \<open>
  Copy-on-write. \<open>uvmcopy\<close> shares every user page of the parent with the child and takes the
  write permission away on both sides; a later write fault gives the faulting process a
  private copy (or the page itself, when nobody else refers to it). The theorems say that
  the two address spaces see the same bytes and cannot write to a page the other one sees.
\<close>

section \<open>The user's view\<close>

definition user_byte :: "memory \<Rightarrow> addr \<Rightarrow> addr \<Rightarrow> u8" where
  "user_byte m root va = m (PTE2PA (pte_val m root va) + of_nat (unat va mod 4096))"

text \<open>A frame that user memory may live in: managed, referenced, and not a page table of \<open>roots\<close>.\<close>

definition user_frame :: "'z kmem_scheme \<Rightarrow> addr set \<Rightarrow> addr \<Rightarrow> bool" where
  "user_frame s roots pa \<longleftrightarrow> managed s pa \<and> 0 < ref_count s (PA2IDX pa) \<and>
     (\<forall>root\<in>roots. PA2IDX pa \<notin> tabs (ram s) root)"

lemma user_frame_not_free: "kwf s \<Longrightarrow> user_frame s R pa \<Longrightarrow> PA2IDX pa \<notin> free_of s"
  using kpa.avail_refs [of s "PA2IDX pa"] by (auto simp: user_frame_def)

lemma byte_in_page: "aligned pa \<Longrightarrow> i < 4096 \<Longrightarrow> PA2IDX (pa + of_nat i) = PA2IDX pa"
  using PA2IDX_off [of "PA2IDX pa" i] PA2IDX_less [of pa] aligned_paddr [of pa] by simp

lemma frame_bytes:
  assumes "pt_frame s s' root" "kwf s" "user_frame s R pa" "root \<in> R" "i < 4096"
  shows "ram s' (pa + of_nat i) = ram s (pa + of_nat i)"
proof -
  have "aligned pa" "PA2IDX pa \<notin> tabs (ram s) root" using assms(3,4) by (auto simp: user_frame_def managed_def aligned_def)
  then have "PA2IDX (pa + of_nat i) \<notin> free_of s \<union> tabs (ram s) root"
    using byte_in_page assms(5) user_frame_not_free [OF assms(2,3)] by simp
  then show ?thesis using assms(1) unfolding pt_frame_def same_outside_def by blast
qed

lemma frame_user_frame:
  assumes "pt_frame s s' root" "kwf s" "user_frame s R pa" "R = {root, root'}" "tabs (ram s') root' = tabs (ram s) root'"
  shows "user_frame s' R pa"
proof -
  have nf: "PA2IDX pa \<notin> free_of s" by (rule user_frame_not_free [OF assms(2,3)])
  have "PA2IDX pa \<notin> tabs (ram s') root" using assms(1,3,4) nf by (auto simp: pt_frame_def user_frame_def)
  moreover have "managed s' pa = managed s pa" using assms(1) by (simp add: pt_frame_def managed_def lo_page_def)
  moreover have "ref_count s' (PA2IDX pa) = ref_count s (PA2IDX pa)" using assms(1) nf by (simp add: pt_frame_def)
  ultimately show ?thesis using assms(3,4,5) by (auto simp: user_frame_def)
qed

section \<open>Reference counts of pages in use\<close>

lemma ref_update:
  assumes "kwf s" "i \<notin> free_of s"
  shows "kwf (s\<lparr>ref_count := (ref_count s)(i := c)\<rparr>)" "free_of (s\<lparr>ref_count := (ref_count s)(i := c)\<rparr>) = free_of s"
proof -
  obtain bs where inv: "kmem_inv s bs" using assms(1) by (auto simp: kwf_def)
  have f: "free_of s = free_pages bs" by (rule free_of_eq [OF inv])
  have inv': "kmem_inv (s\<lparr>ref_count := (ref_count s)(i := c)\<rparr>) bs"
    by (rule kmem_inv_frame [OF inv, where S = "{}"]) (use assms(2) f in auto)
  then show "kwf (s\<lparr>ref_count := (ref_count s)(i := c)\<rparr>)" by (auto simp: kwf_def)
  show "free_of (s\<lparr>ref_count := (ref_count s)(i := c)\<rparr>) = free_of s" using free_of_eq [OF inv'] f by simp
qed

lemma ref_update_aspace:
  assumes "aspace s root" "i \<notin> free_of s" "i \<notin> tabs (ram s) root"
  shows "aspace (s\<lparr>ref_count := (ref_count s)(i := c)\<rparr>) root"
  using assms ref_update(1) [of s i c] by (auto simp: aspace_def lo_page_def)

lemma managed_ref: "managed s pa \<Longrightarrow> \<not> NREF \<le> PA2IDX pa"
  by (simp add: managed_def)

section \<open>One page of uvmcopy\<close>

definition share :: "u64 \<Rightarrow> u64" where
  "share e = PA2PTE (PTE2PA e) OR cow_flags (PTE_FLAGS e)"

lemma bit_PTE:
  "bit PTE_V n \<longleftrightarrow> n = 0" "bit PTE_R n \<longleftrightarrow> n = 1" "bit PTE_W n \<longleftrightarrow> n = 2" "bit PTE_X n \<longleftrightarrow> n = 3"
  "bit PTE_U n \<longleftrightarrow> n = 4" "bit PTE_COW n \<longleftrightarrow> n = 8"
  unfolding pte_bits push_bit_of_1 bit_exp_iff by auto

lemma bit_PTE_FLAGS: "bit (PTE_FLAGS e) n \<longleftrightarrow> n < 10 \<and> bit e n"
proof -
  have m: "(0x3FF :: u64) = mask 10" by (simp add: mask_eq_exp_minus_1)
  show ?thesis unfolding PTE_FLAGS_def m by (auto simp: bit_simps)
qed

lemma cow_flags_less: "f < 1024 \<Longrightarrow> cow_flags f < 1024"
proof -
  assume f: "f < 1024"
  have hi: "\<not> bit (cow_flags f) n" if "10 \<le> n" for n
    using bit_small_word [of f 10 n] f that by (auto simp: cow_flags_def bit_simps bit_PTE)
  have "take_bit 10 (cow_flags f) = cow_flags f"
    by (rule bit_word_eqI) (use hi in \<open>auto simp: bit_simps simp flip: not_le\<close>)
  then have "unat (cow_flags f) = take_bit 10 (unat (cow_flags f))" by (metis unsigned_take_bit_eq)
  then show ?thesis using take_bit_nat_less_exp [of 10 "unat (cow_flags f)"] by (simp add: word_less_nat_alt)
qed

lemma cow_flags_bits:
  "bit (cow_flags f) 0 = bit f 0" "bit (cow_flags f) 2 = False" "bit (cow_flags f) 8 = (bit f 8 \<or> bit f 2)"
  "bit (cow_flags f) 4 = bit f 4" "bit (cow_flags f) 1 = bit f 1" "bit (cow_flags f) 3 = bit f 3"
  unfolding cow_flags_def pte_bit_iff by (auto simp: bit_PTE bit_simps)

lemma share_PA: "PTE2PA (share e) = PTE2PA e"
  unfolding share_def using PTE2PA_PA2PTE [of "PTE2PA e"] cow_flags_less [OF PTE_FLAGS_less] by simp

lemma share_flags: "n < 10 \<Longrightarrow> bit (share e) n = bit (cow_flags (PTE_FLAGS e)) n"
proof -
  assume n: "n < 10"
  have "PTE_FLAGS (share e) = cow_flags (PTE_FLAGS e)"
    unfolding share_def using PTE_FLAGS_PA2PTE cow_flags_less [OF PTE_FLAGS_less] by blast
  then show ?thesis using bit_PTE_FLAGS [of "share e" n] n by simp
qed

lemma share_other: "n < 10 \<Longrightarrow> n \<noteq> 2 \<Longrightarrow> n \<noteq> 8 \<Longrightarrow> bit (share e) n = bit e n"
  unfolding share_flags cow_flags_def pte_bit_iff by (auto simp: bit_PTE bit_simps bit_PTE_FLAGS)

lemma share_bits: "bit (share e) 0 = bit e 0" "\<not> bit (share e) 2" "bit (share e) 8 = (bit e 8 \<or> bit e 2)"
  by (simp_all add: share_flags cow_flags_bits bit_PTE_FLAGS)

lemma get_leaf: "get_pte (slot t (px 0 va)) s = ent (ram s) t (px 0 va)"
  by (simp add: get_pte_def ent_def)

lemma share_or_V: "bit e 0 \<Longrightarrow> PA2PTE (PTE2PA e) OR cow_flags (PTE_FLAGS e) OR PTE_V = share e"
  unfolding share_def
  by (rule bit_word_eqI) (auto simp: bit_simps bit_PTE cow_flags_bits(1) bit_PTE_FLAGS)

text \<open>What the parent's entry becomes: it is rewritten only when it was writable.\<close>

definition parent_pte :: "u64 \<Rightarrow> u64" where
  "parent_pte e = (if bit e 2 then share e else e)"

lemma parent_pte_props: "PTE2PA (parent_pte e) = PTE2PA e" "\<not> bit (parent_pte e) 2" "bit (parent_pte e) 0 = bit e 0"
    "bit (parent_pte e) 8 = (bit e 8 \<or> bit e 2)" "n < 10 \<Longrightarrow> n \<noteq> 2 \<Longrightarrow> n \<noteq> 8 \<Longrightarrow> bit (parent_pte e) n = bit e n"
  using share_PA share_bits share_other by (auto simp: parent_pte_def)

definition two_spaces :: "'z kmem_scheme \<Rightarrow> addr \<Rightarrow> addr \<Rightarrow> bool" where
  "two_spaces s old new \<longleftrightarrow> aspace s old \<and> aspace s new \<and> tabs (ram s) old \<inter> tabs (ram s) new = {}"

text \<open>What holds of every frame in use across a step that changes its count by \<open>d\<close>.\<close>

definition frames_kept :: "'z kmem_scheme \<Rightarrow> 'z kmem_scheme \<Rightarrow> addr \<Rightarrow> addr \<Rightarrow> (addr \<Rightarrow> int) \<Rightarrow> bool" where
  "frames_kept s s' old new d \<longleftrightarrow> (\<forall>pa. user_frame s {old, new} pa \<longrightarrow>
     user_frame s' {old, new} pa \<and> ref_count s' (PA2IDX pa) = ref_count s (PA2IDX pa) + d pa \<and>
     (\<forall>k<4096. ram s' (pa + of_nat k) = ram s (pa + of_nat k)))"

lemma frames_kept_refl [simp]: "frames_kept s s old new (\<lambda>_. 0)"
  by (simp add: frames_kept_def)

lemma frames_kept_trans:
  "frames_kept s s1 old new (\<lambda>_. 0) \<Longrightarrow> frames_kept s1 s2 old new d \<Longrightarrow> frames_kept s s2 old new d"
  unfolding frames_kept_def by simp

text \<open>One turn of the copy at page \<open>i\<close>, which may fail (\<open>failed\<close>) after rewriting the parent's entry.\<close>

definition copy_step :: "'z kmem_scheme \<Rightarrow> addr \<Rightarrow> addr \<Rightarrow> addr \<Rightarrow> bool \<Rightarrow> 'z kmem_scheme \<Rightarrow> bool" where
  "copy_step s old new i failed s' \<longleftrightarrow> two_spaces s' old new \<and> (failed \<longrightarrow> free_of s' = {}) \<and>
     (let e = pte_val (ram s) old i in
      pte_val (ram s') old = (\<lambda>v. if vpn v = vpn i then parent_pte e else pte_val (ram s) old v) \<and>
      pte_val (ram s') new = (\<lambda>v. if \<not> failed \<and> vpn v = vpn i then share e else pte_val (ram s) new v) \<and>
      frames_kept s s' old new (\<lambda>pa. if \<not> failed \<and> PTE2PA e = pa then 1 else 0))"

lemma frames_kept_frame:
  assumes "pt_frame s s' root" "kwf s" "{old, new} = {root, root'}" "tabs (ram s') root' = tabs (ram s) root'"
  shows "frames_kept s s' old new (\<lambda>_. 0)"
  unfolding frames_kept_def assms(3)
proof (intro allI impI conjI)
  fix pa assume uf: "user_frame s {root, root'} pa"
  show "user_frame s' {root, root'} pa" by (rule frame_user_frame [OF assms(1,2) uf refl assms(4)])
  show "ref_count s' (PA2IDX pa) = ref_count s (PA2IDX pa) + 0"
    using assms(1) user_frame_not_free [OF assms(2) uf] by (simp add: pt_frame_def)
  show "ram s' (pa + of_nat k) = ram s (pa + of_nat k)" if "k < 4096" for k
    using frame_bytes [OF assms(1,2) uf _ that] by blast
qed

text \<open>Changing the count of one frame by \<open>c\<close>.\<close>

lemma ref_frame:
  assumes sp: "two_spaces s old new" and uf: "user_frame s {old, new} pa" and c: "0 < ref_count s (PA2IDX pa) + c"
  defines "s' \<equiv> s\<lparr>ref_count := (ref_count s)(PA2IDX pa := ref_count s (PA2IDX pa) + c)\<rparr>"
  shows "two_spaces s' old new" "frames_kept s s' old new (\<lambda>p. if pa = p then c else 0)" "free_of s' = free_of s"
proof -
  have asp: "aspace s old" "aspace s new" using sp by (auto simp: two_spaces_def)
  have wf: "kwf s" using asp(1) by (simp add: aspace_def)
  have nf: "PA2IDX pa \<notin> free_of s" by (rule user_frame_not_free [OF wf uf])
  have nt: "PA2IDX pa \<notin> tabs (ram s) old" "PA2IDX pa \<notin> tabs (ram s) new" and al: "aligned pa"
    using uf by (auto simp: user_frame_def managed_def aligned_def)
  show "two_spaces s' old new"
    using ref_update_aspace [OF asp(1) nf nt(1)] ref_update_aspace [OF asp(2) nf nt(2)] sp by (simp add: two_spaces_def s'_def)
  show "free_of s' = free_of s" unfolding s'_def by (rule ref_update(2) [OF wf nf])
  show "frames_kept s s' old new (\<lambda>p. if pa = p then c else 0)"
    unfolding frames_kept_def
  proof (intro allI impI)
    fix p assume p: "user_frame s {old, new} p"
    then have "PA2IDX p = PA2IDX pa \<longleftrightarrow> pa = p" using PA2IDX_inj [OF _ al, of p] by (auto simp: user_frame_def managed_def aligned_def)
    then show "user_frame s' {old, new} p \<and> ref_count s' (PA2IDX p) = ref_count s (PA2IDX p) + (if pa = p then c else 0) \<and>
        (\<forall>k<4096. ram s' (p + of_nat k) = ram s (p + of_nat k))"
      using p c by (auto simp: s'_def user_frame_def managed_def lo_page_def)
  qed
qed

lemma page_not_mapped:
  assumes "aligned i" "i < MAXVA" "\<not> valid (pte_val m root i)"
  shows "\<forall>v. i \<le> v \<and> unat v < unat i + unat PGSIZE \<longrightarrow> \<not> valid (pte_val m root v)"
proof (intro allI impI)
  fix v assume v: "i \<le> v \<and> unat v < unat i + unat PGSIZE"
  have "unat i mod 4096 = 0" using assms(1) by (simp add: aligned_def page_aligned_iff)
  then have "unat v div 4096 * 4096 = unat i" using v by (auto simp: word_le_nat_alt PGSIZE_def) 
  then have "PGROUNDDOWN v = i" by (simp add: word_eq_unat_iff [of "PGROUNDDOWN v"] unat_PGROUNDDOWN)
  then have "vpn v = vpn i" using vpn_PGROUNDDOWN by metis
  then show "\<not> valid (pte_val m root v)" using assms(3) pte_val_vpn by metis
qed

lemma mappages_one:
  assumes asp: "aspace s root" and i: "aligned i" "i < MAXVA" and un: "\<not> valid (pte_val (ram s) root i)"
  shows "\<exists>r s'. mappages root i PGSIZE pa perm s = Ok (r, s') \<and> aspace s' root \<and> pt_frame s s' root \<and>
    (r = 0 \<and> pte_val (ram s') root = (\<lambda>v. if vpn v = vpn i then PA2PTE pa OR perm OR PTE_V else pte_val (ram s) root v) \<or>
     r = - 1 \<and> free_of s' = {} \<and> pte_val (ram s') root = pte_val (ram s) root)"
proof -
  have "unat i mod 4096 = 0" "unat i < 2 ^ 38"
    using i by (simp_all add: aligned_def page_aligned_iff word_less_nat_alt MAXVA_def)
  then have "unat i + unat PGSIZE \<le> 2 ^ 38" by (auto simp: PGSIZE_def)
  moreover have "aligned PGSIZE" "PGSIZE \<noteq> 0" by (simp_all add: aligned_def PGSIZE_def)
  moreover have k: "unat PGSIZE div 4096 = Suc 0" by (simp add: PGSIZE_def)
  ultimately show ?thesis using mappages_correct [OF asp i(1) _ _ _ page_not_mapped [OF i un], of pa perm]
    unfolding map_post_def by auto
qed

lemma uvmcopy_page_unmapped:
  assumes "two_spaces s old new" "i < MAXVA" "\<not> valid (pte_val (ram s) old i)"
  shows "uvmcopy_page old new i s = Ok (False, s)"
proof (cases "leaf_table (ram s) old i")
  case None
  then show ?thesis using walk_ro [OF assms(2), of old s] by (simp add: uvmcopy_page_def)
next
  case (Some t)
  then have "get_pte (slot t (px 0 i)) s = pte_val (ram s) old i" by (simp add: get_leaf pte_val_def)
  then show ?thesis using walk_ro [OF assms(2), of old s] Some assms(3) by (simp add: uvmcopy_page_def)
qed

text \<open>The parent's entry after the write permission is gone.\<close>

lemma parent_step:
  assumes sp: "two_spaces s old new" and t: "leaf_table (ram s) old i = Some t"
  defines "s1 \<equiv> (if bit (pte_val (ram s) old i) 2 then set_pte (slot t (px 0 i)) (share (pte_val (ram s) old i)) s else s)"
  shows "two_spaces s1 old new" "frames_kept s s1 old new (\<lambda>_. 0)"
    "pte_val (ram s1) old = (\<lambda>v. if vpn v = vpn i then parent_pte (pte_val (ram s) old i) else pte_val (ram s) old v)"
    "pte_val (ram s1) new = pte_val (ram s) new" "ref_count s1 = ref_count s"
proof -
  have asp: "aspace s old" "aspace s new" "tabs (ram s) old \<inter> tabs (ram s) new = {}" using sp by (auto simp: two_spaces_def)
  have wf: "kwf s" using asp(1) by (simp add: aspace_def)
  note sl = set_leaf [OF asp(1) t, of "share (pte_val (ram s) old i)"]
  let ?s1 = "set_pte (slot t (px 0 i)) (share (pte_val (ram s) old i)) s"
  have wf1: "kwf ?s1" using sl(1) by (simp add: aspace_def)
  note ot = aspace_other [OF sl(2) asp(2) wf1 asp(3)]
  have fk: "frames_kept s ?s1 old new (\<lambda>_. 0)" by (rule frames_kept_frame [OF sl(2) wf _ ot(3)]) auto
  show "two_spaces s1 old new" using asp sl(1,6) ot(1,3) sp by (auto simp: s1_def two_spaces_def)
  show "frames_kept s s1 old new (\<lambda>_. 0)" using fk by (simp add: s1_def)
  show "pte_val (ram s1) old = (\<lambda>v. if vpn v = vpn i then parent_pte (pte_val (ram s) old i) else pte_val (ram s) old v)"
  proof
    fix v
    have "vpn v = vpn i \<Longrightarrow> pte_val (ram s) old v = pte_val (ram s) old i" by (rule pte_val_vpn)
    then show "pte_val (ram s1) old v = (if vpn v = vpn i then parent_pte (pte_val (ram s) old i) else pte_val (ram s) old v)"
      using sl(3) by (simp add: s1_def parent_pte_def)
  qed
  show "pte_val (ram s1) new = pte_val (ram s) new" using ot(2) by (auto simp: s1_def)
  show "ref_count s1 = ref_count s" by (simp add: s1_def set_pte_def)
qed

lemma incref_frame:
  assumes sp: "two_spaces s old new" and uf: "user_frame s {old, new} pa"
  shows "\<exists>s'. incref pa s = Ok s' \<and> two_spaces s' old new \<and> ram s' = ram s \<and>
    frames_kept s s' old new (\<lambda>p. if pa = p then 1 else 0)"
proof -
  have m: "managed s pa" and c: "0 < ref_count s (PA2IDX pa) + 1" using uf by (auto simp: user_frame_def)
  show ?thesis using managed_ref [OF m] ref_frame [OF sp uf c] by (simp add: incref_def)
qed

lemma uvmcopy_page_mapped:
  assumes sp: "two_spaces s old new" and i: "aligned i" "i < MAXVA" and v: "valid (pte_val (ram s) old i)"
    and un: "\<not> valid (pte_val (ram s) new i)" and uf: "user_frame s {old, new} (PTE2PA (pte_val (ram s) old i))"
  shows "\<exists>b s'. uvmcopy_page old new i s = Ok (b, s') \<and> copy_step s old new i b s'"
proof -
  let ?e = "pte_val (ram s) old i" and ?pa = "PTE2PA (pte_val (ram s) old i)"
  obtain t where t: "leaf_table (ram s) old i = Some t" using v by (auto simp: pte_val_def PTE_V_def split: option.splits)
  have asp: "aspace s old" using sp by (simp add: two_spaces_def)
  have pte: "get_pte (slot t (px 0 i)) s = ?e" using t by (simp add: get_leaf pte_val_def)
  have nz: "slot t (px 0 i) \<noteq> 0" using slot_nonzero [OF asp path_va(2)] t px_less by (simp add: leaf_table_def)
  define s1 where "s1 = (if bit ?e 2 then set_pte (slot t (px 0 i)) (share ?e) s else s)"
  note ps = parent_step [OF sp t, folded s1_def]
  have asp1: "aspace s1 new" using ps(1) by (simp add: two_spaces_def)
  have un1: "\<not> valid (pte_val (ram s1) new i)" using un by (simp add: ps(4))
  have fw: "PTE_FLAGS ?e AND PTE_W \<noteq> 0 \<longleftrightarrow> bit ?e 2" unfolding pte_bit_iff by (simp add: bit_PTE_FLAGS)
  obtain r s2 where mp: "mappages new i PGSIZE ?pa (cow_flags (PTE_FLAGS ?e)) s1 = Ok (r, s2)"
      and post: "aspace s2 new" "pt_frame s1 s2 new"
        "r = 0 \<and> pte_val (ram s2) new = (\<lambda>v. if vpn v = vpn i then share ?e else pte_val (ram s) new v) \<or>
         r = - 1 \<and> free_of s2 = {} \<and> pte_val (ram s2) new = pte_val (ram s) new"
    using mappages_one [OF asp1 i un1, of ?pa "cow_flags (PTE_FLAGS ?e)", unfolded share_or_V [OF v [unfolded pte_bit_iff]] ps(4)]
    by blast
  have run: "uvmcopy_page old new i s =
      (if r \<noteq> 0 then Ok (True, s2) else bnd (incref ?pa s2) (\<lambda>s. Ok (False, s)))"
    using walk_ro [OF i(2), of old s] t nz pte v mp fw unfolding uvmcopy_page_def s1_def share_def
    by (cases "bit ?e 2") (simp_all add: Let_def)
  have old1: "aspace s1 old" "tabs (ram s1) new \<inter> tabs (ram s1) old = {}" using ps(1) by (auto simp: two_spaces_def)
  have wf: "kwf s1" "kwf s2" using asp1 post by (auto simp: aspace_def)
  note ot = aspace_other [OF post(2) old1(1) wf(2) old1(2)]
  have fk2: "frames_kept s1 s2 old new (\<lambda>_. 0)" by (rule frames_kept_frame [OF post(2) wf(1) _ ot(3)]) auto
  note fk = frames_kept_trans [OF ps(2) fk2]
  have uf2: "user_frame s2 {old, new} ?pa" using fk uf by (simp add: frames_kept_def)
  have d2: "tabs (ram s2) old \<inter> tabs (ram s2) new = {}"
    using post(2) ot(3) old1(2) aspace_not_free [OF old1(1)] by (auto simp: pt_frame_def)
  then have sp2: "two_spaces s2 old new" using ot(1) post(1) by (simp add: two_spaces_def)
  show ?thesis
  proof (cases "r = 0")
    case False
    have "pte_val (ram s2) old = pte_val (ram s1) old" using ot(2) by blast
    then have "copy_step s old new i True s2"
      using False sp2 fk post(3) ps(3) by (simp add: copy_step_def Let_def)
    then show ?thesis using run False by auto
  next
    case True
    obtain s3 where s3: "incref ?pa s2 = Ok s3" "two_spaces s3 old new" "ram s3 = ram s2"
        "frames_kept s2 s3 old new (\<lambda>p. if ?pa = p then 1 else 0)"
      using incref_frame [OF sp2 uf2] by blast
    have "pte_val (ram s2) old = pte_val (ram s1) old" using ot(2) by blast
    then have "copy_step s old new i False s3"
      using s3(2,3) frames_kept_trans [OF fk s3(4)] post(3) True ps(3) by (simp add: copy_step_def Let_def)
    then show ?thesis using run True s3(1) by auto
  qed
qed

section \<open>Pages\<close>

lemma vpn_page:
  assumes "aligned i" "i < MAXVA" "v < MAXVA"
  shows "vpn v = vpn i \<longleftrightarrow> PGROUNDDOWN v = i"
  using vpn_inj [of v i] vpn_PGROUNDDOWN [of v] assms PGROUNDDOWN_id [of i] by (auto simp: aligned_def)

lemma page_cases:
  assumes "aligned i" "unat i + 4096 < 2 ^ 64"
  shows "i \<le> PGROUNDDOWN v \<longleftrightarrow> PGROUNDDOWN v = i \<or> i + PGSIZE \<le> PGROUNDDOWN v"
proof -
  have "unat i mod 4096 = 0" "unat (PGROUNDDOWN v) mod 4096 = 0"
    using assms(1) by (simp_all add: aligned_def page_aligned_iff unat_PGROUNDDOWN)
  then obtain a b where "unat i = 4096 * a" "unat (PGROUNDDOWN v) = 4096 * b" by (metis mod_0_imp_dvd dvdE)
  then have "unat i \<le> unat (PGROUNDDOWN v) \<longleftrightarrow> unat (PGROUNDDOWN v) = unat i \<or> unat i + 4096 \<le> unat (PGROUNDDOWN v)"
    by auto
  then show ?thesis using next_page [OF assms]
    by (simp add: word_le_nat_alt word_eq_unat_iff [of "PGROUNDDOWN v"])
qed

section \<open>Write faults\<close>

lemma copy_page:
  assumes "managed s dst" "managed s src" "dst \<noteq> src"
  shows "same_outside {PA2IDX dst} m (memmove m dst src 4096)"
    and "k < 4096 \<Longrightarrow> memmove m dst src 4096 (dst + of_nat k) = m (src + of_nat k)"
proof -
  have al: "aligned dst" "aligned src" and hi: "PA2IDX dst < NREF" "PA2IDX src < NREF"
    using assms by (auto simp: managed_def aligned_def)
  have u: "unat a = PA2IDX a * 4096" if "aligned a" for a
    using unat_paddr [OF PA2IDX_less, of a, folded aligned_paddr [OF that]] .
  have b: "unat dst + unat (4096 :: u32) \<le> 2 ^ 64" "unat src + unat (4096 :: u32) < 2 ^ 64"
    using hi u al by (auto simp: NREF_eq)
  have n: "unat (4096 :: u32) = 4096" by simp
  show "same_outside {PA2IDX dst} m (memmove m dst src 4096)"
    unfolding same_outside_def memmove_apply [OF b] n
  proof (intro allI impI)
    fix a assume "PA2IDX a \<notin> {PA2IDX dst}"
    then have "\<not> unat (a - dst) < 4096"
      using byte_off_page [of "PA2IDX dst" 0 4096 a] PA2IDX_less [of dst] aligned_paddr [OF al(1)] by force
    then show "(if unat (a - dst) < 4096 then m (src + (a - dst)) else m a) = m a" by simp
  qed
  show "memmove m dst src 4096 (dst + of_nat k) = m (src + of_nat k)" if "k < 4096"
    unfolding memmove_apply [OF b] n using that by (simp add: unat_of_nat_small)
qed

text \<open>The state after a copying fault: the entry points to a private, writable copy.\<close>

definition cow_copied :: "'z kmem_scheme \<Rightarrow> addr \<Rightarrow> addr \<Rightarrow> addr \<Rightarrow> 'z kmem_scheme \<Rightarrow> bool" where
  "cow_copied s root va mem s' \<longleftrightarrow> aspace s' root \<and>
     (let pa = PTE2PA (pte_val (ram s) root va) in
      mem \<noteq> pa \<and> PA2IDX mem \<in> free_of s \<and>
      (\<forall>v. pte_val (ram s') root v = (if vpn v = vpn va then PA2PTE mem OR (PTE_W OR PTE_U OR PTE_R OR PTE_V) else pte_val (ram s) root v)) \<and>
      (\<forall>k<4096. ram s' (mem + of_nat k) = ram s (pa + of_nat k)) \<and>
      (\<forall>a. PA2IDX a \<notin> free_of s \<union> tabs (ram s) root \<longrightarrow> ram s' a = ram s a) \<and>
      ref_count s' = (ref_count s)(PA2IDX mem := 1, PA2IDX pa := ref_count s (PA2IDX pa) - 1))"

lemma cow_entry: "PA2PTE mem OR PTE_W OR PTE_U OR PTE_R OR PTE_V OR PTE_U = PA2PTE mem OR (PTE_W OR PTE_U OR PTE_R OR PTE_V)"
  by (rule bit_word_eqI) (auto simp: bit_simps)

lemma cow_entry_PA: "aligned mem \<Longrightarrow> PTE2PA (PA2PTE mem OR (PTE_W OR PTE_U OR PTE_R OR PTE_V)) = mem"
  by (rule PTE2PA_PA2PTE) (simp_all add: aligned_def pte_bits)

lemma aspace_set_ram:
  assumes asp: "aspace s root" and o: "same_outside S (ram s) m" and d: "S \<inter> (free_of s \<union> tabs (ram s) root) = {}"
  shows "aspace (s\<lparr>ram := m\<rparr>) root" and "pte_val m root v = pte_val (ram s) root v" and "tabs m root = tabs (ram s) root"
    and "free_of (s\<lparr>ram := m\<rparr>) = free_of s" and "leaf_table m root v = leaf_table (ram s) root v"
proof -
  have d': "S \<inter> tabs (ram s) root = {}" "S \<inter> free_of s = {}" using d by auto
  note al = aspace_aligned [OF asp]
  have wf: "kwf s" using asp by (simp add: aspace_def)
  show "pte_val m root v = pte_val (ram s) root v" by (rule pte_val_frame [OF o d'(1) al])
  show t: "tabs m root = tabs (ram s) root" by (rule tabs_frame(1) [OF o d'(1) al])
  show "free_of (s\<lparr>ram := m\<rparr>) = free_of s" using kpa.write_frame [OF wf o d'(2)] by blast
  show "leaf_table m root v = leaf_table (ram s) root v"
    using tbl_frame [OF o d'(1) al path_va(2)] by (simp add: leaf_table_def)
  show "aspace (s\<lparr>ram := m\<rparr>) root"
    using asp t tabs_frame(2) [OF o d'(1) al] kpa.write_frame [OF wf o d'(2)] by (simp add: aspace_def lo_page_def)
qed

lemma kalloc_aspace:
  assumes asp: "aspace s root" and al: "kalloc s = Ok (a, s1)" "a \<noteq> 0"
  shows "aspace s1 root" and "pte_val (ram s1) root v = pte_val (ram s) root v" and "tabs (ram s1) root = tabs (ram s) root"
    and "leaf_table (ram s1) root v = leaf_table (ram s) root v" and "PA2IDX a \<notin> tabs (ram s) root"
proof -
  have wf: "kwf s" using asp by (simp add: aspace_def)
  note got = kalloc_got [OF wf al] and root = aspace_aligned [OF asp]
  have d: "free_of s \<inter> tabs (ram s) root = {}" using aspace_not_free [OF asp] by blast
  show "pte_val (ram s1) root v = pte_val (ram s) root v" by (rule pte_val_frame [OF got(5) d root])
  show t: "tabs (ram s1) root = tabs (ram s) root" by (rule tabs_frame(1) [OF got(5) d root])
  show "leaf_table (ram s1) root v = leaf_table (ram s) root v"
    using tbl_frame [OF got(5) d root path_va(2)] by (simp add: leaf_table_def)
  show "PA2IDX a \<notin> tabs (ram s) root" using got(3) d by blast
  then show "aspace s1 root"
    using asp got(1,6,8) t tabs_frame(2) [OF got(5) d root] by (auto simp: aspace_def lo_page_def)
qed

lemma cow_fault_copies:
  assumes asp: "aspace s root" and t: "leaf_table (ram s) root va = Some t"
    and uf: "user_frame s {root} (PTE2PA (pte_val (ram s) root va))"
    and ref: "1 < ref_count s (PA2IDX (PTE2PA (pte_val (ram s) root va)))"
  shows "free_of s = {} \<and> cow_fault root va (slot t (px 0 va)) s = Ok (0, s) \<or>
    (\<exists>mem s'. cow_fault root va (slot t (px 0 va)) s = Ok (mem, s') \<and> mem \<noteq> 0 \<and> cow_copied s root va mem s')"
proof -
  let ?e = "pte_val (ram s) root va" and ?pte = "slot t (px 0 va)"
  define pa where "pa = PTE2PA ?e"
  have wf: "kwf s" using asp by (simp add: aspace_def)
  have pte: "get_pte ?pte s = ?e" using t by (simp add: get_leaf pte_val_def)
  have m: "managed s pa" using uf by (simp add: user_frame_def pa_def)
  have gr: "getref pa s = Ok (ref_count s (PA2IDX pa))" using managed_ref [OF m] by (simp add: getref_def)
  obtain mem s1 where al: "kalloc s = Ok (mem, s1)" using kpa.alloc_total [OF wf] by blast
  show ?thesis
  proof (cases "mem = 0")
    case True
    have "s1 = s \<and> free_of s = {}" using wf al by (cases rule: kpa.alloc_cases) (use True in auto)
    then show ?thesis using True al gr ref pte by (simp add: cow_fault_def pa_def)
  next
    case False
    note got = kalloc_got [OF wf al False] and ka = kalloc_aspace [OF asp al False]
    have nf: "PA2IDX pa \<notin> free_of s" using user_frame_not_free [OF wf uf] by (simp add: pa_def)
    then have ne: "mem \<noteq> pa" "PA2IDX mem \<noteq> PA2IDX pa" using got(3) by auto
    define s2 where "s2 = s1\<lparr>ram := memmove (ram s1) mem pa 4096\<rparr>"
    note cp = copy_page [OF got(2) m ne(1), where m = "ram s1"]
    have d2: "{PA2IDX mem} \<inter> (free_of s1 \<union> tabs (ram s1) root) = {}" using got(4) ka(3,5) by auto
    note a2 = aspace_set_ram [OF ka(1) cp(1) d2]
    have asp2: "aspace s2 root" using a2(1) by (simp add: s2_def)
    have t2: "leaf_table (ram s2) root va = Some t" using a2(5) ka(4) t by (simp add: s2_def)
    define s3 where "s3 = set_pte ?pte (PA2PTE mem OR (PTE_W OR PTE_U OR PTE_R OR PTE_V)) s2"
    note sl = set_leaf [OF asp2 t2, of "PA2PTE mem OR (PTE_W OR PTE_U OR PTE_R OR PTE_V)", folded s3_def]
    have rc3: "ref_count s3 = (ref_count s)(PA2IDX mem := 1)" using got(6) by (simp add: s3_def set_pte_def s2_def)
    let ?s4 = "s3\<lparr>ref_count := (ref_count s3)(PA2IDX pa := ref_count s3 (PA2IDX pa) - 1)\<rparr>"
    have dec: "decref pa s3 = Ok (ref_count s (PA2IDX pa) - 1, ?s4)"
      using managed_ref [OF m] rc3 ne ref by (simp add: decref_def Let_def pa_def)
    have nt: "PA2IDX pa \<notin> tabs (ram s) root" using uf by (simp add: user_frame_def pa_def)
    have tabs3: "tabs (ram s3) root = tabs (ram s) root" using sl(6) a2(3) ka(3) by (simp add: s2_def)
    have free3: "free_of s3 = free_of s - {PA2IDX mem}" using sl(5) a2(4) got(4) by (simp add: s2_def)
    have asp4: "aspace ?s4 root" by (rule ref_update_aspace [OF sl(1)]) (use nf nt free3 tabs3 in auto)
    have val: "pte_val (ram s3) root v = (if vpn v = vpn va then PA2PTE mem OR (PTE_W OR PTE_U OR PTE_R OR PTE_V) else pte_val (ram s) root v)" for v
      using sl(3) a2(2) ka(2) by (simp add: s2_def)
    have ma: "aligned mem" using got(2) by (simp add: managed_def aligned_def)
    have "get_pte ?pte s3 = PA2PTE mem OR (PTE_W OR PTE_U OR PTE_R OR PTE_V)"
      using sl(4) [of va] t2 val [of va] by (simp add: get_leaf pte_val_def)
    then have run: "cow_fault root va ?pte s = Ok (mem, record_rmap mem root va ?s4)"
      using al gr ref False pte dec cow_entry_PA [OF ma]
      by (simp add: cow_fault_def pa_def [symmetric] s2_def [symmetric] s3_def [symmetric] cow_entry Let_def) (simp add: get_pte_def)
    have "cow_copied s root va mem (record_rmap mem root va ?s4)"
      unfolding cow_copied_def pa_def [symmetric] Let_def
    proof (intro conjI allI impI)
      fix k :: nat assume k: "k < 4096"
      have "PA2IDX (mem + of_nat k) = PA2IDX mem" "PA2IDX (pa + of_nat k) = PA2IDX pa"
        using byte_in_page [OF ma k] byte_in_page [OF _ k, of pa] m by (auto simp: managed_def aligned_def)
      moreover have "ram s3 a = ram s2 a" if "PA2IDX a \<notin> tabs (ram s) root \<union> free_of s1" for a
        using sl(2) that a2(3,4) ka(3) by (auto simp: pt_frame_def same_outside_def s2_def)
      moreover have "ram s1 (pa + of_nat k) = ram s (pa + of_nat k)" using got(5) nf calculation(2) by (simp add: same_outside_def)
      ultimately show "ram (record_rmap mem root va ?s4) (mem + of_nat k) = ram s (pa + of_nat k)"
        using cp(2) [OF k] ka(5) got(4) by (simp add: s2_def)
    next
      fix a assume a: "PA2IDX a \<notin> free_of s \<union> tabs (ram s) root"
      have "ram s3 a = ram s2 a" using sl(2) a a2(3,4) ka(3) got(4) by (auto simp: pt_frame_def same_outside_def s2_def)
      also have "ram s2 a = ram s1 a"
      proof -
        have "PA2IDX a \<noteq> PA2IDX mem" using a got(3) by auto
        then show ?thesis using cp(1) by (simp add: same_outside_def s2_def)
      qed
      also have "\<dots> = ram s a" using got(5) a by (simp add: same_outside_def)
      finally show "ram (record_rmap mem root va ?s4) a = ram s a" by simp
    qed (use asp4 ne got(3) val rc3 in \<open>simp_all add: fun_upd_twist\<close>)
    then show ?thesis using run False by blast
  qed
qed

end
