(* ===== verification/Vm_Copy.thy ===== *)
theory Vm_Copy
  imports Vm_Cow
begin

text \<open>
  Copies between user and kernel memory: \<open>copyin\<close> gathers the bytes the user sees, page by
  page; \<open>copyout\<close> refuses pages without write permission.
\<close>

section \<open>Looking up a user page\<close>

lemma walkaddr_val:
  assumes "va < MAXVA" "bit (pte_val (ram s) root va) 0" "bit (pte_val (ram s) root va) 4"
    and "\<And>t. leaf_table (ram s) root va = Some t \<Longrightarrow> slot t (px 0 va) \<noteq> 0"
  shows "walkaddr root va s = Ok (PTE2PA (pte_val (ram s) root va))"
proof -
  obtain t where t: "leaf_table (ram s) root va = Some t" using assms(2) by (auto simp: pte_val_def split: option.splits)
  have e: "get_pte (slot t (px 0 va)) s = pte_val (ram s) root va" using t by (simp add: get_leaf pte_val_def)
  have "get_pte (slot t (px 0 va)) s AND PTE_V \<noteq> 0" "get_pte (slot t (px 0 va)) s AND PTE_U \<noteq> 0"
    unfolding pte_bit_iff e using assms(2,3) by simp_all
  then show ?thesis using walk_ro [OF assms(1), of root s] t assms(1,4) e by (auto simp: walkaddr_def not_le)
qed

text \<open>A user address that can be read: mapped for the user, to a frame in RAM outside \<open>D\<close>.\<close>

definition readable :: "'z kmem_scheme \<Rightarrow> addr \<Rightarrow> nat set \<Rightarrow> addr \<Rightarrow> bool" where
  "readable s root D va \<longleftrightarrow> (let e = pte_val (ram s) root va in
     va < MAXVA \<and> bit e 0 \<and> bit e 4 \<and> PTE2PA e \<noteq> 0 \<and> unat (PTE2PA e) + 4096 < 2 ^ 64 \<and> PA2IDX (PTE2PA e) \<notin> D)"

lemma user_byte_outside:
  assumes "same_outside D m m'" "D \<inter> tabs m root = {}" "aligned root" "PA2IDX (PTE2PA (pte_val m root va)) \<notin> D"
  shows "user_byte m' root va = user_byte m root va"
proof -
  have e: "pte_val m' root va = pte_val m root va" by (rule pte_val_frame [OF assms(1-3)])
  have "PA2IDX (PTE2PA (pte_val m root va) + of_nat (unat va mod 4096)) = PA2IDX (PTE2PA (pte_val m root va))"
    by (rule byte_in_page) simp_all
  then show ?thesis unfolding user_byte_def e using assms(1,4) by (simp add: same_outside_def)
qed

text \<open>Within one page the user's bytes are consecutive bytes of the frame.\<close>

lemma user_byte_run:
  assumes "unat va mod 4096 + j < 4096" "unat va + j < 2 ^ 64"
  shows "user_byte m root (va + of_nat j) = m (PTE2PA (pte_val m root va) + of_nat (unat va mod 4096 + j))"
    and "vpn (va + of_nat j) = vpn va"
proof -
  have u: "unat (va + of_nat j) = unat va + j" using assms(2) by (intro unat_add_of_nat) simp
  define q r where "q = unat va div 4096" and "r = unat va mod 4096"
  have qr: "unat va = r + q * 4096" by (simp add: q_def r_def)
  have rj: "r + j < 4096" using assms(1) by (simp add: r_def)
  have "unat va + j = (r + j) + q * 4096" using qr by simp
  then have d: "(unat va + j) div 4096 = unat va div 4096" and md: "(unat va + j) mod 4096 = unat va mod 4096 + j"
    using rj by (simp_all only: div_mult_self1 mod_mult_self1 div_less mod_less zero_neq_numeral not_False_eq_True q_def [symmetric] r_def [symmetric])
  have "PGROUNDDOWN (va + of_nat j) = PGROUNDDOWN va"
    unfolding word_eq_unat_iff [of "PGROUNDDOWN (va + of_nat j)"] unat_PGROUNDDOWN u d ..
  then show v: "vpn (va + of_nat j) = vpn va" using vpn_PGROUNDDOWN by metis
  show "user_byte m root (va + of_nat j) = m (PTE2PA (pte_val m root va) + of_nat (unat va mod 4096 + j))"
    unfolding user_byte_def u md pte_val_vpn [OF v] ..
qed

section \<open>copyin\<close>

definition copyin_mem :: "memory \<Rightarrow> addr \<Rightarrow> addr \<Rightarrow> addr \<Rightarrow> nat \<Rightarrow> memory" where
  "copyin_mem m root dst srcva n = (\<lambda>a. if unat (a - dst) < n then user_byte m root (srcva + (a - dst)) else m a)"

definition copyin_pre :: "'z kmem_scheme \<Rightarrow> addr \<Rightarrow> addr \<Rightarrow> addr \<Rightarrow> nat \<Rightarrow> nat set \<Rightarrow> bool" where
  "copyin_pre s root dst srcva n D \<longleftrightarrow> aspace s root \<and> D \<inter> (free_of s \<union> tabs (ram s) root) = {} \<and>
     unat dst + n \<le> 2 ^ 64 \<and> unat srcva + n \<le> 2 ^ 38 \<and>
     (\<forall>j<n. PA2IDX (dst + of_nat j) \<in> D \<and> readable s root D (srcva + of_nat j))"

lemma copyin_mem_outside:
  assumes "\<forall>j<n. PA2IDX (dst + of_nat j) \<in> D"
  shows "same_outside D m (copyin_mem m root dst srcva n)"
  unfolding same_outside_def copyin_mem_def
proof (intro allI impI)
  fix a assume "PA2IDX a \<notin> D"
  then have "\<not> unat (a - dst) < n" using assms [rule_format, of "unat (a - dst)"] by auto
  then show "(if unat (a - dst) < n then user_byte m root (srcva + (a - dst)) else m a) = m a" by simp
qed

text \<open>One chunk: a \<open>memmove\<close> from a single frame.\<close>

lemma copyin_chunk:
  assumes pre: "copyin_pre s root dst srcva n D" and n: "0 < n" "unat srcva mod 4096 + n \<le> 4096"
  defines "pa \<equiv> PTE2PA (pte_val (ram s) root srcva)"
  shows "memmove (ram s) dst (pa + (srcva - PGROUNDDOWN srcva)) (of_nat n) = copyin_mem (ram s) root dst srcva n"
proof -
  have r: "readable s root D srcva" using pre n(1) unfolding copyin_pre_def by fastforce
  have off: "srcva - PGROUNDDOWN srcva = of_nat (unat srcva mod 4096)"
  proof -
    have "unat (srcva - PGROUNDDOWN srcva) = unat srcva mod 4096"
      by (subst unat_sub_le [OF PGROUNDDOWN_le]) (simp add: unat_PGROUNDDOWN minus_div_mult_eq_mod)
    then show ?thesis by (metis of_nat_unat ucast_id)
  qed
  have nn: "unat (of_nat n :: u32) = n" using n(2) by (intro unat_of_nat_small) simp
  have hi: "unat pa + 4096 < 2 ^ 64" using r by (simp add: readable_def pa_def Let_def)
  have us: "unat (pa + of_nat (unat srcva mod 4096)) = unat pa + unat srcva mod 4096"
    using hi by (intro unat_add_of_nat) (simp add: add_strict_mono order_le_less_trans)
  have b: "unat dst + unat (of_nat n :: u32) \<le> 2 ^ 64" "unat (pa + of_nat (unat srcva mod 4096)) + unat (of_nat n :: u32) < 2 ^ 64"
    using pre hi n(2) unfolding nn us copyin_pre_def by auto
  show ?thesis
  proof
    fix a
    have "user_byte (ram s) root (srcva + (a - dst)) = ram s (pa + of_nat (unat srcva mod 4096) + (a - dst))" if "unat (a - dst) < n"
    proof -
      have "unat srcva + unat (a - dst) < 2 ^ 64" using pre that unfolding copyin_pre_def by auto
      then show ?thesis using user_byte_run(1) [of srcva "unat (a - dst)" "ram s" root] that n(2)
        by (simp add: pa_def add.assoc)
    qed
    then show "memmove (ram s) dst (pa + (srcva - PGROUNDDOWN srcva)) (of_nat n) a = copyin_mem (ram s) root dst srcva n a"
      unfolding off memmove_apply [OF b] nn copyin_mem_def by auto
  qed
qed

lemma copyin_mem_split:
  assumes pre: "copyin_pre s root dst srcva (n + k) D"
  shows "copyin_mem (copyin_mem (ram s) root dst srcva n) root (dst + of_nat n) (srcva + of_nat n) k =
    copyin_mem (ram s) root dst srcva (n + k)"
proof
  fix a
  let ?m1 = "copyin_mem (ram s) root dst srcva n"
  have o: "same_outside D (ram s) ?m1" by (rule copyin_mem_outside) (use pre in \<open>simp add: copyin_pre_def\<close>)
  have nk: "unat dst + (n + k) \<le> 2 ^ 64" using pre by (simp add: copyin_pre_def)
  show "copyin_mem ?m1 root (dst + of_nat n) (srcva + of_nat n) k a = copyin_mem (ram s) root dst srcva (n + k) a"
  proof (cases "unat (a - (dst + of_nat n)) < k")
    case True
    define j where "j = unat (a - (dst + of_nat n))"
    have a: "a = dst + of_nat (n + j)" by (simp add: j_def)
    have b: "n + j < 2 ^ 64" using True nk by (simp add: j_def)
    have ad: "a - dst = of_nat (n + j)" using a by simp
    have "unat (a - dst) = n + j" unfolding ad using b by (intro unat_of_nat_small) simp
    then have "unat (a - dst) < n + k" using True by (simp add: j_def)
    moreover have "n + j < n + k" using True by (simp add: j_def)
    then have "readable s root D (srcva + of_nat (n + j))" using pre unfolding copyin_pre_def by blast
    then have "user_byte ?m1 root (srcva + of_nat (n + j)) = user_byte (ram s) root (srcva + of_nat (n + j))"
      using user_byte_outside [OF o _ aspace_aligned] pre by (auto simp: copyin_pre_def readable_def Let_def)
    moreover have "srcva + of_nat n + (a - (dst + of_nat n)) = srcva + of_nat (n + j)" using a by simp
    ultimately show ?thesis using True ad by (simp add: copyin_mem_def)
  next
    case False
    have "unat (a - dst) < n + k \<longleftrightarrow> unat (a - dst) < n"
    proof (rule iffI)
      assume h: "unat (a - dst) < n + k"
      show "unat (a - dst) < n"
      proof (rule ccontr)
        assume "\<not> unat (a - dst) < n"
        then obtain j where j: "unat (a - dst) = n + j" by (metis le_iff_add not_less)
        then have "a - dst = of_nat (n + j)" by (metis of_nat_unat ucast_id)
        then have "a - (dst + of_nat n) = of_nat j" by (simp add: algebra_simps)
        moreover have "j < 2 ^ 64" using j unat_bound64 [of "a - dst"] by simp
        ultimately have "unat (a - (dst + of_nat n)) = j" by (simp add: unat_of_nat_small)
        then show False using False h j by simp
      qed
    qed simp
    then show ?thesis using False by (simp add: copyin_mem_def)
  qed
qed

lemma copyin_step_pre:
  assumes pre: "copyin_pre s root dst srcva (n + k) D"
  shows "copyin_pre (s\<lparr>ram := copyin_mem (ram s) root dst srcva n\<rparr>) root (dst + of_nat n) (srcva + of_nat n) k D"
    and "copyin_pre s root dst srcva n D"
proof -
  let ?m = "copyin_mem (ram s) root dst srcva n"
  have asp: "aspace s root" and d: "D \<inter> (free_of s \<union> tabs (ram s) root) = {}" using pre by (simp_all add: copyin_pre_def)
  have o: "same_outside D (ram s) ?m" by (rule copyin_mem_outside) (use pre in \<open>simp add: copyin_pre_def\<close>)
  note a = aspace_set_ram [OF asp o d]
  have b: "unat dst + (n + k) \<le> 2 ^ 64" "unat srcva + (n + k) \<le> 2 ^ 38" using pre by (simp_all add: copyin_pre_def)
  have u: "unat (srcva + of_nat n) = unat srcva + n" using b(2) by (intro unat_add_of_nat) simp
  have ud: "0 < k \<Longrightarrow> unat (dst + of_nat n) = unat dst + n" using b(1) by (intro unat_add_of_nat) simp
  have rd: "readable (s\<lparr>ram := ?m\<rparr>) root D v = readable s root D v" for v by (simp add: readable_def a(2))
  have all: "\<forall>j<n + k. PA2IDX (dst + of_nat j) \<in> D \<and> readable s root D (srcva + of_nat j)"
    using pre by (simp add: copyin_pre_def)
  have rest: "\<forall>j<k. PA2IDX (dst + of_nat n + of_nat j) \<in> D \<and> readable s root D (srcva + of_nat n + of_nat j)"
    using all [rule_format, of "n + _"] by (simp add: add.assoc)
  have "unat (dst + of_nat n) + k \<le> 2 ^ 64" using ud b(1) unat_bound64 [of "dst + of_nat n"] by (cases "k = 0") auto
  then show "copyin_pre (s\<lparr>ram := ?m\<rparr>) root (dst + of_nat n) (srcva + of_nat n) k D"
    using a d b u rest by (simp add: copyin_pre_def rd)
  show "copyin_pre s root dst srcva n D" using pre by (simp add: copyin_pre_def)
qed

lemma user_page_ok:
  assumes asp: "aspace s root" and r: "readable s root D va"
  shows "user_page root (PGROUNDDOWN va) psz s = Ok (PTE2PA (pte_val (ram s) root va), s)"
proof -
  have e: "pte_val (ram s) root (PGROUNDDOWN va) = pte_val (ram s) root va" by (rule pte_val_vpn [OF vpn_PGROUNDDOWN])
  have lt: "PGROUNDDOWN va < MAXVA" using r PGROUNDDOWN_le [of va] by (auto simp: readable_def Let_def)
  have "walkaddr root (PGROUNDDOWN va) s = Ok (PTE2PA (pte_val (ram s) root va))"
    using walkaddr_val [OF lt, of s root] e r slot_nonzero [OF asp path_va(2)] px_less
    by (simp add: readable_def Let_def leaf_table_def)
  then show ?thesis using r by (simp add: user_page_def readable_def Let_def)
qed

lemma copyin_correct:
  assumes "copyin_pre s root dst srcva (unat len) D"
  shows "copyin root dst srcva len psz s = Ok (0, s\<lparr>ram := copyin_mem (ram s) root dst srcva (unat len)\<rparr>)"
  using assms
proof (induction "unat len" arbitrary: s dst srcva len rule: less_induct)
  case less
  show ?case
  proof (cases "len = 0")
    case True
    then show ?thesis by (simp add: copyin.simps copyin_mem_def)
  next
    case False
    let ?n0 = "PGSIZE - (srcva - PGROUNDDOWN srcva)"
    define n where "n = unat (if ?n0 > len then len else ?n0)"
    have n0: "unat ?n0 = 4096 - unat srcva mod 4096" by (rule page_chunk(2) [OF False])
    have len0: "0 < unat len" using False by (simp add: unat_gt_0)
    have n: "0 < n" "n \<le> unat len" "unat srcva mod 4096 + n \<le> 4096"
      unfolding n_def using n0 len0 by (auto simp: word_less_nat_alt not_less)
    define k where "k = unat len - n"
    have lk: "unat len = n + k" using n by (simp add: k_def)
    note pre = less.prems [unfolded lk]
    have asp: "aspace s root" and r: "readable s root D srcva" using pre n(1) unfolding copyin_pre_def by fastforce+
    have wn: "(if ?n0 > len then len else ?n0) = of_nat n" unfolding n_def by simp
    have lenn: "len - of_nat n = of_nat k" using lk by (metis add_diff_cancel_left' of_nat_add of_nat_unat ucast_id)
    have uk: "unat (len - of_nat n) = k" unfolding lenn using lk unat_bound64 [of len] by (simp add: unat_of_nat_small)
    have un: "ucast (of_nat n :: u64) = (of_nat n :: u32)" using n(3) by (simp add: unsigned_of_nat take_bit_nat_eq_self)
    let ?s1 = "s\<lparr>ram := copyin_mem (ram s) root dst srcva n\<rparr>"
    have nz: "PTE2PA (pte_val (ram s) root srcva) \<noteq> 0" using r by (simp add: readable_def Let_def)
    have va: "n = unat ?n0 \<or> k = 0" unfolding k_def n_def by auto
    have step: "copyin root dst srcva len psz s = copyin root (dst + of_nat n) (PGROUNDDOWN srcva + PGSIZE) (len - of_nat n) psz ?s1"
      using user_page_ok [OF asp r, of psz] nz False copyin_chunk [OF copyin_step_pre(2) [OF pre] n(1,3)] wn un
      by (subst copyin.simps) (simp add: Let_def)
    have "copyin root (dst + of_nat n) (PGROUNDDOWN srcva + PGSIZE) (len - of_nat n) psz ?s1 =
        copyin root (dst + of_nat n) (srcva + of_nat n) (len - of_nat n) psz ?s1"
    proof (cases "k = 0")
      case True
      then show ?thesis using lenn by (simp add: copyin.simps)
    next
      case False
      then have "of_nat n = ?n0" using va by (simp add: n_def)
      then have "srcva + of_nat n = PGROUNDDOWN srcva + PGSIZE" by simp
      then show ?thesis by simp
    qed
    also have "\<dots> = Ok (0, ?s1\<lparr>ram := copyin_mem (ram ?s1) root (dst + of_nat n) (srcva + of_nat n) k\<rparr>)"
      using less.hyps [of "len - of_nat n" ?s1] copyin_step_pre(1) [OF pre] uk lk n(1) by simp
    also have "\<dots> = Ok (0, s\<lparr>ram := copyin_mem (ram s) root dst srcva (unat len)\<rparr>)"
      using copyin_mem_split [OF pre] lk by simp
    finally show ?thesis using step by simp
  qed
qed

section \<open>copyout\<close>

text \<open>A page that is present for the user but not writable stops \<open>copyout\<close> before it writes anything there.\<close>

lemma copyout_readonly:
  assumes asp: "aspace s root" and r: "readable s root D dstva" and w: "\<not> bit (pte_val (ram s) root dstva) 2" and len: "len \<noteq> 0"
  shows "copyout root dstva src len psz s = Ok (- 1, s)"
proof -
  have e: "pte_val (ram s) root (PGROUNDDOWN dstva) = pte_val (ram s) root dstva" by (rule pte_val_vpn [OF vpn_PGROUNDDOWN])
  have lt: "PGROUNDDOWN dstva < MAXVA" using r PGROUNDDOWN_le [of dstva] by (auto simp: readable_def Let_def)
  obtain t where t: "leaf_table (ram s) root (PGROUNDDOWN dstva) = Some t"
    using r e by (auto simp: readable_def Let_def pte_val_def split: option.splits)
  have g: "get_pte (slot t (px 0 (PGROUNDDOWN dstva))) s = pte_val (ram s) root dstva" using t e by (simp add: get_leaf pte_val_def)
  have nz: "slot t (px 0 (PGROUNDDOWN dstva)) \<noteq> 0" using slot_nonzero [OF asp path_va(2)] t px_less by (simp add: leaf_table_def)
  have pw: "pte_val (ram s) root dstva AND PTE_W = 0" using w pte_bit_iff(3) by blast
  show ?thesis
    using user_page_ok [OF asp r, of psz] walk_ro [OF lt, of root s] t g nz pw r len lt
    by (subst copyout.simps) (simp add: Let_def readable_def)
qed

end
