(* ===== verification/Kalloc_Props.thy ===== *)
theory Kalloc_Props
  imports Palloc
begin

text \<open>
  The properties of the page allocator, with the state \<open>ex_kmem\<close> of a small machine as the
  instance on which their hypotheses hold: one free run of ten pages and one allocated page.
\<close>

definition ex_kmem :: kmem where
  "ex_kmem = \<lparr>ram = set_num_pages (paddr 530000) 10 (\<lambda>_. 0), kend = 0x80010000, use_lock = True,
     freelist = paddr 530000, ref_count = (\<lambda>i. if i = 530100 then 1 else 0),
     reverse_map = (\<lambda>_. \<lparr>rm_pagetable = 0, rm_va = 0\<rparr>)\<rparr>"

lemma ex_kmem_sel [simp]:
  "kend ex_kmem = 0x80010000" "freelist ex_kmem = paddr 530000" "use_lock ex_kmem"
  "ref_count ex_kmem = (\<lambda>i. if i = 530100 then 1 else 0)" "ram ex_kmem = set_num_pages (paddr 530000) 10 (\<lambda>_. 0)"
  by (simp_all add: ex_kmem_def)

lemma ex_lo_page: "lo_page ex_kmem = 524304"
  by (simp add: lo_page_def PGROUNDUP_def PA2IDX_def PGSIZE_def)

lemma ex_kmem_inv: "kmem_inv ex_kmem [(530000, 10)]"
proof -
  have "nxt (\<lambda>_. 0) 530000 = 0" by (simp add: nxt_def fb_next_def load64_zero)
  then show ?thesis
    unfolding kmem_inv_def ex_lo_page by (auto simp: kend_ok_def heap_simps NREF_eq kconst)
qed

lemma ex_kwf: "kwf ex_kmem" and ex_free: "free_of ex_kmem = {530000..<530010}"
  using ex_kmem_inv free_of_eq [OF ex_kmem_inv] by (auto simp: kwf_def)

section \<open>Properties\<close>

text \<open>C12: \<open>kalloc_contig\<close> is a best-fit allocator. When some free run is long enough it takes
  the first \<open>n\<close> pages of a smallest such run (the first of equals), hands them out with
  reference count 1 and filled with 5, leaves every page that was not free untouched, and keeps
  the invariant with exactly those pages gone; otherwise it returns 0 and changes nothing.\<close>

theorem kalloc_contig_best_fit:
  assumes "kmem_inv s bs" "0 < n" "n < 2 ^ 20"
  shows "if fits n bs
    then \<exists>xs p k ys s'. bs = xs @ (p, k) # ys \<and> best_split n xs p k ys \<and> kalloc_contig n s = Ok (paddr p, s') \<and>
      alloc_post s bs n p s' (take_blk xs p k n ys)
    else kalloc_contig n s = Ok (0, s)"
proof (cases "fits n bs")
  case True
  obtain xs p k ys s' where "bs = xs @ (p, k) # ys" "best_split n xs p k ys" "kalloc_contig n s = Ok (paddr p, s')"
      "alloc_post s bs n p s' (take_blk xs p k n ys)"
    by (rule kalloc_contig_some [OF assms True])
  then show ?thesis using True by auto
qed (simp add: kalloc_contig_none [OF assms(1,3)])

theorem kalloc_contig_best_fit_witness:
  "kmem_inv ex_kmem [(530000, 10)] \<and> (\<exists>s'. kalloc_contig 3 ex_kmem = Ok (paddr 530000, s') \<and>
     alloc_post ex_kmem [(530000, 10)] 3 530000 s' [(530003, 7)])"
  using kalloc_contig_best_fit [OF ex_kmem_inv, of 3] ex_kmem_inv
  by (auto simp: fits_def take_blk_def Cons_eq_append_conv split: if_splits)

text \<open>C4: freeing a run whose pages all have one reference puts exactly that run back. The list
  stays sorted and fully coalesced, the counts and the reverse map of the run are cleared, and no
  page outside the run and the free pages is written.\<close>

theorem kfree_contig_returns_run:
  assumes "kmem_inv s bs" "0 < n" "lo_page s \<le> p" "p + n \<le> NREF" "\<forall>i\<in>{p..<p + n}. ref_count s i = 1"
  shows "\<exists>s'. kfree_contig (paddr p) n s = Ok s' \<and> free_post s bs n p s' (ins_blk p n bs)"
  using kfree_contig_last [OF assms] .

theorem kfree_contig_returns_run_witness:
  "\<exists>s'. kfree_contig (paddr 530100) 1 ex_kmem = Ok s' \<and> kmem_inv s' [(530000, 10), (530100, 1)]"
  using kfree_contig_returns_run [OF ex_kmem_inv, of 1 530100]
  by (auto simp: ex_lo_page NREF_eq free_post_def ins_blk_def join_right_def join_left_def)

text \<open>C27: \<open>kinit\<close> establishes the invariant from the state the loader leaves (an empty list and the
  kernel inside RAM): every page from the end of the kernel to \<^verbatim>\<open>PHYSTOP\<close> is free, in one run.\<close>

theorem kinit_establishes_inv:
  assumes "kend_ok s" "freelist s = 0"
  shows "\<exists>s'. kinit s = Ok s' \<and> kmem_inv s' [(lo_page s, NREF - lo_page s)] \<and>
    kend s' = kend s \<and> use_lock s' \<and> same_outside {lo_page s..<NREF} (ram s) (ram s') \<and>
    (\<forall>i<NREF. ref_count s' i = 0)"
  using kinit_inv [OF assms] .

theorem kinit_establishes_inv_witness:
  "\<exists>s'. kinit (ex_kmem\<lparr>freelist := 0\<rparr>) = Ok s' \<and> kmem_inv s' [(524304, 32752)]"
proof -
  have "lo_page (ex_kmem\<lparr>freelist := 0\<rparr>) = 524304" using ex_lo_page by (simp add: lo_page_def)
  then show ?thesis using kinit_establishes_inv [of "ex_kmem\<lparr>freelist := 0\<rparr>"]
    by (auto simp: kend_ok_def kconst NREF_eq)
qed

text \<open>A page that has just been allocated can be freed, and that restores the free set and
  every reference count.\<close>

lemma kalloc_kfree_roundtrip:
  assumes "kwf s" "kalloc s = Ok (a, s1)" "a \<noteq> 0"
  shows "\<exists>s2. kfree a s1 = Ok s2 \<and> kwf s2 \<and> free_of s2 = free_of s \<and> ref_count s2 = ref_count s"
  using kpa.alloc_dealloc [OF assms] .

text \<open>A double free of a managed page stops the kernel: with no references left, \<open>kfree\<close>
  panics and nothing is put on the list twice.\<close>

lemma kfree_double_free_panics:
  assumes "kwf s" "managed s a" "ref_count s (PA2IDX a) \<le> 0"
  shows "kfree a s = Panic ''kfree_contig: ref_count already zero''"
  using kfree_dead [OF assms] .

end
