(* ===== verification/Vm_Example.thy ===== *)
theory Vm_Example
  imports Vm_Copy Kalloc_Props
begin

text \<open>
  A small concrete machine for the address-space theorems: \<open>ex_root\<close> is a page table that maps
  virtual page 0 to the frame \<open>ex_frame\<close> with a given entry, and \<open>ex_child\<close> is an empty one.
\<close>

definition ex_root :: addr where "ex_root = paddr 530100"
definition ex_l1 :: addr where "ex_l1 = paddr 530101"
definition ex_l0 :: addr where "ex_l0 = paddr 530102"
definition ex_frame :: addr where "ex_frame = paddr 530103"
definition ex_child :: addr where "ex_child = paddr 530104"

lemmas ex_addrs = ex_root_def ex_l1_def ex_l0_def ex_frame_def ex_child_def

definition ex_pte :: "u64 \<Rightarrow> u64" where "ex_pte flags = PA2PTE ex_frame OR flags"

definition ex_vm :: "u64 \<Rightarrow> int \<Rightarrow> kmem" where
  "ex_vm flags ref = ex_kmem\<lparr>
     ram := store64 (store64 (store64 (ram ex_kmem) (slot ex_root 0) (PA2PTE ex_l1 OR PTE_V))
              (slot ex_l1 0) (PA2PTE ex_l0 OR PTE_V)) (slot ex_l0 0) (ex_pte flags),
     ref_count := (\<lambda>i. if i \<in> {530100, 530101, 530102, 530104} then 1 else if i = 530103 then ref else 0)\<rparr>"

lemma ex_aligned [simp]: "aligned ex_root" "aligned ex_l1" "aligned ex_l0" "aligned ex_frame" "aligned ex_child"
  by (simp_all add: ex_addrs)

lemma ex_PA2IDX [simp]: "PA2IDX ex_root = 530100" "PA2IDX ex_l1 = 530101" "PA2IDX ex_l0 = 530102"
  "PA2IDX ex_frame = 530103" "PA2IDX ex_child = 530104"
  by (simp_all add: ex_addrs)

lemma ex_distinct: "distinct [ex_root, ex_l1, ex_l0, ex_frame, ex_child]"
  by (simp add: ex_addrs paddr_inj)

lemma ex_base_ent: "t \<in> {ex_root, ex_l1, ex_l0, ex_child} \<Longrightarrow> i < 512 \<Longrightarrow> ent (ram ex_kmem) t i = 0"
proof -
  assume t: "t \<in> {ex_root, ex_l1, ex_l0, ex_child}" and i: "i < 512"
  have o: "same_outside {530000} (\<lambda>_. 0) (ram ex_kmem)" by (simp add: heap_simps)
  have "PA2IDX t \<notin> {530000}" "aligned t" using t by auto
  then have "ent (ram ex_kmem) t i = ent (\<lambda>_. 0) t i" using ent_outside [OF o] i by blast
  then show ?thesis by (simp add: ent_def load64_zero)
qed

lemma ex_ent:
  assumes "t \<in> {ex_root, ex_l1, ex_l0, ex_child}" "i < 512"
  shows "ent (ram (ex_vm f r)) t i =
    (if i = 0 \<and> t = ex_root then PA2PTE ex_l1 OR PTE_V else if i = 0 \<and> t = ex_l1 then PA2PTE ex_l0 OR PTE_V
     else if i = 0 \<and> t = ex_l0 then ex_pte f else 0)"
proof -
  have "aligned t" using assms(1) by auto
  then show ?thesis using ex_base_ent [OF assms] ex_distinct assms
    by (auto simp: ex_vm_def ent_store simp del: ex_kmem_sel)
qed

lemma PTE_V_nonzero [simp]: "PTE_V \<noteq> 0"
  by (simp add: PTE_V_def)

lemma ex_tables: "valid (PA2PTE ex_l1 OR PTE_V)" "PTE2PA (PA2PTE ex_l1 OR PTE_V) = ex_l1"
  "valid (PA2PTE ex_l0 OR PTE_V)" "PTE2PA (PA2PTE ex_l0 OR PTE_V) = ex_l0" "\<not> valid 0"
  by (simp_all add: table_entry)

lemma short_path:
  assumes "path \<pi>"
  obtains "\<pi> = []" | i where "\<pi> = [i]" "i < 512" | i j where "\<pi> = [i, j]" "i < 512" "j < 512"
proof -
  have "length \<pi> = 0 \<or> length \<pi> = 1 \<or> length \<pi> = 2" and d: "set \<pi> \<subseteq> {..<512}"
    using assms unfolding path_def by linarith+
  then consider "\<pi> = []" | i where "\<pi> = [i]" | i j where "\<pi> = [i, j]"
    by (auto simp: length_Suc_conv numeral_2_eq_2)
  then show thesis using d that by cases auto
qed

lemma ex_tbl: "path \<pi> \<Longrightarrow> tbl (ram (ex_vm f r)) ex_root \<pi> =
    (if \<pi> = [] then Some ex_root else if \<pi> = [0] then Some ex_l1 else if \<pi> = [0, 0] then Some ex_l0 else None)"
  using ex_distinct by (erule_tac short_path) (auto simp: ex_ent ex_tables)

lemma ex_child_tbl: "path \<pi> \<Longrightarrow> tbl (ram (ex_vm f r)) ex_child \<pi> = (if \<pi> = [] then Some ex_child else None)"
  using ex_distinct by (erule_tac short_path) (auto simp: ex_ent ex_tables)

lemma ex_tabs: "tabs (ram (ex_vm f r)) ex_root = {530100, 530101, 530102}" "tabs (ram (ex_vm f r)) ex_child = {530104}"
proof -
  have p: "path [0]" "path [0, 0]" by (simp_all add: path_def)
  have "tabs (ram (ex_vm f r)) ex_root \<subseteq> {530100, 530101, 530102}"
    unfolding tabs_def using ex_tbl [of _ f r] by (auto split: if_splits)
  moreover have "{530100, 530101, 530102} \<subseteq> tabs (ram (ex_vm f r)) ex_root"
    using tabsI [of "[]" "ram (ex_vm f r)" ex_root ex_root] tabsI [of "[0]" "ram (ex_vm f r)" ex_root ex_l1]
      tabsI [of "[0, 0]" "ram (ex_vm f r)" ex_root ex_l0] ex_tbl [OF p(1), of f r] ex_tbl [OF p(2), of f r] p by simp
  ultimately show "tabs (ram (ex_vm f r)) ex_root = {530100, 530101, 530102}" by blast
  show "tabs (ram (ex_vm f r)) ex_child = {530104}"
  proof
    show "tabs (ram (ex_vm f r)) ex_child \<subseteq> {530104}"
      unfolding tabs_def using ex_child_tbl [of _ f r] by (auto split: if_splits)
  qed (use root_in_tabs [of ex_child "ram (ex_vm f r)"] in simp)
qed

lemma ex_trees: "pt_tree (ram (ex_vm f r)) ex_root" "pt_tree (ram (ex_vm f r)) ex_child"
  unfolding pt_tree_def using ex_tbl [of _ f r] ex_child_tbl [of _ f r] ex_distinct by (auto split: if_splits)

lemma ex_vm_inv: "kmem_inv (ex_vm f r) [(530000, 10)]"
proof -
  let ?S = "{530100, 530101, 530102} :: nat set"
  have o: "same_outside ?S m (store64 m (slot ex_root 0) v)" "same_outside ?S m (store64 m (slot ex_l1 0) v)"
      "same_outside ?S m (store64 m (slot ex_l0 0) v)" for m v
    by (rule store_outside; simp)+
  have m: "ram (ex_vm f r) = store64 (store64 (store64 (ram ex_kmem) (slot ex_root 0) (PA2PTE ex_l1 OR PTE_V))
      (slot ex_l1 0) (PA2PTE ex_l0 OR PTE_V)) (slot ex_l0 0) (ex_pte f)" by (simp add: ex_vm_def)
  have "same_outside ?S (ram ex_kmem) (ram (ex_vm f r))"
    unfolding m by (rule same_outside_trans [OF same_outside_trans [OF o(1) o(2)] o(3)])
  then show ?thesis by (rule kmem_inv_frame [OF ex_kmem_inv]) (auto simp: ex_vm_def)
qed

lemma ex_vm_free: "free_of (ex_vm f r) = {530000..<530010}"
  using free_of_eq [OF ex_vm_inv] by simp

lemma ex_vm_lo: "lo_page (ex_vm f r) = 524304"
  using ex_lo_page by (simp add: lo_page_def ex_vm_def)

lemma ex_vm_ref: "ref_count (ex_vm f r) = (\<lambda>i. if i \<in> {530100, 530101, 530102, 530104} then 1 else if i = 530103 then r else 0)"
  by (simp add: ex_vm_def)

lemma ex_spaces: "two_spaces (ex_vm f r) ex_root ex_child"
proof -
  have "kwf (ex_vm f r)" using ex_vm_inv by (auto simp: kwf_def)
  then show ?thesis by (simp add: two_spaces_def aspace_def ex_tabs ex_trees ex_vm_lo NREF_eq ex_vm_ref)
qed

lemma ex_aspace: "aspace (ex_vm f r) ex_root"
  using ex_spaces by (simp add: two_spaces_def)

lemma ex_user_frame: "0 < r \<Longrightarrow> user_frame (ex_vm f r) {ex_root, ex_child} ex_frame"
  by (simp add: user_frame_def managed_def aligned_def [symmetric] ex_vm_lo NREF_eq ex_tabs ex_vm_ref)

lemma px_0 [simp]: "px l 0 = 0"
  by (simp add: px_def PX_def)

lemma ex_leaf: "leaf_table (ram (ex_vm f r)) ex_root 0 = Some ex_l0"
  using ex_tbl [OF path_va(2), of f r 0] by (simp add: leaf_table_def vpath_def)

lemma ex_pte_val: "pte_val (ram (ex_vm f r)) ex_root v = (if vpn v = vpn 0 then ex_pte f else 0)"
proof -
  have "leaf_table (ram (ex_vm f r)) ex_root v = (if px 2 v = 0 \<and> px 1 v = 0 then Some ex_l0 else None)"
    using ex_tbl [OF path_va(2), of f r v] by (simp add: leaf_table_def vpath_def)
  then show ?thesis using ex_distinct by (auto simp: pte_val_def vpn_def ex_ent)
qed

lemma ex_child_pte_val: "pte_val (ram (ex_vm f r)) ex_child v = 0"
  using ex_child_tbl [OF path_va(2), of f r v] by (simp add: pte_val_def leaf_table_def vpath_def)

lemma ex_pte_PA: "f < 1024 \<Longrightarrow> PTE2PA (ex_pte f) = ex_frame"
  unfolding ex_pte_def by (rule PTE2PA_PA2PTE) (simp_all add: aligned_def [symmetric])

lemma ex_pte_bit: "f < 1024 \<Longrightarrow> n < 10 \<Longrightarrow> bit (ex_pte f) n = bit f n"
  using bit_PTE_FLAGS [of "ex_pte f" n] PTE_FLAGS_PA2PTE [of f ex_frame] by (simp add: ex_pte_def)

end
