(* ===== verification/Compact.thy ===== *)
theory Compact
  imports Vm_Example
begin

text \<open>
  \<^verbatim>\<open>compact_memory\<close> of \<^verbatim>\<open>kernel/kalloc.c\<close>, which slides the page after a hole into the
  hole and redirects the one page-table entry that the reverse map records for it.

  Two facts about it: the guard indexes \<^verbatim>\<open>ref_count\<close> by the offset from
  \<^verbatim>\<open>KERNBASE\<close> where the array is indexed by \<^verbatim>\<open>PA2IDX\<close>, so it never holds and compaction
  changes nothing; and the body, were it reached, reads the hole's next pointer after it has
  copied a page over it.
\<close>

section \<open>The model\<close>

definition pfn_of :: "addr \<Rightarrow> nat" where "pfn_of pa = unat ((pa - KERNBASE) div PGSIZE)"

text \<open>\<^verbatim>\<open>while (p != 0 && p->next != curr) p = p->next;\<close>\<close>

partial_function (option) fl_pred :: "memory \<Rightarrow> addr \<Rightarrow> addr \<Rightarrow> addr option" where
  "fl_pred m cur p = (if p \<noteq> 0 \<and> fb_next m p \<noteq> cur then fl_pred m cur (fb_next m p) else Some p)"

definition swap_refs :: "addr \<Rightarrow> addr \<Rightarrow> 'z kmem_scheme \<Rightarrow> 'z kmem_scheme" where
  "swap_refs hole used s =
     s\<lparr>ref_count := (ref_count s)(PA2IDX hole := ref_count s (PA2IDX used), PA2IDX used := ref_count s (PA2IDX hole))\<rparr>"

definition relink_hole :: "addr \<Rightarrow> addr \<Rightarrow> 'z kmem_scheme \<Rightarrow> 'z kmem_scheme res" where
  "relink_hole cur shifted s =
     (if freelist s = cur then Ok (s\<lparr>freelist := shifted\<rparr>)
      else bnd (loop_res (fl_pred (ram s) cur (freelist s))) (\<lambda>p.
        if p \<noteq> 0 then Ok (s\<lparr>ram := set_next p shifted (ram s)\<rparr>) else Ok (s\<lparr>freelist := shifted\<rparr>)))"

text \<open>Moving the page after the hole at \<open>cur\<close> into it.\<close>

definition compact_move :: "addr \<Rightarrow> 'z kmem_scheme \<Rightarrow> 'z kmem_scheme res" where
  "compact_move cur s =
     (let hole = cur; sz = fb_num_pages (ram s) cur; used = fb_end (ram s) cur;
          pagetable = rm_pagetable (reverse_map s (pfn_of used)); va = rm_va (reverse_map s (pfn_of used));
          s1 = swap_refs hole used s;
          s2 = s1\<lparr>ram := memmove (ram s1) hole used 4096\<rparr>
      in bnd (walk pagetable va False s2) (\<lambda>(pte, s2).
        let s3 = (if pte \<noteq> 0 \<and> get_pte pte s2 AND PTE_V \<noteq> 0
                  then set_pte pte (PA2PTE hole OR PTE_FLAGS (get_pte pte s2)) s2 else s2);
            s4 = s3\<lparr>reverse_map := (reverse_map s3)(pfn_of hole := \<lparr>rm_pagetable = pagetable, rm_va = va\<rparr>,
                                                   pfn_of used := \<lparr>rm_pagetable = 0, rm_va = 0\<rparr>)\<rparr>;
            shifted = hole + PGSIZE;
            m5 = set_num_pages shifted sz (ram s4);
            s6 = s4\<lparr>ram := set_next shifted (fb_next m5 cur) m5\<rparr>
        in bnd (relink_hole cur shifted s6) (\<lambda>s7. Ok (s7\<lparr>ram := coalesce_right shifted (ram s7)\<rparr>))))"

definition compactable :: "addr \<Rightarrow> 'z kmem_scheme \<Rightarrow> bool" where
  "compactable used s \<longleftrightarrow>
     (let pfn = pfn_of used; r = reverse_map s pfn in
      rm_pagetable r \<noteq> 0 \<and> rm_pagetable r \<noteq> - 1 \<and> ref_count s pfn = 1)"

partial_function (option) compact_loop :: "addr \<Rightarrow> 'z kmem_scheme \<Rightarrow> 'z kmem_scheme res option" where
  "compact_loop cur s =
     (if cur = 0 then Some (Ok s)
      else let used = fb_end (ram s) cur in
        if used \<ge> PHYSTOP then Some (Ok s)
        else if fb_next (ram s) cur \<noteq> 0 \<and> fb_next (ram s) cur = used then compact_loop (fb_next (ram s) cur) s
        else if NRMAP \<le> pfn_of used then Some Undef
        else if compactable used s
        then obnd (Some (compact_move cur s)) (\<lambda>s. compact_loop (freelist s) s)
        else compact_loop (fb_next (ram s) cur) s)"

definition compact_memory :: "'z kmem_scheme \<Rightarrow> 'z kmem_scheme res" where
  "compact_memory s =
     (if \<not> use_lock s then Ok s else bnd (loop_res (compact_loop (freelist s) s)) (\<lambda>r. r))"

section \<open>Compaction never moves a page\<close>

definition low_refs_zero :: "'z kmem_scheme \<Rightarrow> bool" where
  "low_refs_zero s \<longleftrightarrow> (\<forall>i<NRMAP. ref_count s i = 0)"

lemma not_compactable:
  assumes "low_refs_zero s" "pfn_of used < NRMAP"
  shows "\<not> compactable used s"
  using assms by (simp add: low_refs_zero_def compactable_def Let_def)

lemma pfn_of_page: "524288 \<le> p \<Longrightarrow> p < NREF \<Longrightarrow> pfn_of (paddr p) = p - 524288"
proof -
  assume p: "524288 \<le> p" "p < NREF"
  have u: "unat (paddr p) = p * 4096" using p by (simp add: unat_paddr NREF_eq)
  have "KERNBASE \<le> paddr p" using p u by (simp add: word_le_nat_alt kconst)
  then have "unat (paddr p - KERNBASE) = p * 4096 - 524288 * 4096" using u by (simp add: unat_sub_le kconst)
  then show ?thesis using p by (simp add: pfn_of_def unat_div PGSIZE_def)
qed

lemma compact_loop_noop:
  assumes "fl_seg (ram s) cur bs 0" "blocks_ok lo NREF bs" "524288 \<le> lo" "low_refs_zero s"
  shows "compact_loop cur s = Some (Ok s)"
  using assms
proof (induction bs arbitrary: cur lo)
  case Nil
  then show ?case by (simp add: compact_loop.simps)
next
  case (Cons b bs)
  obtain p n where b: "b = (p, n)" by (cases b)
  have p: "lo \<le> p" "0 < n" "p + n \<le> NREF" "blocks_ok (p + n + 1) NREF bs" using Cons.prems(2) b by auto
  have pg: "page_num p" "n < 2 ^ 20" "page_num (p + n)" "0 < p" using p Cons.prems(3) by (auto simp: NREF_eq)
  have cur: "cur = paddr p" "cnt (ram s) p = of_nat n" "fl_seg (ram s) (nxt (ram s) p) bs 0" using Cons.prems(1) b by auto
  have used: "fb_end (ram s) cur = paddr (p + n)" using fb_end_paddr [OF pg(1) cur(2) pg(2)] cur(1) by simp
  have rest: "compact_loop (nxt (ram s) p) s = Some (Ok s)"
    using Cons.IH [OF cur(3) p(4)] Cons.prems(3,4) p(1) by simp
  have nx: "fb_next (ram s) cur = nxt (ram s) p" using cur(1) by (simp add: nxt_def)
  show ?case
  proof (cases "PHYSTOP \<le> paddr (p + n)")
    case True
    then show ?thesis using used pg cur(1) by (simp add: compact_loop.simps paddr_0)
  next
    case False
    then have "p + n < NREF" using paddr_less [of "p + n" 557056] pg(3) by (simp add: PHYSTOP_paddr not_le NREF_eq)
    then have pf: "pfn_of (paddr (p + n)) < NRMAP" using pfn_of_page [of "p + n"] p(1) Cons.prems(3) by (simp add: NREF_eq NRMAP_eq)
    show ?thesis
      using False used rest nx pf not_compactable [OF Cons.prems(4) pf] pg cur(1)
      by (subst compact_loop.simps) (auto simp: Let_def paddr_0)
  qed
qed

lemma compact_memory_noop: "kmem_inv s bs \<Longrightarrow> low_refs_zero s \<Longrightarrow> compact_memory s = Ok s"
  using compact_loop_noop [of s "freelist s" bs "lo_page s"] lo_page_bounds [of s]
  by (simp add: compact_memory_def kmem_inv_def)

text \<open>
  The guard's hypothesis is an invariant. \<open>kreach\<close> is the allocator as the kernel drives it: after
  \<open>kinit\<close>, runs are allocated and freed, references are added and dropped for pages in use, the
  reverse map changes, and memory outside the free pages is written.
\<close>

inductive kreach :: "kmem \<Rightarrow> bool" where
  init: "kend_ok s \<Longrightarrow> freelist s = 0 \<Longrightarrow> kinit s = Ok s' \<Longrightarrow> kreach s'"
| alloc: "kreach s \<Longrightarrow> 0 < n \<Longrightarrow> n < 2 ^ 20 \<Longrightarrow> kalloc_contig n s = Ok (a, s') \<Longrightarrow> kreach s'"
| free: "kreach s \<Longrightarrow> 0 < n \<Longrightarrow> lo_page s \<le> p \<Longrightarrow> p + n \<le> NREF \<Longrightarrow> kfree_contig (paddr p) n s = Ok s' \<Longrightarrow> kreach s'"
| inc: "kreach s \<Longrightarrow> managed s pa \<Longrightarrow> PA2IDX pa \<notin> free_of s \<Longrightarrow> incref pa s = Ok s' \<Longrightarrow> kreach s'"
| dec: "kreach s \<Longrightarrow> managed s pa \<Longrightarrow> decref pa s = Ok (c, s') \<Longrightarrow> kreach s'"
| rmap: "kreach s \<Longrightarrow> kreach (record_rmap pa pt va s)"
| wr: "kreach s \<Longrightarrow> same_outside S (ram s) m \<Longrightarrow> S \<inter> free_of s = {} \<Longrightarrow> kreach (s\<lparr>ram := m\<rparr>)"

lemma low_refs_managed: "kend_ok s \<Longrightarrow> lo_page s \<le> i \<Longrightarrow> \<not> i < NRMAP"
  using lo_page_bounds [of s] by (simp add: NRMAP_eq)

lemma low_refs_run: "low_refs_zero s \<Longrightarrow> NRMAP \<le> p \<Longrightarrow> ref_count s' = on_run p n f (ref_count s) \<Longrightarrow> low_refs_zero s'"
  by (simp add: low_refs_zero_def on_run_def)

lemma low_refs_upd: "low_refs_zero s \<Longrightarrow> NRMAP \<le> p \<Longrightarrow> ref_count s' = (ref_count s)(p := c) \<Longrightarrow> low_refs_zero s'"
  by (simp add: low_refs_zero_def)

lemma kreach_ok: "kreach s \<Longrightarrow> kwf s \<and> low_refs_zero s"
proof (induction rule: kreach.induct)
  case (init s s')
  then show ?case using kinit_inv [OF init(1,2)] by (auto simp: kwf_def low_refs_zero_def NREF_eq NRMAP_eq)
next
  case (alloc s n a s')
  then obtain bs where inv: "kmem_inv s bs" and low: "low_refs_zero s" by (auto simp: kwf_def)
  show ?case
  proof (cases "fits n bs")
    case False
    then show ?thesis using alloc kalloc_contig_none [OF inv alloc(3) False] by auto
  next
    case True
    obtain xs p k ys s1 where r: "kalloc_contig n s = Ok (paddr p, s1)" "alloc_post s bs n p s1 (take_blk xs p k n ys)"
      by (rule kalloc_contig_some [OF inv alloc(2,3) True]) blast
    have e: "s1 = s\<lparr>ram := ram s1, freelist := freelist s1, ref_count := on_run p n (\<lambda>_. 1) (ref_count s)\<rparr>"
        and inv1: "kmem_inv s1 (take_blk xs p k n ys)" and lo: "lo_page s \<le> p"
      using r(2) unfolding alloc_post_def by blast+
    have "ref_count s1 = on_run p n (\<lambda>_. 1) (ref_count s)" by (subst e) simp
    moreover have "NRMAP \<le> p" using low_refs_managed [of s p] inv lo by (simp add: kmem_inv_def)
    ultimately show ?thesis using r(1) alloc(4) inv1 low_refs_run [OF low] by (auto simp: kwf_def)
  qed
next
  case (free s n p s')
  then obtain bs where inv: "kmem_inv s bs" and low: "low_refs_zero s" by (auto simp: kwf_def)
  have np: "NRMAP \<le> p" using low_refs_managed [of s p] inv free(3) by (simp add: kmem_inv_def)
  from inv free(2-5) show ?case
  proof (cases rule: kfree_contig_Ok_cases)
    case shared
    then show ?thesis using low_refs_upd [OF low np, of s'] by (auto simp: kwf_def)
  next
    case freed
    have e: "s' = s\<lparr>ram := ram s', freelist := freelist s', ref_count := on_run p n (\<lambda>_. 0) (ref_count s),
        reverse_map := rmap_cleared p n (reverse_map s)\<rparr>" and inv1: "kmem_inv s' (ins_blk p n bs)"
      using freed(2) unfolding free_post_def by blast+
    have "ref_count s' = on_run p n (\<lambda>_. 0) (ref_count s)" by (subst e) simp
    then show ?thesis using inv1 low_refs_run [OF low np] by (auto simp: kwf_def)
  qed
next
  case (inc s pa s')
  have "NRMAP \<le> PA2IDX pa" using inc low_refs_managed [of s "PA2IDX pa"] by (auto simp: kwf_def kmem_inv_def managed_def)
  then show ?case using inc ref_update [of s "PA2IDX pa"]
    by (auto simp: incref_def undef_if_def low_refs_zero_def split: if_splits)
next
  case (dec s pa c s')
  have "NRMAP \<le> PA2IDX pa" using dec low_refs_managed [of s "PA2IDX pa"] by (auto simp: kwf_def kmem_inv_def managed_def)
  moreover have nf: "PA2IDX pa \<notin> free_of s" using dec kpa.avail_refs [of s "PA2IDX pa"]
    by (auto simp: decref_def undef_if_def panic_if_def Let_def split: if_splits)
  ultimately show ?case using dec ref_update [OF _ nf]
    by (auto simp: decref_def undef_if_def panic_if_def low_refs_zero_def Let_def split: if_splits)
next
  case (rmap s pa pt va)
  then show ?case by (simp add: low_refs_zero_def)
next
  case (wr s S m)
  then show ?case using kpa.write_frame [of s S m] by (simp add: low_refs_zero_def)
qed

section \<open>Properties\<close>

text \<open>C34: compaction never moves anything: in every state the allocator can reach, \<open>compact_memory\<close>
  returns with the state unchanged, whatever the reverse map says.\<close>

theorem compact_memory_never_moves:
  assumes "kreach s"
  shows "compact_memory s = Ok s"
  using kreach_ok [OF assms] compact_memory_noop [of s] by (auto simp: kwf_def)

theorem compact_memory_never_moves_witness:
  "\<exists>s. kreach s \<and> compact_memory s = Ok s"
proof -
  have k: "kend_ok (ex_kmem\<lparr>freelist := 0\<rparr>)" by (simp add: kend_ok_def kconst)
  obtain s where "kinit (ex_kmem\<lparr>freelist := 0\<rparr>) = Ok s" using kinit_inv [OF k] by auto
  then have "kreach s" using kreach.init [OF k] by simp
  then show ?thesis using compact_memory_never_moves by blast
qed

end
