(* ===== verification/Process.thy ===== *)
theory Process
  imports File Compact
begin

text \<open>
  Process management above the file system (\<^verbatim>\<open>kernel/proc.c\<close>): creation, fork, exit, wait, the scheduler's round with
  its idle branch, and the preparation of a return to user space (\<^verbatim>\<open>kernel/trap.c\<close>). The trapframe is read and
  written in the page that holds it. \<open>hart\<close> has the control registers of the CPU; the addresses of \<^verbatim>\<open>uservec\<close>,
  \<^verbatim>\<open>usertrap\<close> and \<^verbatim>\<open>kernelvec\<close> are symbols of the linker.

  \<open>kexit\<close> ends in the state in which it enters the scheduler, from which it does not return. \<open>kwait\<close> is one pass of
  its loop; if it sleeps, the pass is repeated when the process is woken.
\<close>

section \<open>State\<close>

record hart =
  sepc :: u64
  scause :: u64
  sstatus :: u64
  stval :: u64
  stvec :: u64
  satp :: u64
  tp :: u64
  stimecmp :: u64

record kernel = kfile +
  regs :: hart
  window_tick :: int
  idle_start_tick :: u32
  first :: bool
  sym_uservec :: addr
  sym_usertrap :: addr
  sym_kernelvec :: addr

definition tf_epc :: addr where "tf_epc = 24"
definition tf_sp :: addr where "tf_sp = 48"
definition tf_a0 :: addr where "tf_a0 = 112"
definition tf_a1 :: addr where "tf_a1 = 120"
definition tf_a7 :: addr where "tf_a7 = 168"
definition TF_SIZE :: nat where "TF_SIZE = 288"

definition tf_get :: "addr \<Rightarrow> 'z ktask_scheme \<Rightarrow> u64" where
  "tf_get f s = load64 (ram s) (trapframe (myproc s) + f)"

definition tf_set :: "addr \<Rightarrow> u64 \<Rightarrow> 'z ktask_scheme \<Rightarrow> 'z ktask_scheme" where
  "tf_set f v s = s\<lparr>ram := store64 (ram s) (trapframe (myproc s) + f) v\<rparr>"

section \<open>Creation\<close>

definition procinit :: "'z ktask_scheme \<Rightarrow> 'z ktask_scheme" where
  "procinit s = fold (\<lambda>i. upd_proc i (\<lambda>p. p\<lparr>pstate := UNUSED, kstack := KSTACK i\<rparr>)) [0..<NPROC] s"

definition userinit :: "'z kernel_scheme \<Rightarrow> 'z kernel_scheme res" where
  "userinit s =
     bnd (allocproc s) (\<lambda>(p, s).
     case p of
       None \<Rightarrow> Undef
     | Some p \<Rightarrow>
         bnd (namei (bytes_of ''/'') (s\<lparr>initproc := p\<rparr>)) (\<lambda>(ip, s).
         Ok (upd_proc p (\<lambda>q. q\<lparr>cwd := ip, pstate := RUNNABLE\<rparr>) s)))"

text \<open>\<^verbatim>\<open>safestrcpy(s, t, n)\<close> on arrays: at most n - 1 bytes, then a zero.\<close>

definition safestrcpy_bytes :: "nat \<Rightarrow> u8 list \<Rightarrow> u8 list \<Rightarrow> u8 list" where
  "safestrcpy_bytes n t dst = blit 0 (takeWhile (\<lambda>c. c \<noteq> 0) (take (n - 1) t) @ [0]) dst"

definition fork_file :: "nat \<Rightarrow> nat \<Rightarrow> 'z kernel_scheme \<Rightarrow> 'z kernel_scheme res" where
  "fork_file np fd s =
     (case ofile (myproc s) ! fd of
        None \<Rightarrow> Ok s
      | Some f \<Rightarrow> bnd (filedup f s) (\<lambda>s. Ok (upd_proc np (\<lambda>q. q\<lparr>ofile := (ofile q)[fd := Some f]\<rparr>) s)))"

definition kfork :: "'z kernel_scheme \<Rightarrow> (int \<times> 'z kernel_scheme) res" where
  "kfork s =
     bnd (allocproc s) (\<lambda>(r, s).
     case r of
       None \<Rightarrow> Ok (- 1, s)
     | Some np \<Rightarrow>
         bnd (uvmcopy (pagetable (myproc s)) (pagetable (procs s ! np)) (psz (myproc s)) s) (\<lambda>(r, s).
         if r < 0 then bnd (freeproc np s) (\<lambda>s. Ok (- 1, s))
         else
           let s = upd_proc np (\<lambda>q. q\<lparr>psz := psz (myproc s)\<rparr>) s;
               s = s\<lparr>ram := poke (ram s) (trapframe (procs s ! np)) (peek (ram s) (trapframe (myproc s)) TF_SIZE)\<rparr>;
               s = s\<lparr>ram := store64 (ram s) (trapframe (procs s ! np) + tf_a0) 0\<rparr>
           in
           bnd (for_res [0..<NOFILE] (fork_file np) s) (\<lambda>s.
           case cwd (myproc s) of
             None \<Rightarrow> Undef
           | Some d \<Rightarrow>
               let s = upd_proc np (\<lambda>q. q\<lparr>cwd := Some d\<rparr>) (idup d s);
                   s = upd_proc np (\<lambda>q. q\<lparr>pname := safestrcpy_bytes 16 (pname (myproc s)) (pname q)\<rparr>) s;
                   s = upd_proc np (inherit_sched (myproc s)) s;
                   pd = pid (procs s ! np);
                   s = upd_proc np (\<lambda>q. q\<lparr>parent := Some (cur s)\<rparr>) s
               in Ok (pd, s\<lparr>procs := runnable_tbl np (procs s)\<rparr>))))"

section \<open>Exit and wait\<close>

definition exit_file :: "nat \<Rightarrow> 'z kernel_scheme \<Rightarrow> 'z kernel_scheme res" where
  "exit_file fd s =
     (case ofile (myproc s) ! fd of
        None \<Rightarrow> Ok s
      | Some f \<Rightarrow> bnd (fileclose f s) (\<lambda>s. Ok (upd_proc (cur s) (\<lambda>p. p\<lparr>ofile := (ofile p)[fd := None]\<rparr>) s)))"

definition kexit :: "int \<Rightarrow> 'z kernel_scheme \<Rightarrow> 'z kernel_scheme res" where
  "kexit status s =
     panic_if (cur s = initproc s) ''init exiting'' (
     bnd (for_res [0..<NOFILE] exit_file s) (\<lambda>s.
     bnd (begin_op s) (\<lambda>s.
     case cwd (myproc s) of
       None \<Rightarrow> Undef
     | Some d \<Rightarrow>
         bnd (iput d s) (\<lambda>s. bnd (end_op s) (\<lambda>s.
         let s = reparent (cur s) (upd_proc (cur s) (\<lambda>p. p\<lparr>cwd := None\<rparr>) s);
             s = wakeup (case parent (myproc s) of None \<Rightarrow> NoChan | Some q \<Rightarrow> ChanProc q) s
         in Ok (s\<lparr>procs := zombie_tbl (cur s) status (procs s)\<rparr>))))))"

text \<open>The scan of \<^verbatim>\<open>kwait\<close>: the result if a zombie child was found, and whether there is a child.\<close>

primrec kwait_scan :: "addr \<Rightarrow> nat list \<Rightarrow> bool \<Rightarrow> 'z kernel_scheme \<Rightarrow> (int option \<times> bool \<times> 'z kernel_scheme) res" where
  "kwait_scan addr [] havekids s = Ok (None, havekids, s)"
| "kwait_scan addr (i # is) havekids s =
     (let pp = procs s ! i in
      if parent pp = Some (cur s) then
        if pstate pp = ZOMBIE then
          bnd (if addr \<noteq> 0 then copyout_bytes (pagetable (myproc s)) addr (le_bytes 4 (of_int (xstate pp) :: u32)) (psz (myproc s)) s
               else Ok (0, s)) (\<lambda>(r, s).
          if r < 0 then Ok (Some (- 1), True, s)
          else bnd (freeproc i s) (\<lambda>s. Ok (Some (pid pp), True, s)))
        else kwait_scan addr is True s
      else kwait_scan addr is havekids s)"

definition kwait :: "addr \<Rightarrow> 'z kernel_scheme \<Rightarrow> (io \<times> 'z kernel_scheme) res" where
  "kwait addr s =
     bnd (kwait_scan addr [0..<length (procs s)] False s) (\<lambda>(r, havekids, s).
     case r of
       Some pd \<Rightarrow> Ok (Ret pd, s)
     | None \<Rightarrow>
         if \<not> havekids \<or> is_killed (cur s) s then Ok (Ret (- 1), s)
         else Ok (Wait (ChanProc (cur s)) 0, sleep_on (ChanProc (cur s)) s))"

section \<open>The scheduler\<close>

text \<open>Up to the switch to the process that was chosen.\<close>

definition scheduler_start :: "nat \<Rightarrow> 'z kernel_scheme \<Rightarrow> 'z kernel_scheme" where
  "scheduler_start best s = s\<lparr>procs := sched_start best (sched_age best (procs s)), cur := best, idle_start_tick := 0\<rparr>"

text \<open>From the return of the switch to the end of the round.\<close>

definition scheduler_return :: "nat \<Rightarrow> 'z kernel_scheme \<Rightarrow> 'z kernel_scheme" where
  "scheduler_return best s =
     (case sched_window (window_tick s + 1) (sched_account best (procs s)) of (w, ps) \<Rightarrow> s\<lparr>window_tick := w, procs := ps\<rparr>)"

definition scheduler_idle :: "'z kernel_scheme \<Rightarrow> 'z kernel_scheme res" where
  "scheduler_idle s =
     (if idle_start_tick s = 0 then Ok (s\<lparr>idle_start_tick := ticks s\<rparr>)
      else
        bnd (if ticks s - idle_start_tick s \<ge> 5 then garbage_collect s else Ok s) (\<lambda>s.
        if ticks s - idle_start_tick s \<ge> 10 then bnd (compact_memory s) (\<lambda>s. Ok (s\<lparr>idle_start_tick := ticks s\<rparr>)) else Ok s))"

text \<open>One iteration of the loop: \<open>run\<close> is what the chosen process does until it switches back.\<close>

definition scheduler :: "('z kernel_scheme \<Rightarrow> 'z kernel_scheme res) \<Rightarrow> 'z kernel_scheme \<Rightarrow> 'z kernel_scheme res" where
  "scheduler run s =
     (case sched_pick (procs s) 0 None of
        Some best \<Rightarrow> bnd (run (scheduler_start best s)) (\<lambda>s. Ok (scheduler_return best s))
      | None \<Rightarrow> scheduler_idle s)"

definition yield :: "'z ktask_scheme \<Rightarrow> 'z ktask_scheme" where
  "yield s = s\<lparr>procs := yield_tbl (cur s) (procs s)\<rparr>"

definition unsleep :: "'z ktask_scheme \<Rightarrow> 'z ktask_scheme" where
  "unsleep s = s\<lparr>procs := unsleep_tbl (cur s) (procs s)\<rparr>"

section \<open>Returning to user space\<close>

definition SSTATUS_SPP :: u64 where "SSTATUS_SPP = push_bit 8 1"
definition SSTATUS_SPIE :: u64 where "SSTATUS_SPIE = push_bit 5 1"
definition SSTATUS_SIE :: u64 where "SSTATUS_SIE = push_bit 1 1"

definition MAKE_SATP :: "addr \<Rightarrow> u64" where
  "MAKE_SATP pt = push_bit 60 8 OR drop_bit 12 pt"

definition upd_regs :: "(hart \<Rightarrow> hart) \<Rightarrow> 'z kernel_scheme \<Rightarrow> 'z kernel_scheme" where
  "upd_regs f s = s\<lparr>regs := f (regs s)\<rparr>"

definition prepare_return :: "'z kernel_scheme \<Rightarrow> 'z kernel_scheme" where
  "prepare_return s =
     (let s = upd_regs (\<lambda>r. r\<lparr>sstatus := sstatus r AND NOT SSTATUS_SIE\<rparr>) s;
          s = upd_regs (\<lambda>r. r\<lparr>stvec := TRAMPOLINE + (sym_uservec s - trampoline s)\<rparr>) s;
          s = tf_set 0 (satp (regs s)) s;
          s = tf_set 8 (kstack (myproc s) + PGSIZE) s;
          s = tf_set 16 (sym_usertrap s) s;
          s = tf_set 32 (tp (regs s)) s;
          s = upd_regs (\<lambda>r. r\<lparr>sstatus := (sstatus r AND NOT SSTATUS_SPP) OR SSTATUS_SPIE\<rparr>) s
      in upd_regs (\<lambda>r. r\<lparr>sepc := tf_get tf_epc s\<rparr>) s)"

end
