(* ===== verification/Exec.thy ===== *)
theory Exec
  imports Process
begin

text \<open>
  Program loading: \<^verbatim>\<open>kernel/exec.c\<close> with the formats of \<^verbatim>\<open>kernel/elf.h\<close>, and \<^verbatim>\<open>forkret\<close> of \<^verbatim>\<open>kernel/proc.c\<close>, which
  runs the first program. The argument strings are the contents of the kernel pages they are passed in.
\<close>

section \<open>The ELF format\<close>

definition get64 :: "nat \<Rightarrow> u8 list \<Rightarrow> u64" where
  "get64 off xs = le_word (slice off 8 xs)"

definition ELF_MAGIC :: u32 where "ELF_MAGIC = 0x464C457F"
definition ELF_PROG_LOAD :: u32 where "ELF_PROG_LOAD = 1"
definition ELFHDR_SIZE :: nat where "ELFHDR_SIZE = 64"
definition PROGHDR_SIZE :: nat where "PROGHDR_SIZE = 56"

record elfhdr =
  eh_magic :: u32
  eh_entry :: u64
  eh_phoff :: u64
  eh_phnum :: u16

record proghdr =
  ph_type :: u32
  ph_flags :: u32
  ph_off :: u64
  ph_vaddr :: u64
  ph_filesz :: u64
  ph_memsz :: u64

definition elfhdr_of :: "u8 list \<Rightarrow> elfhdr" where
  "elfhdr_of d = \<lparr>eh_magic = get32 0 d, eh_entry = get64 24 d, eh_phoff = get64 32 d, eh_phnum = get16 56 d\<rparr>"

definition proghdr_of :: "u8 list \<Rightarrow> proghdr" where
  "proghdr_of d = \<lparr>ph_type = get32 0 d, ph_flags = get32 4 d, ph_off = get64 8 d, ph_vaddr = get64 16 d,
     ph_filesz = get64 32 d, ph_memsz = get64 40 d\<rparr>"

definition flags2perm :: "u32 \<Rightarrow> u64" where
  "flags2perm flags =
     (let perm = (if flags AND 1 \<noteq> 0 then PTE_X else 0) in if flags AND 2 \<noteq> 0 then perm OR PTE_W else perm)"

section \<open>Loading\<close>

text \<open>\<^verbatim>\<open>readi(ip, 0, (uint64)&x, off, sizeof(x)) != sizeof(x)\<close> gives nothing.\<close>

definition read_struct :: "nat \<Rightarrow> u32 \<Rightarrow> nat \<Rightarrow> 'z kfs_scheme \<Rightarrow> (u8 list option \<times> 'z kfs_scheme) res" where
  "read_struct ip off n s =
     bnd (readi ip (Local (replicate n 0)) off (of_nat n) s) (\<lambda>(r, b, s).
     case b of Local xs \<Rightarrow> Ok (if r = int n then Some xs else None, s) | _ \<Rightarrow> Undef)"

text \<open>The pages \<^verbatim>\<open>i = 0; i < sz; i += PGSIZE\<close>; a segment is mapped before it is loaded, so \<^verbatim>\<open>i\<close> does not wrap.\<close>

primrec loadseg_loop :: "addr \<Rightarrow> u64 \<Rightarrow> nat \<Rightarrow> u32 \<Rightarrow> u32 \<Rightarrow> nat list \<Rightarrow> 'z kfs_scheme \<Rightarrow> (int \<times> 'z kfs_scheme) res" where
  "loadseg_loop pt va ip offset sz [] s = Ok (0, s)"
| "loadseg_loop pt va ip offset sz (i # is) s =
     bnd (walkaddr pt (va + of_nat i) s) (\<lambda>pa.
     panic_if (pa = 0) ''loadseg: address should exist'' (
     let n = min (unat sz - i) 4096 in
     bnd (readi ip (Kaddr pa) (offset + of_nat i) (of_nat n) s) (\<lambda>(r, _, s).
     if r \<noteq> int n then Ok (- 1, s) else loadseg_loop pt va ip offset sz is s)))"

definition loadseg :: "addr \<Rightarrow> u64 \<Rightarrow> nat \<Rightarrow> u32 \<Rightarrow> u32 \<Rightarrow> 'z kfs_scheme \<Rightarrow> (int \<times> 'z kfs_scheme) res" where
  "loadseg pt va ip offset sz s = loadseg_loop pt va ip offset sz (map (\<lambda>k. k * 4096) [0..<(unat sz + 4095) div 4096]) s"

text \<open>One program header at \<open>off\<close>: whether to go on, the new size, the state.\<close>

definition load_ph :: "addr \<Rightarrow> nat \<Rightarrow> u32 \<Rightarrow> u64 \<Rightarrow> 'z kfs_scheme \<Rightarrow> (bool \<times> u64 \<times> 'z kfs_scheme) res" where
  "load_ph pt ip off sz s =
     bnd (read_struct ip off PROGHDR_SIZE s) (\<lambda>(d, s).
     case d of
       None \<Rightarrow> Ok (False, sz, s)
     | Some d \<Rightarrow>
         let ph = proghdr_of d in
         if ph_type ph \<noteq> ELF_PROG_LOAD then Ok (True, sz, s)
         else if ph_memsz ph < ph_filesz ph then Ok (False, sz, s)
         else if ph_vaddr ph + ph_memsz ph < ph_vaddr ph then Ok (False, sz, s)
         else if ph_vaddr ph mod PGSIZE \<noteq> 0 then Ok (False, sz, s)
         else
           bnd (uvmalloc pt sz (ph_vaddr ph + ph_memsz ph) (flags2perm (ph_flags ph)) s) (\<lambda>(sz1, s).
           if sz1 = 0 then Ok (False, sz, s)
           else
             bnd (loadseg pt (ph_vaddr ph) ip (ucast (ph_off ph)) (ucast (ph_filesz ph)) s) (\<lambda>(r, s).
             Ok (\<not> r < 0, sz1, s))))"

primrec load_phs :: "addr \<Rightarrow> nat \<Rightarrow> nat \<Rightarrow> u32 \<Rightarrow> u64 \<Rightarrow> 'z kfs_scheme \<Rightarrow> (bool \<times> u64 \<times> 'z kfs_scheme) res" where
  "load_phs pt ip 0 off sz s = Ok (True, sz, s)"
| "load_phs pt ip (Suc n) off sz s =
     bnd (load_ph pt ip off sz s) (\<lambda>(ok, sz, s).
     if ok then load_phs pt ip n (off + of_nat PROGHDR_SIZE) sz s else Ok (False, sz, s))"

section \<open>Arguments\<close>

text \<open>Pushing the strings: the stack pointer and the addresses pushed so far, or nothing on failure.\<close>

primrec push_args :: "addr \<Rightarrow> u64 \<Rightarrow> u8 list list \<Rightarrow> u64 \<Rightarrow> u64 list \<Rightarrow> 'z kernel_scheme \<Rightarrow> ((u64 \<times> u64 list) option \<times> 'z kernel_scheme) res" where
  "push_args pt stackbase [] sp ustack s = Ok (Some (sp, ustack), s)"
| "push_args pt stackbase (a # as) sp ustack s =
     (if length ustack \<ge> MAXARG then Ok (None, s)
      else
        let sp = sp - (of_nat (length a) + 1); sp = sp - sp mod 16 in
        if sp < stackbase then Ok (None, s)
        else bnd (copyout_bytes pt sp (a @ [0]) (psz (myproc s)) s) (\<lambda>(r, s).
          if r < 0 then Ok (None, s) else push_args pt stackbase as sp (ustack @ [sp]) s))"

definition kexec_bad :: "addr \<Rightarrow> u64 \<Rightarrow> nat option \<Rightarrow> 'z kernel_scheme \<Rightarrow> (int \<times> 'z kernel_scheme) res" where
  "kexec_bad pt sz ip s =
     bnd (if pt \<noteq> 0 then proc_freepagetable pt sz s else Ok s) (\<lambda>s.
     bnd (case ip of None \<Rightarrow> Ok s | Some i \<Rightarrow> bnd (iunlockput i s) end_op) (\<lambda>s.
     Ok (- 1, s)))"

text \<open>The element after the last slash.\<close>

definition last_elem :: "u8 list \<Rightarrow> u8 list" where
  "last_elem pth = rev (takeWhile (\<lambda>c. c \<noteq> slash) (rev pth))"

text \<open>The second half, after the file has been read: the stack, the arguments, and the switch to the new image.\<close>

definition kexec_commit :: "u8 list \<Rightarrow> u8 list list \<Rightarrow> addr \<Rightarrow> u64 \<Rightarrow> u64 \<Rightarrow> 'z kernel_scheme \<Rightarrow> (int \<times> 'z kernel_scheme) res" where
  "kexec_commit pth argv pt sz entry s =
     (let oldsz = psz (myproc s); sz = PGROUNDUP sz in
      bnd (uvmalloc pt sz (sz + (of_nat USERSTACK + 1) * PGSIZE) PTE_W s) (\<lambda>(sz1, s).
      if sz1 = 0 then kexec_bad pt sz None s
      else
        let sz = sz1; stackbase = sz - of_nat USERSTACK * PGSIZE in
        bnd (uvmclear pt (sz - (of_nat USERSTACK + 1) * PGSIZE) s) (\<lambda>s.
        bnd (push_args pt stackbase argv sz [] s) (\<lambda>(r, s).
        case r of
          None \<Rightarrow> kexec_bad pt sz None s
        | Some (sp, ustack) \<Rightarrow>
            let argc = length ustack in
            undef_if (argc \<ge> MAXARG) (
            let sp = sp - (of_nat argc + 1) * 8; sp = sp - sp mod 16 in
            if sp < stackbase then kexec_bad pt sz None s
            else
              bnd (copyout_bytes pt sp (concat (map (le_bytes 8) (ustack @ [0]))) (psz (myproc s)) s) (\<lambda>(r, s).
              if r < 0 then kexec_bad pt sz None s
              else
                let s = tf_set tf_a1 sp s;
                    s = upd_proc (cur s) (\<lambda>p. p\<lparr>pname := safestrcpy_bytes 16 (last_elem pth) (pname p)\<rparr>) s;
                    oldpagetable = pagetable (myproc s);
                    s = upd_proc (cur s) (\<lambda>p. p\<lparr>pagetable := pt, psz := sz\<rparr>) s;
                    s = tf_set tf_sp sp (tf_set tf_epc entry s)
                in bnd (proc_freepagetable oldpagetable oldsz s) (\<lambda>s. Ok (int argc, s))))))))"

definition kexec :: "u8 list \<Rightarrow> u8 list list \<Rightarrow> 'z kernel_scheme \<Rightarrow> (int \<times> 'z kernel_scheme) res" where
  "kexec pth argv s =
     bnd (begin_op s) (\<lambda>s.
     bnd (namei pth s) (\<lambda>(r, s).
     case r of
       None \<Rightarrow> bnd (end_op s) (\<lambda>s. Ok (- 1, s))
     | Some ip \<Rightarrow>
         bnd (ilock ip s) (\<lambda>s.
         bnd (read_struct ip 0 ELFHDR_SIZE s) (\<lambda>(d, s).
         case d of
           None \<Rightarrow> kexec_bad 0 0 (Some ip) s
         | Some d \<Rightarrow>
             let elf = elfhdr_of d in
             if eh_magic elf \<noteq> ELF_MAGIC then kexec_bad 0 0 (Some ip) s
             else
               bnd (proc_pagetable (trapframe (myproc s)) s) (\<lambda>(pt, s).
               if pt = 0 then kexec_bad 0 0 (Some ip) s
               else
                 bnd (load_phs pt ip (unat (eh_phnum elf)) (ucast (eh_phoff elf)) 0 s) (\<lambda>(ok, sz, s).
                 if \<not> ok then kexec_bad pt sz (Some ip) s
                 else
                   bnd (iunlockput ip s) (\<lambda>s. bnd (end_op s) (\<lambda>s.
                   kexec_commit pth argv pt sz (eh_entry elf) s))))))))"

definition forkret :: "'z kernel_scheme \<Rightarrow> 'z kernel_scheme res" where
  "forkret s =
     bnd (if first s then
            bnd (fsinit (of_nat ROOTDEV) s) (\<lambda>s.
            bnd (kexec (bytes_of ''/init'') [bytes_of ''/init''] (s\<lparr>first := False\<rparr>)) (\<lambda>(r, s).
            let s = tf_set tf_a0 (of_int r) s in panic_if (tf_get tf_a0 s = - 1) ''exec'' (Ok s)))
          else Ok s) (\<lambda>s.
     Ok (prepare_return s))"

end
