(* ===== verification/Sysfile.thy ===== *)
theory Sysfile
  imports Exec
begin

text \<open>
  The arguments of a system call (\<^verbatim>\<open>kernel/syscall.c\<close>) and the file system calls (\<^verbatim>\<open>kernel/sysfile.c\<close>). A call returns
  an integer, or sleeps in the read or write of a pipe or the console. The local name and path arrays are written
  before they are read; a path is its bytes before the terminating zero.
\<close>

section \<open>Arguments\<close>

definition argraw :: "nat \<Rightarrow> 'z ktask_scheme \<Rightarrow> u64 res" where
  "argraw n s = (if n < 6 then Ok (tf_get (tf_a0 + 8 * of_nat n) s) else Panic ''argraw'')"

definition argint :: "nat \<Rightarrow> 'z ktask_scheme \<Rightarrow> int res" where
  "argint n s = bnd (argraw n s) (\<lambda>v. Ok (sint (ucast v :: u32)))"

definition argaddr :: "nat \<Rightarrow> 'z ktask_scheme \<Rightarrow> u64 res" where
  "argaddr n s = argraw n s"

definition fetchaddr :: "u64 \<Rightarrow> 'z ktask_scheme \<Rightarrow> (u64 option \<times> 'z ktask_scheme) res" where
  "fetchaddr addr s =
     (if addr \<ge> psz (myproc s) \<or> addr + 8 > psz (myproc s) then Ok (None, s)
      else bnd (copyin_bytes (pagetable (myproc s)) addr 8 (psz (myproc s)) s) (\<lambda>(r, bs, s).
        Ok (if r \<noteq> 0 then None else Some (le_word bs), s)))"

text \<open>The string at a user address, without its terminating zero.\<close>

definition fetchstr :: "u64 \<Rightarrow> nat \<Rightarrow> 'z ktask_scheme \<Rightarrow> u8 list option res" where
  "fetchstr addr m s =
     bnd (copyinstr_bytes (pagetable (myproc s)) addr m s) (\<lambda>(r, bs).
     Ok (if r < 0 then None else Some (takeWhile (\<lambda>c. c \<noteq> 0) bs)))"

definition argstr :: "nat \<Rightarrow> nat \<Rightarrow> 'z ktask_scheme \<Rightarrow> u8 list option res" where
  "argstr n m s = bnd (argaddr n s) (\<lambda>addr. fetchstr addr m s)"

definition argfd :: "nat \<Rightarrow> 'z ktask_scheme \<Rightarrow> (nat \<times> nat) option res" where
  "argfd n s =
     bnd (argint n s) (\<lambda>fd.
     Ok (if fd < 0 \<or> fd \<ge> int NOFILE then None
         else map_option (\<lambda>f. (nat fd, f)) (ofile (myproc s) ! nat fd)))"

definition fdalloc :: "nat \<Rightarrow> 'z ktask_scheme \<Rightarrow> int \<times> 'z ktask_scheme" where
  "fdalloc f s =
     (case find_free (\<lambda>x. x = None) [0..<NOFILE] (ofile (myproc s)) of
        None \<Rightarrow> (- 1, s)
      | Some fd \<Rightarrow> (int fd, upd_proc (cur s) (\<lambda>p. p\<lparr>ofile := (ofile p)[fd := Some f]\<rparr>) s))"

definition clear_fd :: "nat \<Rightarrow> 'z ktask_scheme \<Rightarrow> 'z ktask_scheme" where
  "clear_fd fd s = upd_proc (cur s) (\<lambda>p. p\<lparr>ofile := (ofile p)[fd := None]\<rparr>) s"

section \<open>Calls on descriptors\<close>

definition sys_dup :: "'z kernel_scheme \<Rightarrow> (int \<times> 'z kernel_scheme) res" where
  "sys_dup s =
     bnd (argfd 0 s) (\<lambda>r. case r of
       None \<Rightarrow> Ok (- 1, s)
     | Some (_, f) \<Rightarrow>
         let (fd, s) = fdalloc f s in
         if fd < 0 then Ok (- 1, s) else bnd (filedup f s) (\<lambda>s. Ok (fd, s)))"

definition sys_read :: "'z kernel_scheme \<Rightarrow> (io \<times> 'z kernel_scheme) res" where
  "sys_read s =
     bnd (argaddr 1 s) (\<lambda>p. bnd (argint 2 s) (\<lambda>n. bnd (argfd 0 s) (\<lambda>r. case r of
       None \<Rightarrow> Ok (Ret (- 1), s)
     | Some (_, f) \<Rightarrow> fileread f p n s)))"

definition sys_write :: "'z kernel_scheme \<Rightarrow> (io \<times> 'z kernel_scheme) res" where
  "sys_write s =
     bnd (argaddr 1 s) (\<lambda>p. bnd (argint 2 s) (\<lambda>n. bnd (argfd 0 s) (\<lambda>r. case r of
       None \<Rightarrow> Ok (Ret (- 1), s)
     | Some (_, f) \<Rightarrow> filewrite f p n s)))"

definition sys_close :: "'z kernel_scheme \<Rightarrow> (int \<times> 'z kernel_scheme) res" where
  "sys_close s =
     bnd (argfd 0 s) (\<lambda>r. case r of
       None \<Rightarrow> Ok (- 1, s)
     | Some (fd, f) \<Rightarrow> bnd (fileclose f (clear_fd fd s)) (\<lambda>s. Ok (0, s)))"

definition sys_fstat :: "u8 list \<Rightarrow> 'z kernel_scheme \<Rightarrow> (int \<times> 'z kernel_scheme) res" where
  "sys_fstat pad s =
     bnd (argaddr 1 s) (\<lambda>st. bnd (argfd 0 s) (\<lambda>r. case r of
       None \<Rightarrow> Ok (- 1, s)
     | Some (_, f) \<Rightarrow> filestat pad f st s))"

section \<open>Links\<close>

definition end_with :: "int \<Rightarrow> 'z klog_scheme \<Rightarrow> (int \<times> 'z klog_scheme) res" where
  "end_with r s = bnd (end_op s) (\<lambda>s. Ok (r, s))"

definition add_nlink :: "nat \<Rightarrow> u16 \<Rightarrow> 'z kfs_scheme \<Rightarrow> 'z kfs_scheme res" where
  "add_nlink i d s = iupdate i (upd_inode i (\<lambda>ip. ip\<lparr>inlink := inlink ip + d\<rparr>) s)"

definition sys_link_bad :: "nat \<Rightarrow> 'z kernel_scheme \<Rightarrow> (int \<times> 'z kernel_scheme) res" where
  "sys_link_bad ip s =
     bnd (ilock ip s) (\<lambda>s. bnd (add_nlink ip (- 1) s) (\<lambda>s. bnd (iunlockput ip s) (end_with (- 1))))"

definition sys_link :: "'z kernel_scheme \<Rightarrow> (int \<times> 'z kernel_scheme) res" where
  "sys_link s =
     bnd (argstr 0 MAXPATH s) (\<lambda>old. case old of None \<Rightarrow> Ok (- 1, s) | Some old \<Rightarrow>
     bnd (argstr 1 MAXPATH s) (\<lambda>new. case new of None \<Rightarrow> Ok (- 1, s) | Some new \<Rightarrow>
     bnd (begin_op s) (\<lambda>s. bnd (namei old s) (\<lambda>(r, s). case r of
       None \<Rightarrow> end_with (- 1) s
     | Some ip \<Rightarrow>
         bnd (ilock ip s) (\<lambda>s.
         if itype (ino ip s) = T_DIR then bnd (iunlockput ip s) (end_with (- 1))
         else
           bnd (add_nlink ip 1 s) (\<lambda>s. bnd (iunlock ip s) (\<lambda>s.
           bnd (nameiparent new (replicate DIRSIZ 0) s) (\<lambda>(r, name, s). case r of
             None \<Rightarrow> sys_link_bad ip s
           | Some dp \<Rightarrow>
               bnd (ilock dp s) (\<lambda>s.
               bnd (if idev (ino dp s) \<noteq> idev (ino ip s) then Ok (- 1, s) else dirlink dp name (inum (ino ip s)) s) (\<lambda>(r, s).
               if r < 0 then bnd (iunlockput dp s) (sys_link_bad ip)
               else bnd (iunlockput dp s) (\<lambda>s. bnd (iput ip s) (end_with 0)))))))))))) "

primrec isdirempty_scan :: "nat \<Rightarrow> nat list \<Rightarrow> 'z kfs_scheme \<Rightarrow> (bool \<times> 'z kfs_scheme) res" where
  "isdirempty_scan dp [] s = Ok (True, s)"
| "isdirempty_scan dp (off # offs) s =
     bnd (read_dirent ''isdirempty: readi'' dp off s) (\<lambda>(de, s).
     if get16 0 de \<noteq> 0 then Ok (False, s) else isdirempty_scan dp offs s)"

definition isdirempty :: "nat \<Rightarrow> 'z kfs_scheme \<Rightarrow> (bool \<times> 'z kfs_scheme) res" where
  "isdirempty dp s = isdirempty_scan dp (drop 2 (dirent_offs (isize (ino dp s)))) s"

definition sys_unlink_bad :: "nat \<Rightarrow> 'z kernel_scheme \<Rightarrow> (int \<times> 'z kernel_scheme) res" where
  "sys_unlink_bad dp s = bnd (iunlockput dp s) (end_with (- 1))"

definition unlink_found :: "nat \<Rightarrow> nat \<Rightarrow> u32 \<Rightarrow> 'z kernel_scheme \<Rightarrow> (int \<times> 'z kernel_scheme) res" where
  "unlink_found dp ip off s =
     bnd (ilock ip s) (\<lambda>s.
     panic_if (sint (inlink (ino ip s)) < 1) ''unlink: nlink < 1'' (
     bnd (if itype (ino ip s) = T_DIR then isdirempty ip s else Ok (True, s)) (\<lambda>(e, s).
     if \<not> e then bnd (iunlockput ip s) (sys_unlink_bad dp)
     else
       bnd (writei dp (Local (replicate DIRENT_SIZE 0)) off (of_nat DIRENT_SIZE) s) (\<lambda>(r, s).
       panic_if (r \<noteq> int DIRENT_SIZE) ''unlink: writei'' (
       bnd (if itype (ino ip s) = T_DIR then add_nlink dp (- 1) s else Ok s) (\<lambda>s.
       bnd (iunlockput dp s) (\<lambda>s.
       bnd (add_nlink ip (- 1) s) (\<lambda>s.
       bnd (iunlockput ip s) (end_with 0)))))))))"

definition sys_unlink :: "'z kernel_scheme \<Rightarrow> (int \<times> 'z kernel_scheme) res" where
  "sys_unlink s =
     bnd (argstr 0 MAXPATH s) (\<lambda>p. case p of None \<Rightarrow> Ok (- 1, s) | Some p \<Rightarrow>
     bnd (begin_op s) (\<lambda>s. bnd (nameiparent p (replicate DIRSIZ 0) s) (\<lambda>(r, name, s). case r of
       None \<Rightarrow> end_with (- 1) s
     | Some dp \<Rightarrow>
         bnd (ilock dp s) (\<lambda>s.
         if namecmp name (bytes_of ''.'') = 0 \<or> namecmp name (bytes_of ''..'') = 0 then sys_unlink_bad dp s
         else bnd (dirlookup dp name s) (\<lambda>(r, s). case r of
             None \<Rightarrow> sys_unlink_bad dp s
           | Some (ip, off) \<Rightarrow> unlink_found dp ip off s)))))"

section \<open>Creating and opening\<close>

definition create_fail :: "nat \<Rightarrow> nat \<Rightarrow> 'z kfs_scheme \<Rightarrow> (nat option \<times> 'z kfs_scheme) res" where
  "create_fail dp ip s =
     bnd (iupdate ip (upd_inode ip (\<lambda>i. i\<lparr>inlink := 0\<rparr>) s)) (\<lambda>s.
     bnd (iunlockput ip s) (\<lambda>s. bnd (iunlockput dp s) (\<lambda>s. Ok (None, s))))"

text \<open>The new inode is linked: first its own entries if it is a directory, then its name in the parent.\<close>

definition create_link :: "nat \<Rightarrow> nat \<Rightarrow> u8 list \<Rightarrow> u16 \<Rightarrow> 'z kfs_scheme \<Rightarrow> (nat option \<times> 'z kfs_scheme) res" where
  "create_link dp ip name ty s =
     bnd (if ty = T_DIR then
            bnd (dirlink ip (bytes_of ''.'') (inum (ino ip s)) s) (\<lambda>(r, s).
            if r < 0 then Ok (r, s) else dirlink ip (bytes_of ''..'') (inum (ino dp s)) s)
          else Ok (0, s)) (\<lambda>(r, s).
     if r < 0 then create_fail dp ip s
     else bnd (dirlink dp name (inum (ino ip s)) s) (\<lambda>(r, s).
       if r < 0 then create_fail dp ip s
       else
         bnd (if ty = T_DIR then add_nlink dp 1 s else Ok s) (\<lambda>s.
         bnd (iunlockput dp s) (\<lambda>s. Ok (Some ip, s)))))"

definition create :: "u8 list \<Rightarrow> u16 \<Rightarrow> u16 \<Rightarrow> u16 \<Rightarrow> 'z kfs_scheme \<Rightarrow> (nat option \<times> 'z kfs_scheme) res" where
  "create pth ty maj mnr s =
     bnd (nameiparent pth (replicate DIRSIZ 0) s) (\<lambda>(r, name, s). case r of
       None \<Rightarrow> Ok (None, s)
     | Some dp \<Rightarrow>
         bnd (ilock dp s) (\<lambda>s.
         bnd (dirlookup dp name s) (\<lambda>(r, s). case r of
           Some (ip, _) \<Rightarrow>
             bnd (iunlockput dp s) (\<lambda>s. bnd (ilock ip s) (\<lambda>s.
             if ty = T_FILE \<and> (itype (ino ip s) = T_FILE \<or> itype (ino ip s) = T_DEVICE) then Ok (Some ip, s)
             else bnd (iunlockput ip s) (\<lambda>s. Ok (None, s))))
         | None \<Rightarrow>
             bnd (ialloc (idev (ino dp s)) ty s) (\<lambda>(r, s). case r of
               None \<Rightarrow> bnd (iunlockput dp s) (\<lambda>s. Ok (None, s))
             | Some ip \<Rightarrow>
                 bnd (ilock ip s) (\<lambda>s.
                 bnd (iupdate ip (upd_inode ip (\<lambda>i. i\<lparr>imajor := maj, iminor := mnr, inlink := 1\<rparr>) s)) (\<lambda>s.
                 create_link dp ip name ty s))))))"

definition O_RDONLY :: u32 where "O_RDONLY = 0"
definition O_WRONLY :: u32 where "O_WRONLY = 1"
definition O_RDWR :: u32 where "O_RDWR = 2"
definition O_CREATE :: u32 where "O_CREATE = 0x200"
definition O_TRUNC :: u32 where "O_TRUNC = 0x400"

text \<open>The inode to open, locked, or nothing.\<close>

definition open_inode :: "u8 list \<Rightarrow> u32 \<Rightarrow> 'z kernel_scheme \<Rightarrow> (nat option \<times> 'z kernel_scheme) res" where
  "open_inode pth omode s =
     (if omode AND O_CREATE \<noteq> 0 then create pth T_FILE 0 0 s
      else bnd (namei pth s) (\<lambda>(r, s). case r of
          None \<Rightarrow> Ok (None, s)
        | Some ip \<Rightarrow>
            bnd (ilock ip s) (\<lambda>s.
            if itype (ino ip s) = T_DIR \<and> omode \<noteq> O_RDONLY then bnd (iunlockput ip s) (\<lambda>s. Ok (None, s))
            else Ok (Some ip, s))))"

definition open_fd :: "'z kernel_scheme \<Rightarrow> ((nat \<times> int) option \<times> 'z kernel_scheme) res" where
  "open_fd s =
     (case filealloc s of
        (None, s) \<Rightarrow> Ok (None, s)
      | (Some f, s) \<Rightarrow>
          let (fd, s) = fdalloc f s in
          if fd < 0 then bnd (fileclose f s) (\<lambda>s. Ok (None, s)) else Ok (Some (f, fd), s))"

definition sys_open :: "'z kernel_scheme \<Rightarrow> (int \<times> 'z kernel_scheme) res" where
  "sys_open s =
     bnd (argraw 1 s) (\<lambda>om. let omode = ucast om in
     bnd (argstr 0 MAXPATH s) (\<lambda>p. case p of None \<Rightarrow> Ok (- 1, s) | Some p \<Rightarrow>
     bnd (begin_op s) (\<lambda>s. bnd (open_inode p omode s) (\<lambda>(r, s). case r of
       None \<Rightarrow> end_with (- 1) s
     | Some ip \<Rightarrow>
         let t = itype (ino ip s); mj = imajor (ino ip s) in
         if t = T_DEVICE \<and> (sint mj < 0 \<or> sint mj \<ge> int NDEV) then bnd (iunlockput ip s) (end_with (- 1))
         else bnd (open_fd s) (\<lambda>(r, s). case r of
             None \<Rightarrow> bnd (iunlockput ip s) (end_with (- 1))
           | Some (f, fd) \<Rightarrow>
               let s = upd_file f (\<lambda>x. if t = T_DEVICE then x\<lparr>ftype := FD_DEVICE, fmajor := mj\<rparr>
                                       else x\<lparr>ftype := FD_INODE, foff := 0\<rparr>) s;
                   s = upd_file f (\<lambda>x. x\<lparr>fip := Some ip, freadable := (omode AND O_WRONLY = 0),
                         fwritable := (omode AND O_WRONLY \<noteq> 0 \<or> omode AND O_RDWR \<noteq> 0)\<rparr>) s
               in
               bnd (if omode AND O_TRUNC \<noteq> 0 \<and> t = T_FILE then itrunc ip s else Ok s) (\<lambda>s.
               bnd (iunlock ip s) (end_with fd)))))))"

definition put_end :: "nat option \<Rightarrow> 'z kernel_scheme \<Rightarrow> (int \<times> 'z kernel_scheme) res" where
  "put_end r s = (case r of None \<Rightarrow> end_with (- 1) s | Some ip \<Rightarrow> bnd (iunlockput ip s) (end_with 0))"

definition sys_mkdir :: "'z kernel_scheme \<Rightarrow> (int \<times> 'z kernel_scheme) res" where
  "sys_mkdir s =
     bnd (begin_op s) (\<lambda>s. bnd (argstr 0 MAXPATH s) (\<lambda>p. case p of
       None \<Rightarrow> end_with (- 1) s
     | Some p \<Rightarrow> bnd (create p T_DIR 0 0 s) (\<lambda>(r, s). put_end r s)))"

definition sys_mknod :: "'z kernel_scheme \<Rightarrow> (int \<times> 'z kernel_scheme) res" where
  "sys_mknod s =
     bnd (begin_op s) (\<lambda>s. bnd (argint 1 s) (\<lambda>maj. bnd (argint 2 s) (\<lambda>mnr. bnd (argstr 0 MAXPATH s) (\<lambda>p. case p of
       None \<Rightarrow> end_with (- 1) s
     | Some p \<Rightarrow> bnd (create p T_DEVICE (of_int maj) (of_int mnr) s) (\<lambda>(r, s). put_end r s)))))"

definition sys_chdir :: "'z kernel_scheme \<Rightarrow> (int \<times> 'z kernel_scheme) res" where
  "sys_chdir s =
     bnd (begin_op s) (\<lambda>s. bnd (argstr 0 MAXPATH s) (\<lambda>p. case p of None \<Rightarrow> end_with (- 1) s | Some p \<Rightarrow>
     bnd (namei p s) (\<lambda>(r, s). case r of
       None \<Rightarrow> end_with (- 1) s
     | Some ip \<Rightarrow>
         bnd (ilock ip s) (\<lambda>s.
         if itype (ino ip s) \<noteq> T_DIR then bnd (iunlockput ip s) (end_with (- 1))
         else
           bnd (iunlock ip s) (\<lambda>s. case cwd (myproc s) of None \<Rightarrow> Undef | Some d \<Rightarrow>
           bnd (iput d s) (\<lambda>s. bnd (end_op s) (\<lambda>s.
           Ok (0, upd_proc (cur s) (\<lambda>p. p\<lparr>cwd := Some ip\<rparr>) s))))))))"

section \<open>Programs, pipes, in-memory files\<close>

text \<open>The loop of \<^verbatim>\<open>sys_exec\<close> with \<open>n\<close> slots of \<^verbatim>\<open>argv\<close> left: whether it succeeded, and the pages allocated.\<close>

primrec exec_args :: "nat \<Rightarrow> u64 \<Rightarrow> addr list \<Rightarrow> 'z kernel_scheme \<Rightarrow> (bool \<times> addr list \<times> 'z kernel_scheme) res" where
  "exec_args 0 uargv argv s = Ok (False, argv, s)"
| "exec_args (Suc n) uargv argv s =
     bnd (fetchaddr (uargv + 8 * of_nat (length argv)) s) (\<lambda>(r, s). case r of
       None \<Rightarrow> Ok (False, argv, s)
     | Some uarg \<Rightarrow>
         if uarg = 0 then Ok (True, argv, s)
         else bnd (kalloc s) (\<lambda>(a, s).
           if a = 0 then Ok (False, argv, s)
           else bnd (copyinstr (pagetable (myproc s)) a uarg PGSIZE s) (\<lambda>(r, s).
             if r < 0 then Ok (False, argv @ [a], s) else exec_args n uargv (argv @ [a]) s)))"

definition sys_exec :: "'z kernel_scheme \<Rightarrow> (int \<times> 'z kernel_scheme) res" where
  "sys_exec s =
     bnd (argaddr 1 s) (\<lambda>uargv. bnd (argstr 0 MAXPATH s) (\<lambda>p. case p of None \<Rightarrow> Ok (- 1, s) | Some p \<Rightarrow>
     bnd (exec_args MAXARG uargv [] s) (\<lambda>(ok, argv, s).
     bnd (if ok then kexec p (map (\<lambda>a. takeWhile (\<lambda>c. c \<noteq> 0) (peek (ram s) a 4096)) argv) s else Ok (- 1, s)) (\<lambda>(r, s).
     bnd (for_res argv kfree s) (\<lambda>s. Ok (r, s))))))"

definition sys_pipe :: "'z kernel_scheme \<Rightarrow> (int \<times> 'z kernel_scheme) res" where
  "sys_pipe s =
     bnd (argaddr 0 s) (\<lambda>fdarray. bnd (pipealloc s) (\<lambda>(r, s). case r of
       None \<Rightarrow> Ok (- 1, s)
     | Some (rf, wfl) \<Rightarrow>
         let bad = (\<lambda>s. bnd (fileclose rf s) (\<lambda>s. bnd (fileclose wfl s) (\<lambda>s. Ok (- 1, s))));
             (fd0, s) = fdalloc rf s;
             (fd1, s) = (if fd0 < 0 then (- 1, s) else fdalloc wfl s)
         in
         if fd0 < 0 \<or> fd1 < 0 then bad (if fd0 \<ge> 0 then clear_fd (nat fd0) s else s)
         else
           bnd (copyout_bytes (pagetable (myproc s)) fdarray (le_bytes 4 (of_int fd0 :: u32)) (psz (myproc s)) s) (\<lambda>(r0, s).
           bnd (if r0 < 0 then Ok (r0, s)
                else copyout_bytes (pagetable (myproc s)) (fdarray + 4) (le_bytes 4 (of_int fd1 :: u32)) (psz (myproc s)) s) (\<lambda>(r1, s).
           if r1 < 0 then bad (clear_fd (nat fd1) (clear_fd (nat fd0) s)) else Ok (0, s)))))"

definition sys_memcreate :: "'z kernel_scheme \<Rightarrow> (int \<times> 'z kernel_scheme) res" where
  "sys_memcreate s =
     (case filealloc s of
        (None, s) \<Rightarrow> Ok (- 1, s)
      | (Some f, s) \<Rightarrow>
          let (fd, s) = fdalloc f s in
          if fd < 0 then bnd (fileclose f s) (\<lambda>s. Ok (- 1, s))
          else bnd (memfile_create s) (\<lambda>(mf, s). case mf of
              None \<Rightarrow> bnd (fileclose f s) (\<lambda>s. Ok (- 1, s))
            | Some m \<Rightarrow> Ok (fd, upd_file f (\<lambda>x. x\<lparr>ftype := FD_MEM, fmemf := Some m, freadable := True, fwritable := True\<rparr>) s)))"

definition sys_memdelete :: "'z kernel_scheme \<Rightarrow> (int \<times> 'z kernel_scheme) res" where
  "sys_memdelete s =
     bnd (argfd 0 s) (\<lambda>r. case r of
       None \<Rightarrow> Ok (- 1, s)
     | Some (_, f) \<Rightarrow>
         if ftype (ftable s ! f) \<noteq> FD_MEM \<or> fmemf (ftable s ! f) = None then Ok (- 1, s)
         else Ok (memfile_delete (fmemf (ftable s ! f)) s))"

end
