(* ===== verification/Syscall.thy ===== *)
theory Syscall
  imports Sysfile
begin

text \<open>
  The process system calls (\<^verbatim>\<open>kernel/sysproc.c\<close>), the dispatcher (\<^verbatim>\<open>kernel/syscall.c\<close>) and traps (\<^verbatim>\<open>kernel/trap.c\<close>).
  An interrupt brings a \<open>dev_event\<close>: what the interrupt controller and the UART present to the handlers. A disk
  transfer is one step of the model, so the disk interrupt has nothing left to do.
\<close>

section \<open>Process calls\<close>

definition SBRK_EAGER :: int where "SBRK_EAGER = 1"

definition sys_exit :: "'z kernel_scheme \<Rightarrow> 'z kernel_scheme res" where
  "sys_exit s = bnd (argint 0 s) (\<lambda>n. kexit n s)"

definition sys_getpid :: "'z kernel_scheme \<Rightarrow> int" where
  "sys_getpid s = pid (myproc s)"

definition sys_fork :: "'z kernel_scheme \<Rightarrow> (int \<times> 'z kernel_scheme) res" where
  "sys_fork s = kfork s"

definition sys_wait :: "'z kernel_scheme \<Rightarrow> (io \<times> 'z kernel_scheme) res" where
  "sys_wait s = bnd (argaddr 0 s) (\<lambda>p. kwait p s)"

definition sys_sbrk :: "'z kernel_scheme \<Rightarrow> (int \<times> 'z kernel_scheme) res" where
  "sys_sbrk s =
     bnd (argint 0 s) (\<lambda>n. bnd (argint 1 s) (\<lambda>t.
     let addr = psz (myproc s) in
     if t = SBRK_EAGER \<or> n < 0 then
       bnd (growproc n s) (\<lambda>(r, s). if r < 0 then Ok (- 1, s) else Ok (uint addr, s))
     else if addr + of_int n < addr then Ok (- 1, s)
     else if addr + of_int n > TRAPFRAME then Ok (- 1, s)
     else Ok (uint addr, upd_proc (cur s) (\<lambda>p. p\<lparr>psz := psz p + of_int n\<rparr>) s)))"

text \<open>The loop of \<^verbatim>\<open>sys_pause\<close> up to its return or its next sleep; \<open>ticks0\<close> is the time of the call.\<close>

definition pause_check :: "u32 \<Rightarrow> int \<Rightarrow> 'z kernel_scheme \<Rightarrow> io \<times> 'z kernel_scheme" where
  "pause_check ticks0 n s =
     (if ticks s - ticks0 < of_int n then
        if is_killed (cur s) s then (Ret (- 1), s) else (Wait ChanTicks (uint (ticks s - ticks0)), sleep_on ChanTicks s)
      else (Ret 0, s))"

definition sys_pause :: "'z kernel_scheme \<Rightarrow> (io \<times> 'z kernel_scheme) res" where
  "sys_pause s = bnd (argint 0 s) (\<lambda>n. Ok (pause_check (ticks s) (if n < 0 then 0 else n) s))"

definition sys_kill :: "'z kernel_scheme \<Rightarrow> (int \<times> 'z kernel_scheme) res" where
  "sys_kill s = bnd (argint 0 s) (\<lambda>p. Ok (kkill p s))"

definition sys_uptime :: "'z kernel_scheme \<Rightarrow> int" where
  "sys_uptime s = uint (ticks s)"

definition sys_syslogread :: "'z kernel_scheme \<Rightarrow> (int \<times> 'z kernel_scheme) res" where
  "sys_syslogread s = bnd (argaddr 0 s) (\<lambda>b. bnd (argint 1 s) (\<lambda>maxlen. readsyslog b maxlen s))"

section \<open>Dispatch\<close>

text \<open>\<open>None\<close> is a call that does not come back: exit.\<close>

definition ret_of :: "(int \<times> 'z kernel_scheme) res \<Rightarrow> (io option \<times> 'z kernel_scheme) res" where
  "ret_of m = bnd m (\<lambda>(r, s). Ok (Some (Ret r), s))"

definition io_of :: "(io \<times> 'z kernel_scheme) res \<Rightarrow> (io option \<times> 'z kernel_scheme) res" where
  "io_of m = bnd m (\<lambda>(r, s). Ok (Some r, s))"

definition syscalls :: "u8 list \<Rightarrow> int \<Rightarrow> ('z kernel_scheme \<Rightarrow> (io option \<times> 'z kernel_scheme) res) option" where
  "syscalls pad num =
     (if num = 1 then Some (\<lambda>s. ret_of (sys_fork s))
      else if num = 2 then Some (\<lambda>s. bnd (sys_exit s) (\<lambda>s. Ok (None, s)))
      else if num = 3 then Some (\<lambda>s. io_of (sys_wait s))
      else if num = 4 then Some (\<lambda>s. ret_of (sys_pipe s))
      else if num = 5 then Some (\<lambda>s. io_of (sys_read s))
      else if num = 6 then Some (\<lambda>s. ret_of (sys_kill s))
      else if num = 7 then Some (\<lambda>s. ret_of (sys_exec s))
      else if num = 8 then Some (\<lambda>s. ret_of (sys_fstat pad s))
      else if num = 9 then Some (\<lambda>s. ret_of (sys_chdir s))
      else if num = 10 then Some (\<lambda>s. ret_of (sys_dup s))
      else if num = 11 then Some (\<lambda>s. Ok (Some (Ret (sys_getpid s)), s))
      else if num = 12 then Some (\<lambda>s. ret_of (sys_sbrk s))
      else if num = 13 then Some (\<lambda>s. io_of (sys_pause s))
      else if num = 14 then Some (\<lambda>s. Ok (Some (Ret (sys_uptime s)), s))
      else if num = 15 then Some (\<lambda>s. ret_of (sys_open s))
      else if num = 16 then Some (\<lambda>s. io_of (sys_write s))
      else if num = 17 then Some (\<lambda>s. ret_of (sys_mknod s))
      else if num = 18 then Some (\<lambda>s. ret_of (sys_unlink s))
      else if num = 19 then Some (\<lambda>s. ret_of (sys_link s))
      else if num = 20 then Some (\<lambda>s. ret_of (sys_mkdir s))
      else if num = 21 then Some (\<lambda>s. ret_of (sys_close s))
      else if num = 22 then Some (\<lambda>s. ret_of (sys_memcreate s))
      else if num = 23 then Some (\<lambda>s. ret_of (sys_memdelete s))
      else if num = 24 then Some (\<lambda>s. ret_of (sys_syslogread s))
      else None)"

definition syscall :: "u8 list \<Rightarrow> 'z kernel_scheme \<Rightarrow> (io option \<times> 'z kernel_scheme) res" where
  "syscall pad s =
     (let num = sint (ucast (tf_get tf_a7 s) :: u32) in
      case syscalls pad num of
        Some f \<Rightarrow>
          bnd (f s) (\<lambda>(r, s). case r of
            Some (Ret v) \<Rightarrow> Ok (r, tf_set tf_a0 (of_int v) s)
          | _ \<Rightarrow> Ok (r, s))
      | None \<Rightarrow>
          bnd (printf (''%d %s: unknown sys call %d'' @ [CHR 10])
                 [Num (of_int (pid (myproc s))), Str (takeWhile (\<lambda>c. c \<noteq> 0) (pname (myproc s))), Num (of_int num)] s) (\<lambda>s.
          Ok (Some (Ret (- 1)), tf_set tf_a0 (- 1) s)))"

section \<open>Traps\<close>

definition UART0_IRQ :: nat where "UART0_IRQ = 10"
definition VIRTIO0_IRQ :: nat where "VIRTIO0_IRQ = 1"

record dev_event =
  ev_irq :: nat
  ev_idle :: bool
  ev_rx :: "u8 list"
  ev_time :: u64

definition clockintr :: "u64 \<Rightarrow> 'z kernel_scheme \<Rightarrow> 'z kernel_scheme" where
  "clockintr now s =
     (let s = (if tp (regs s) = 0 then wakeup ChanTicks (s\<lparr>ticks := ticks s + 1\<rparr>) else s)
      in upd_regs (\<lambda>r. r\<lparr>stimecmp := now + 1000000\<rparr>) s)"

definition devintr :: "dev_event \<Rightarrow> 'z kernel_scheme \<Rightarrow> (nat \<times> 'z kernel_scheme) res" where
  "devintr ev s =
     (if scause (regs s) = 0x8000000000000009 then
        bnd (if ev_irq ev = UART0_IRQ then uartintr (ev_idle ev) (ev_rx ev) s
             else if ev_irq ev = VIRTIO0_IRQ then Ok s
             else if ev_irq ev \<noteq> 0 then printf (''unexpected interrupt irq=%d'' @ [CHR 10]) [Num (of_nat (ev_irq ev))] s
             else Ok s) (\<lambda>s. Ok (1, s))
      else if scause (regs s) = 0x8000000000000005 then Ok (2, clockintr (ev_time ev) s)
      else Ok (0, s))"

text \<open>How a trap from user space ends: back to user space with the page table to install, in the scheduler after an
  exit, or asleep inside a system call.\<close>

datatype trap_end = ToUser u64 | Exited | Asleep io

definition exit_trap :: "'z kernel_scheme \<Rightarrow> (trap_end \<times> 'z kernel_scheme) res" where
  "exit_trap s = bnd (kexit (- 1) s) (\<lambda>s. Ok (Exited, s))"

text \<open>The end of \<^verbatim>\<open>usertrap\<close>, after the cause has been handled.\<close>

definition usertrap_finish :: "nat \<Rightarrow> 'z kernel_scheme \<Rightarrow> (trap_end \<times> 'z kernel_scheme) res" where
  "usertrap_finish which_dev s =
     (if is_killed (cur s) s then exit_trap s
      else
        let s = (if which_dev = 2 then yield (s\<lparr>procs := tick_tbl (cur s) (procs s)\<rparr>) else s);
            s = prepare_return s
        in Ok (ToUser (MAKE_SATP (pagetable (myproc s))), s))"

definition usertrap_syscall :: "u8 list \<Rightarrow> 'z kernel_scheme \<Rightarrow> (trap_end \<times> 'z kernel_scheme) res" where
  "usertrap_syscall pad s =
     (if is_killed (cur s) s then exit_trap s
      else
        let s = tf_set tf_epc (tf_get tf_epc s + 4) s;
            s = upd_regs (\<lambda>r. r\<lparr>sstatus := sstatus r OR SSTATUS_SIE\<rparr>) s
        in bnd (syscall pad s) (\<lambda>(r, s). case r of
             None \<Rightarrow> Ok (Exited, s)
           | Some (Ret _) \<Rightarrow> usertrap_finish 0 s
           | Some w \<Rightarrow> Ok (Asleep w, s)))"

definition usertrap_fault :: "'z kernel_scheme \<Rightarrow> (trap_end \<times> 'z kernel_scheme) res" where
  "usertrap_fault s =
     bnd (if scause (regs s) = 15 \<or> scause (regs s) = 13
          then vmfault (pagetable (myproc s)) (stval (regs s)) (psz (myproc s)) s else Ok (0, s)) (\<lambda>(pa, s).
     if pa \<noteq> 0 then usertrap_finish 0 s
     else
       bnd (printf (''usertrap(): unexpected scause 0x%lx pid=%d'' @ [CHR 10])
              [Num (scause (regs s)), Num (of_int (pid (myproc s)))] s) (\<lambda>s.
       bnd (printf (''            sepc=0x%lx stval=0x%lx'' @ [CHR 10]) [Num (sepc (regs s)), Num (stval (regs s))] s) (\<lambda>s.
       usertrap_finish 0 (setkilled (cur s) s))))"

definition usertrap :: "u8 list \<Rightarrow> dev_event \<Rightarrow> 'z kernel_scheme \<Rightarrow> (trap_end \<times> 'z kernel_scheme) res" where
  "usertrap pad ev s =
     panic_if (sstatus (regs s) AND SSTATUS_SPP \<noteq> 0) ''usertrap: not from user mode'' (
     let s = upd_regs (\<lambda>r. r\<lparr>stvec := sym_kernelvec s\<rparr>) s;
         s = tf_set tf_epc (sepc (regs s)) s
     in
     if scause (regs s) = 8 then usertrap_syscall pad s
     else bnd (devintr ev s) (\<lambda>(which_dev, s).
       if which_dev \<noteq> 0 then usertrap_finish which_dev s else usertrap_fault s))"

text \<open>\<open>running\<close>: the CPU has a current process.\<close>

definition kerneltrap :: "bool \<Rightarrow> dev_event \<Rightarrow> 'z kernel_scheme \<Rightarrow> 'z kernel_scheme res" where
  "kerneltrap running ev s =
     (let epc = sepc (regs s); status = sstatus (regs s) in
      panic_if (status AND SSTATUS_SPP = 0) ''kerneltrap: not from supervisor mode'' (
      panic_if (status AND SSTATUS_SIE \<noteq> 0) ''kerneltrap: interrupts enabled'' (
      bnd (devintr ev s) (\<lambda>(which_dev, s).
      panic_if (which_dev = 0) ''kerneltrap'' (
      let s = (if which_dev = 2 \<and> running then yield (s\<lparr>procs := tick_tbl (cur s) (procs s)\<rparr>) else s)
      in Ok (upd_regs (\<lambda>r. r\<lparr>sepc := epc, sstatus := status\<rparr>) s))))))"

end
