(* ===== verification/Mem_Frame.thy ===== *)
theory Mem_Frame
  imports Bytes Compact
begin

text \<open>
  Postconditions of successful runs, with a collection of rules that follow the structure of a routine, and a first use: the memory
  routines change nothing but memory. \<open>mk M s\<close> says that the fields of the state beyond the allocator's are \<open>M\<close>.
\<close>

section \<open>Postconditions of successful runs\<close>

definition okP :: "('a \<Rightarrow> bool) \<Rightarrow> 'a res \<Rightarrow> bool" where
  "okP P m \<longleftrightarrow> (\<forall>x. m = Ok x \<longrightarrow> P x)"

named_theorems frame_rules \<open>structure of a routine\<close>
named_theorems mem_rules \<open>memory routines\<close>

lemma okP_D: "okP P m \<Longrightarrow> m = Ok x \<Longrightarrow> P x"
  by (simp add: okP_def)

lemma okP_conj2: "okP (\<lambda>(a, t). P a t) m \<Longrightarrow> okP (\<lambda>(a, t). Q a t) m \<Longrightarrow> okP (\<lambda>(a, t). P a t \<and> Q a t) m"
  by (auto simp: okP_def)

lemma okP_weaken: "okP P m \<Longrightarrow> (\<And>x. P x \<Longrightarrow> Q x) \<Longrightarrow> okP Q m"
  by (auto simp: okP_def)

lemma okP_simps [simp]: "okP P (Ok x) = P x" "okP P (Panic e)" "okP P Undef" "okP P Diverge"
  by (auto simp: okP_def)

lemma okP_bnd3 [frame_rules]: "okP (\<lambda>(a, b, t). Q a b t) m \<Longrightarrow> (\<And>a b t. Q a b t \<Longrightarrow> okP P (f a b t)) \<Longrightarrow> okP P (bnd m (\<lambda>(a, b, t). f a b t))"
  by (cases m) (auto simp: okP_def)

lemma okP_bnd2 [frame_rules]: "okP (\<lambda>(a, t). Q a t) m \<Longrightarrow> (\<And>a t. Q a t \<Longrightarrow> okP P (f a t)) \<Longrightarrow> okP P (bnd m (\<lambda>(a, t). f a t))"
  by (cases m) (auto simp: okP_def)

lemma okP_bnd [frame_rules]: "okP Q m \<Longrightarrow> (\<And>x. Q x \<Longrightarrow> okP P (f x)) \<Longrightarrow> okP P (bnd m f)"
  by (cases m) (auto simp: okP_def)

lemma okP_panic_if [frame_rules]: "okP P m \<Longrightarrow> okP P (panic_if c e m)"
  by (simp add: panic_if_def)

lemma okP_undef_if [frame_rules]: "okP P m \<Longrightarrow> okP P (undef_if c m)"
  by (simp add: undef_if_def)

lemma okP_if [frame_rules]: "(c \<Longrightarrow> okP P a) \<Longrightarrow> (\<not> c \<Longrightarrow> okP P b) \<Longrightarrow> okP P (if c then a else b)"
  by simp

lemma okP_option [frame_rules]: "(x = None \<Longrightarrow> okP P a) \<Longrightarrow> (\<And>y. x = Some y \<Longrightarrow> okP P (f y)) \<Longrightarrow> okP P (case x of None \<Rightarrow> a | Some y \<Rightarrow> f y)"
  by (cases x) auto

lemma okP_Let [frame_rules]: "(\<And>y. y = x \<Longrightarrow> okP P (f y)) \<Longrightarrow> okP P (let y = x in f y)"
  by simp

lemma okP_pair [frame_rules]: "(\<And>a b. x = (a, b) \<Longrightarrow> okP P (f a b)) \<Longrightarrow> okP P (case x of (a, b) \<Rightarrow> f a b)"
  by (cases x) simp

lemma okP_for: "(\<And>i s. i \<in> set is \<Longrightarrow> P s \<Longrightarrow> okP P (f i s)) \<Longrightarrow> P s \<Longrightarrow> okP P (for_res is f s)"
proof (induction "is" arbitrary: s)
  case (Cons i "is")
  have "okP P (f i s)" by (rule Cons.prems(1)) (use Cons.prems in auto)
  then show ?case by simp (rule okP_bnd, assumption, rule Cons.IH, use Cons.prems in auto)
qed simp

lemma okP_obnd: "pred_option (okP Q) m \<Longrightarrow> (\<And>x. Q x \<Longrightarrow> pred_option (okP P) (f x)) \<Longrightarrow> pred_option (okP P) (obnd m f)"
  by (cases m) (auto simp: obnd_def okP_def split: res.splits)

lemma okP_loop: "pred_option (okP P) m \<Longrightarrow> okP P (bnd (loop_res m) (\<lambda>r. r))"
  by (cases m) auto

section \<open>Memory routines\<close>

definition mk :: "'z \<Rightarrow> 'z kmem_scheme \<Rightarrow> bool" where
  "mk M s \<longleftrightarrow> kmem.more s = M"

lemma mk_upd [simp]: "mk M (s\<lparr>ram := m\<rparr>) = mk M s" "mk M (s\<lparr>ref_count := r\<rparr>) = mk M s" "mk M (s\<lparr>freelist := f\<rparr>) = mk M s"
  "mk M (s\<lparr>reverse_map := v\<rparr>) = mk M s" "mk M (set_pte p x s) = mk M s" "mk M (zero_page p s) = mk M s" "mk M (clear_rmap pa s) = mk M s"
  "mk M (record_rmap pa pt va s) = mk M s" "mk M (link_block b prev cr s) = mk M s" "mk M (unlink_block bp bc n s) = mk M s"
  by (simp_all add: mk_def set_pte_def zero_page_def clear_rmap_def record_rmap_def link_block_def unlink_block_def Let_def)

lemma mk_if [mem_rules]: "(c \<Longrightarrow> mk M a) \<Longrightarrow> (\<not> c \<Longrightarrow> mk M b) \<Longrightarrow> mk M (if c then a else b)"
  by simp

lemma mk_clear: "mk M s \<Longrightarrow> mk M (fold (\<lambda>i s. clear_rmap (f i) s) xs s)"
  by (induction xs arbitrary: s) auto

lemma kfree_contig_mk [mem_rules]: "mk M s \<Longrightarrow> okP (mk M) (kfree_contig pa n s)"
proof -
  assume m: "mk M s"
  have "okP (mk M) (dec_ref pa i t)" if "mk M t" for i t using that by (simp add: dec_ref_def Let_def undef_if_def panic_if_def)
  then have d: "okP (mk M) (for_res [0..<n] (dec_ref pa) s)" by (intro okP_for m) blast
  have "okP (mk M) (free_insert pa n t)" if "mk M t" for t
    using that unfolding free_insert_def Let_def by (cases "loop_res (fl_find (set_num_pages pa (of_nat n) (ram t)) pa 0 (freelist t))") auto
  then show ?thesis unfolding kfree_contig_def by (intro okP_panic_if okP_bnd[OF d]) (simp add: Let_def panic_if_def mk_clear)
qed

lemma kfree_mk [mem_rules]: "mk M s \<Longrightarrow> okP (mk M) (kfree pa s)"
  unfolding kfree_def by (rule kfree_contig_mk)

lemma kalloc_mk [mem_rules]: "mk M s \<Longrightarrow> okP (\<lambda>(a, t). mk M t) (kalloc s)"
proof -
  assume m: "mk M s"
  have "okP (mk M) (init_ref pa i t)" if "mk M t" for pa i t using that by (simp add: init_ref_def Let_def undef_if_def)
  then have i: "okP (mk M) (for_res xs (init_ref pa) (unlink_block bp pa 1 s))" for pa bp xs by (intro okP_for) (simp_all add: m)
  have "okP (\<lambda>(a, t). mk M t) (bnd (for_res xs (init_ref pa) (unlink_block bp pa 1 s)) (\<lambda>s. Ok (pa, s\<lparr>ram := memset (ram s) pa 5 k\<rparr>)))" for pa bp xs k
    by (rule okP_bnd[OF i]) simp
  then show ?thesis unfolding kalloc_def kalloc_contig_def
    by (cases "loop_res (fl_best (ram s) (of_nat 1) 0 (freelist s) 0 0)") (auto simp: m simp del: for_res.simps)
qed

lemma ref_mk [mem_rules]: "mk M s \<Longrightarrow> okP (mk M) (incref pa s)" "mk M s \<Longrightarrow> okP (\<lambda>(a, t). mk M t) (decref pa s)" "okP (\<lambda>r. True) (getref pa s)"
  by (simp_all add: incref_def decref_def undef_if_def panic_if_def Let_def okP_def)

lemma walk_mk [mem_rules]: "mk M s \<Longrightarrow> okP (\<lambda>(a, t). mk M t) (Vm.walk pt va al s)"
proof -
  have "mk M s \<Longrightarrow> okP (\<lambda>(a, t). mk M t) (walk_loop l pt va al s)" for l
  proof (induction l arbitrary: pt s)
    case (Suc l)
    show ?case by simp (rule Suc.IH mem_rules frame_rules | rule Suc.prems | assumption | simp)+
  qed simp
  then show "mk M s \<Longrightarrow> ?thesis" unfolding Vm.walk_def by (rule okP_panic_if)
qed

lemma mappages_mk [mem_rules]: "mk M s \<Longrightarrow> okP (\<lambda>(a, t). mk M t) (mappages pt va sz pa perm s)"
proof -
  have "mk M s \<Longrightarrow> okP (\<lambda>(a, t). mk M t) (mappages_loop k pt a l pa perm s)" for k a l
  proof (induction k arbitrary: a pa s)
    case (Suc k)
    show ?case by simp (rule Suc.IH mem_rules frame_rules | rule Suc.prems | assumption | simp)+
  qed simp
  then show "mk M s \<Longrightarrow> ?thesis" unfolding mappages_def by (intro okP_panic_if)
qed

lemma uvmcreate_mk [mem_rules]: "mk M s \<Longrightarrow> okP (\<lambda>(a, t). mk M t) (uvmcreate s)"
  unfolding uvmcreate_def by (rule mem_rules frame_rules | assumption | simp)+

lemma unmap_one_mk [mem_rules]: "mk M s \<Longrightarrow> okP (mk M) (unmap_one pt a f s)"
  unfolding unmap_one_def by (rule mem_rules frame_rules | assumption | simp)+

lemma uvmunmap_mk [mem_rules]: "mk M s \<Longrightarrow> okP (mk M) (uvmunmap pt va n f s)"
proof -
  have "mk M s \<Longrightarrow> okP (mk M) (uvmunmap_loop k pt a e f s)" for k a e
    by (induction k arbitrary: a s) (auto intro!: okP_bnd[OF unmap_one_mk])
  then show "mk M s \<Longrightarrow> ?thesis" unfolding uvmunmap_def by (rule okP_panic_if)
qed

lemma uvmdealloc_mk [mem_rules]: "mk M s \<Longrightarrow> okP (\<lambda>(a, t). mk M t) (uvmdealloc pt oldsz n s)"
  unfolding uvmdealloc_def by (rule mem_rules frame_rules | assumption | simp)+

lemma uvmalloc_mk [mem_rules]: "mk M s \<Longrightarrow> okP (\<lambda>(a, t). mk M t) (uvmalloc pt oldsz n x s)"
proof -
  have "mk M s \<Longrightarrow> okP (\<lambda>(a, t). mk M t) (uvmalloc_loop k pt a old n x s)" for k a old
  proof (induction k arbitrary: a s)
    case (Suc k)
    show ?case unfolding uvmalloc_loop.simps by (rule Suc.IH mem_rules frame_rules | rule Suc.prems | assumption | simp)+
  qed simp
  then show "mk M s \<Longrightarrow> ?thesis" unfolding uvmalloc_def Let_def by (simp del: uvmalloc_loop.simps)
qed

lemma freewalk_from_mk: "freewalk_from p i s = Some r \<Longrightarrow> mk M s \<longrightarrow> okP (mk M) r"
  apply (erule freewalk_from.raw_induct[rotated])
  subgoal premises H for f p i s r
  proof
    assume m: "mk M s"
    have f: "pred_option (okP (mk M)) (f q j t)" if "mk M t" for q j t using H(1) that by (cases "f q j t") auto
    have "pred_option (okP (mk M)) (obnd (f q 0 s) (\<lambda>s. f p j (set_pte a 0 s)))" for q j a
      by (rule okP_obnd[where Q = "mk M"]) (auto simp: m intro!: f)
    then show "okP (mk M) r" using H(2) f[OF m] kfree_mk[OF m]
      by (auto simp: Let_def pred_option_def split: if_splits)
  qed
  done

lemma freewalk_mk [mem_rules]: "mk M s \<Longrightarrow> okP (mk M) (freewalk pt s)"
  unfolding freewalk_def using freewalk_from_mk[of pt 0 s] by (intro okP_loop) (cases "freewalk_from pt 0 s"; auto)

lemma uvmfree_mk [mem_rules]: "mk M s \<Longrightarrow> okP (mk M) (uvmfree pt sz s)"
  unfolding uvmfree_def by (rule mem_rules frame_rules | assumption | simp)+

lemma uvmclear_mk [mem_rules]: "mk M s \<Longrightarrow> okP (mk M) (uvmclear pt va s)"
  unfolding uvmclear_def by (rule mem_rules frame_rules | assumption | simp)+

lemma cow_fault_mk [mem_rules]: "mk M s \<Longrightarrow> okP (\<lambda>(a, t). mk M t) (cow_fault pt va pte s)"
  unfolding cow_fault_def
  by (rule okP_bnd2[where Q = "\<lambda>a t. mk M t"] mem_rules frame_rules | assumption | simp)+

lemma vmfault_mk [mem_rules]: "mk M s \<Longrightarrow> okP (\<lambda>(a, t). mk M t) (vmfault pt va sz s)"
  unfolding vmfault_def lazy_fault_def by (rule mem_rules frame_rules | assumption | simp)+

lemma user_page_mk [mem_rules]: "mk M s \<Longrightarrow> okP (\<lambda>(a, t). mk M t) (user_page pt va sz s)"
proof -
  assume m: "mk M s"
  have "okP (\<lambda>r. True) (walkaddr pt va s)" by (simp add: okP_def)
  then show ?thesis unfolding user_page_def by (rule okP_bnd) (simp add: m vmfault_mk)
qed

lemma copyout_bytes_mk [mem_rules]: "mk M s \<Longrightarrow> okP (\<lambda>(a, t). mk M t) (copyout_bytes pt va bs sz s)"
proof (induction pt va bs sz s rule: copyout_bytes.induct)
  case (1 pt va bs sz s)
  show ?case by (subst copyout_bytes.simps) (rule mem_rules frame_rules | rule "1.prems" "1.IH" | assumption | simp)+
qed

lemma copyin_bytes_mk [mem_rules]: "mk M s \<Longrightarrow> okP (\<lambda>(r, bs, t). mk M t) (copyin_bytes pt va n sz s)"
proof (induction pt va n sz s rule: copyin_bytes.induct)
  case (1 pt va n sz s)
  show ?case by (subst copyin_bytes.simps) (rule mem_rules frame_rules | rule "1.prems" "1.IH" | assumption | simp)+
qed

lemma copyout_mk [mem_rules]: "mk M s \<Longrightarrow> okP (\<lambda>(a, t). mk M t) (copyout pt va src n sz s)"
proof (induction pt va src n sz s rule: copyout.induct)
  case (1 pt va src n sz s)
  show ?case by (subst copyout.simps) (rule mem_rules frame_rules | rule "1.prems" "1.IH" | assumption | simp)+
qed

lemma copyin_mk [mem_rules]: "mk M s \<Longrightarrow> okP (\<lambda>(a, t). mk M t) (copyin pt dst va n sz s)"
proof (induction pt dst va n sz s rule: copyin.induct)
  case (1 pt dst va n sz s)
  show ?case by (subst copyin.simps) (rule mem_rules frame_rules | rule "1.prems" "1.IH" | assumption | simp)+
qed

lemma copyinstr_mk [mem_rules]: "mk M s \<Longrightarrow> okP (\<lambda>(a, t). mk M t) (copyinstr pt dst va n s)"
proof (induction pt dst va n s rule: copyinstr.induct)
  case (1 pt dst va n s)
  have w: "okP (\<lambda>r. True) (walkaddr pt a s)" for a by (simp add: okP_def)
  show ?case by (subst copyinstr.simps) (rule w mem_rules frame_rules | rule "1.prems" "1.IH" | assumption | simp add: "1.prems")+
qed

lemma uvmcopy_mk [mem_rules]: "mk M s \<Longrightarrow> okP (\<lambda>(a, t). mk M t) (uvmcopy old new sz s)"
proof -
  have p: "mk M s \<Longrightarrow> okP (\<lambda>(a, t). mk M t) (uvmcopy_page old new i s)" for i s
    unfolding uvmcopy_page_def Let_def by (rule mem_rules frame_rules | assumption | simp)+
  have "mk M s \<Longrightarrow> okP (\<lambda>(a, t). mk M t) (uvmcopy_loop k old new i sz s)" for k i
  proof (induction k arbitrary: i s)
    case (Suc k)
    show ?case unfolding uvmcopy_loop.simps by (rule p Suc.IH mem_rules frame_rules | rule Suc.prems | assumption | simp)+
  qed simp
  then show "mk M s \<Longrightarrow> ?thesis" by (simp add: uvmcopy_def del: uvmcopy_loop.simps)
qed

end
