(* ===== verification/Frame.thy ===== *)
theory Frame
  imports Exec Mem_Frame
begin

text \<open>
  What the file system does to the process table: nothing but waking sleepers. \<open>tk\<close> is the part of the state with the
  processes, \<open>wk\<close> relates two such parts when the second comes from the first by wakeups of other processes than the current one,
  and the rules of \<open>frame_rules\<close> carry \<open>wk\<close> through every operation on files, blocks and memory.
\<close>

section \<open>Waking\<close>

definition woken :: "proc \<Rightarrow> proc \<Rightarrow> bool" where
  "woken p q \<longleftrightarrow> q = p \<or> pstate p = SLEEPING \<and> q = p\<lparr>pstate := RUNNABLE\<rparr>"

definition tk :: "'z ktask_scheme \<Rightarrow> proc list \<times> nat \<times> nat" where
  "tk s = (procs s, cur s, initproc s)"

definition wk :: "proc list \<times> nat \<times> nat \<Rightarrow> proc list \<times> nat \<times> nat \<Rightarrow> bool" where
  "wk T U \<longleftrightarrow> snd U = snd T \<and> list_all2 woken (fst T) (fst U) \<and> (fst (snd T) < length (fst T) \<longrightarrow> fst U ! fst (snd T) = fst T ! fst (snd T))"

lemma woken_refl [simp]: "woken p p"
  by (simp add: woken_def)

lemma woken_trans: "woken p q \<Longrightarrow> woken q r \<Longrightarrow> woken p r"
  by (auto simp: woken_def)

lemma wk_refl: "wk T T"
  by (simp add: wk_def list_all2_refl)

lemma wk_trans: "wk T U \<Longrightarrow> wk U V \<Longrightarrow> wk T V"
proof -
  assume a: "wk T U" "wk U V"
  then have "list_all2 woken (fst T) (fst U)" "list_all2 woken (fst U) (fst V)" by (simp_all add: wk_def)
  then have "list_all2 woken (fst T) (fst V)" using list_all2_trans[of woken woken woken "fst T"] woken_trans by blast
  then show ?thesis using a list_all2_lengthD[of woken "fst T" "fst U"] by (simp add: wk_def)
qed

lemma wk_if [frame_rules]: "(c \<Longrightarrow> wk T (tk a)) \<Longrightarrow> (\<not> c \<Longrightarrow> wk T (tk b)) \<Longrightarrow> wk T (tk (if c then a else b))"
  by simp

lemma woken_wakeup: "woken p (wakeup_proc c p)"
  by (simp add: woken_def wakeup_proc_def)

lemma wk_wakeup [frame_rules]: "wk T (tk s) \<Longrightarrow> wk T (tk (wakeup c s))"
proof (erule wk_trans)
  have "list_all2 woken (procs s) (wakeup_tbl (Some (cur s)) c (procs s))"
    unfolding wakeup_tbl_def by (auto simp: list_all2_conv_all_nth woken_wakeup)
  then show "wk (tk s) (tk (wakeup c s))" by (simp add: wk_def tk_def wakeup_def wakeup_tbl_def)
qed

lemma tk_ram [simp]: "tk (s\<lparr>ram := m\<rparr>) = tk s"
  by (simp add: tk_def)

text \<open>The memory routines keep the processes.\<close>

lemma tk_kmem: "mk (kmem.more s) t \<Longrightarrow> tk t = tk s" for s t :: "'z ktask_scheme"
  by (cases s; cases t) (simp add: tk_def mk_def)

lemma okP_mem: "okP (mk (kmem.more s)) m \<Longrightarrow> wk T (tk s) \<Longrightarrow> okP (\<lambda>t. wk T (tk t)) m" for s :: "'z ktask_scheme"
  by (auto simp: okP_def tk_kmem[of s])

lemma okP_mem2: "okP (\<lambda>(a, t). mk (kmem.more s) t) m \<Longrightarrow> wk T (tk s) \<Longrightarrow> okP (\<lambda>(a, t). wk T (tk t)) m" for s :: "'z ktask_scheme"
  by (auto simp: okP_def tk_kmem[of s])

lemma okP_mem3: "okP (\<lambda>(a, b, t). mk (kmem.more s) t) m \<Longrightarrow> wk T (tk s) \<Longrightarrow> okP (\<lambda>(a, b, t). wk T (tk t)) m" for s :: "'z ktask_scheme"
  by (auto simp: okP_def tk_kmem[of s])

lemma mk_self: "mk (kmem.more s) s"
  by (simp add: mk_def)

lemmas mem_wk [frame_rules] = okP_mem[OF kfree_mk[OF mk_self]] okP_mem2[OF kalloc_mk[OF mk_self]] okP_mem2[OF mappages_mk[OF mk_self]]
  okP_mem2[OF uvmcreate_mk[OF mk_self]] okP_mem[OF uvmunmap_mk[OF mk_self]] okP_mem2[OF uvmalloc_mk[OF mk_self]] okP_mem[OF uvmfree_mk[OF mk_self]]
  okP_mem[OF uvmclear_mk[OF mk_self]] okP_mem2[OF copyout_bytes_mk[OF mk_self]] okP_mem3[OF copyin_bytes_mk[OF mk_self]]
  okP_mem2[OF copyout_mk[OF mk_self]] okP_mem2[OF copyin_mk[OF mk_self]] okP_mem2[OF copyinstr_mk[OF mk_self]] okP_mem2[OF uvmcopy_mk[OF mk_self]]
  okP_mem2[OF uvmdealloc_mk[OF mk_self]]

section \<open>Blocks and the log\<close>

lemma tk_buf [simp]: "tk (upd_buf b f s) = tk s" "tk (set_bnext i j s) = tk s" "tk (set_bprev i j s) = tk s" "tk (link_front b s) = tk s"
  "tk (unlink_buf b s) = tk s" "tk (virtio_disk_rw b w s) = tk s" "tk (bpin b s) = tk s" "tk (bunpin b s) = tk s" "tk (set_data b xs s) = tk s"
  by (simp_all add: tk_def upd_buf_def set_bnext_def set_bprev_def link_front_def unlink_buf_def virtio_disk_rw_def bpin_def bunpin_def
      set_data_def Let_def)

lemma bread_wk [frame_rules]: "wk T (tk s) \<Longrightarrow> okP (\<lambda>(b, t). wk T (tk t)) (bread dev bno s)"
  unfolding bread_def bget_def lock_buf_def acquiresleep_def loop_res_def
  by (auto simp: okP_def bnd_Ok_iff split: option.splits if_splits)

lemma bwrite_wk [frame_rules]: "wk T (tk s) \<Longrightarrow> okP (\<lambda>t. wk T (tk t)) (bwrite b s)"
  by (simp add: bwrite_def panic_if_def)

lemma brelse_wk [frame_rules]: "wk T (tk s) \<Longrightarrow> okP (\<lambda>t. wk T (tk t)) (brelse b s)"
  by (simp add: brelse_def panic_if_def releasesleep_def Let_def wk_wakeup)

lemma tk_log [simp]: "tk (s\<lparr>lh_n := n\<rparr>) = tk s" "tk (s\<lparr>lh_block := bl\<rparr>) = tk s" "tk (s\<lparr>log_outstanding := i\<rparr>) = tk s"
  "tk (s\<lparr>log_committing := c\<rparr>) = tk s" "tk (s\<lparr>log_start := a, log_dev := d\<rparr>) = tk s" "tk (s\<lparr>log_start := a\<rparr>) = tk s" "tk (s\<lparr>log_dev := d\<rparr>) = tk s"
  by (simp_all add: tk_def)

lemma install_one_wk: "wk T (tk s) \<Longrightarrow> okP (\<lambda>t. wk T (tk t)) (install_one r i s)"
  unfolding install_one_def by (rule frame_rules | assumption | simp)+

lemma install_trans_wk [frame_rules]: "wk T (tk s) \<Longrightarrow> okP (\<lambda>t. wk T (tk t)) (install_trans r s)"
  unfolding install_trans_def by (rule okP_for) (rule install_one_wk)

lemma write_log_wk [frame_rules]: "wk T (tk s) \<Longrightarrow> okP (\<lambda>t. wk T (tk t)) (write_log s)"
  unfolding write_log_def write_log_one_def by (rule okP_for) (rule frame_rules | assumption | simp)+

lemma write_head_wk [frame_rules]: "wk T (tk s) \<Longrightarrow> okP (\<lambda>t. wk T (tk t)) (write_head s)"
  unfolding write_head_def by (rule frame_rules | assumption | simp)+

lemma begin_op_wk [frame_rules]: "wk T (tk s) \<Longrightarrow> okP (\<lambda>t. wk T (tk t)) (begin_op s)"
  by (simp add: begin_op_def begin_op_try_def)

lemma end_op_wk [frame_rules]: "wk T (tk s) \<Longrightarrow> okP (\<lambda>t. wk T (tk t)) (end_op s)"
  unfolding end_op_def commit_def by (rule frame_rules | assumption | simp)+

lemma log_write_wk [frame_rules]: "wk T (tk s) \<Longrightarrow> okP (\<lambda>t. wk T (tk t)) (log_write b s)"
  unfolding log_write_def by (rule frame_rules | assumption | simp)+

section \<open>Inodes\<close>

lemma tk_fs [simp]: "tk (upd_inode i f s) = tk s" "tk (idup i s) = tk s"
  by (simp_all add: tk_def upd_inode_def idup_def)

lemma bzero_wk [frame_rules]: "wk T (tk s) \<Longrightarrow> okP (\<lambda>t. wk T (tk t)) (bzero d b s)"
  unfolding bzero_def by (rule frame_rules | assumption | simp)+

lemma balloc_wk [frame_rules]: "wk T (tk s) \<Longrightarrow> okP (\<lambda>(a, t). wk T (tk t)) (balloc d s)"
proof -
  have "wk T (tk s) \<Longrightarrow> okP (\<lambda>(a, t). wk T (tk t)) (balloc_scan d bs s)" for bs
  proof (induction bs arbitrary: s)
    case (Cons b bs)
    show ?case unfolding balloc_scan.simps by (rule Cons.IH frame_rules | rule Cons.prems | assumption | simp)+
  qed simp
  then show "wk T (tk s) \<Longrightarrow> ?thesis" by (simp add: balloc_def)
qed

lemma bfree_wk [frame_rules]: "wk T (tk s) \<Longrightarrow> okP (\<lambda>t. wk T (tk t)) (bfree d b s)"
  unfolding bfree_def by (rule frame_rules | assumption | simp)+

lemma iget_wk [frame_rules]: "wk T (tk s) \<Longrightarrow> okP (\<lambda>(a, t). wk T (tk t)) (iget d n s)"
  by (simp add: iget_def split: prod.splits option.splits)

lemma iupdate_wk [frame_rules]: "wk T (tk s) \<Longrightarrow> okP (\<lambda>t. wk T (tk t)) (iupdate i s)"
  unfolding iupdate_def by (rule frame_rules | assumption | simp)+

lemma acquiresleep_wk [frame_rules]: "okP (\<lambda>l. True) (acquiresleep lk s)"
  by (simp add: okP_def)

lemma ilock_wk [frame_rules]: "wk T (tk s) \<Longrightarrow> okP (\<lambda>t. wk T (tk t)) (ilock i s)"
  unfolding ilock_def by (rule frame_rules | assumption | simp)+

lemma iunlock_wk [frame_rules]: "wk T (tk s) \<Longrightarrow> okP (\<lambda>t. wk T (tk t)) (iunlock i s)"
  unfolding iunlock_def releasesleep_def by (rule frame_rules | assumption | simp)+

lemma itrunc_wk [frame_rules]: "wk T (tk s) \<Longrightarrow> okP (\<lambda>t. wk T (tk t)) (itrunc i s)"
proof -
  have "wk T (tk s) \<Longrightarrow> okP (\<lambda>t. wk T (tk t)) (itrunc_direct i k s)" for k s
    unfolding itrunc_direct_def by (rule frame_rules | assumption | simp)+
  then have d: "wk T (tk s) \<Longrightarrow> okP (\<lambda>t. wk T (tk t)) (for_res [0..<NDIRECT] (itrunc_direct i) s)" for s by (intro okP_for) auto
  have i: "wk T (tk s) \<Longrightarrow> okP (\<lambda>t. wk T (tk t)) (itrunc_indirect i s)" for s
    unfolding itrunc_indirect_def by (rule okP_for frame_rules | assumption | simp)+
  show "wk T (tk s) \<Longrightarrow> ?thesis" unfolding itrunc_def by (rule d i frame_rules | assumption | simp)+
qed

lemma iput_wk [frame_rules]: "wk T (tk s) \<Longrightarrow> okP (\<lambda>t. wk T (tk t)) (iput i s)"
  unfolding iput_def releasesleep_def by (rule okP_bnd[where Q = "\<lambda>t. wk T (tk t)"] frame_rules | assumption | simp)+

lemma iunlockput_wk [frame_rules]: "wk T (tk s) \<Longrightarrow> okP (\<lambda>t. wk T (tk t)) (iunlockput i s)"
  unfolding iunlockput_def by (rule frame_rules | assumption)+

section \<open>Content, directories, paths\<close>

lemma bmap_wk [frame_rules]: "wk T (tk s) \<Longrightarrow> okP (\<lambda>(a, t). wk T (tk t)) (bmap i bn s)"
  unfolding bmap_def by (rule okP_bnd2[where Q = "\<lambda>a t. wk T (tk t)"] frame_rules | assumption | simp)+

lemma either_copyout_wk [frame_rules]: "wk T (tk s) \<Longrightarrow> okP (\<lambda>(r, d, t). wk T (tk t)) (either_copyout dst off bs s)"
  unfolding either_copyout_def by (cases dst; simp) (rule frame_rules | assumption | simp)+

lemma either_copyin_wk [frame_rules]: "wk T (tk s) \<Longrightarrow> okP (\<lambda>(r, bs, t). wk T (tk t)) (either_copyin src off n s)"
  unfolding either_copyin_def by (cases src; simp) (rule frame_rules | assumption | simp)+

lemma readi_loop_wk [frame_rules]: "wk T (tk s) \<Longrightarrow> okP (\<lambda>(r, d, t). wk T (tk t)) (readi_loop i dst off n tot s)"
proof (induction i dst off n tot s rule: readi_loop.induct)
  case (1 i dst off n tot s)
  show ?case by (subst readi_loop.simps) (rule frame_rules | rule "1.prems" "1.IH" | assumption | simp)+
qed

lemma readi_wk [frame_rules]: "wk T (tk s) \<Longrightarrow> okP (\<lambda>(r, d, t). wk T (tk t)) (readi i dst off n s)"
  unfolding readi_def by (rule frame_rules | assumption | simp)+

lemma read_dirent_wk [frame_rules]: "wk T (tk s) \<Longrightarrow> okP (\<lambda>(d, t). wk T (tk t)) (read_dirent e i off s)"
proof -
  assume w: "wk T (tk s)"
  show ?thesis unfolding read_dirent_def
    by (rule okP_bnd3[OF readi_wk[OF w]]) (auto simp: panic_if_def split: iobuf.splits)
qed

lemma dirlookup_wk [frame_rules]: "wk T (tk s) \<Longrightarrow> okP (\<lambda>(r, t). wk T (tk t)) (dirlookup i name s)"
proof -
  have "wk T (tk s) \<Longrightarrow> okP (\<lambda>(r, t). wk T (tk t)) (dirlookup_scan i name offs s)" for offs
  proof (induction offs arbitrary: s)
    case (Cons off offs)
    show ?case unfolding dirlookup_scan.simps by (rule Cons.IH frame_rules | rule Cons.prems | assumption | simp)+
  qed simp
  then show "wk T (tk s) \<Longrightarrow> ?thesis" unfolding dirlookup_def by (rule okP_panic_if)
qed

lemma namex_loop_wk [frame_rules]: "wk T (tk s) \<Longrightarrow> okP (\<lambda>(r, n, t). wk T (tk t)) (namex_loop i pth np name s)"
proof (induction i pth np name s rule: namex_loop.induct)
  case (1 i pth np name s)
  show ?case by (subst namex_loop.simps) (rule frame_rules | rule "1.prems" | rule "1.IH" | assumption | simp)+
qed

lemma namei_wk [frame_rules]: "wk T (tk s) \<Longrightarrow> okP (\<lambda>(r, t). wk T (tk t)) (namei pth s)"
  unfolding namei_def namex_def by (rule okP_bnd2[where Q = "\<lambda>a t. wk T (tk t)"] frame_rules | assumption | simp)+

section \<open>Files\<close>

lemma tk_file [simp]: "tk (upd_file i f s) = tk s" "tk (upd_memf i g s) = tk s" "tk (pi_set a p v s) = tk s"
  by (simp_all add: tk_def upd_file_def upd_memf_def pi_set_def)

lemma pipeclose_wk [frame_rules]: "wk T (tk s) \<Longrightarrow> okP (\<lambda>t. wk T (tk t)) (pipeclose pi w s)"
  unfolding pipeclose_def Let_def by (rule frame_rules | assumption | simp add: wk_wakeup)+

lemma fileclose_wk [frame_rules]: "wk T (tk s) \<Longrightarrow> okP (\<lambda>t. wk T (tk t)) (fileclose i s)"
  unfolding fileclose_def
  by (intro okP_panic_if okP_Let okP_if; (simp; fail)?) (auto split: fdtype.splits option.splits intro!: frame_rules)

section \<open>Page tables and program loading\<close>

lemma proc_pagetable_wk [frame_rules]: "wk T (tk s) \<Longrightarrow> okP (\<lambda>(p, t). wk T (tk t)) (proc_pagetable tf s)"
  unfolding proc_pagetable_def by (rule frame_rules | assumption | simp)+

lemma proc_freepagetable_wk [frame_rules]: "wk T (tk s) \<Longrightarrow> okP (\<lambda>t. wk T (tk t)) (proc_freepagetable pt sz s)"
  unfolding proc_freepagetable_def by (rule frame_rules | assumption | simp)+

lemma read_struct_wk [frame_rules]: "wk T (tk s) \<Longrightarrow> okP (\<lambda>(d, t). wk T (tk t)) (read_struct ip off n s)"
proof -
  assume w: "wk T (tk s)"
  show ?thesis unfolding read_struct_def
    by (rule okP_bnd3[OF readi_wk[OF w]]) (auto split: iobuf.splits)
qed

lemma loadseg_wk [frame_rules]: "wk T (tk s) \<Longrightarrow> okP (\<lambda>(r, t). wk T (tk t)) (loadseg pt va ip off sz s)"
proof -
  have w: "okP (\<lambda>pa. True) (walkaddr pt va s)" for va and s :: "'a kfs_scheme" by (simp add: okP_def)
  have "wk T (tk s) \<Longrightarrow> okP (\<lambda>(r, t). wk T (tk t)) (loadseg_loop pt va ip off sz is s)" for "is" 
  proof (induction "is" arbitrary: s)
    case (Cons i "is")
    show ?case unfolding loadseg_loop.simps by (rule Cons.IH w frame_rules | rule Cons.prems | assumption | simp)+
  qed simp
  then show "wk T (tk s) \<Longrightarrow> ?thesis" by (simp add: loadseg_def)
qed

lemma load_ph_wk [frame_rules]: "wk T (tk s) \<Longrightarrow> okP (\<lambda>(k, sz, t). wk T (tk t)) (load_ph pt ip off sz s)"
  unfolding load_ph_def by (rule frame_rules | assumption | simp)+

lemma load_phs_wk [frame_rules]: "wk T (tk s) \<Longrightarrow> okP (\<lambda>(k, sz, t). wk T (tk t)) (load_phs pt ip n off sz s)"
proof (induction n arbitrary: off sz s)
  case (Suc n)
  show ?case unfolding load_phs.simps by (rule Suc.IH frame_rules | rule Suc.prems | assumption | simp)+
qed simp

lemma push_args_wk [frame_rules]: "wk T (tk s) \<Longrightarrow> okP (\<lambda>(r, t). wk T (tk t)) (push_args pt b as sp us s)"
proof (induction "as" arbitrary: sp us s)
  case (Cons a "as")
  show ?case unfolding push_args.simps by (rule Cons.IH frame_rules | rule Cons.prems | assumption | simp)+
qed simp

lemma kexec_bad_wk: "wk T (tk s) \<Longrightarrow> okP (\<lambda>(r, t). r = - 1 \<and> wk T (tk t)) (kexec_bad pt sz ip s)"
  unfolding kexec_bad_def by (rule okP_bnd[where Q = "\<lambda>t. wk T (tk t)"] frame_rules | assumption | simp)+

section \<open>Writing, creating, linking\<close>

lemma writei_loop_wk [frame_rules]: "wk T (tk s) \<Longrightarrow> okP (\<lambda>(r, t). wk T (tk t)) (writei_loop i src off n tot s)"
proof (induction i src off n tot s rule: writei_loop.induct)
  case (1 i src off n tot s)
  show ?case by (subst writei_loop.simps) (rule frame_rules | rule "1.prems" "1.IH" | assumption | simp)+
qed

lemma writei_wk [frame_rules]: "wk T (tk s) \<Longrightarrow> okP (\<lambda>(r, t). wk T (tk t)) (writei i src off n s)"
  unfolding writei_def Let_def by (rule frame_rules | assumption | simp)+

lemma ialloc_wk [frame_rules]: "wk T (tk s) \<Longrightarrow> okP (\<lambda>(r, t). wk T (tk t)) (ialloc d ty s)"
proof -
  have "wk T (tk s) \<Longrightarrow> okP (\<lambda>(r, t). wk T (tk t)) (ialloc_scan d ty ns s)" for ns
  proof (induction ns arbitrary: s)
    case (Cons n ns)
    show ?case unfolding ialloc_scan.simps by (rule Cons.IH frame_rules | rule Cons.prems | assumption | simp)+
  qed simp
  then show "wk T (tk s) \<Longrightarrow> ?thesis" by (simp add: ialloc_def)
qed

lemma nameiparent_wk [frame_rules]: "wk T (tk s) \<Longrightarrow> okP (\<lambda>(r, n, t). wk T (tk t)) (nameiparent pth name s)"
  unfolding nameiparent_def namex_def by (rule okP_bnd2[where Q = "\<lambda>a t. wk T (tk t)"] frame_rules | assumption | simp)+

lemma dirlink_scan_wk [frame_rules]: "wk T (tk s) \<Longrightarrow> okP (\<lambda>(r, t). wk T (tk t)) (dirlink_scan i offs e s)"
proof (induction offs arbitrary: e s)
  case (Cons off offs)
  show ?case unfolding dirlink_scan.simps by (rule Cons.IH frame_rules | rule Cons.prems | assumption | simp)+
qed simp

lemma dirlink_wk [frame_rules]: "wk T (tk s) \<Longrightarrow> okP (\<lambda>(r, t). wk T (tk t)) (dirlink i name n s)"
  unfolding dirlink_def by (rule frame_rules | assumption | simp)+

section \<open>Console and messages\<close>

lemma tk_cons [simp]: "tk (consputc c s) = tk s" "tk (cons_next s) = tk s" "tk (lk_next s) = tk s" "tk (s\<lparr>cons_r := r\<rparr>) = tk s"
  by (simp_all add: tk_def consputc_def uartputc_sync_def cons_next_def lk_next_def)

lemma uartwrite_wk: "wk T (tk s) \<Longrightarrow> wk T (tk (uartwrite cs s))"
proof (induction cs arbitrary: s)
  case (Cons c cs)
  have e: "tk (u\<lparr>uart_tx := x, tx_busy := y\<rparr>) = tk u" "tk (u\<lparr>tx_busy := y\<rparr>) = tk u" "tk (u\<lparr>uart_tx := x\<rparr>) = tk u" for x y and u :: "'a kcons_scheme" by (simp_all add: tk_def)
  show ?case unfolding uartwrite.simps Let_def uart_done_def by (rule Cons.IH) (simp add: e Cons.prems wk_wakeup)
qed simp

lemma putc_wk [frame_rules]: "wk T (tk s) \<Longrightarrow> okP (\<lambda>t. wk T (tk t)) (putc_both c s)" "wk T (tk s) \<Longrightarrow> okP (\<lambda>t. wk T (tk t)) (putc_log c s)"
proof -
  have "tk (lk_put c s) = tk s" "tk (s\<lparr>lk_r := r\<rparr>) = tk s" for c r and s :: "'a kcons_scheme" by (simp_all add: tk_def lk_put_def)
  then have "wk T (tk s) \<Longrightarrow> okP (\<lambda>t. wk T (tk t)) (putc_log c s)" for s :: "'a kcons_scheme" by (simp add: putc_log_def Let_def undef_if_def)
  then show "wk T (tk s) \<Longrightarrow> okP (\<lambda>t. wk T (tk t)) (putc_both c s)" "wk T (tk s) \<Longrightarrow> okP (\<lambda>t. wk T (tk t)) (putc_log c s)" by (simp_all add: putc_both_def)
qed

lemma puts_wk [frame_rules]: "wk T (tk s) \<Longrightarrow> okP (\<lambda>t. wk T (tk t)) (for_res cs putc_both s)"
  by (rule okP_for) (rule frame_rules | assumption)+

lemma print_conv_wk: "wk T (tk s) \<Longrightarrow> okP (\<lambda>r. \<forall>k ap t. r = Some (k, ap, t) \<longrightarrow> wk T (tk t)) (print_conv fmt ap s)"
proof -
  assume w: "wk T (tk s)"
  have n: "okP (\<lambda>r. True) m" for m :: "'b res" by (simp add: okP_def)
  have i: "okP (\<lambda>t. wk T (tk t)) (printint x b g s)" "okP (\<lambda>t. wk T (tk t)) (printptr x s)" for x b g
    unfolding printint_def printptr_def by (rule okP_bnd[OF n] puts_wk w)+
  have num: "okP (\<lambda>r. \<forall>k ap t. r = Some (k, ap, t) \<longrightarrow> wk T (tk t)) (bnd (va_num ap) (\<lambda>(x, ap). bnd (printint (ext x) b g s) (\<lambda>s. Ok (Some (k, ap, s)))))" for ext b g k
    by (rule okP_bnd[OF n]) (auto intro!: okP_bnd[OF i(1)])
  have c: "okP (\<lambda>r. \<forall>k ap t. r = Some (k, ap, t) \<longrightarrow> wk T (tk t)) (bnd (va_num ap) (\<lambda>(x, ap). bnd (va_num ap) (\<lambda>(y, ap).
      bnd (putc_log (ucast y) (consputc (ucast x) s)) (\<lambda>s. Ok (Some (1, ap, s))))))"
    by (rule okP_bnd[OF n], rule okP_pair, rule okP_bnd[OF n], rule okP_pair, rule okP_bnd[OF putc_wk(2)]) (simp_all add: w)
  have e: "okP (\<lambda>r. \<forall>k ap t. r = Some (k, ap, t) \<longrightarrow> wk T (tk t)) (bnd (putc_both a s) (\<lambda>s. bnd (putc_both b s) (\<lambda>s. Ok (Some (1, ap, s)))))" for a b
    by (rule okP_bnd[OF putc_wk(1)[OF w]], rule okP_bnd[OF putc_wk(1)], assumption) simp
  show ?thesis unfolding print_conv_def Let_def
    by (rule c e num okP_if okP_bnd[OF i(2)] okP_bnd[OF puts_wk[OF w]] okP_bnd[OF putc_wk(1)[OF w]] okP_bnd[OF n] okP_pair | simp add: w putc_wk okP_bnd[OF putc_wk(1)])+
qed

lemma print_loop_wk: "wk T (tk s) \<Longrightarrow> okP (\<lambda>t. wk T (tk t)) (print_loop fmt ap s)"
proof (induction fmt ap s rule: print_loop.induct)
  case (1 fmt ap s)
  show ?case
  proof (cases fmt)
    case (Cons cx rest)
    have "okP (\<lambda>t. wk T (tk t)) (bnd (print_conv rest ap s) (\<lambda>r. case r of None \<Rightarrow> Ok s | Some (k, ap, s) \<Rightarrow> print_loop (drop k rest) ap s))"
      if "cx \<noteq> 0" "\<not> cx \<noteq> ch CHR ''%''"
      by (rule okP_bnd[OF print_conv_wk[OF "1.prems"]]) (auto simp: "1.prems" split: option.splits intro!: "1.IH"(2)[OF Cons that])
    moreover have "okP (\<lambda>t. wk T (tk t)) (bnd (putc_both cx s) (\<lambda>s. print_loop rest ap s))" if "cx \<noteq> 0" "cx \<noteq> ch CHR ''%''"
      by (rule okP_bnd[OF putc_wk(1)[OF "1.prems"]]) (rule "1.IH"(1)[OF Cons that])
    ultimately show ?thesis using Cons "1.prems" by (subst print_loop.simps) simp
  qed (use "1.prems" in \<open>simp add: print_loop.simps\<close>)
qed

lemma printf_wk [frame_rules]: "wk T (tk s) \<Longrightarrow> okP (\<lambda>t. wk T (tk t)) (printf fmt ap s)"
  unfolding printf_def by (rule print_loop_wk)

lemma readsyslog_wk [frame_rules]: "wk T (tk s) \<Longrightarrow> okP (\<lambda>(r, t). wk T (tk t)) (readsyslog d m s)"
proof -
  have "wk T (tk s) \<Longrightarrow> okP (\<lambda>(r, t). wk T (tk t)) (readsyslog_loop d m n s)" for n
  proof (induction d m n s rule: readsyslog_loop.induct)
    case (1 d m n s)
    show ?case by (subst readsyslog_loop.simps) (rule frame_rules | rule "1.prems" "1.IH" | assumption | simp)+
  qed
  then show "wk T (tk s) \<Longrightarrow> ?thesis" by (simp add: readsyslog_def)
qed

lemma consolewrite_wk [frame_rules]: "wk T (tk s) \<Longrightarrow> okP (\<lambda>(r, t). wk T (tk t)) (consolewrite src n s)"
proof -
  have "wk T (tk s) \<Longrightarrow> okP (\<lambda>(r, t). wk T (tk t)) (consolewrite_loop src n i s)" for i
  proof (induction src n i s rule: consolewrite_loop.induct)
    case (1 src n i s)
    show ?case by (subst consolewrite_loop.simps) (rule frame_rules uartwrite_wk | rule "1.prems" "1.IH" | assumption | simp)+
  qed
  then show "wk T (tk s) \<Longrightarrow> ?thesis" by (simp add: consolewrite_def)
qed

end
