(* ===== verification/Kernel_Example.thy ===== *)
theory Kernel_Example
  imports File Vm_Example Log_Props
begin

text \<open>
  A concrete kernel state for the witnesses: the memory, allocator and page table of the example address space, whose
  page 0 is mapped readable and writable, one process running in it, and empty tables.
\<close>

lemma kmem_inv_ext:
  fixes s :: "'a kmem_scheme" and t :: "'b kmem_scheme"
  assumes "ram s = ram t" "kend s = kend t" "freelist s = freelist t" "ref_count s = ref_count t"
  shows "kmem_inv s bs = kmem_inv t bs" "kwf s = kwf t" "free_of s = free_of t" "aspace s root = aspace t root" "readable s root D va = readable t root D va"
proof -
  show i: "kmem_inv s bs = kmem_inv t bs" for bs using assms by (simp add: kmem_inv_def kend_ok_def lo_page_def)
  show k: "kwf s = kwf t" "free_of s = free_of t" by (simp_all add: kwf_def free_of_def i)
  show "aspace s root = aspace t root" using assms k by (simp add: aspace_def lo_page_def)
  show "readable s root D va = readable t root D va" using assms by (simp add: readable_def)
qed

definition ex_flags :: u64 where "ex_flags = 0x17"

lemma ex_flag_bits: "bit (ex_pte ex_flags) 0" "bit (ex_pte ex_flags) 2" "bit (ex_pte ex_flags) 4"
  using ex_pte_bit[of ex_flags] by (simp_all add: ex_flags_def bit_numeral_rec)

lemma ex_flag_PA: "PTE2PA (ex_pte ex_flags) = ex_frame"
  by (rule ex_pte_PA) (simp add: ex_flags_def)

definition ex_kfile :: "memory \<Rightarrow> kfile" where
  "ex_kfile m = \<lparr>ram = m, kend = kend ex_kmem, use_lock = True, freelist = freelist ex_kmem, ref_count = ref_count (ex_vm ex_flags 1),
     reverse_map = reverse_map ex_kmem,
     procs = [proc0\<lparr>pstate := RUNNING, pid := 1, pagetable := ex_root, psz := 4096\<rparr>], cur = 0, nextpid = 2, initproc = 0, ticks = 0, trampoline = 0,
     bufs = replicate NBUF ex_buf0, bnext = (\<lambda>_. 0), bprev = (\<lambda>_. 0), disk = ex_disk0, dwrites = [],
     log_start = 2, log_outstanding = 0, log_committing = False, log_dev = 1, lh_n = 0, lh_block = replicate 30 0,
     sb = \<lparr>sb_magic = 0x10203040, sb_size = 50, sb_nblocks = 9, sb_ninodes = 16, sb_nlog = 30, sb_logstart = 2, sb_inodestart = 32,
       sb_bmapstart = 40\<rparr>, itable = [],
     cons_buf = replicate 128 0, cons_r = 0, cons_w = 0, cons_e = 0, tx_busy = False, uart_tx = [], lk_buf = replicate 4096 0, lk_r = 0, lk_w = 0,
     ftable = replicate NFILE \<lparr>ftype = FD_NONE, fref = 0, freadable = False, fwritable = False, fpipe = 0, fip = None, fmemf = None, foff = 0,
       fmajor = 0\<rparr>,
     mftable = replicate NMEMFILE \<lparr>mf_ref = 0, mf_size = 0, mf_data = 0, mf_deleted = False\<rparr>,
     devsw = replicate NDEV None, total_allocs = 0\<rparr>"

lemma ex_kfile_sel [simp]:
  "ram (ex_kfile m) = m" "kend (ex_kfile m) = kend ex_kmem" "freelist (ex_kfile m) = freelist ex_kmem"
  "ref_count (ex_kfile m) = ref_count (ex_vm ex_flags 1)" "cur (ex_kfile m) = 0" "pagetable (myproc (ex_kfile m)) = ex_root"
  "is_killed 0 (ex_kfile m) \<longleftrightarrow> killed proc0 \<noteq> 0"
  by (simp_all add: ex_kfile_def myproc_def is_killed_def)

lemma ex_kfile_vm:
  assumes o: "same_outside S (ram (ex_vm ex_flags 1)) m" and S: "S \<inter> ({530000..<530010} \<union> {530100, 530101, 530102}) = {}"
  shows "aspace (ex_kfile m) ex_root" "free_of (ex_kfile m) = {530000..<530010}" "tabs m ex_root = {530100, 530101, 530102}"
    "unat v < 4096 \<Longrightarrow> pte_val m ex_root v = ex_pte ex_flags" "unat v < 4096 \<Longrightarrow> readable (ex_kfile m) ex_root D v \<longleftrightarrow> 530103 \<notin> D"
proof -
  let ?v = "ex_vm ex_flags 1"
  have d: "S \<inter> (free_of ?v \<union> tabs (ram ?v) ex_root) = {}" using S by (simp add: ex_vm_free ex_tabs)
  note A = aspace_set_ram[OF ex_aspace o d]
  have f: "ram (ex_kfile m) = ram (?v\<lparr>ram := m\<rparr>)" "kend (ex_kfile m) = kend (?v\<lparr>ram := m\<rparr>)"
    "freelist (ex_kfile m) = freelist (?v\<lparr>ram := m\<rparr>)" "ref_count (ex_kfile m) = ref_count (?v\<lparr>ram := m\<rparr>)"
    by (simp_all add: ex_vm_def)
  note E = kmem_inv_ext[OF f]
  show "aspace (ex_kfile m) ex_root" using A(1) E(4) by blast
  show "free_of (ex_kfile m) = {530000..<530010}" using A(4) E(3) by (simp add: ex_vm_free)
  show "tabs m ex_root = {530100, 530101, 530102}" using A(3) by (simp add: ex_tabs)
  show p: "pte_val m ex_root v = ex_pte ex_flags" if "unat v < 4096"
  proof -
    have "vpn v = vpn 0" using user_byte_run(2)[of 0 "unat v"] that by simp
    then show ?thesis using A(2) by (simp add: ex_pte_val)
  qed
  have "unat ex_frame = 530103 * 4096" by (simp add: ex_frame_def unat_paddr)
  then have "ex_frame \<noteq> 0" "unat ex_frame + 4096 < 2 ^ 64" by (auto simp: unat_eq_0[symmetric] simp del: unat_eq_0)
  then show "readable (ex_kfile m) ex_root D v \<longleftrightarrow> 530103 \<notin> D" if "unat v < 4096"
    using p[OF that] that by (simp add: readable_def Let_def ex_flag_bits ex_flag_PA word_less_nat_alt MAXVA_def)
qed

end
