(* ===== verification/Ring.thy ===== *)
theory Ring
  imports Prelude
begin

text \<open>
  The contract of a ring buffer of \<open>N\<close> cells with a read position and a fill count, and what follows from it: the buffer
  is a bounded queue. The pipe, the console input line and the kernel message log all keep their bytes this way, the
  first two with 32 bit counters that wrap around.
\<close>

definition ring_seq :: "nat \<Rightarrow> (nat \<Rightarrow> 'c) \<Rightarrow> nat \<Rightarrow> nat \<Rightarrow> 'c list" where
  "ring_seq N f p n = map (\<lambda>k. f ((p + k) mod N)) [0..<n]"

lemma ring_seq_length [simp]: "length (ring_seq N f p n) = n"
  by (simp add: ring_seq_def)

lemma ring_seq_cong:
  assumes "p mod N = q mod N" "\<And>k. k < N \<Longrightarrow> f k = g k" "0 < N"
  shows "ring_seq N f p n = ring_seq N g q n"
proof -
  have "(p + k) mod N = (q + k) mod N" for k using assms(1) by (metis mod_add_left_eq)
  then show ?thesis using assms(2,3) by (simp add: ring_seq_def)
qed

lemma ring_seq_Suc: "ring_seq N f p (Suc n) = f (p mod N) # ring_seq N f (Suc p) n"
proof (rule nth_equalityI)
  fix i assume "i < length (ring_seq N f p (Suc n))"
  then show "ring_seq N f p (Suc n) ! i = (f (p mod N) # ring_seq N f (Suc p) n) ! i"
    by (cases i) (simp_all add: ring_seq_def del: upt_Suc)
qed simp

lemma ring_seq_snoc: "ring_seq N f p (Suc n) = ring_seq N f p n @ [f ((p + n) mod N)]"
  by (simp add: ring_seq_def)

lemma ring_other:
  assumes "k < n" "n < (N :: nat)"
  shows "(p + k) mod N \<noteq> (p + n) mod N"
proof
  assume "(p + k) mod N = (p + n) mod N"
  then have "N dvd (n - k)" using assms by (metis add_le_cancel_left less_imp_le add_diff_cancel_left mod_eq_dvd_iff_nat)
  then show False using assms by (auto dest: dvd_imp_le)
qed

lemma ring_seq_upd: "n < N \<Longrightarrow> ring_seq N (f((p + n) mod N := c)) p n = ring_seq N f p n"
  using ring_other[of _ n N p] by (auto simp: ring_seq_def)

locale ring =
  fixes N :: nat and ok :: "'s \<Rightarrow> bool" and pos :: "'s \<Rightarrow> nat" and fill :: "'s \<Rightarrow> nat" and cell :: "'s \<Rightarrow> nat \<Rightarrow> 'c"
    and push :: "'c \<Rightarrow> 's \<Rightarrow> 's" and pop :: "'s \<Rightarrow> 's"
  assumes N_pos: "0 < N"
    and push_law: "ok s \<Longrightarrow> fill s < N \<Longrightarrow> ok (push c s) \<and> fill (push c s) = Suc (fill s) \<and> pos (push c s) mod N = pos s mod N \<and>
      (\<forall>k < N. cell (push c s) k = (if k = (pos s + fill s) mod N then c else cell s k))"
    and pop_law: "ok s \<Longrightarrow> 0 < fill s \<Longrightarrow> ok (pop s) \<and> Suc (fill (pop s)) = fill s \<and> pos (pop s) mod N = Suc (pos s) mod N \<and>
      (\<forall>k < N. cell (pop s) k = cell s k)"
begin

abbreviation contents :: "'s \<Rightarrow> 'c list" where
  "contents s \<equiv> ring_seq N (cell s) (pos s) (fill s)"

lemma push_contents:
  assumes "ok s" "fill s < N"
  shows "ok (push c s)" "fill (push c s) = Suc (fill s)" "contents (push c s) = contents s @ [c]"
proof -
  let ?f = "(cell s)((pos s + fill s) mod N := c)"
  have P: "fill (push c s) = Suc (fill s)" "pos (push c s) mod N = pos s mod N" "\<And>k. k < N \<Longrightarrow> cell (push c s) k = ?f k"
    using push_law[OF assms] by auto
  show "ok (push c s)" "fill (push c s) = Suc (fill s)" using push_law[OF assms] by auto
  have "contents (push c s) = ring_seq N ?f (pos s) (Suc (fill s))"
    unfolding P(1) by (rule ring_seq_cong[OF P(2,3) N_pos])
  then show "contents (push c s) = contents s @ [c]" using ring_seq_upd[OF assms(2)] by (simp add: ring_seq_snoc)
qed

lemma pop_contents:
  assumes "ok s" "0 < fill s"
  shows "ok (pop s)" "Suc (fill (pop s)) = fill s" "contents s = cell s (pos s mod N) # contents (pop s)"
proof -
  have P: "Suc (fill (pop s)) = fill s" "pos (pop s) mod N = Suc (pos s) mod N" "\<And>k. k < N \<Longrightarrow> cell (pop s) k = cell s k"
    using pop_law[OF assms] by auto
  show "ok (pop s)" "Suc (fill (pop s)) = fill s" using pop_law[OF assms] by auto
  have "contents (pop s) = ring_seq N (cell s) (Suc (pos s)) (fill (pop s))" by (rule ring_seq_cong[OF P(2,3) N_pos])
  then show "contents s = cell s (pos s mod N) # contents (pop s)" using P(1) ring_seq_Suc by metis
qed

text \<open>A writer that makes room by dropping the oldest element keeps the last \<open>N\<close> elements.\<close>

lemma keep_contents:
  fixes c :: 'c
  assumes "ok s" "fill s \<le> N"
  defines "t \<equiv> push c (if fill s = N then pop s else s)"
  shows "ok t" "fill t \<le> N" "contents t = drop (Suc (fill s) - N) (contents s @ [c])"
proof -
  have "ok t \<and> fill t \<le> N \<and> contents t = drop (Suc (fill s) - N) (contents s @ [c])"
  proof (cases "fill s = N")
    case True
    have p: "0 < fill s" using True N_pos by simp
    note Q = pop_contents[OF assms(1) p]
    have "fill (pop s) < N" using Q(2) True by simp
    note R = push_contents[OF Q(1) this, of c]
    have "drop (Suc (fill s) - N) (contents s @ [c]) = contents (pop s) @ [c]" unfolding Q(3) using True by simp
    moreover have "t = push c (pop s)" using True by (simp add: t_def)
    ultimately show ?thesis using R Q(2) True by simp
  next
    case False
    then have "fill s < N" using assms(2) by simp
    then show ?thesis using push_contents[OF assms(1), of c] False by (simp add: t_def)
  qed
  then show "ok t" "fill t \<le> N" "contents t = drop (Suc (fill s) - N) (contents s @ [c])" by simp_all
qed

end

section \<open>Counters of 32 bits\<close>

lemma unat_mod_dvd: "N dvd 2 ^ 32 \<Longrightarrow> unat (a + b :: u32) mod N = (unat a + unat b) mod N"
  by (simp add: unat_word_ariths mod_mod_cancel)

lemma counter_next: "N dvd 2 ^ 32 \<Longrightarrow> unat (a + 1 :: u32) mod N = Suc (unat a) mod N"
  using unat_mod_dvd[of N a 1] by simp

lemma counter_at: "N dvd 2 ^ 32 \<Longrightarrow> unat (w :: u32) mod N = (unat r + unat (w - r)) mod N"
  using unat_mod_dvd[of N r "w - r"] by simp

lemma counter_grow: "unat (w - r :: u32) < n \<Longrightarrow> n < 2 ^ 32 \<Longrightarrow> unat (w + 1 - r) = Suc (unat (w - r))"
proof -
  assume "unat (w - r) < n" "n < 2 ^ 32"
  then have "unat ((w - r) + 1) = unat (w - r) + unat (1 :: u32)" by (intro unat_add_no_wrap) simp
  then show ?thesis by (simp add: algebra_simps)
qed

lemma counter_shrink: "0 < unat (w - r :: u32) \<Longrightarrow> Suc (unat (w - (r + 1))) = unat (w - r)"
proof -
  assume a: "0 < unat (w - r)"
  then have "w - r \<noteq> 0" by (metis less_irrefl unat_0)
  then have "unat (w - r - 1) = unat (w - r) - 1" by (rule unat_minus_one)
  moreover have "w - (r + 1) = w - r - 1" by (simp add: algebra_simps)
  ultimately show ?thesis using a by (metis Suc_diff_1)
qed

end
