(* ===== verification/Console_Props.thy ===== *)
theory Console_Props
  imports Console Ring Log_Props
begin

text \<open>
  The console input line and the kernel message log are ring buffers: \<open>consoleintr\<close> is a line editor over a queue of
  finished lines, \<open>consoleread\<close> takes a line from it, and \<open>putc_log\<close> keeps the last 4096 characters.
\<close>

section \<open>The input buffer\<close>

definition cons_ok :: "'z kcons_scheme \<Rightarrow> bool" where
  "cons_ok s \<longleftrightarrow> length (cons_buf s) = INPUT_BUF_SIZE"

lemma input_size: "INPUT_BUF_SIZE dvd 2 ^ 32" "INPUT_BUF_SIZE < 2 ^ 32" "0 < INPUT_BUF_SIZE"
  by (simp_all add: INPUT_BUF_SIZE_def)

interpretation cons_ring: ring INPUT_BUF_SIZE cons_ok "\<lambda>s. unat (cons_r s)" "\<lambda>s. unat (cons_e s - cons_r s)" "\<lambda>s k. cons_buf s ! k"
  cons_put cons_next
proof
  show "0 < INPUT_BUF_SIZE" by (rule input_size)
next
  fix s :: "'z kcons_scheme" and c
  assume "cons_ok s" "unat (cons_e s - cons_r s) < INPUT_BUF_SIZE"
  then show "cons_ok (cons_put c s) \<and> unat (cons_e (cons_put c s) - cons_r (cons_put c s)) = Suc (unat (cons_e s - cons_r s)) \<and>
     unat (cons_r (cons_put c s)) mod INPUT_BUF_SIZE = unat (cons_r s) mod INPUT_BUF_SIZE \<and>
     (\<forall>k<INPUT_BUF_SIZE. cons_buf (cons_put c s) ! k =
        (if k = (unat (cons_r s) + unat (cons_e s - cons_r s)) mod INPUT_BUF_SIZE then c else cons_buf s ! k))"
    using counter_grow[OF _ input_size(2)] counter_at[OF input_size(1), of "cons_e s" "cons_r s"]
    by (simp add: cons_put_def cons_ok_def)
next
  fix s :: "'z kcons_scheme"
  assume "cons_ok s" "0 < unat (cons_e s - cons_r s)"
  then show "cons_ok (cons_next s) \<and> Suc (unat (cons_e (cons_next s) - cons_r (cons_next s))) = unat (cons_e s - cons_r s) \<and>
     unat (cons_r (cons_next s)) mod INPUT_BUF_SIZE = Suc (unat (cons_r s)) mod INPUT_BUF_SIZE \<and>
     (\<forall>k<INPUT_BUF_SIZE. cons_buf (cons_next s) ! k = cons_buf s ! k)"
    using counter_shrink[of "cons_e s" "cons_r s"] counter_next[OF input_size(1)] by (simp add: cons_next_def cons_ok_def)
qed

text \<open>The bytes that \<open>consoleread\<close> may take and the line being edited.\<close>

definition cons_ready :: "'z kcons_scheme \<Rightarrow> u8 list" where
  "cons_ready s = ring_seq INPUT_BUF_SIZE (\<lambda>k. cons_buf s ! k) (unat (cons_r s)) (unat (cons_w s - cons_r s))"

definition cons_line :: "'z kcons_scheme \<Rightarrow> u8 list" where
  "cons_line s = ring_seq INPUT_BUF_SIZE (\<lambda>k. cons_buf s ! k) (unat (cons_w s)) (unat (cons_e s - cons_w s))"

definition cons_inv :: "'z kcons_scheme \<Rightarrow> bool" where
  "cons_inv s \<longleftrightarrow> cons_ok s \<and> unat (cons_w s - cons_r s) + unat (cons_e s - cons_w s) = unat (cons_e s - cons_r s) \<and>
     unat (cons_e s - cons_r s) \<le> INPUT_BUF_SIZE \<and> 10 \<notin> set (cons_line s)"

text \<open>What the interrupt handler does to them, over lists.\<close>

definition edit_spec :: "u8 \<Rightarrow> u8 list \<times> u8 list \<Rightarrow> u8 list \<times> u8 list" where
  "edit_spec c = (\<lambda>(ready, line).
     if c = 21 then (ready, [])
     else if c = 8 \<or> c = 0x7f then (ready, butlast line)
     else if c = 0 \<or> length ready + length line \<ge> INPUT_BUF_SIZE then (ready, line)
     else
       let line = line @ [if c = 13 then 10 else c] in
       if c = 10 \<or> c = 13 \<or> c = 4 \<or> length ready + length line = INPUT_BUF_SIZE then (ready @ line, []) else (ready, line))"

lemma ring_seq_append: "ring_seq N f p (m + n) = ring_seq N f p m @ ring_seq N f (p + m) n"
  by (induction n) (simp_all add: ring_seq_snoc ring_seq_def[of _ _ _ 0] add.assoc)

lemma ring_seq_butlast: "butlast (ring_seq N f p n) = ring_seq N f p (n - 1)"
  by (cases n) (simp_all add: ring_seq_snoc ring_seq_def[of _ _ _ 0])

lemma cons_all:
  assumes "unat (cons_w s - cons_r s) + unat (cons_e s - cons_w s) = unat (cons_e s - cons_r s)"
  shows "cons_ready s @ cons_line s = cons_ring.contents s"
proof -
  have "ring_seq INPUT_BUF_SIZE (\<lambda>k. cons_buf s ! k) (unat (cons_r s) + unat (cons_w s - cons_r s)) (unat (cons_e s - cons_w s)) = cons_line s"
    unfolding cons_line_def
    by (rule ring_seq_cong) (use counter_at[OF input_size(1), of "cons_w s" "cons_r s"] input_size in simp_all)
  then have "cons_ready s @ cons_line s =
    ring_seq INPUT_BUF_SIZE (\<lambda>k. cons_buf s ! k) (unat (cons_r s)) (unat (cons_w s - cons_r s) + unat (cons_e s - cons_w s))"
    unfolding ring_seq_append by (simp only: cons_ready_def)
  also have "unat (cons_w s - cons_r s) + unat (cons_e s - cons_w s) = unat (cons_e s - cons_r s)" by (rule assms)
  finally show ?thesis .
qed

lemma cons_lengths [simp]: "length (cons_ready s) = unat (cons_w s - cons_r s)" "length (cons_line s) = unat (cons_e s - cons_w s)"
  by (simp_all add: cons_ready_def cons_line_def)

lemma consputc_cons [simp]:
  "cons_buf (consputc c s) = cons_buf s" "cons_r (consputc c s) = cons_r s" "cons_w (consputc c s) = cons_w s" "cons_e (consputc c s) = cons_e s"
  by (simp_all add: consputc_def uartputc_sync_def)

lemma consputc_frame [simp]:
  "cons_ready (consputc c s) = cons_ready s" "cons_line (consputc c s) = cons_line s" "cons_ok (consputc c s) = cons_ok s"
  "cons_inv (consputc c s) = cons_inv s"
  by (simp_all add: cons_ready_def cons_line_def cons_ok_def cons_inv_def)

lemma erase_one:
  assumes inv: "cons_inv s" and ne: "cons_e s \<noteq> cons_w s"
  defines "t \<equiv> s\<lparr>cons_e := cons_e s - 1\<rparr>"
  shows "cons_inv t" "cons_ready t = cons_ready s" "cons_line t = butlast (cons_line s)"
    "cons_buf s ! (unat (cons_e s - 1) mod INPUT_BUF_SIZE) \<noteq> 10" "length (cons_line t) < length (cons_line s)"
proof -
  have nz: "cons_e s - cons_w s \<noteq> 0" using ne by simp
  then have p: "0 < unat (cons_e s - cons_w s)" by (simp add: unat_gt_0)
  have a: "unat (cons_e s - 1 - cons_w s) = unat (cons_e s - cons_w s) - 1"
    using unat_minus_one[OF nz] by (simp add: algebra_simps)
  have q: "unat (cons_w s - cons_r s) + unat (cons_e s - cons_w s) = unat (cons_e s - cons_r s)" using inv by (simp add: cons_inv_def)
  then have "cons_e s - cons_r s \<noteq> 0" using p by (metis add_is_0 less_irrefl unat_0)
  then have b: "unat (cons_e s - 1 - cons_r s) = unat (cons_e s - cons_r s) - 1"
    using unat_minus_one[of "cons_e s - cons_r s"] by (simp add: algebra_simps)
  show r: "cons_ready t = cons_ready s" by (simp add: t_def cons_ready_def)
  show l: "cons_line t = butlast (cons_line s)" by (simp add: t_def cons_line_def ring_seq_butlast a)
  show "length (cons_line t) < length (cons_line s)" using p by (simp add: t_def a)
  show "cons_inv t" using inv a b p q l in_set_butlastD[of 10 "cons_line s"] by (auto simp: cons_inv_def t_def cons_ok_def)
  have "cons_line s ! unat (cons_e s - 1 - cons_w s) \<in> set (cons_line s)" using p a by (intro nth_mem) simp
  moreover have "cons_line s ! unat (cons_e s - 1 - cons_w s) = cons_buf s ! (unat (cons_e s - 1) mod INPUT_BUF_SIZE)"
    using p a counter_at[OF input_size(1), of "cons_e s - 1" "cons_w s"] by (simp add: cons_line_def ring_seq_def)
  ultimately show "cons_buf s ! (unat (cons_e s - 1) mod INPUT_BUF_SIZE) \<noteq> 10" using inv by (auto simp: cons_inv_def)
qed

lemma kill_line_ok: "cons_inv s \<Longrightarrow> cons_inv (kill_line s) \<and> cons_ready (kill_line s) = cons_ready s \<and> cons_line (kill_line s) = []"
proof (induction s rule: kill_line.induct)
  case (1 s)
  show ?case
  proof (cases "cons_e s = cons_w s")
    case True
    then show ?thesis using 1(2) by (simp add: kill_line.simps[of s] cons_line_def ring_seq_def)
  next
    case False
    note E = erase_one[OF 1(2) False]
    let ?t = "consputc BACKSPACE (s\<lparr>cons_e := cons_e s - 1\<rparr>)"
    have "kill_line s = kill_line ?t" using False E(4) by (subst kill_line.simps) simp
    moreover have "cons_inv (kill_line ?t) \<and> cons_ready (kill_line ?t) = cons_ready ?t \<and> cons_line (kill_line ?t) = []"
      by (rule 1(1)) (use False E(1,4) in simp_all)
    ultimately show ?thesis using E(2) by simp
  qed
qed

lemma put_line:
  assumes inv: "cons_inv s" and lt: "unat (cons_e s - cons_r s) < INPUT_BUF_SIZE"
  shows "cons_ready (cons_put c s) = cons_ready s" "cons_line (cons_put c s) = cons_line s @ [c]"
    "c \<noteq> 10 \<Longrightarrow> cons_inv (cons_put c s)" "cons_inv (cons_put c s\<lparr>cons_w := cons_e (cons_put c s)\<rparr>)"
    "cons_ready (cons_put c s\<lparr>cons_w := cons_e (cons_put c s)\<rparr>) = cons_ready s @ cons_line s @ [c]"
    "cons_line (cons_put c s\<lparr>cons_w := cons_e (cons_put c s)\<rparr>) = []"
proof -
  let ?t = "cons_put c s"
  have q: "unat (cons_w s - cons_r s) + unat (cons_e s - cons_w s) = unat (cons_e s - cons_r s)" and ok: "cons_ok s"
    using inv by (simp_all add: cons_inv_def)
  have f: "cons_r ?t = cons_r s" "cons_w ?t = cons_w s" "cons_e ?t = cons_e s + 1" by (simp_all add: cons_put_def)
  note P = cons_ring.push_contents[OF ok lt, of c]
  have g: "unat (cons_e s + 1 - cons_r s) = Suc (unat (cons_e s - cons_r s))" "unat (cons_e s + 1 - cons_w s) = Suc (unat (cons_e s - cons_w s))"
    using counter_grow[OF _ input_size(2)] lt q by simp_all
  show "cons_inv (?t\<lparr>cons_w := cons_e ?t\<rparr>)" using P(1) g(1) f lt by (simp add: cons_inv_def cons_ok_def cons_line_def ring_seq_def)
  show "cons_line (?t\<lparr>cons_w := cons_e ?t\<rparr>) = []" by (simp add: cons_line_def ring_seq_def)
  have "cons_ready (?t\<lparr>cons_w := cons_e ?t\<rparr>) = cons_ring.contents ?t" by (simp add: cons_ready_def)
  then show "cons_ready (?t\<lparr>cons_w := cons_e ?t\<rparr>) = cons_ready s @ cons_line s @ [c]" using P(3) cons_all[OF q] by simp
  have "cons_ready ?t @ cons_line ?t = cons_ready s @ cons_line s @ [c]"
    using cons_all[of ?t] cons_all[OF q] P(3) q g f by simp
  then show l: "cons_ready ?t = cons_ready s" "cons_line ?t = cons_line s @ [c]" using f by (simp_all add: append_eq_append_conv)
  show "cons_inv ?t" if "c \<noteq> 10" using P(1) g f lt q l(2) inv that by (simp add: cons_inv_def)
qed

lemma wakeup_cons [simp]:
  "cons_ready (wakeup c s) = cons_ready s" "cons_line (wakeup c s) = cons_line s" "cons_inv (wakeup c s) = cons_inv s"
  by (simp_all add: wakeup_def cons_ready_def cons_line_def cons_inv_def cons_ok_def)

text \<open>C10: The console interrupt handler is a line editor with bounded memory: on every byte other than Control-P it keeps
  the invariant of the input buffer, and its effect on the bytes ready to be read and on the line being edited is that of
  \<open>edit_spec\<close>: Control-U empties the line, backspace and delete drop its last byte, a newline, Control-D or a full buffer
  appends the line to the ready bytes, and a byte that does not fit is dropped. This holds across wrap-around of the 32 bit
  counters.\<close>

theorem consoleintr_edits_line:
  assumes inv: "cons_inv s" and c: "c \<noteq> 16"
  shows "\<exists>s'. consoleintr c s = Ok s' \<and> cons_inv s' \<and> (cons_ready s', cons_line s') = edit_spec c (cons_ready s, cons_line s)"
proof -
  have q: "unat (cons_w s - cons_r s) + unat (cons_e s - cons_w s) = unat (cons_e s - cons_r s)" using inv by (simp add: cons_inv_def)
  consider (kill) "c = 21" | (del) "c \<noteq> 21" "c = 8 \<or> c = 0x7f"
    | (drop) "c \<noteq> 21" "\<not> (c = 8 \<or> c = 0x7f)" "c = 0 \<or> unat (cons_e s - cons_r s) \<ge> INPUT_BUF_SIZE"
    | (put) "c \<noteq> 21" "\<not> (c = 8 \<or> c = 0x7f)" "c \<noteq> 0" "unat (cons_e s - cons_r s) < INPUT_BUF_SIZE" by force
  then show ?thesis
  proof cases
    case kill
    then show ?thesis using kill_line_ok[OF inv] by (simp add: consoleintr_def edit_spec_def)
  next
    case del
    have "cons_line s = []" if "cons_e s = cons_w s" using that by (simp add: cons_line_def ring_seq_def)
    then show ?thesis using del c inv erase_one[OF inv] by (auto simp: consoleintr_def edit_spec_def)
  next
    case drop
    then show ?thesis using c inv q by (auto simp: consoleintr_def edit_spec_def)
  next
    case put
    let ?c = "if c = 13 then 10 else c" and ?s = "consputc (ucast (if c = 13 then 10 else c)) s"
    have s: "cons_inv ?s" "unat (cons_e ?s - cons_r ?s) < INPUT_BUF_SIZE" "cons_r ?s = cons_r s" "cons_e ?s = cons_e s" using inv put by simp_all
    note P = put_line[OF s(1,2), of ?c]
    have e: "unat (cons_e (cons_put ?c ?s) - cons_r (cons_put ?c ?s)) = Suc (unat (cons_e s - cons_r s))"
      using counter_grow[OF put(4) input_size(2)] by (simp add: cons_put_def)
    have n: "?c = 10 \<or> ?c = 4 \<longleftrightarrow> c = 10 \<or> c = 13 \<or> c = 4" by simp
    define full where "full \<longleftrightarrow> c = 10 \<or> c = 13 \<or> c = 4 \<or> Suc (unat (cons_e s - cons_r s)) = INPUT_BUF_SIZE"
    let ?t = "if full then wakeup ChanCons (cons_put ?c ?s\<lparr>cons_w := cons_e (cons_put ?c ?s)\<rparr>) else cons_put ?c ?s"
    have "consoleintr c s = Ok ?t" using put c e n unfolding consoleintr_def full_def Let_def by auto
    moreover have "edit_spec c (cons_ready s, cons_line s) = (if full then (cons_ready s @ cons_line s @ [?c], []) else (cons_ready s, cons_line s @ [?c]))"
      using put q by (auto simp: edit_spec_def Let_def full_def)
    moreover have "cons_inv ?t" "(cons_ready ?t, cons_line ?t) = (if full then (cons_ready s @ cons_line s @ [?c], []) else (cons_ready s, cons_line s @ [?c]))"
      using P by (auto simp: full_def)
    ultimately show ?thesis by metis
  qed
qed

text \<open>An empty input buffer whose counters are about to wrap around, and an empty message log.\<close>

definition ex_cons :: kcons where
  "ex_cons = ex_boot (replicate NBUF ex_buf0) ex_disk0 0 (replicate 30 0)
     \<lparr>sb = \<lparr>sb_magic = 0x10203040, sb_size = 50, sb_nblocks = 9, sb_ninodes = 16, sb_nlog = 30, sb_logstart = 2, sb_inodestart = 32,
        sb_bmapstart = 40\<rparr>, itable = [], cons_buf = replicate 128 0, cons_r = - 2, cons_w = - 2, cons_e = - 2, tx_busy = False, uart_tx = [],
        lk_buf = replicate 4096 0, lk_r = 0, lk_w = 0\<rparr>"

lemma kcons_more: "klog.more (s :: kcons) = \<lparr>sb = q, itable = t, cons_buf = b, cons_r = r, cons_w = w, cons_e = e, tx_busy = tb, uart_tx = u,
    lk_buf = lb, lk_r = lr, lk_w = lw\<rparr> \<Longrightarrow>
  cons_buf s = b \<and> cons_r s = r \<and> cons_w s = w \<and> cons_e s = e \<and> uart_tx s = u \<and> lk_buf s = lb \<and> lk_r s = lr \<and> lk_w s = lw"
  by (cases s) simp

lemma ex_cons_fields:
  "cons_buf ex_cons = replicate 128 0" "cons_r ex_cons = - 2" "cons_w ex_cons = - 2" "cons_e ex_cons = - 2" "uart_tx ex_cons = []"
  "lk_buf ex_cons = replicate 4096 0" "lk_r ex_cons = 0" "lk_w ex_cons = 0"
proof -
  have "klog.more ex_cons = \<lparr>sb = \<lparr>sb_magic = 0x10203040, sb_size = 50, sb_nblocks = 9, sb_ninodes = 16, sb_nlog = 30, sb_logstart = 2,
      sb_inodestart = 32, sb_bmapstart = 40\<rparr>, itable = [], cons_buf = replicate 128 0, cons_r = - 2, cons_w = - 2, cons_e = - 2,
      tx_busy = False, uart_tx = [], lk_buf = replicate 4096 0, lk_r = 0, lk_w = 0\<rparr>"
    unfolding ex_cons_def by (rule ex_boot_fields) (simp add: ex_buf0_def)
  from kcons_more[OF this] show
    "cons_buf ex_cons = replicate 128 0" "cons_r ex_cons = - 2" "cons_w ex_cons = - 2" "cons_e ex_cons = - 2" "uart_tx ex_cons = []"
    "lk_buf ex_cons = replicate 4096 0" "lk_r ex_cons = 0" "lk_w ex_cons = 0" by simp_all
qed

lemma ex_cons_inv: "cons_inv ex_cons" "cons_ready ex_cons = []" "cons_line ex_cons = []"
  by (simp_all add: cons_inv_def cons_ok_def cons_ready_def cons_line_def ring_seq_def ex_cons_fields INPUT_BUF_SIZE_def)

theorem consoleintr_edits_line_witness: "\<exists>s'. consoleintr 97 ex_cons = Ok s' \<and> cons_ready s' = [] \<and> cons_line s' = [97]"
  using consoleintr_edits_line[of ex_cons 97] ex_cons_inv by (auto simp: edit_spec_def INPUT_BUF_SIZE_def)

section \<open>Reading a line\<close>

lemma next_ready:
  assumes inv: "cons_inv s" and ne: "cons_r s \<noteq> cons_w s"
  shows "cons_inv (cons_next s)" "cons_ready s = cons_buf s ! (unat (cons_r s) mod INPUT_BUF_SIZE) # cons_ready (cons_next s)"
    "cons_line (cons_next s) = cons_line s"
proof -
  have q: "unat (cons_w s - cons_r s) + unat (cons_e s - cons_w s) = unat (cons_e s - cons_r s)" and ok: "cons_ok s"
    using inv by (simp_all add: cons_inv_def)
  have p: "0 < unat (cons_w s - cons_r s)" using ne by (simp add: unat_gt_0)
  note S = counter_shrink[OF p]
  have e: "Suc (unat (cons_e s - (cons_r s + 1))) = unat (cons_e s - cons_r s)" by (rule counter_shrink) (use p q in simp)
  show l: "cons_line (cons_next s) = cons_line s" by (simp add: cons_line_def cons_next_def)
  show "cons_inv (cons_next s)" using inv S e q l by (simp add: cons_inv_def cons_next_def cons_ok_def)
  have "cons_ready (cons_next s) = ring_seq INPUT_BUF_SIZE (\<lambda>k. cons_buf s ! k) (Suc (unat (cons_r s))) (unat (cons_w s - (cons_r s + 1)))"
    unfolding cons_ready_def cons_next_def by simp (rule ring_seq_cong; use counter_next[OF input_size(1)] input_size(3) in simp)
  then show "cons_ready s = cons_buf s ! (unat (cons_r s) mod INPUT_BUF_SIZE) # cons_ready (cons_next s)"
    unfolding cons_ready_def[of s] S[symmetric] ring_seq_Suc by simp
qed

lemma consoleread_loop_line:
  assumes "cons_inv s" "cons_ready s = l @ 10 # rest" "10 \<notin> set l" "4 \<notin> set l" "length l < n" "n \<le> target" "target \<le> length xs"
  shows "\<exists>s'. consoleread_loop (Local xs) target n s =
      Ok (Ret (int (target - n + length l + 1)), Local (blit (target - n) (l @ [10]) xs), s') \<and>
    cons_inv s' \<and> cons_ready s' = rest \<and> cons_line s' = cons_line s"
  using assms
proof (induction l arbitrary: n s xs)
  case Nil
  have ne: "cons_r s \<noteq> cons_w s" using Nil(2) by (auto simp: cons_ready_def ring_seq_def)
  note R = next_ready[OF Nil(1) ne]
  have c: "cons_buf s ! (unat (cons_r s) mod INPUT_BUF_SIZE) = 10" "cons_ready (cons_next s) = rest" using R(2) Nil(2) by simp_all
  have "target - (n - 1) = target - n + 1" using Nil(5,6) by auto
  then show ?case using Nil(5-7) ne R(1,3) c by (simp add: consoleread_loop.simps[of _ _ n] Let_def either_copyout_def undef_if_def)
next
  case (Cons b l)
  have ne: "cons_r s \<noteq> cons_w s" using Cons(3) by (auto simp: cons_ready_def ring_seq_def)
  note R = next_ready[OF Cons(2) ne]
  have c: "cons_buf s ! (unat (cons_r s) mod INPUT_BUF_SIZE) = b" "cons_ready (cons_next s) = l @ 10 # rest" using R(2) Cons(3) by simp_all
  have b: "b \<noteq> 10" "b \<noteq> 4" using Cons(4,5) by auto
  let ?xs = "blit (target - n) [b] xs"
  have fit: "\<not> length xs < Suc (target - n)" using Cons(6-8) by simp
  have lx: "length ?xs = length xs" using Cons(6-8) by simp
  have t: "target - (n - 1) = target - n + 1" using Cons(6,7) by auto
  have "\<exists>s'. consoleread_loop (Local ?xs) target (n - 1) (cons_next s) =
      Ok (Ret (int (target - (n - 1) + length l + 1)), Local (blit (target - (n - 1)) (l @ [10]) ?xs), s') \<and>
    cons_inv s' \<and> cons_ready s' = rest \<and> cons_line s' = cons_line (cons_next s)"
    by (rule Cons.IH) (use R(1) c(2) Cons(4-8) lx in auto)
  moreover have "blit (target - (n - 1)) (l @ [10]) ?xs = blit (target - n) ((b # l) @ [10]) xs"
    using t Cons(6-8) by (simp add: blit_def add.commute)
  moreover have "consoleread_loop (Local xs) target n s = consoleread_loop (Local ?xs) target (n - 1) (cons_next s)"
    using Cons(6-8) fit ne c(1) b by (simp add: consoleread_loop.simps[of _ _ n] Let_def either_copyout_def undef_if_def)
  ultimately show ?case using R(3) t by auto
qed

text \<open>C29: A read of the console returns the first finished line, newline included, when the reader's buffer is long enough,
  takes exactly these bytes from the ready ones and leaves the line being edited alone.\<close>

theorem consoleread_takes_line:
  assumes "cons_inv s" "cons_ready s = l @ 10 # rest" "10 \<notin> set l" "4 \<notin> set l" "length l < n" "n \<le> length xs"
  shows "\<exists>s'. consoleread (Local xs) (int n) s = Ok (Ret (int (length l) + 1), Local (l @ 10 # drop (length l + 1) xs), s') \<and>
    cons_inv s' \<and> cons_ready s' = rest \<and> cons_line s' = cons_line s"
  using consoleread_loop_line[OF assms(1-5) order.refl assms(6)] by (auto simp: consoleread_def blit_def)

definition ex_line :: kcons where
  "ex_line = ex_cons\<lparr>cons_buf := (replicate 128 0)[126 := 97, 127 := 98, 0 := 10], cons_w := 1, cons_e := 1\<rparr>"

lemma ex_line_ready: "cons_inv ex_line" "cons_ready ex_line = [97, 98, 10]"
proof -
  have f: "cons_buf ex_line = (replicate 128 0)[126 := 97, 127 := 98, 0 := 10]" "cons_r ex_line = - 2" "cons_w ex_line = 1" "cons_e ex_line = 1"
    by (simp_all add: ex_line_def ex_cons_fields)
  have "(- 2 :: u32) = 4294967294" by simp
  then have u: "unat (- 2 :: u32) = 4294967294" "[0..<3] = [0, 1, 2]" by (simp, simp add: upt_rec)
  show "cons_inv ex_line" by (simp add: cons_inv_def cons_ok_def cons_line_def ring_seq_def f INPUT_BUF_SIZE_def)
  have "cons_ready ex_line = map (\<lambda>k. cons_buf ex_line ! ((4294967294 + k) mod 128)) [0, 1, 2]"
    by (simp add: cons_ready_def ring_seq_def f(2,3) u INPUT_BUF_SIZE_def)
  then show "cons_ready ex_line = [97, 98, 10]" by (simp add: f(1))
qed

theorem consoleread_takes_line_witness:
  "\<exists>s'. consoleread (Local [0, 0, 0, 0, 0]) 4 ex_line = Ok (Ret 3, Local [97, 98, 10, 0, 0], s') \<and> cons_ready s' = []"
  using consoleread_takes_line[of ex_line "[97, 98]" "[]" 4 "[0, 0, 0, 0, 0]"] ex_line_ready by auto

section \<open>The message log\<close>

definition lk_ok :: "'z kcons_scheme \<Rightarrow> bool" where
  "lk_ok s \<longleftrightarrow> length (lk_buf s) = LOG_BUF_SIZE \<and> 0 \<le> lk_r s \<and> lk_r s \<le> lk_w s"

interpretation lk_ring: ring LOG_BUF_SIZE lk_ok "\<lambda>s. nat (lk_r s)" "\<lambda>s. nat (lk_w s - lk_r s)" "\<lambda>s k. lk_buf s ! k" lk_put lk_next
proof
  show "0 < LOG_BUF_SIZE" by (simp add: kconst)
next
  fix s :: "'z kcons_scheme" and c
  assume h: "lk_ok s" "nat (lk_w s - lk_r s) < LOG_BUF_SIZE"
  have i: "nat (lk_w s mod int LOG_BUF_SIZE) = (nat (lk_r s) + nat (lk_w s - lk_r s)) mod LOG_BUF_SIZE"
    using h(1) by (simp add: lk_ok_def nat_mod_distrib nat_add_distrib[symmetric])
  show "lk_ok (lk_put c s) \<and> nat (lk_w (lk_put c s) - lk_r (lk_put c s)) = Suc (nat (lk_w s - lk_r s)) \<and>
     nat (lk_r (lk_put c s)) mod LOG_BUF_SIZE = nat (lk_r s) mod LOG_BUF_SIZE \<and>
     (\<forall>k<LOG_BUF_SIZE. lk_buf (lk_put c s) ! k = (if k = (nat (lk_r s) + nat (lk_w s - lk_r s)) mod LOG_BUF_SIZE then c else lk_buf s ! k))"
    using h(1) i by (auto simp: lk_put_def lk_ok_def)
next
  fix s :: "'z kcons_scheme"
  assume "lk_ok s" "0 < nat (lk_w s - lk_r s)"
  then show "lk_ok (lk_next s) \<and> Suc (nat (lk_w (lk_next s) - lk_r (lk_next s))) = nat (lk_w s - lk_r s) \<and>
     nat (lk_r (lk_next s)) mod LOG_BUF_SIZE = Suc (nat (lk_r s)) mod LOG_BUF_SIZE \<and> (\<forall>k<LOG_BUF_SIZE. lk_buf (lk_next s) ! k = lk_buf s ! k)"
    by (auto simp: lk_next_def lk_ok_def nat_add_distrib)
qed

text \<open>The characters \<open>readsyslog\<close> has not yet returned.\<close>

definition lk_chars :: "'z kcons_scheme \<Rightarrow> u8 list" where
  "lk_chars s = ring_seq LOG_BUF_SIZE (\<lambda>k. lk_buf s ! k) (nat (lk_r s)) (nat (lk_w s - lk_r s))"

definition lk_inv :: "'z kcons_scheme \<Rightarrow> bool" where
  "lk_inv s \<longleftrightarrow> lk_ok s \<and> lk_w s - lk_r s \<le> int LOG_BUF_SIZE"

lemma putc_log_keep:
  assumes inv: "lk_inv s" and w: "lk_w s + 1 < 2 ^ 31"
  shows "\<exists>s'. putc_log c s = Ok s' \<and> lk_inv s' \<and> lk_w s' = lk_w s + 1 \<and> lk_chars s' = drop (length (lk_chars s) + 1 - LOG_BUF_SIZE) (lk_chars s @ [c])"
proof -
  let ?full = "nat (lk_w s - lk_r s) = LOG_BUF_SIZE" and ?t = "lk_put c (if nat (lk_w s - lk_r s) = LOG_BUF_SIZE then lk_next s else s)"
  have ok: "lk_ok s" "nat (lk_w s - lk_r s) \<le> LOG_BUF_SIZE" "0 \<le> lk_r s" "lk_r s \<le> lk_w s" using inv by (auto simp: lk_inv_def lk_ok_def)
  have f: "?full \<longleftrightarrow> lk_w s + 1 - lk_r s > int LOG_BUF_SIZE" using ok(2-4) by auto
  have "putc_log c s = Ok ?t"
  proof (cases ?full)
    case True
    then have "lk_w s + 1 - int LOG_BUF_SIZE = lk_r s + 1" using ok(3,4) by auto
    then show ?thesis using True f w ok(3,4) by (simp add: putc_log_def undef_if_def lk_put_def lk_next_def Let_def)
  next
    case False
    then show ?thesis using f w ok(3,4) by (auto simp: putc_log_def undef_if_def lk_put_def Let_def)
  qed
  moreover note K = lk_ring.keep_contents[OF ok(1,2), of c]
  moreover have "lk_inv ?t" using K(1,2) by (auto simp: lk_inv_def)
  ultimately show ?thesis by (auto simp: lk_chars_def lk_put_def lk_next_def)
qed

text \<open>Writing characters to the message log never fails while the write count stays below its limit, and keeps the
  last 4096 of the characters not yet read, in order.\<close>

lemma putc_log_keeps_last:
  assumes "lk_inv s" "lk_w s + int (length cs) < 2 ^ 31"
  shows "\<exists>s'. for_res cs putc_log s = Ok s' \<and> lk_inv s' \<and>
    lk_chars s' = drop (length (lk_chars s) + length cs - LOG_BUF_SIZE) (lk_chars s @ cs)"
  using assms
proof (induction cs arbitrary: s)
  case Nil
  have "length (lk_chars s) \<le> LOG_BUF_SIZE" using Nil(1) by (auto simp: lk_chars_def lk_inv_def)
  then show ?case using Nil(1) by simp
next
  case (Cons c cs)
  obtain s1 where p: "putc_log c s = Ok s1" "lk_inv s1" "lk_w s1 = lk_w s + 1" and
    k: "lk_chars s1 = drop (length (lk_chars s) + 1 - LOG_BUF_SIZE) (lk_chars s @ [c])"
    using putc_log_keep[OF Cons(2), of c] Cons(3) by auto
  obtain s2 where q: "for_res cs putc_log s1 = Ok s2" "lk_inv s2" "lk_chars s2 = drop (length (lk_chars s1) + length cs - LOG_BUF_SIZE) (lk_chars s1 @ cs)"
    using Cons.IH[OF p(2)] p(3) Cons(3) by auto
  have le: "length (lk_chars s) \<le> LOG_BUF_SIZE" using Cons(2) by (auto simp: lk_chars_def lk_inv_def)
  have "drop (length (lk_chars s1) + length cs - LOG_BUF_SIZE) (lk_chars s1 @ cs) = drop (length (lk_chars s) + Suc (length cs) - LOG_BUF_SIZE) (lk_chars s @ c # cs)"
  proof (cases "length (lk_chars s) = LOG_BUF_SIZE")
    case True
    then have "length (lk_chars s) + 1 - LOG_BUF_SIZE = Suc 0" by simp
    then have "lk_chars s1 = tl (lk_chars s @ [c])" using k by (simp only: drop_Suc drop_0)
    then show ?thesis using True by (cases "lk_chars s") (auto simp: kconst)
  next
    case False
    then have "length (lk_chars s) + 1 - LOG_BUF_SIZE = 0" using le by simp
    then show ?thesis using k by simp
  qed
  then show ?case using p(1) q by simp
qed

section \<open>Printing numbers\<close>

text \<open>Reading digits back, by the character codes: \<open>'0'\<close> is 48 and \<open>'a'\<close> is 97. A numeral is an optional minus sign and at least one digit of
  the base, with no leading zero.\<close>

definition digit_val :: "u8 \<Rightarrow> nat" where
  "digit_val c = (if 48 \<le> c \<and> c \<le> 57 then unat c - 48 else unat c - 87)"

definition digits_val :: "nat \<Rightarrow> u8 list \<Rightarrow> nat" where
  "digits_val base cs = foldl (\<lambda>a c. a * base + digit_val c) 0 cs"

definition number_val :: "nat \<Rightarrow> u8 list \<Rightarrow> int" where
  "number_val base cs = (case cs of [] \<Rightarrow> 0 | c # cs' \<Rightarrow> if c = ch CHR ''-'' then - int (digits_val base cs') else int (digits_val base cs))"

definition digit_char :: "nat \<Rightarrow> u8 \<Rightarrow> bool" where
  "digit_char base c \<longleftrightarrow> (48 \<le> c \<and> c \<le> 57 \<or> 97 \<le> c \<and> c \<le> 102) \<and> digit_val c < base"

definition is_numeral :: "nat \<Rightarrow> u8 list \<Rightarrow> bool" where
  "is_numeral base cs \<longleftrightarrow> (let ds = (if cs \<noteq> [] \<and> hd cs = ch CHR ''-'' then tl cs else cs) in
     ds \<noteq> [] \<and> (\<forall>c \<in> set ds. digit_char base c) \<and> (hd ds = 48 \<longrightarrow> length ds = 1))"

lemma digit_table: "list_all (\<lambda>d. digit_val (digits ! d) = d \<and> digits ! d \<noteq> ch CHR ''-'' \<and>
    (48 \<le> digits ! d \<and> digits ! d \<le> 57 \<or> 97 \<le> digits ! d \<and> digits ! d \<le> 102)) [0..<16]"
  by code_simp

lemma digit_val_nth: "d < 16 \<Longrightarrow> digit_val (digits ! d) = d" "d < 16 \<Longrightarrow> digits ! d \<noteq> ch CHR ''-''"
  "d < 16 \<Longrightarrow> d < base \<Longrightarrow> digit_char base (digits ! d)"
  using bspec[OF digit_table[unfolded list_all_iff], of d] by (simp_all add: digit_char_def)

lemma digit_loop_val:
  assumes "1 < base" "base \<le> 16"
  shows "digits_val base (rev (digit_loop base x)) = x" "x < base ^ Suc k \<Longrightarrow> length (digit_loop base x) \<le> Suc k"
    "last (digit_loop base x) \<noteq> ch CHR ''-''" "digit_loop base x \<noteq> []"
    "\<forall>c \<in> set (digit_loop base x). digit_char base c" "last (digit_loop base x) = 48 \<Longrightarrow> length (digit_loop base x) = 1"
proof -
  have m: "x mod base < 16" for x using assms by (meson less_le_trans mod_less_divisor zero_less_one less_trans)
  have d: "x div base \<noteq> 0 \<Longrightarrow> x div base < x" for x using assms(1) by (cases "x = 0") auto
  note S = digit_loop.simps[of base]
  show ne: "digit_loop base x \<noteq> []" for x by (subst S) simp
  show "digits_val base (rev (digit_loop base x)) = x"
  proof (induction x rule: less_induct)
    case (less x)
    show ?case
    proof (cases "x div base = 0")
      case True
      then have "x mod base = x" by (metis add_0 div_mult_mod_eq mult_0)
      then show ?thesis using True digit_val_nth(1)[OF m[of x]] by (subst S) (simp add: digits_val_def)
    next
      case False
      then show ?thesis using less d[OF False] digit_val_nth(1)[OF m[of x]] by (subst S) (simp add: digits_val_def)
    qed
  qed
  show "x < base ^ Suc k \<Longrightarrow> length (digit_loop base x) \<le> Suc k"
  proof (induction k arbitrary: x)
    case 0
    then show ?case by (subst S) simp
  next
    case (Suc k)
    have "x div base < base ^ Suc k" using Suc(2) assms(1) by (simp add: div_less_iff_less_mult mult.commute)
    then show ?case using Suc(1) by (subst S) auto
  qed
  show "last (digit_loop base x) \<noteq> ch CHR ''-''"
  proof (induction x rule: less_induct)
    case (less x)
    then show ?case using digit_val_nth(2)[OF m[of x]] ne by (subst S) auto
  qed
  show "\<forall>c \<in> set (digit_loop base x). digit_char base c"
  proof (induction x rule: less_induct)
    case (less x)
    then show ?case using digit_val_nth(3)[OF m[of x], of base] assms(1) by (subst S) auto
  qed
  have "last (digit_loop base x) \<noteq> 48" if "x \<noteq> 0" for x
    using that
  proof (induction x rule: less_induct)
    case (less x)
    have "digits ! (x mod base) \<noteq> 48" if "x mod base \<noteq> 0" using digit_val_nth(1)[OF m[of x]] that by (auto simp: digit_val_def)
    moreover have "x div base = 0 \<Longrightarrow> x mod base \<noteq> 0" using less.prems div_mult_mod_eq[of x base] by auto
    ultimately show ?case using less d[of x] ne[of "x div base"] by (cases "x div base = 0") (simp_all add: S[of x])
  qed
  then show "last (digit_loop base x) = 48 \<Longrightarrow> length (digit_loop base x) = 1"
    by (cases "x = 0") (simp_all add: S[of 0])
qed

lemma sint_msb64: "sint (x :: u64) = uint x - (if sint x < 0 then 2 ^ 64 else 0)"
proof -
  have u: "uint x = sint x mod 2 ^ 64" using uint_sint[of x] by (simp add: take_bit_eq_mod)
  have r: "- (2 ^ 63) \<le> sint x" "sint x < 2 ^ 63" using sint_greater_eq[of x] sint_less[of x] by simp_all
  show ?thesis
  proof (cases "sint x < 0")
    case True
    then have "(sint x + 2 ^ 64) mod 2 ^ 64 = sint x + 2 ^ 64" using r by (intro mod_pos_pos_trivial) simp_all
    then show ?thesis using True u by simp
  next
    case False
    then show ?thesis using u r by simp
  qed
qed

lemma neg_abs:
  assumes "sint (x :: u64) < 0" "sint x \<noteq> - (2 ^ 63)"
  shows "int (unat (- x)) = - sint x" "unat (- x) < 2 ^ 63"
proof -
  have u: "uint x = sint x + 2 ^ 64" using assms(1) sint_msb64[of x] by simp
  have r: "- (2 ^ 63) \<le> sint x" using sint_greater_eq[of x] by simp
  have "uint (- x) = (- uint x) mod 2 ^ 64" by (simp add: uint_word_ariths)
  also have "\<dots> = (- sint x - 2 ^ 64) mod 2 ^ 64" unfolding u by simp
  also have "\<dots> = (- sint x) mod 2 ^ 64" by (rule minus_mod_self2)
  also have "\<dots> = - sint x" using assms r by (intro mod_pos_pos_trivial) auto
  finally have v: "uint (- x) = - sint x" .
  then show i: "int (unat (- x)) = - sint x" by simp
  have "int (unat (- x)) < int (2 ^ 63)" unfolding i using r assms(2) by simp
  then show "unat (- x) < 2 ^ 63" by (simp only: of_nat_less_iff)
qed

lemma int_chars_value:
  assumes "base = 10 \<or> base = 16" "sg \<longrightarrow> sint xx \<noteq> - (2 ^ 63)"
  shows "\<exists>cs. int_chars xx base sg = Ok cs \<and> length cs \<le> 20 \<and> is_numeral base cs \<and> number_val base cs = (if sg then sint xx else uint xx)"
proof -
  have b: "1 < base" "base \<le> 16" using assms(1) by auto
  have l: "length (digit_loop base x) \<le> 20 - (if x < 2 ^ 63 then 1 else 0)" if x: "x < 2 ^ 64" for x
  proof -
    have "x < base ^ Suc 19" using assms(1) x by auto
    moreover have "x < 2 ^ 63 \<Longrightarrow> x < base ^ Suc 18" using assms(1) by auto
    ultimately show ?thesis using digit_loop_val(2)[OF b, of x 19] digit_loop_val(2)[OF b, of x 18] by simp
  qed
  define D where "D x = rev (digit_loop base x)" for x
  have D: "D x \<noteq> []" "hd (D x) \<noteq> ch CHR ''-''" "digits_val base (D x) = x" for x
    using digit_loop_val[OF b, of x] by (simp_all add: D_def hd_rev)
  then have nv: "number_val base (D x) = int x" for x
    using D[of x] by (cases "D x") (simp_all add: number_val_def)
  have N: "is_numeral base (D x)" "is_numeral base (ch CHR ''-'' # D x)" for x
    using D(1,2)[of x] digit_loop_val(5,6)[OF b, of x] by (auto simp: is_numeral_def D_def hd_rev)
  show ?thesis
  proof (cases "sg \<and> sint xx < 0")
    case True
    note n = neg_abs[of xx]
    have "number_val base (ch CHR ''-'' # D (unat (- xx))) = sint xx" using n(1) True assms(2) D(3) by (simp add: number_val_def)
    moreover have "length (digit_loop base (unat (- xx))) \<le> 19" using l[of "unat (- xx)"] n(2) True assms(2) by simp
    ultimately show ?thesis using True assms(2) N(2)[of "unat (- xx)"] by (simp add: int_chars_def D_def undef_if_def)
  next
    case False
    have "unat xx < 2 ^ 64" using unat_bound64 by simp
    then have "length (digit_loop base (unat xx)) \<le> 20" using l[of "unat xx"] by linarith
    moreover have "int (unat xx) = (if sg then sint xx else uint xx)" using False sint_msb64[of xx] by auto
    ultimately show ?thesis using False nv[of "unat xx"] N(1)[of "unat xx"] by (auto simp: int_chars_def D_def undef_if_def)
  qed
qed

text \<open>C31: For the bases the kernel uses, the characters of \<open>printint\<close> fit its buffer of 20 bytes, are a numeral of the base and read back,
  by their character codes, as the number printed, for every 64 bit value except the least signed one, whose negation overflows.\<close>

theorem printint_reads_back:
  assumes "base = 10 \<or> base = 16" "sg \<longrightarrow> sint xx \<noteq> - (2 ^ 63)"
  shows "\<exists>cs. int_chars xx base sg = Ok cs \<and> length cs \<le> 20 \<and> is_numeral base cs \<and> number_val base cs = (if sg then sint xx else uint xx)"
  using int_chars_value[OF assms] .

theorem printint_reads_back_witness: "\<exists>cs. int_chars (- 42) 10 True = Ok cs \<and> is_numeral 10 cs \<and> number_val 10 cs = - 42"
  using printint_reads_back[of 10 True "- 42"] by auto

section \<open>A character argument\<close>

text \<open>\<open>%c\<close> takes two arguments: the first goes to the console, the second to the message log, so with the one argument
  that the conversion stands for the call is undefined.\<close>

lemma printf_c_takes_two:
  "print_conv [ch CHR ''c''] (Num x # ap) s =
     (case ap of Num y # ap' \<Rightarrow> bnd (putc_log (ucast y) (consputc (ucast x) s)) (\<lambda>s. Ok (Some (1, ap', s))) | _ \<Rightarrow> Undef)"
proof -
  have "ch CHR ''c'' = 99" "ch CHR ''d'' = 100" "ch CHR ''l'' = 108" "ch CHR ''u'' = 117" "ch CHR ''x'' = 120" "ch CHR ''p'' = 112"
    by (simp_all add: ch_def)
  then show ?thesis by (simp add: print_conv_def hd0_def va_num_def split: list.splits varg.splits)
qed

end
