(* ===== verification/Memfile_Props.thy ===== *)
theory Memfile_Props
  imports Sysfile Kernel_Example Console_Props
begin

text \<open>
  The in-memory files: what their descriptors, their page and the collector come to, on the success and on the error
  paths.
\<close>

lemma find_free_Some:
  "find_free P is xs = Some i \<Longrightarrow> i \<in> set is \<and> P (xs ! i)"
  by (induction "is") (auto split: if_splits)

lemma find_free_None: "find_free P is xs = None \<longleftrightarrow> (\<forall>i \<in> set is. \<not> P (xs ! i))"
  by (induction "is") auto

lemma find_free_upd:
  assumes "find_free P is xs = Some i" "P x" "\<forall>j \<in> set is. j < length xs"
  shows "find_free P is (xs[i := x]) = Some i"
  using assms by (induction "is") (auto split: if_splits, metis nth_list_update_neq)

section \<open>A creation that fails\<close>

lemma upd_file_frame [simp]: "procs (upd_file i f s) = procs s" "cur (upd_file i f s) = cur s" "mftable (upd_file i f s) = mftable s"
  "ftable (upd_file i f s) = (ftable s)[i := f (ftable s ! i)]" "myproc (upd_file i f s) = myproc s"
  by (simp_all add: upd_file_def myproc_def)

lemma upd_proc_frame [simp]: "ftable (upd_proc i f s) = ftable s" "mftable (upd_proc i f s) = mftable s" "cur (upd_proc i f s) = cur s"
  by (simp_all add: upd_proc_def)

text \<open>C36: When every slot for in-memory files is taken, \<open>sys_memcreate\<close> reports failure but leaves the new descriptor in
  the table of the process, referring to a file structure that is free again: closing the descriptor, or exiting, then
  panics the kernel, because the reference count of the file is 0.\<close>

theorem memcreate_failure_dangles:
  assumes "find_free (\<lambda>f. fref f = 0) [0..<NFILE] (ftable s) = Some f" "length (ftable s) = NFILE" "ftype (ftable s ! f) = FD_NONE"
    "find_free (\<lambda>x. x = None) [0..<NOFILE] (ofile (myproc s)) = Some d" "length (ofile (myproc s)) = NOFILE" "cur s < length (procs s)"
    "\<forall>i < NMEMFILE. mf_ref (mftable s ! i) \<noteq> 0 \<or> mf_deleted (mftable s ! i)"
  shows "\<exists>s'. sys_memcreate s = Ok (- 1, s') \<and> ofile (myproc s') ! d = Some f \<and> exit_file d s' = Panic ''fileclose'' \<and>
    (argint 0 s' = Ok (int d) \<longrightarrow> sys_close s' = Panic ''fileclose'')"
proof -
  have f: "f < NFILE" and d: "d < NOFILE" using find_free_Some[OF assms(1)] find_free_Some[OF assms(4)] by simp_all
  define s1 where "s1 = upd_file f (\<lambda>f. f\<lparr>fref := 1\<rparr>) s"
  define s2 where "s2 = upd_proc (cur s1) (\<lambda>p. p\<lparr>ofile := (ofile p)[d := Some f]\<rparr>) s1"
  define s3 where "s3 = upd_file f (\<lambda>f. f\<lparr>fref := 0, ftype := FD_NONE\<rparr>) (upd_file f (\<lambda>f. f\<lparr>fref := fref f - 1\<rparr>) s2)"
  have a: "filealloc s = (Some f, s1)" using assms(1) by (simp add: filealloc_def s1_def)
  have b: "fdalloc f s1 = (int d, s2)" using assms(4) by (simp add: fdalloc_def s1_def s2_def)
  have c: "memfile_create s2 = Ok (None, s2)"
  proof -
    have "find_free (\<lambda>mf. mf_ref mf = 0 \<and> \<not> mf_deleted mf) [0..<NMEMFILE] (mftable s2) = None"
      using assms(7) by (simp add: find_free_None s2_def s1_def)
    then show ?thesis by (simp add: memfile_create_def)
  qed
  have t: "ftable s2 ! f = (ftable s ! f)\<lparr>fref := 1\<rparr>" "length (ftable s2) = NFILE" using f assms(2) by (simp_all add: s2_def s1_def)
  have e: "fileclose f s2 = Ok s3" using t f assms(3) by (simp add: fileclose_def panic_if_def Let_def s3_def)
  have r: "sys_memcreate s = Ok (- 1, s3)" using a b c e by (simp add: sys_memcreate_def)
  have "myproc s3 = (myproc s)\<lparr>ofile := (ofile (myproc s))[d := Some f]\<rparr>"
    using assms(6) by (simp add: s3_def s2_def s1_def upd_proc_def myproc_def)
  then have o: "ofile (myproc s3) ! d = Some f" using d assms(5) by simp
  have z: "fref (ftable s3 ! f) = 0" using t(2) f by (simp add: s3_def)
  then have p: "fileclose f s3 = Panic ''fileclose''" "fileclose f (clear_fd d s3) = Panic ''fileclose''"
    by (simp_all add: fileclose_def panic_if_def clear_fd_def)
  have x: "exit_file d s3 = Panic ''fileclose''" using o p by (simp add: exit_file_def)
  have "sys_close s3 = Panic ''fileclose''" if "argint 0 s3 = Ok (int d)"
    using that o p d by (simp add: sys_close_def argfd_def)
  then show ?thesis using r o x by blast
qed

definition ex_hart :: hart where
  "ex_hart = \<lparr>sepc = 0, scause = 0, sstatus = 0, stval = 0, stvec = 0, satp = 0, tp = 0, stimecmp = 0\<rparr>"

definition ex_kernel :: kernel where
  "ex_kernel = kfile.extend (ex_kfile (ram (ex_vm ex_flags 1))) \<lparr>regs = ex_hart, window_tick = 0, idle_start_tick = 0, first = False,
     sym_uservec = 0, sym_usertrap = 0, sym_kernelvec = 0\<rparr>"

lemma ex_kernel_sel [simp]:
  "ftable ex_kernel = replicate NFILE \<lparr>ftype = FD_NONE, fref = 0, freadable = False, fwritable = False, fpipe = 0, fip = None, fmemf = None,
     foff = 0, fmajor = 0\<rparr>"
  "mftable ex_kernel = replicate NMEMFILE \<lparr>mf_ref = 0, mf_size = 0, mf_data = 0, mf_deleted = False\<rparr>"
  "procs ex_kernel = [proc0\<lparr>pstate := RUNNING, pid := 1, pagetable := ex_root, psz := 4096\<rparr>]" "cur ex_kernel = 0"
  by (simp_all add: ex_kernel_def kfile.defs ex_kfile_def)

theorem memcreate_failure_dangles_witness:
  "\<exists>s'. sys_memcreate (ex_kernel\<lparr>mftable := replicate NMEMFILE \<lparr>mf_ref = 1, mf_size = 0, mf_data = 0, mf_deleted = False\<rparr>\<rparr>) = Ok (- 1, s') \<and>
     exit_file 0 s' = Panic ''fileclose''"
proof -
  let ?s = "ex_kernel\<lparr>mftable := replicate NMEMFILE \<lparr>mf_ref = 1, mf_size = 0, mf_data = 0, mf_deleted = False\<rparr>\<rparr>"
  have "[0..<NFILE] = 0 # [1..<NFILE]" "[0..<NOFILE] = 0 # [1..<NOFILE]" by (simp_all add: upt_conv_Cons kconst)
  then show ?thesis
    using memcreate_failure_dangles[of ?s 0 0] by (auto simp: myproc_def proc0_def kconst)
qed

section \<open>The page of a file\<close>

lemma kalloc_contig_size: "(1 :: nat) < 2 ^ 20"
  by simp

lemma kalloc_full:
  assumes "kwf s" "free_of s \<noteq> {}"
  obtains a s' where "kalloc s = Ok (a, s')" "a \<noteq> 0" "kwf s'" "PA2IDX a \<in> free_of s" "free_of s' = free_of s - {PA2IDX a}"
    "ref_count s' = (ref_count s)(PA2IDX a := 1)" "s' = s\<lparr>ram := ram s', freelist := freelist s', ref_count := ref_count s'\<rparr>"
proof -
  obtain bs where inv: "kmem_inv s bs" using assms(1) by (auto simp: kwf_def)
  have "fits 1 bs" using assms(2) free_of_eq[OF inv] unfolding fits_def free_pages_def by fastforce
  then obtain q s' bs' where k: "kalloc_contig 1 s = Ok (paddr q, s')" "alloc_post s bs 1 q s' bs'"
    using kalloc_contig_some[OF inv, of 1] by (metis less_numeral_extra(1) kalloc_contig_size)
  have f: "s' = s\<lparr>ram := ram s', freelist := freelist s', ref_count := ref_count s'\<rparr>"
  proof -
    have e: "s' = s\<lparr>ram := ram s', freelist := freelist s', ref_count := on_run q 1 (\<lambda>_. 1) (ref_count s)\<rparr>"
      using k(2) by (simp add: alloc_post_def)
    then have "ref_count s' = on_run q 1 (\<lambda>_. 1) (ref_count s)" by (metis kmem.select_convs(5) kmem.update_convs(5) kmem.surjective)
    then show ?thesis using e by simp
  qed
  show thesis using kalloc_some[OF assms] k(1) f by (auto simp: kalloc_def intro: that)
qed

lemma kwf_memf [simp]: "kwf (upd_memf i f s) = kwf s" "free_of (upd_memf i f s) = free_of s" "kwf (upd_file i g s) = kwf s" "free_of (upd_file i g s) = free_of s"
  by (rule kmem_inv_ext; simp add: upd_memf_def upd_file_def)+

lemma upd_memf_sel [simp]: "mftable (upd_memf i f s) = (mftable s)[i := f (mftable s ! i)]" "ftable (upd_memf i f s) = ftable s"
  "ref_count (upd_memf i f s) = ref_count s" "ref_count (upd_file i g s) = ref_count s" "procs (upd_memf i f s) = procs s"
  "lk_w (upd_memf i f s) = lk_w s" "kend (upd_memf i f s) = kend s"
  by (simp_all add: upd_memf_def upd_file_def)

lemma memfile_create_ok:
  assumes "kwf s" "free_of s \<noteq> {}" "find_free (\<lambda>mf. mf_ref mf = 0 \<and> \<not> mf_deleted mf) [0..<NMEMFILE] (mftable s) = Some i"
    "length (mftable s) = NMEMFILE"
  obtains p s' where "memfile_create s = Ok (Some i, s')" "p \<noteq> 0" "PA2IDX p \<in> free_of s" "kwf s'" "free_of s' = free_of s - {PA2IDX p}"
    "mftable s' = (mftable s)[i := \<lparr>mf_ref = 1, mf_size = 0, mf_data = p, mf_deleted = False\<rparr>]" "ftable s' = ftable s"
    "ref_count s' = (ref_count s)(PA2IDX p := 1)"
proof -
  have i: "i < NMEMFILE" using find_free_Some[OF assms(3)] by simp
  let ?s1 = "upd_memf i (\<lambda>mf. mf\<lparr>mf_ref := 1, mf_size := 0, mf_deleted := False\<rparr>) s"
  obtain p s2 where k: "kalloc ?s1 = Ok (p, s2)" "p \<noteq> 0" "kwf s2" "PA2IDX p \<in> free_of s" "free_of s2 = free_of s - {PA2IDX p}"
    "ref_count s2 = (ref_count s)(PA2IDX p := 1)" and f: "s2 = ?s1\<lparr>ram := ram s2, freelist := freelist s2, ref_count := ref_count s2\<rparr>"
    using kalloc_full[of ?s1] assms(1,2) by (metis kwf_memf(1,2) upd_memf_sel(3))
  have t: "mftable s2 = mftable ?s1" "ftable s2 = ftable ?s1" by (subst f, simp)+
  let ?s3 = "upd_memf i (\<lambda>mf. mf\<lparr>mf_data := p\<rparr>) s2"
  have "memfile_create s = Ok (Some i, ?s3)" using assms(3) k by (simp add: memfile_create_def Let_def)
  moreover have "mftable ?s3 = (mftable s)[i := \<lparr>mf_ref = 1, mf_size = 0, mf_data = p, mf_deleted = False\<rparr>]"
    using t i assms(4) by (cases "mftable s ! i") simp
  ultimately show thesis using that[of ?s3 p] k t by simp
qed

text \<open>C37: An in-memory file that is closed without having been deleted gives its slot back but not its page: the next
  creation takes the same slot and overwrites the only pointer to the page, which stays allocated for ever.\<close>

theorem memfile_close_leaks_page:
  assumes "kwf s" "2 \<le> card (free_of s)" "find_free (\<lambda>mf. mf_ref mf = 0 \<and> \<not> mf_deleted mf) [0..<NMEMFILE] (mftable s) = Some i"
    "length (mftable s) = NMEMFILE" "f < length (ftable s)" "\<forall>j < NMEMFILE. PA2IDX (mf_data (mftable s ! j)) \<notin> free_of s"
  shows "\<exists>p s1 s2 s3. memfile_create s = Ok (Some i, s1) \<and> mf_data (mftable s1 ! i) = p \<and> p \<noteq> 0 \<and>
    fileclose f (upd_file f (\<lambda>x. x\<lparr>fref := 1, ftype := FD_MEM, fmemf := Some i\<rparr>) s1) = Ok s2 \<and> memfile_create s2 = Ok (Some i, s3) \<and>
    (\<forall>j < NMEMFILE. mf_data (mftable s3 ! j) \<noteq> p) \<and> ref_count s3 (PA2IDX p) = 1 \<and> PA2IDX p \<notin> free_of s3"
proof -
  have i: "i < NMEMFILE" using find_free_Some[OF assms(3)] by simp
  have "free_of s \<noteq> {}" using assms(2) by auto
  from memfile_create_ok[OF assms(1) this assms(3,4)] obtain p s1 where
    c1: "memfile_create s = Ok (Some i, s1)" "p \<noteq> 0" "PA2IDX p \<in> free_of s" "kwf s1" "free_of s1 = free_of s - {PA2IDX p}"
    "mftable s1 = (mftable s)[i := \<lparr>mf_ref = 1, mf_size = 0, mf_data = p, mf_deleted = False\<rparr>]" "ftable s1 = ftable s"
    "ref_count s1 = (ref_count s)(PA2IDX p := 1)" by metis
  let ?b = "upd_file f (\<lambda>x. x\<lparr>fref := 1, ftype := FD_MEM, fmemf := Some i\<rparr>) s1"
  define s2 where "s2 = upd_memf i (\<lambda>mf. mf\<lparr>mf_ref := mf_ref mf - 1\<rparr>)
    (upd_file f (\<lambda>f. f\<lparr>fref := 0, ftype := FD_NONE\<rparr>) (upd_file f (\<lambda>f. f\<lparr>fref := fref f - 1\<rparr>) ?b))"
  have cl: "fileclose f ?b = Ok s2" using assms(5) c1(7) by (simp add: fileclose_def panic_if_def Let_def s2_def)
  have m2: "mftable s2 = (mftable s)[i := \<lparr>mf_ref = 0, mf_size = 0, mf_data = p, mf_deleted = False\<rparr>]"
    using c1(6) i assms(4) by (simp add: s2_def)
  have w2: "kwf s2" "free_of s2 = free_of s - {PA2IDX p}" "ref_count s2 = (ref_count s)(PA2IDX p := 1)"
    using c1 by (simp_all add: s2_def)
  have "finite (free_of s)" using assms(2) by (metis card.infinite not_numeral_le_zero)
  then have "card (free_of s2) \<ge> 1" using w2(2) c1(3) assms(2) by (simp add: card_Diff_singleton)
  then have ne: "free_of s2 \<noteq> {}" by auto
  have ff: "find_free (\<lambda>mf. mf_ref mf = 0 \<and> \<not> mf_deleted mf) [0..<NMEMFILE] (mftable s2) = Some i"
    unfolding m2 by (rule find_free_upd[OF assms(3)]) (use assms(4) in simp_all)
  from memfile_create_ok[OF w2(1) ne ff] obtain q s3 where
    c3: "memfile_create s2 = Ok (Some i, s3)" "PA2IDX q \<in> free_of s2" "free_of s3 = free_of s2 - {PA2IDX q}"
    "mftable s3 = (mftable s2)[i := \<lparr>mf_ref = 1, mf_size = 0, mf_data = q, mf_deleted = False\<rparr>]"
    "ref_count s3 = (ref_count s2)(PA2IDX q := 1)" using m2 assms(4) by (metis length_list_update)
  have qp: "PA2IDX q \<noteq> PA2IDX p" using c3(2) w2(2) by simp
  have "mf_data (mftable s3 ! j) \<noteq> p" if "j < NMEMFILE" for j
  proof (cases "j = i")
    case True
    then show ?thesis using c3(4) m2 assms(4) i qp by auto
  next
    case False
    then show ?thesis using c3(4) m2 assms(6) that c1(3) by auto
  qed
  moreover have "mf_data (mftable s1 ! i) = p" using c1(6) i assms(4) by simp
  ultimately show ?thesis using c1(1,2) cl c3(1,3,5) w2 qp by auto
qed

lemma ex_kfile_wf: "kwf (ex_kfile (ram (ex_vm ex_flags 1)))" "free_of (ex_kfile (ram (ex_vm ex_flags 1))) = {530000..<530010}"
  using ex_kfile_vm(1,2)[of "{}" "ram (ex_vm ex_flags 1)"] by (simp_all add: aspace_def)

theorem memfile_close_leaks_page_witness:
  "\<exists>p s1 s2 s3. memfile_create (ex_kfile (ram (ex_vm ex_flags 1))) = Ok (Some 0, s1) \<and> mf_data (mftable s1 ! 0) = p \<and> p \<noteq> 0 \<and>
    fileclose 0 (upd_file 0 (\<lambda>x. x\<lparr>fref := 1, ftype := FD_MEM, fmemf := Some 0\<rparr>) s1) = Ok s2 \<and> memfile_create s2 = Ok (Some 0, s3) \<and>
    ref_count s3 (PA2IDX p) = 1"
proof -
  let ?s = "ex_kfile (ram (ex_vm ex_flags 1))"
  have u: "[0..<NMEMFILE] = 0 # [1..<NMEMFILE]" by (simp add: upt_conv_Cons NMEMFILE_def)
  have "mftable ?s = replicate NMEMFILE \<lparr>mf_ref = 0, mf_size = 0, mf_data = 0, mf_deleted = False\<rparr>" "length (ftable ?s) = NFILE"
    by (simp_all add: ex_kfile_def)
  then show ?thesis
    using memfile_close_leaks_page[of ?s 0 0] ex_kfile_wf u by (auto simp: kconst NMEMFILE_def PA2IDX_def)
qed

section \<open>Messages\<close>

text \<open>What printing may change.\<close>

definition printed :: "nat \<Rightarrow> 'z kcons_scheme \<Rightarrow> 'z kcons_scheme \<Rightarrow> bool" where
  "printed n s s' \<longleftrightarrow> (\<exists>u b r. s' = s\<lparr>uart_tx := u, lk_buf := b, lk_r := r, lk_w := lk_w s + int n\<rparr>)"

lemma printedI: "s' = s\<lparr>uart_tx := u, lk_buf := b, lk_r := r, lk_w := lk_w s + int n\<rparr> \<Longrightarrow> printed n s s'"
  unfolding printed_def by blast

lemma printed_w: "printed n s s' \<Longrightarrow> lk_w s' = lk_w s + int n"
  by (auto simp: printed_def)

lemma printed_refl [simp]: "printed 0 s s"
  by (rule printedI[where u = "uart_tx s" and b = "lk_buf s" and r = "lk_r s"]) simp

lemma printed_trans:
  assumes "printed m s t" "printed n t u"
  shows "printed (m + n) s u"
proof -
  obtain a b c where t: "t = s\<lparr>uart_tx := a, lk_buf := b, lk_r := c, lk_w := lk_w s + int m\<rparr>" using assms(1) by (auto simp: printed_def)
  obtain d e f where u: "u = t\<lparr>uart_tx := d, lk_buf := e, lk_r := f, lk_w := lk_w t + int n\<rparr>" using assms(2) by (auto simp: printed_def)
  show ?thesis by (rule printedI[where u = d and b = e and r = f]) (simp add: u t)
qed

lemma consputc_printed: "printed 0 s (consputc c s)"
  by (rule printedI[where u = "uart_tx (consputc c s)" and b = "lk_buf s" and r = "lk_r s"]) (simp add: consputc_def uartputc_sync_def)

lemma putc_log_printed:
  assumes "0 \<le> lk_w s" "lk_w s + 1 < 2 ^ 31"
  shows "\<exists>s'. putc_log c s = Ok s' \<and> printed 1 s s'"
proof -
  obtain t where t: "putc_log c s = Ok t" "t = s\<lparr>uart_tx := uart_tx s, lk_buf := lk_buf t, lk_r := lk_r t, lk_w := lk_w s + int 1\<rparr>"
    using assms by (simp add: putc_log_def undef_if_def lk_put_def Let_def)
  show ?thesis using t(1) printedI[OF t(2)] by blast
qed

lemma putc_both_printed:
  assumes "0 \<le> lk_w s" "lk_w s + 1 < 2 ^ 31"
  shows "\<exists>s'. putc_both c s = Ok s' \<and> printed 1 s s'"
proof -
  have "lk_w (consputc (ucast c) s) = lk_w s" using printed_w[OF consputc_printed[of s "ucast c"]] by simp
  then show ?thesis
    using putc_log_printed[of "consputc (ucast c) s" c] printed_trans[OF consputc_printed[of s "ucast c"]] assms
    by (auto simp: putc_both_def)
qed

lemma puts_printed:
  assumes "0 \<le> lk_w s" "lk_w s + int (length cs) < 2 ^ 31"
  shows "\<exists>s'. for_res cs putc_both s = Ok s' \<and> printed (length cs) s s'"
  using assms
proof (induction cs arbitrary: s)
  case (Cons c cs)
  obtain t where t: "putc_both c s = Ok t" "printed 1 s t" using putc_both_printed[of s c] Cons(2,3) by auto
  then obtain u where "for_res cs putc_both t = Ok u" "printed (length cs) t u"
    using Cons.IH[of t] Cons(2,3) printed_w[OF t(2)] by auto
  then show ?case using t printed_trans[OF t(2)] by auto
qed simp

lemma print_plain:
  assumes "\<forall>c \<in> set cs. c \<noteq> 0 \<and> c \<noteq> ch CHR ''%''"
  shows "print_loop (cs @ rest) ap s = bnd (for_res cs putc_both s) (print_loop rest ap)"
  using assms
proof (induction cs arbitrary: s)
  case (Cons c cs)
  have "print_loop ((c # cs) @ rest) ap s = bnd (putc_both c s) (\<lambda>s. print_loop (cs @ rest) ap s)"
    using Cons(2) by (subst print_loop.simps) simp
  then show ?case using Cons by (cases "putc_both c s") simp_all
qed simp

lemma sint_sext32: "i < 2 ^ 31 \<Longrightarrow> sint (sext32 (of_nat i)) = int i"
proof -
  assume i: "i < 2 ^ 31"
  then have t: "take_bit 64 i = i" by (intro take_bit_nat_eq_self) simp
  have a: "(ucast (of_nat i :: u64) :: u32) = of_nat i" by (simp add: unsigned_of_nat t)
  have "sint (of_nat i :: u32) = int i" using i by (simp add: signed_of_nat signed_take_bit_int_eq_self)
  then have "(scast (of_nat i :: u32) :: u64) = of_nat i" using i by (simp add: signed_of_nat signed_take_bit_int_eq_self)
  then show ?thesis using i unfolding sext32_def a by (simp add: signed_of_nat signed_take_bit_int_eq_self)
qed

text \<open>A message with one number.\<close>

lemma logprintf_number:
  assumes pre: "\<forall>c \<in> set (bytes_of pre). c \<noteq> 0 \<and> c \<noteq> ch CHR ''%''" and post: "\<forall>c \<in> set (bytes_of post). c \<noteq> 0 \<and> c \<noteq> ch CHR ''%''"
    and w: "0 \<le> lk_w s" "lk_w s + int (length pre + length post + 20) < 2 ^ 31" and i: "i < 2 ^ 31"
  shows "\<exists>s' n. logprintf (pre @ ''%d'' @ post) [Num (of_nat i)] s = Ok s' \<and> printed n s s' \<and> n \<le> length pre + length post + 20"
proof -
  have sx: "sint (sext32 (of_nat i)) = int i" by (rule sint_sext32[OF i])
  obtain cs where cs: "int_chars (sext32 (of_nat i)) 10 True = Ok cs" "length cs \<le> 20"
    using int_chars_value[of 10 True "sext32 (of_nat i)"] sx by auto
  let ?s0 = "consputc 1 s"
  have p0: "printed 0 s ?s0" "lk_w ?s0 = lk_w s" using consputc_printed[of s 1] printed_w by fastforce+
  obtain s1 where s1: "for_res (bytes_of pre) putc_both ?s0 = Ok s1" "printed (length pre) ?s0 s1"
    using puts_printed[of ?s0 "bytes_of pre"] p0(2) w by (auto simp: bytes_of_def)
  obtain s2 where s2: "for_res cs putc_both s1 = Ok s2" "printed (length cs) s1 s2"
    using puts_printed[of s1 cs] printed_w[OF s1(2)] p0(2) w cs(2) by auto
  obtain s3 where s3: "for_res (bytes_of post) putc_both s2 = Ok s3" "printed (length post) s2 s3"
    using puts_printed[of s2 "bytes_of post"] printed_w[OF s1(2)] printed_w[OF s2(2)] p0(2) w cs(2) by (auto simp: bytes_of_def)
  have b: "bytes_of (pre @ ''%d'' @ post) = bytes_of pre @ ch CHR ''%'' # ch CHR ''d'' # bytes_of post" by (simp add: bytes_of_def)
  have d: "print_conv (ch CHR ''d'' # bytes_of post) [Num (of_nat i)] s1 = Ok (Some (1, [], s2))"
    using cs(1) s2(1) by (simp add: print_conv_def hd0_def ch_def va_num_def printint_def Let_def)
  have nz: "ch CHR ''%'' \<noteq> 0" by (simp add: ch_def)
  have e: "print_loop (bytes_of post) [] s2 = Ok s3" using print_plain[OF post, of "[]" "[]" s2] s3(1) by (simp add: print_loop.simps[of "[]"])
  have "print_loop (ch CHR ''%'' # ch CHR ''d'' # bytes_of post) [Num (of_nat i)] s1 = Ok s3"
    by (subst print_loop.simps) (use nz d e in simp)
  then have "logprintf (pre @ ''%d'' @ post) [Num (of_nat i)] s = Ok (consputc 2 s3)"
    unfolding logprintf_def b print_plain[OF pre] using s1(1) by simp
  moreover have "printed (0 + length pre + length cs + length post + 0) s (consputc 2 s3)"
    by (rule printed_trans[OF printed_trans[OF printed_trans[OF printed_trans[OF p0(1) s1(2)] s2(2)] s3(2)] consputc_printed])
  ultimately show ?thesis using cs(2) by (intro exI[of _ "consputc 2 s3"] exI[of _ "length pre + length cs + length post"]) simp
qed

section \<open>The collector\<close>

lemma kfree_full:
  assumes "kwf s" "managed s a" "ref_count s (PA2IDX a) = 1"
  obtains s' where "kfree a s = Ok s'" "kwf s'" "free_of s' = insert (PA2IDX a) (free_of s)" "ref_count s' = (ref_count s)(PA2IDX a := 0)"
    "s' = s\<lparr>ram := ram s', freelist := freelist s', ref_count := ref_count s', reverse_map := reverse_map s'\<rparr>"
proof -
  obtain bs where inv: "kmem_inv s bs" using assms(1) by (auto simp: kwf_def)
  have p: "lo_page s \<le> PA2IDX a" "PA2IDX a + 1 \<le> NREF" "paddr (PA2IDX a) = a"
    using assms(2) by (simp_all add: managed_def paddr_PA2IDX)
  have r: "\<forall>i\<in>{PA2IDX a..<PA2IDX a + 1}. ref_count s i = 1" using assms(3) by auto
  obtain s' where k: "kfree_contig a 1 s = Ok s'" "free_post s bs 1 (PA2IDX a) s' (ins_blk (PA2IDX a) 1 bs)"
    using kfree_contig_last[OF inv _ p(1,2) r] p(3) by auto
  have e: "s' = s\<lparr>ram := ram s', freelist := freelist s', ref_count := on_run (PA2IDX a) 1 (\<lambda>_. 0) (ref_count s),
            reverse_map := rmap_cleared (PA2IDX a) 1 (reverse_map s)\<rparr>" using k(2) by (simp add: free_post_def)
  have g: "ref_count s' = on_run (PA2IDX a) 1 (\<lambda>_. 0) (ref_count s)" "reverse_map s' = rmap_cleared (PA2IDX a) 1 (reverse_map s)"
    by (subst e, simp)+
  have "s' = s\<lparr>ram := ram s', freelist := freelist s', ref_count := ref_count s', reverse_map := reverse_map s'\<rparr>" using e g by simp
  then show thesis using kfree_last[OF assms] k(1) by (auto simp: kfree_def intro: that)
qed

definition dead :: "memfile \<Rightarrow> bool" where
  "dead mf \<longleftrightarrow> mf_deleted mf \<and> mf_ref mf = 0"

definition swept :: "memfile \<Rightarrow> memfile" where
  "swept mf = (if dead mf then \<lparr>mf_ref = 0, mf_size = 0, mf_data = 0, mf_deleted = False\<rparr> else mf)"

text \<open>The slots whose page the collector has to free.\<close>

definition garbage :: "'z kfile_scheme \<Rightarrow> nat set" where
  "garbage s = {i. i < NMEMFILE \<and> dead (mftable s ! i) \<and> mf_data (mftable s ! i) \<noteq> 0}"

abbreviation mf_page :: "'z kfile_scheme \<Rightarrow> nat \<Rightarrow> nat" where
  "mf_page s i \<equiv> PA2IDX (mf_data (mftable s ! i))"

definition gc_ready :: "nat \<Rightarrow> 'z kfile_scheme \<Rightarrow> bool" where
  "gc_ready n s \<longleftrightarrow> kwf s \<and> length (mftable s) = NMEMFILE \<and> inj_on (mf_page s) (garbage s) \<and>
     (\<forall>i \<in> garbage s. managed s (mf_data (mftable s ! i)) \<and> ref_count s (mf_page s i) = 1) \<and> 0 \<le> lk_w s \<and> lk_w s + 100 * int n < 2 ^ 31"

definition gc_step :: "nat \<Rightarrow> 'z kfile_scheme \<Rightarrow> 'z kfile_scheme \<Rightarrow> bool" where
  "gc_step i s s' \<longleftrightarrow> kwf s' \<and> mftable s' = (mftable s)[i := swept (mftable s ! i)] \<and> ftable s' = ftable s \<and> procs s' = procs s \<and>
     free_of s' = free_of s \<union> mf_page s ` (garbage s \<inter> {i}) \<and> managed s' = managed s \<and>
     (\<forall>j. j \<notin> mf_page s ` (garbage s \<inter> {i}) \<longrightarrow> ref_count s' j = ref_count s j) \<and> lk_w s \<le> lk_w s' \<and> lk_w s' \<le> lk_w s + 100"

lemma gc_message:
  assumes "0 \<le> lk_w s" "lk_w s + 100 < 2 ^ 31" "i < NMEMFILE"
  shows "\<exists>s' n. logprintf (''GC: Collected memfile [%d] and freed associated memory blocks'' @ [CHR 10]) [Num (of_nat i)] s = Ok s' \<and> printed n s s' \<and> n \<le> 100"
proof -
  have e: "''GC: Collected memfile [%d] and freed associated memory blocks'' @ [CHR 10] =
      ''GC: Collected memfile ['' @ ''%d'' @ (''] and freed associated memory blocks'' @ [CHR 10])" by simp
  have "i < 2 ^ 31" using assms(3) by (simp add: NMEMFILE_def)
  from logprintf_number[of "''GC: Collected memfile [''" "''] and freed associated memory blocks'' @ [CHR 10]" s i, OF _ _ assms(1) _ this]
  obtain s' n where "logprintf (''GC: Collected memfile ['' @ ''%d'' @ (''] and freed associated memory blocks'' @ [CHR 10])) [Num (of_nat i)] s = Ok s'"
    "printed n s s'" "n \<le> 100" using assms(2) by (fastforce simp: bytes_of_def ch_def)
  then show ?thesis unfolding e by blast
qed

lemma gc_one_ok:
  assumes R: "gc_ready (Suc n) s" and i: "i < NMEMFILE"
  shows "\<exists>s'. gc_one i s = Ok s' \<and> gc_step i s s'"
proof (cases "dead (mftable s ! i)")
  case False
  then have "gc_one i s = Ok s" by (auto simp: gc_one_def dead_def Let_def)
  moreover have "gc_step i s s" using False R by (simp add: gc_step_def gc_ready_def swept_def garbage_def)
  ultimately show ?thesis by blast
next
  case True
  define d where "d = mf_data (mftable s ! i)"
  have len: "length (mftable s) = NMEMFILE" and w: "0 \<le> lk_w s" "lk_w s + 100 < 2 ^ 31" and wf: "kwf s" using R by (simp_all add: gc_ready_def)
  have gi: "garbage s \<inter> {i} = (if d \<noteq> 0 then {i} else {})" using True i by (auto simp: garbage_def d_def)
  obtain t where t: "(if d \<noteq> 0 then bnd (kfree d s) (\<lambda>s. Ok (upd_memf i (\<lambda>mf. mf\<lparr>mf_data := 0\<rparr>) s)) else Ok s) = Ok t"
    and T: "kwf t" "free_of t = free_of s \<union> mf_page s ` (garbage s \<inter> {i})" "managed t = managed s" "lk_w t = lk_w s" "ftable t = ftable s" "procs t = procs s"
      "mftable t = (mftable s)[i := (mftable s ! i)\<lparr>mf_data := 0\<rparr>]" "\<And>j. j \<notin> mf_page s ` (garbage s \<inter> {i}) \<Longrightarrow> ref_count t j = ref_count s j"
  proof (cases "d = 0")
    case True
    then have "(mftable s ! i)\<lparr>mf_data := 0\<rparr> = mftable s ! i" by (cases "mftable s ! i") (simp add: d_def)
    then have "(mftable s)[i := (mftable s ! i)\<lparr>mf_data := 0\<rparr>] = mftable s" by simp
    then show thesis using True wf gi by (intro that[of s]) simp_all
  next
    case False
    then have "i \<in> garbage s" using gi by auto
    then have m: "managed s d" "ref_count s (PA2IDX d) = 1" using R by (simp_all add: gc_ready_def d_def)
    obtain u where u: "kfree d s = Ok u" "kwf u" "free_of u = insert (PA2IDX d) (free_of s)" "ref_count u = (ref_count s)(PA2IDX d := 0)"
      and f: "u = s\<lparr>ram := ram u, freelist := freelist u, ref_count := ref_count u, reverse_map := reverse_map u\<rparr>"
      by (rule kfree_full[OF wf m]) blast
    have g: "mftable u = mftable s" "ftable u = ftable s" "procs u = procs s" "lk_w u = lk_w s" "kend u = kend s" by (subst f, simp)+
    have pg: "mf_page s ` (garbage s \<inter> {i}) = {PA2IDX d}" using False gi by (simp add: d_def)
    show thesis
      by (rule that[of "upd_memf i (\<lambda>mf. mf\<lparr>mf_data := 0\<rparr>) u"])
        (use u g False pg in \<open>simp_all add: managed_def[abs_def] lo_page_def\<close>)
  qed
  let ?v = "upd_memf i (\<lambda>mf. mf\<lparr>mf_ref := 0, mf_size := 0, mf_deleted := False\<rparr>) t"
  have lv: "lk_w ?v = lk_w s" using T(4) by (simp add: upd_memf_def)
  obtain s' k where l: "logprintf (''GC: Collected memfile [%d] and freed associated memory blocks'' @ [CHR 10]) [Num (of_nat i)] ?v = Ok s'"
    and p: "printed k ?v s'" "k \<le> 100" using gc_message[of ?v i] lv w i by auto
  obtain a b c where s': "s' = ?v\<lparr>uart_tx := a, lk_buf := b, lk_r := c, lk_w := lk_w ?v + int k\<rparr>" using p(1) by (auto simp: printed_def)
  have "gc_one i s = bnd (if d \<noteq> 0 then bnd (kfree d s) (\<lambda>s. Ok (upd_memf i (\<lambda>mf. mf\<lparr>mf_data := 0\<rparr>) s)) else Ok s) (\<lambda>s.
     logprintf (''GC: Collected memfile [%d] and freed associated memory blocks'' @ [CHR 10]) [Num (of_nat i)]
       (upd_memf i (\<lambda>mf. mf\<lparr>mf_ref := 0, mf_size := 0, mf_deleted := False\<rparr>) s))"
    using True unfolding gc_one_def Let_def d_def dead_def by (simp only: if_P)
  then have "gc_one i s = Ok s'" unfolding t using l by simp
  moreover have "kwf s' = kwf t" "free_of s' = free_of t" by (rule kmem_inv_ext; simp add: s' upd_memf_def)+
  moreover have "mftable s' = (mftable s)[i := swept (mftable s ! i)]"
    using T(7) i len True by (cases "mftable s ! i") (simp add: s' swept_def)
  moreover have "managed s' = managed t" by (simp add: fun_eq_iff managed_def lo_page_def s' upd_memf_def)
  ultimately show ?thesis using T p(2) lv by (auto simp: gc_step_def s' upd_memf_def)
qed

lemma gc_step_garbage:
  assumes st: "gc_step i s t" and len: "length (mftable s) = NMEMFILE" and i: "i < NMEMFILE"
  shows "garbage t = garbage s - {i}" "j \<noteq> i \<Longrightarrow> mf_page t j = mf_page s j"
proof -
  have m: "mftable t = (mftable s)[i := swept (mftable s ! i)]" using st by (simp add: gc_step_def)
  have "mf_data (swept mf) = 0 \<or> \<not> dead (swept mf)" for mf by (simp add: swept_def)
  then show "garbage t = garbage s - {i}" using i len by (auto simp: garbage_def m nth_list_update)
  show "j \<noteq> i \<Longrightarrow> mf_page t j = mf_page s j" by (simp add: m)
qed

lemma gc_step_ready:
  assumes R: "gc_ready (Suc n) s" and st: "gc_step i s t" and i: "i < NMEMFILE"
  shows "gc_ready n t"
proof -
  have len: "length (mftable s) = NMEMFILE" and inj: "inj_on (mf_page s) (garbage s)" using R by (simp_all add: gc_ready_def)
  note G = gc_step_garbage[OF st len i]
  have md: "j \<noteq> i \<Longrightarrow> mftable t ! j = mftable s ! j" for j using st by (simp add: gc_step_def)
  have "inj_on (mf_page t) (garbage t)" using inj md unfolding G(1) by (auto simp: inj_on_def)
  moreover have "managed t (mf_data (mftable t ! j)) \<and> ref_count t (mf_page t j) = 1" if "j \<in> garbage t" for j
  proof -
    have j: "j \<in> garbage s" "j \<noteq> i" using that G(1) by auto
    have "mf_page s j \<notin> mf_page s ` (garbage s \<inter> {i})" using inj j by (auto simp: inj_on_def)
    then have "ref_count t (mf_page s j) = ref_count s (mf_page s j)" "managed t = managed s" using st by (simp_all add: gc_step_def)
    then show ?thesis using R j md[OF j(2)] by (simp add: gc_ready_def)
  qed
  moreover have "kwf t" "length (mftable t) = NMEMFILE" "0 \<le> lk_w t" "lk_w t + 100 * int n < 2 ^ 31"
    using st R by (simp_all add: gc_step_def gc_ready_def)
  ultimately show ?thesis by (simp add: gc_ready_def)
qed

lemma gc_loop:
  assumes "gc_ready (length is) s" "distinct is" "\<forall>i \<in> set is. i < NMEMFILE"
  shows "\<exists>s'. for_res is gc_one s = Ok s' \<and> kwf s' \<and> free_of s' = free_of s \<union> mf_page s ` (garbage s \<inter> set is) \<and>
    length (mftable s') = NMEMFILE \<and> (\<forall>j < NMEMFILE. mftable s' ! j = (if j \<in> set is then swept (mftable s ! j) else mftable s ! j)) \<and>
    ftable s' = ftable s \<and> procs s' = procs s"
  using assms
proof (induction "is" arbitrary: s)
  case Nil
  then show ?case by (simp add: gc_ready_def)
next
  case (Cons i "is")
  have i: "i < NMEMFILE" and len: "length (mftable s) = NMEMFILE" using Cons(2,4) by (simp_all add: gc_ready_def)
  obtain t where o: "gc_one i s = Ok t" and st: "gc_step i s t" using gc_one_ok[of "length is" s i] Cons(2) i by auto
  have "gc_ready (length is) t" using gc_step_ready[OF _ st i] Cons(2) by simp
  from Cons.IH[OF this] Cons(3,4) obtain u where u: "for_res is gc_one t = Ok u" "kwf u" "free_of u = free_of t \<union> mf_page t ` (garbage t \<inter> set is)"
    "length (mftable u) = NMEMFILE" "\<And>j. j < NMEMFILE \<Longrightarrow> mftable u ! j = (if j \<in> set is then swept (mftable t ! j) else mftable t ! j)"
    "ftable u = ftable t" "procs u = procs t" by auto
  note G = gc_step_garbage[OF st len i]
  have T: "free_of t = free_of s \<union> mf_page s ` (garbage s \<inter> {i})" "mftable t = (mftable s)[i := swept (mftable s ! i)]" "ftable t = ftable s" "procs t = procs s"
    using st by (simp_all add: gc_step_def)
  have ni: "i \<notin> set is" using Cons(3) by simp
  have "mf_page t ` (garbage t \<inter> set is) = mf_page s ` (garbage s \<inter> set is)"
    using ni G by (intro image_cong) auto
  moreover have "garbage s \<inter> set (i # is) = (garbage s \<inter> {i}) \<union> (garbage s \<inter> set is)" by auto
  ultimately have "free_of u = free_of s \<union> mf_page s ` (garbage s \<inter> set (i # is))" using u(3) T(1) by (simp only: image_Un Un_assoc)
  moreover have "mftable u ! j = (if j \<in> set (i # is) then swept (mftable s ! j) else mftable s ! j)" if "j < NMEMFILE" for j
    using u(5)[OF that] T(2) ni len that by (cases "j = i") auto
  ultimately show ?case using o u T by simp
qed

text \<open>C21: The collector frees the page of every in-memory file that is marked deleted and has no reference left, and no other
  page; it clears exactly the slots of these files, so that they can be used again, and leaves the other files, the open
  files and the processes as they are.\<close>

theorem garbage_collect_reclaims:
  assumes "gc_ready NMEMFILE s"
  shows "\<exists>s'. garbage_collect s = Ok s' \<and> kwf s' \<and> free_of s' = free_of s \<union> mf_page s ` garbage s \<and>
    mftable s' = map swept (mftable s) \<and> ftable s' = ftable s \<and> procs s' = procs s"
proof -
  have len: "length (mftable s) = NMEMFILE" using assms by (simp add: gc_ready_def)
  have g: "garbage s \<inter> set [0..<NMEMFILE] = garbage s" by (auto simp: garbage_def)
  obtain s' where s': "garbage_collect s = Ok s'" "kwf s'" "free_of s' = free_of s \<union> mf_page s ` garbage s" "length (mftable s') = NMEMFILE"
    "\<And>j. j < NMEMFILE \<Longrightarrow> mftable s' ! j = swept (mftable s ! j)" "ftable s' = ftable s" "procs s' = procs s"
    using gc_loop[of "[0..<NMEMFILE]" s] assms unfolding g garbage_collect_def by auto
  have "mftable s' = map swept (mftable s)" by (rule nth_equalityI) (use s' len in simp_all)
  then show ?thesis using s' by blast
qed

text \<open>A state in which the file of slot 0 is deleted and its page is 530103.\<close>

definition ex_gc :: kfile where
  "ex_gc = upd_memf 0 (\<lambda>_. \<lparr>mf_ref = 0, mf_size = 5, mf_data = ex_frame, mf_deleted = True\<rparr>) (ex_kfile (ram (ex_vm ex_flags 1)))"

theorem garbage_collect_reclaims_witness:
  "\<exists>s'. garbage_collect ex_gc = Ok s' \<and> 530103 \<in> free_of s' \<and> \<not> mf_deleted (mftable s' ! 0)"
proof -
  let ?s = "ex_kfile (ram (ex_vm ex_flags 1))"
  have m: "mftable ex_gc = (replicate NMEMFILE \<lparr>mf_ref = 0, mf_size = 0, mf_data = 0, mf_deleted = False\<rparr>)
     [0 := \<lparr>mf_ref = 0, mf_size = 5, mf_data = ex_frame, mf_deleted = True\<rparr>]"
    by (simp add: ex_gc_def ex_kfile_def)
  have n: "0 < NMEMFILE" by (simp add: NMEMFILE_def)
  have nz: "ex_frame \<noteq> 0" using paddr_inj[of 530103 0] by (simp add: ex_frame_def paddr_def)
  have g: "garbage ex_gc = {0}" using n nz by (auto simp: garbage_def m dead_def nth_list_update)
  have p: "mf_page ex_gc 0 = 530103" using n by (simp add: m)
  have "managed ex_gc ex_frame" using ex_user_frame[of 1 ex_flags]
    by (simp add: user_frame_def managed_def lo_page_def ex_gc_def ex_vm_def)
  moreover have "ref_count ex_gc 530103 = 1" by (simp add: ex_gc_def ex_vm_ref)
  moreover have "kwf ex_gc" "lk_w ex_gc = 0" using ex_kfile_wf(1) by (simp_all add: ex_gc_def ex_kfile_def)
  ultimately have "gc_ready NMEMFILE ex_gc" using g p n by (simp add: gc_ready_def) (simp add: m NMEMFILE_def)
  then show ?thesis using garbage_collect_reclaims[of ex_gc] g p n by (auto simp: m swept_def dead_def)
qed

end
