(* ===== verification/Process_Props.thy ===== *)
theory Process_Props
  imports Frame Memfile_Props
begin

text \<open>
  Exec switches the image of a process as a unit or not at all, and the exit of a child is never lost on a parent that waits.
\<close>

section \<open>Exec\<close>



lemma tk_tf_set [simp]: "tk (tf_set f v s) = tk s"
  by (simp add: tf_set_def)


























text \<open>A process whose working directory is an empty file that it tries to execute.\<close>

definition ex_exec :: kernel where
  "ex_exec = ex_kernel\<lparr>procs := [proc0\<lparr>pstate := RUNNING, pid := 1, pagetable := ex_root, psz := 4096, cwd := Some 0\<rparr>],
     itable := [\<lparr>idev = 1, inum = 7, iref = 1, ilk = initsleeplock, ivalid = True, itype = 2, imajor = 0, iminor = 0, inlink = 1, isize = 0,
       iaddrs = replicate 13 0\<rparr>]\<rparr>"

lemma ex_exec_sel [simp]:
  "log_committing ex_exec = False" "log_outstanding ex_exec = 0" "lh_n ex_exec = 0" "cur ex_exec = 0"
  "procs ex_exec = [proc0\<lparr>pstate := RUNNING, pid := 1, pagetable := ex_root, psz := 4096, cwd := Some 0\<rparr>]"
  by (simp_all add: ex_exec_def ex_kernel_def kfile.defs ex_kfile_def)



section \<open>Exit\<close>

lemma wk_upd:
  assumes "wk (ps, c, ip) (tk t)" "c < length ps"
  shows "wk (ps[c := f (ps ! c)], c, ip) (tk (upd_proc c f t))"
  using assms by (auto simp: wk_def tk_def upd_proc_def list_all2_conv_all_nth nth_list_update)

lemma for_res_single: "for_res [i] f s = f i s"
  by (cases "f i s") auto

lemma exit_files_wk:
  assumes p: "c < length ps" and "n \<le> length (ofile (ps ! c))" "wk (ps, c, ip) (tk s)"
  shows "okP (\<lambda>t. wk (ps[c := (ps ! c)\<lparr>ofile := replicate n None @ drop n (ofile (ps ! c))\<rparr>], c, ip) (tk t)) (for_res [0..<n] exit_file s)"
  using assms(2)
proof (induction n)
  case 0
  then show ?case using assms(3) by simp
next
  case (Suc n)
  let ?o = "\<lambda>n. (ps ! c)\<lparr>ofile := replicate n None @ drop n (ofile (ps ! c))\<rparr>"
  have step: "okP (\<lambda>t. wk (ps[c := ?o (Suc n)], c, ip) (tk t)) (exit_file n u)" if w: "wk (ps[c := ?o n], c, ip) (tk u)" for u
  proof -
    have cu: "cur u = c" "myproc u = ?o n" using w p by (simp_all add: wk_def tk_def myproc_def)
    have nth: "ofile (myproc u) ! n = ofile (ps ! c) ! n" using Suc(2) cu by (simp add: nth_append)
    have d: "drop n (ofile (ps ! c)) = ofile (ps ! c) ! n # drop (Suc n) (ofile (ps ! c))" using Suc(2) by (simp add: Cons_nth_drop_Suc)
    show ?thesis
    proof (cases "ofile (ps ! c) ! n")
      case None
      then have "?o n = ?o (Suc n)" using d by (simp add: replicate_append_same)
      then show ?thesis using w None nth by (simp add: exit_file_def)
    next
      case (Some f)
      have e: "(replicate n None @ drop n (ofile (ps ! c)))[n := None] = replicate (Suc n) None @ drop (Suc n) (ofile (ps ! c))"
        using d by (simp add: list_update_append replicate_append_same)
      have "okP (\<lambda>t. wk (ps[c := ?o (Suc n)], c, ip) (tk t)) (bnd (fileclose f u) (\<lambda>s. Ok (upd_proc (cur s) (\<lambda>p. p\<lparr>ofile := (ofile p)[n := None]\<rparr>) s)))"
      proof (rule okP_bnd[OF fileclose_wk[OF w]])
        fix v assume v: "wk (ps[c := ?o n], c, ip) (tk v)"
        then have "cur v = c" by (simp add: wk_def tk_def)
        then show "okP (\<lambda>t. wk (ps[c := ?o (Suc n)], c, ip) (tk t)) (Ok (upd_proc (cur v) (\<lambda>p. p\<lparr>ofile := (ofile p)[n := None]\<rparr>) v))"
          using wk_upd[OF v, of "\<lambda>p. p\<lparr>ofile := (ofile p)[n := None]\<rparr>"] p e by simp
      qed
      then show ?thesis using Some nth by (simp add: exit_file_def)
    qed
  qed
  have "okP (\<lambda>t. wk (ps[c := ?o n], c, ip) (tk t)) (for_res [0..<n] exit_file s)" using Suc by simp
  then have "okP (\<lambda>t. wk (ps[c := ?o (Suc n)], c, ip) (tk t)) (bnd (for_res [0..<n] exit_file s) (for_res [n] exit_file))"
    by (rule okP_bnd) (unfold for_res_single, rule step)
  then show ?case by (simp add: for_res_append)
qed

definition reparented :: "nat \<Rightarrow> nat \<Rightarrow> proc \<Rightarrow> proc" where
  "reparented c ip p = (if parent p = Some c then p\<lparr>parent := Some ip\<rparr> else p)"

lemma woken_parent: "woken p q \<Longrightarrow> parent q = parent p"
  by (auto simp: woken_def)

lemma wk_reparent_one:
  assumes "wk (ps, c, ip) (tk t)" "i < length ps" "parent (ps ! i) = Some c"
  shows "wk (ps[i := (ps ! i)\<lparr>parent := Some ip\<rparr>], c, ip) (tk (upd_proc i (\<lambda>q. q\<lparr>parent := Some ip\<rparr>) t))"
  using assms by (auto simp: wk_def tk_def upd_proc_def list_all2_conv_all_nth nth_list_update woken_def)

lemma reparent_wk:
  assumes "wk (ps, c, ip) (tk s)"
  shows "wk (map (reparented c ip) ps, c, ip) (tk (reparent c s))"
proof -
  have l: "length (procs s) = length ps" using assms by (auto simp: wk_def tk_def dest: list_all2_lengthD)
  let ?m = "\<lambda>n. map (reparented c ip) (take n ps) @ drop n ps"
  let ?f = "\<lambda>i s. if parent (procs s ! i) = Some c then wakeup (ChanProc (initproc s)) (upd_proc i (\<lambda>q. q\<lparr>parent := Some (initproc s)\<rparr>) s) else s"
  have "n \<le> length ps \<Longrightarrow> wk (?m n, c, ip) (tk (fold ?f [0..<n] s))" for n
  proof (induction n)
    case 0
    then show ?case using assms by simp
  next
    case (Suc n)
    let ?t = "fold ?f [0..<n] s"
    have w: "wk (?m n, c, ip) (tk ?t)" using Suc by simp
    have n: "?m n ! n = ps ! n" "n < length (?m n)" using Suc(2) by (simp_all add: nth_append)
    have "woken (?m n ! n) (procs ?t ! n)" using w n(2) by (auto simp: wk_def tk_def list_all2_conv_all_nth)
    then have pa: "parent (procs ?t ! n) = parent (ps ! n)" unfolding n(1) by (rule woken_parent)
    have ip: "initproc ?t = ip" using w by (simp add: wk_def tk_def)
    have d: "drop n ps = ps ! n # drop (Suc n) ps" "take (Suc n) ps = take n ps @ [ps ! n]" using Suc(2) by (simp_all add: Cons_nth_drop_Suc take_Suc_conv_app_nth)
    show ?case
    proof (cases "parent (ps ! n) = Some c")
      case True
      have "length (map (reparented c ip) (take n ps)) = n" using Suc(2) by simp
      then have m: "(?m n)[n := (ps ! n)\<lparr>parent := Some ip\<rparr>] = ?m (Suc n)" using True unfolding d by (simp add: list_update_append reparented_def)
      have f: "fold ?f [0..<Suc n] s = wakeup (ChanProc ip) (upd_proc n (\<lambda>q. q\<lparr>parent := Some ip\<rparr>) ?t)" using True pa ip by simp
      have "wk ((?m n)[n := (?m n ! n)\<lparr>parent := Some ip\<rparr>], c, ip) (tk (upd_proc n (\<lambda>q. q\<lparr>parent := Some ip\<rparr>) ?t))"
        by (rule wk_reparent_one[OF w n(2)]) (use n(1) True in simp)
      then show ?thesis unfolding f n(1) m by (rule wk_wakeup)
    next
      case False
      then have "?m n = ?m (Suc n)" using d by (simp add: reparented_def)
      then show ?thesis using w False pa by simp
    qed
  qed
  from this[of "length ps"] show ?thesis using l by (simp add: reparent_def)
qed

text \<open>What an exit leaves behind: \<open>u\<close> is the state before the parent is woken.\<close>

definition exit_post :: "nat \<Rightarrow> int \<Rightarrow> 'z ktask_scheme \<Rightarrow> 'z ktask_scheme \<Rightarrow> bool" where
  "exit_post p status s t \<longleftrightarrow> (\<exists>u :: 'z ktask_scheme. wk (map (reparented (cur s) (initproc s)) ((procs s)[cur s := (myproc s)\<lparr>ofile := replicate NOFILE None, cwd := None\<rparr>]),
     cur s, initproc s) (tk u) \<and> tk t = (zombie_tbl (cur s) status (procs (wakeup (ChanProc p) u)), cur s, initproc s))"

lemma exit_last:
  fixes v :: "'a kernel_scheme"
  assumes c: "cur s < length (procs s)" and p: "parent (myproc s) = Some p" "p \<noteq> cur s"
    and w: "wk ((procs s)[cur s := (myproc s)\<lparr>ofile := replicate NOFILE None\<rparr>], cur s, initproc s) (tk v)"
  shows "exit_post p status s (let v = reparent (cur v) (upd_proc (cur v) (\<lambda>p. p\<lparr>cwd := None\<rparr>) v);
       v = wakeup (case parent (myproc v) of None \<Rightarrow> NoChan | Some q \<Rightarrow> ChanProc q) v in v\<lparr>procs := zombie_tbl (cur v) status (procs v)\<rparr>)"
proof -
  let ?c = "cur s" and ?ip = "initproc s"
  let ?ps = "(procs s)[?c := (myproc s)\<lparr>ofile := replicate NOFILE None, cwd := None\<rparr>]"
  have cv: "cur v = ?c" using w by (simp add: wk_def tk_def)
  define u where "u = reparent (cur v) (upd_proc (cur v) (\<lambda>p. p\<lparr>cwd := None\<rparr>) v)"
  have "wk (?ps, ?c, ?ip) (tk (upd_proc ?c (\<lambda>p. p\<lparr>cwd := None\<rparr>) v))" using wk_upd[OF w, of "\<lambda>p. p\<lparr>cwd := None\<rparr>"] c by simp
  then have u: "wk (map (reparented ?c ?ip) ?ps, ?c, ?ip) (tk u)" unfolding u_def cv by (rule reparent_wk)
  then have cu: "cur u = ?c" "myproc u = reparented ?c ?ip (?ps ! ?c)" "initproc u = ?ip" using c by (simp_all add: wk_def tk_def myproc_def)
  then have "parent (myproc u) = Some p" using c p by (simp add: reparented_def)
  then show ?thesis unfolding u_def[symmetric] exit_post_def Let_def using u cu by (intro exI[of _ u]) (simp add: tk_def)
qed

lemma kexit_post:
  assumes c: "cur s < length (procs s)" and o: "length (ofile (myproc s)) = NOFILE" and p: "parent (myproc s) = Some p" "p \<noteq> cur s"
  shows "okP (exit_post p status s) (kexit status s)"
proof -
  have w0: "wk ((procs s)[cur s := myproc s], cur s, initproc s) (tk s)" by (simp add: tk_def myproc_def wk_refl)
  have e: "okP (\<lambda>t. wk ((procs s)[cur s := (myproc s)\<lparr>ofile := replicate NOFILE None\<rparr>], cur s, initproc s) (tk t)) (for_res [0..<NOFILE] exit_file s)"
    using exit_files_wk[of "cur s" "procs s" NOFILE "initproc s" s] w0 c o by (simp add: myproc_def)
  note l = exit_last[OF c p, of _ status, unfolded Let_def]
  show ?thesis unfolding kexit_def Let_def by (rule e l okP_simps(1)[THEN iffD2] frame_rules | assumption | simp)+
qed

section \<open>Wait\<close>

text \<open>A scan that finds no zombie has seen every child alive.\<close>

lemma kwait_scan_none:
  "kwait_scan addr is hk s = Ok (None, hk', s') \<Longrightarrow>
     s' = s \<and> (\<forall>i \<in> set is. parent (procs s ! i) = Some (cur s) \<longrightarrow> pstate (procs s ! i) \<noteq> ZOMBIE)"
  by (induction "is" arbitrary: hk) (auto simp: Let_def bnd_Ok_iff split: if_splits)

lemma kwait_sleeps:
  assumes "kwait addr s = Ok (Wait c k, s')"
  shows "c = ChanProc (cur s)" "s' = sleep_on (ChanProc (cur s)) s"
    "i < length (procs s) \<Longrightarrow> parent (procs s ! i) = Some (cur s) \<Longrightarrow> pstate (procs s ! i) \<noteq> ZOMBIE"
proof -
  obtain r hk t where k: "kwait_scan addr [0..<length (procs s)] False s = Ok (r, hk, t)" using assms by (auto simp: kwait_def bnd_Ok_iff)
  then have "r = None" using assms by (cases r) (auto simp: kwait_def)
  then have n: "kwait_scan addr [0..<length (procs s)] False s = Ok (None, hk, t)" using k by simp
  note z = kwait_scan_none[OF n]
  show "c = ChanProc (cur s)" "s' = sleep_on (ChanProc (cur s)) s" using assms n z by (auto simp: kwait_def split: if_splits)
  show "i < length (procs s) \<Longrightarrow> parent (procs s ! i) = Some (cur s) \<Longrightarrow> pstate (procs s ! i) \<noteq> ZOMBIE" using z by simp
qed

lemma exit_post_table:
  assumes "exit_post p status s t" and c: "cur s < length (procs s)" and p: "parent (myproc s) = Some p" "p \<noteq> cur s" "p < length (procs s)"
  shows "length (procs t) = length (procs s)"
    "procs t ! cur s = (myproc s)\<lparr>ofile := replicate NOFILE None, cwd := None, xstate := status, pstate := ZOMBIE\<rparr>"
    "i < length (procs s) \<Longrightarrow> i \<noteq> cur s \<Longrightarrow> woken (reparented (cur s) (initproc s) (procs s ! i)) (procs t ! i)"
    "pstate (procs s ! p) = SLEEPING \<Longrightarrow> chan (procs s ! p) = ChanProc p \<Longrightarrow> pstate (procs t ! p) = RUNNABLE"
proof -
  let ?c = "cur s" and ?ip = "initproc s"
  let ?ps = "map (reparented ?c ?ip) ((procs s)[?c := (myproc s)\<lparr>ofile := replicate NOFILE None, cwd := None\<rparr>])"
  obtain u :: "'a ktask_scheme" where u: "wk (?ps, ?c, ?ip) (tk u)" "tk t = (zombie_tbl ?c status (procs (wakeup (ChanProc p) u)), ?c, ?ip)"
    using assms(1) unfolding exit_post_def by blast
  have cu: "cur u = ?c" "length (procs u) = length (procs s)" "procs u ! ?c = ?ps ! ?c" "\<And>i. i < length (procs s) \<Longrightarrow> woken (?ps ! i) (procs u ! i)"
    using u(1) c by (auto simp: wk_def tk_def list_all2_conv_all_nth)
  have t: "procs t = (procs (wakeup (ChanProc p) u))[?c := (procs (wakeup (ChanProc p) u) ! ?c)\<lparr>xstate := status, pstate := ZOMBIE\<rparr>]"
    using u(2) by (simp add: tk_def zombie_tbl_def)
  have w: "procs (wakeup (ChanProc p) u) ! i = (if i = ?c then procs u ! i else wakeup_proc (ChanProc p) (procs u ! i))" if "i < length (procs s)" for i
    using that cu(1,2) by (auto simp: wakeup_def wakeup_tbl_def)
  show "length (procs t) = length (procs s)" using t cu(2) by simp
  show "procs t ! ?c = (myproc s)\<lparr>ofile := replicate NOFILE None, cwd := None, xstate := status, pstate := ZOMBIE\<rparr>"
    using t w[OF c] cu(2,3) c p(1,2) by (simp add: reparented_def)
  have o: "procs t ! i = wakeup_proc (ChanProc p) (procs u ! i)" "woken (reparented ?c ?ip (procs s ! i)) (procs u ! i)" if "i < length (procs s)" "i \<noteq> ?c" for i
    using t w[OF that(1)] cu(4)[OF that(1)] that by auto
  show "i < length (procs s) \<Longrightarrow> i \<noteq> ?c \<Longrightarrow> woken (reparented ?c ?ip (procs s ! i)) (procs t ! i)" using o[of i] woken_trans woken_wakeup by metis
  show "pstate (procs s ! p) = SLEEPING \<Longrightarrow> chan (procs s ! p) = ChanProc p \<Longrightarrow> pstate (procs t ! p) = RUNNABLE"
    using o[of p] p(2,3) by (auto simp: woken_def reparented_def wakeup_proc_def split: if_splits)
qed

text \<open>C15: The exit of a child is never lost on its parent. A parent that \<open>kwait\<close> has put to sleep is made runnable by the \<open>kexit\<close> of any child of it;
  the child is then a zombie with its status and no open files, its own children belong to \<^verbatim>\<open>init\<close>, and the parent's next pass through
  \<open>kwait\<close> does not sleep again.\<close>

theorem exit_wakes_waiting_parent:
  assumes "kwait addr s0 = Ok (Wait q k, s1)" "cur s0 < length (procs s0)"
    and s: "cur s < length (procs s)" "cur s0 < length (procs s)" "procs s ! cur s0 = procs s1 ! cur s0"
    and c: "parent (myproc s) = Some (cur s0)" "cur s \<noteq> cur s0" "length (ofile (myproc s)) = NOFILE"
    and "kexit status s = Ok s'"
  shows "pstate (procs s' ! cur s0) = RUNNABLE \<and>
    procs s' ! cur s = (myproc s)\<lparr>ofile := replicate NOFILE None, cwd := None, xstate := status, pstate := ZOMBIE\<rparr> \<and>
    (\<forall>i < length (procs s). i \<noteq> cur s \<and> parent (procs s ! i) = Some (cur s) \<longrightarrow> parent (procs s' ! i) = Some (initproc s)) \<and>
    kwait addr' (s'\<lparr>cur := cur s0\<rparr>) \<noteq> Ok (Wait q' k', t)"
proof -
  note c' = c(2)[symmetric]
  have "exit_post (cur s0) status s s'" using okP_D[OF kexit_post[OF s(1) c(3) c(1) c'] assms(9)] .
  note E = exit_post_table[OF this s(1) c(1) c' s(2)]
  have "procs s ! cur s0 = (procs s0 ! cur s0)\<lparr>chan := ChanProc (cur s0), pstate := SLEEPING\<rparr>"
    using kwait_sleeps(2)[OF assms(1)] s(3) assms(2) by (simp add: sleep_on_def sleep_tbl_def)
  then have "pstate (procs s' ! cur s0) = RUNNABLE" using E(4) by simp
  moreover have "parent (procs s' ! i) = Some (initproc s)" if "i < length (procs s)" "i \<noteq> cur s" "parent (procs s ! i) = Some (cur s)" for i
    using woken_parent[OF E(3)[OF that(1,2)]] that(3) by (simp add: reparented_def)
  moreover have "kwait addr' (s'\<lparr>cur := cur s0\<rparr>) \<noteq> Ok (Wait q' k', t)"
    using kwait_sleeps(3)[of addr' "s'\<lparr>cur := cur s0\<rparr>" q' k' t "cur s"] E(1,2) s(1) c(1) by auto
  ultimately show ?thesis using E(2) by blast
qed

text \<open>A parent in \<open>kwait\<close> and its child.\<close>

definition ex_family :: kernel where
  "ex_family = ex_exec\<lparr>procs := [proc0\<lparr>pstate := RUNNING, pid := 1, cwd := Some 0\<rparr>, proc0\<lparr>pstate := RUNNABLE, pid := 2, parent := Some 0, cwd := Some 0\<rparr>],
     itable := [(itable ex_exec ! 0)\<lparr>iref := 2\<rparr>], initproc := 0\<rparr>"

abbreviation ex_waiting :: kernel where
  "ex_waiting \<equiv> (sleep_on (ChanProc 0) ex_family)\<lparr>cur := 1\<rparr>"

lemma exit_no_files: "\<forall>fd \<in> set is. ofile (myproc s) ! fd = None \<Longrightarrow> for_res is exit_file s = Ok s"
  by (induction "is") (auto simp: exit_file_def)

lemma ex_family_sel [simp]:
  "procs ex_family = [proc0\<lparr>pstate := RUNNING, pid := 1, cwd := Some 0\<rparr>, proc0\<lparr>pstate := RUNNABLE, pid := 2, parent := Some 0, cwd := Some 0\<rparr>]"
  "cur ex_family = 0" "initproc ex_family = 0" "log_committing ex_family = False" "log_outstanding ex_family = 0" "lh_n ex_family = 0"
  "itable ex_family = [(itable ex_exec ! 0)\<lparr>iref := 2\<rparr>]"
  by (simp_all add: ex_family_def)

lemma ex_family_waits: "kwait 0 ex_family = Ok (Wait (ChanProc 0) 0, sleep_on (ChanProc 0) ex_family)"
  by (simp add: kwait_def proc0_def is_killed_def)

lemma ex_family_exit: "\<exists>s'. kexit 3 ex_waiting = Ok s'"
proof -
  have "for_res [0..<NOFILE] exit_file ex_waiting = Ok ex_waiting"
    by (rule exit_no_files) (auto simp: myproc_def sleep_on_def sleep_tbl_def proc0_def kconst)
  then show ?thesis by (simp add: kexit_def sleep_on_def sleep_tbl_def begin_op_def begin_op_try_def kconst myproc_def iput_def upd_inode_def
        end_op_def commit_def Let_def)
qed

theorem exit_wakes_waiting_parent_witness:
  "\<exists>s'. kexit 3 ex_waiting = Ok s' \<and> pstate (procs s' ! 0) = RUNNABLE \<and> pstate (procs s' ! 1) = ZOMBIE \<and> xstate (procs s' ! 1) = 3"
proof -
  obtain s' where e: "kexit 3 ex_waiting = Ok s'" using ex_family_exit by blast
  have "length (ofile (myproc ex_waiting)) = NOFILE" by (simp add: myproc_def sleep_on_def sleep_tbl_def proc0_def kconst)
  from exit_wakes_waiting_parent[OF ex_family_waits _ _ _ _ _ _ this e, of 0] show ?thesis
    using e by (auto simp: myproc_def sleep_on_def sleep_tbl_def)
qed

end
