(* ===== verification/Isolation.thy ===== *)
theory Isolation
  imports Syscall Process_Props
begin

text \<open>
  What a system call may do to the records of other processes. \<open>isol T\<close> relates a table of processes to the table \<open>T\<close> before a call
  of the current process: another process may be woken, marked as killed, or handed to \<^verbatim>\<open>init\<close> when its parent exits, and nothing
  else of it changes, unless its slot was free or held a zombie child of the caller. The rules of \<open>iso_rules\<close> carry this relation
  through all system calls.
\<close>

section \<open>The relation\<close>

definition spared :: "nat \<Rightarrow> nat \<Rightarrow> proc \<Rightarrow> proc \<Rightarrow> bool" where
  "spared c ip p q \<longleftrightarrow> (\<exists>st k pa. q = p\<lparr>pstate := st, killed := k, parent := pa\<rparr> \<and>
     (st = pstate p \<or> pstate p = SLEEPING \<and> st = RUNNABLE) \<and> (k = killed p \<or> k = 1) \<and> (pa = parent p \<or> parent p = Some c \<and> pa = Some ip))"

text \<open>A slot the current process \<open>c\<close> may fill: its own, an unused one, or that of a zombie child.\<close>

definition mine :: "proc list \<times> nat \<times> nat \<Rightarrow> nat \<Rightarrow> bool" where
  "mine T i \<longleftrightarrow> (case T of (ps, c, ip) \<Rightarrow> i = c \<or> pstate (ps ! i) = UNUSED \<or> pstate (ps ! i) = ZOMBIE \<and> parent (ps ! i) = Some c)"

definition isol :: "proc list \<times> nat \<times> nat \<Rightarrow> proc list \<times> nat \<times> nat \<Rightarrow> bool" where
  "isol T U \<longleftrightarrow> (case T of (ps, c, ip) \<Rightarrow> case U of (qs, d, jp) \<Rightarrow> d = c \<and> jp = ip \<and> length qs = length ps \<and>
     (\<forall>i < length ps. mine T i \<or> spared c ip (ps ! i) (qs ! i)))"

named_theorems iso_rules \<open>operations that spare other processes\<close>

lemma sparedI: "q = p\<lparr>pstate := st, killed := k, parent := pa\<rparr> \<Longrightarrow> st = pstate p \<or> pstate p = SLEEPING \<and> st = RUNNABLE \<Longrightarrow> k = killed p \<or> k = 1 \<Longrightarrow>
    pa = parent p \<or> parent p = Some c \<and> pa = Some ip \<Longrightarrow> spared c ip p q"
  unfolding spared_def by blast

lemma spared_refl: "spared c ip p p"
  by (rule sparedI[where st = "pstate p" and k = "killed p" and pa = "parent p"]) simp_all

lemma spared_trans:
  assumes "spared c ip p q" "spared c ip q r"
  shows "spared c ip p r"
proof -
  obtain st k pa where q: "q = p\<lparr>pstate := st, killed := k, parent := pa\<rparr>" "st = pstate p \<or> pstate p = SLEEPING \<and> st = RUNNABLE" "k = killed p \<or> k = 1"
    "pa = parent p \<or> parent p = Some c \<and> pa = Some ip" using assms(1) unfolding spared_def by blast
  obtain st' k' pa' where r: "r = q\<lparr>pstate := st', killed := k', parent := pa'\<rparr>" "st' = pstate q \<or> pstate q = SLEEPING \<and> st' = RUNNABLE" "k' = killed q \<or> k' = 1"
    "pa' = parent q \<or> parent q = Some c \<and> pa' = Some ip" using assms(2) unfolding spared_def by blast
  show ?thesis by (rule sparedI[where st = st' and k = k' and pa = pa']) (use q r in auto)
qed

lemma spared_woken: "woken p q \<Longrightarrow> spared c ip p q"
proof -
  assume w: "woken p q"
  show ?thesis
  proof (cases "q = p")
    case False
    then have "pstate p = SLEEPING" "q = p\<lparr>pstate := RUNNABLE\<rparr>" using w by (auto simp: woken_def)
    then show ?thesis by (intro sparedI[where st = RUNNABLE and k = "killed p" and pa = "parent p"]) simp_all
  qed (simp add: spared_refl)
qed

lemma slot_spared: "spared c ip p q \<Longrightarrow> pstate q = UNUSED \<or> pstate q = ZOMBIE \<and> parent q = Some c \<Longrightarrow> pstate p = UNUSED \<or> pstate p = ZOMBIE \<and> parent p = Some c"
  by (auto simp: spared_def)

lemma iso_refl: "isol T T"
  by (cases T) (simp add: isol_def spared_refl)

lemma iso_slot:
  assumes "isol T (tk s)" "i < length (procs s)" "i = cur s \<or> pstate (procs s ! i) = UNUSED \<or> pstate (procs s ! i) = ZOMBIE \<and> parent (procs s ! i) = Some (cur s)"
  shows "mine T i"
proof (cases T)
  case (fields ps c ip)
  then have "mine T i \<or> spared c ip (ps ! i) (procs s ! i)" "cur s = c" using assms(1,2) by (auto simp: isol_def tk_def)
  then show ?thesis using slot_spared[of c ip "ps ! i" "procs s ! i"] assms(3) fields by (auto simp: mine_def)
qed

lemma iso_trans: "isol T (tk s) \<Longrightarrow> isol (tk s) (tk t) \<Longrightarrow> isol T (tk t)"
proof -
  assume a: "isol T (tk s)" "isol (tk s) (tk t)"
  obtain ps c ip where T: "T = (ps, c, ip)" by (cases T)
  have l: "cur s = c" "initproc s = ip" "length (procs s) = length ps" "cur t = c" "initproc t = ip" "length (procs t) = length ps"
    using a by (auto simp: T isol_def tk_def)
  have "mine T i \<or> spared c ip (ps ! i) (procs t ! i)" if i: "i < length ps" for i
  proof (cases "mine (tk s) i")
    case True
    then have "mine T i" using iso_slot[OF a(1), of i] i l by (auto simp: mine_def tk_def)
    then show ?thesis ..
  next
    case False
    then have "spared c ip (procs s ! i) (procs t ! i)" using a(2) i l by (auto simp: isol_def tk_def)
    then show ?thesis using a(1) i l spared_trans by (auto simp: T isol_def tk_def)
  qed
  then show ?thesis using l by (auto simp: T isol_def tk_def)
qed

lemma wk_iso: "wk T U \<Longrightarrow> isol T U"
  by (cases T; cases U) (auto simp: wk_def isol_def list_all2_conv_all_nth spared_woken)

lemma iso_upd: "isol T (tk s) \<Longrightarrow> mine T i \<Longrightarrow> isol T (tk (upd_proc i f s))"
proof (cases T)
  case (fields ps c ip)
  assume a: "isol T (tk s)" "mine T i"
  have "mine T j \<or> spared c ip (ps ! j) ((procs s)[i := f (procs s ! i)] ! j)" if "j < length ps" for j
    using a that by (cases "j = i") (auto simp: fields isol_def tk_def)
  then show ?thesis using a by (auto simp: fields isol_def tk_def upd_proc_def)
qed

lemma iso_cur: "isol T (tk s) \<Longrightarrow> mine T (cur s)"
  by (cases T) (simp add: isol_def mine_def tk_def)

lemma iso_upd_cur [iso_rules]: "isol T (tk s) \<Longrightarrow> isol T (tk (upd_proc (cur s) f s))"
  by (rule iso_upd[OF _ iso_cur])

lemma iso_sleep [iso_rules]: "isol T (tk s) \<Longrightarrow> isol T (tk (sleep_on c s))"
  using iso_upd_cur[of T s "\<lambda>p. p\<lparr>chan := c, pstate := SLEEPING\<rparr>"] by (simp add: sleep_on_def sleep_tbl_def upd_proc_def)

lemma iso_wakeup [iso_rules]: "isol T (tk s) \<Longrightarrow> isol T (tk (wakeup c s))"
  using iso_trans wk_iso wk_wakeup[OF wk_refl] by blast

lemma iso_if [iso_rules]: "(c \<Longrightarrow> isol T (tk a)) \<Longrightarrow> (\<not> c \<Longrightarrow> isol T (tk b)) \<Longrightarrow> isol T (tk (if c then a else b))"
  by simp

lemma iso_woken: "isol T (tk s) \<Longrightarrow> wk (tk s) (tk t) \<Longrightarrow> isol T (tk t)"
  using iso_trans wk_iso by blast

lemma okP_iso:
  assumes "wk (tk s) (tk s) \<Longrightarrow> okP (\<lambda>t. wk (tk s) (tk t)) m" "isol T (tk s)"
  shows "okP (\<lambda>t. isol T (tk t)) m"
  by (rule okP_weaken[OF assms(1)[OF wk_refl]]) (rule iso_woken[OF assms(2)])

lemma okP_iso2:
  assumes "wk (tk s) (tk s) \<Longrightarrow> okP (\<lambda>(a, t). wk (tk s) (tk t)) m" "isol T (tk s)"
  shows "okP (\<lambda>(a, t). isol T (tk t)) m"
  by (rule okP_weaken[OF assms(1)[OF wk_refl]]) (auto intro: iso_woken[OF assms(2)])

lemma okP_iso3:
  assumes "wk (tk s) (tk s) \<Longrightarrow> okP (\<lambda>(a, b, t). wk (tk s) (tk t)) m" "isol T (tk s)"
  shows "okP (\<lambda>(a, b, t). isol T (tk t)) m"
  by (rule okP_weaken[OF assms(1)[OF wk_refl]]) (auto intro: iso_woken[OF assms(2)])

section \<open>Files\<close>

lemma fetch_any: "okP (\<lambda>r. True) m"
  by (simp add: okP_def)

lemmas fetch_rules [iso_rules] = fetch_any[of "argraw n s" for n s] fetch_any[of "argint n s" for n s] fetch_any[of "argaddr n s" for n s]
  fetch_any[of "argstr n m s" for n m s] fetch_any[of "argfd n s" for n s]

lemmas wk_ops [iso_rules] = okP_iso[OF begin_op_wk] okP_iso[OF end_op_wk] okP_iso[OF ilock_wk] okP_iso[OF iunlock_wk] okP_iso[OF iunlockput_wk]
  okP_iso[OF iput_wk] okP_iso[OF iupdate_wk] okP_iso[OF itrunc_wk] okP_iso2[OF namei_wk] okP_iso3[OF nameiparent_wk] okP_iso2[OF dirlookup_wk]
  okP_iso2[OF dirlink_wk] okP_iso2[OF ialloc_wk] okP_iso2[OF writei_wk] okP_iso3[OF readi_wk] okP_iso2[OF read_dirent_wk] okP_iso[OF fileclose_wk]
  okP_iso3[OF either_copyout_wk] okP_iso2[OF consolewrite_wk] okP_iso2[OF readsyslog_wk] okP_iso[OF printf_wk] okP_iso2[OF proc_pagetable_wk]
  okP_iso[OF proc_freepagetable_wk]

lemmas mem_ops [iso_rules] = okP_iso[OF mem_wk(1)] okP_iso2[OF mem_wk(2)] okP_iso2[OF mem_wk(6)] okP_iso2[OF mem_wk(9)] okP_iso3[OF mem_wk(10)]
  okP_iso2[OF mem_wk(11)] okP_iso2[OF mem_wk(12)] okP_iso2[OF mem_wk(13)] okP_iso2[OF mem_wk(14)] okP_iso2[OF mem_wk(15)]

lemma filedup_iso [iso_rules]: "isol T (tk s) \<Longrightarrow> okP (\<lambda>t. isol T (tk t)) (filedup f s)"
  by (simp add: filedup_def panic_if_def)

lemma filestat_iso [iso_rules]: "isol T (tk s) \<Longrightarrow> okP (\<lambda>(r, t). isol T (tk t)) (filestat pad i a s)"
  unfolding filestat_def by (rule iso_rules frame_rules | assumption | simp)+

lemma tk_pipe [simp]: "tk (pipe_put pi bs s) = tk s" "tk (pipe_next pi s) = tk s"
  by (simp_all add: pipe_put_def pipe_next_def pi_set_def Let_def)

lemma pipewrite_iso [iso_rules]: "isol T (tk s) \<Longrightarrow> okP (\<lambda>(r, t). isol T (tk t)) (pipewrite pi a n i s)"
proof (induction pi a n i s rule: pipewrite.induct)
  case (1 pi a n i s)
  show ?case by (subst pipewrite.simps) (rule iso_rules frame_rules | rule "1.prems" "1.IH" | assumption | simp)+
qed

lemma piperead_iso [iso_rules]: "isol T (tk s) \<Longrightarrow> okP (\<lambda>(r, t). isol T (tk t)) (piperead pi a n s)"
proof -
  have "isol T (tk s) \<Longrightarrow> okP (\<lambda>(r, t). isol T (tk t)) (piperead_copy pi a n i s)" for i
  proof (induction pi a n i s rule: piperead_copy.induct)
    case (1 pi a n i s)
    show ?case by (subst piperead_copy.simps) (rule iso_rules frame_rules | rule "1.prems" "1.IH" | assumption | simp)+
  qed
  note c = this
  show "isol T (tk s) \<Longrightarrow> ?thesis" unfolding piperead_def by (rule c iso_rules frame_rules | assumption | simp)+
qed

lemma consoleread_iso [iso_rules]: "isol T (tk s) \<Longrightarrow> okP (\<lambda>(r, d, t). isol T (tk t)) (consoleread dst n s)"
proof -
  have "isol T (tk s) \<Longrightarrow> okP (\<lambda>(r, d, t). isol T (tk t)) (consoleread_loop dst m k s)" for m k
  proof (induction dst m k s rule: consoleread_loop.induct)
    case (1 dst m k s)
    show ?case by (subst consoleread_loop.simps) (rule iso_rules frame_rules | rule "1.prems" "1.IH" | assumption | simp)+
  qed
  then show "isol T (tk s) \<Longrightarrow> ?thesis" by (simp add: consoleread_def)
qed

lemma fileread_mem_iso [iso_rules]: "isol T (tk s) \<Longrightarrow> okP (\<lambda>(r, t). isol T (tk t)) (fileread_mem i m a n s)"
  unfolding fileread_mem_def by (rule iso_rules frame_rules | assumption | simp)+

lemma filewrite_mem_iso [iso_rules]: "isol T (tk s) \<Longrightarrow> okP (\<lambda>(r, t). isol T (tk t)) (filewrite_mem i m a n s)"
  unfolding filewrite_mem_def Let_def by (rule okP_bnd2[where Q = "\<lambda>a t. isol T (tk t)"] iso_rules frame_rules | assumption | simp)+

lemma filewrite_loop_iso [iso_rules]: "isol T (tk s) \<Longrightarrow> okP (\<lambda>(r, t). isol T (tk t)) (filewrite_loop f ip a n i s)"
proof (induction f ip a n i s rule: filewrite_loop.induct)
  case (1 f ip a n i s)
  show ?case by (subst filewrite_loop.simps) (rule iso_rules frame_rules | rule "1.prems" "1.IH" | assumption | simp)+
qed

lemma okP_fdtype [iso_rules]:
  "okP P a \<Longrightarrow> okP P b \<Longrightarrow> okP P c \<Longrightarrow> okP P d \<Longrightarrow> okP P e \<Longrightarrow>
     okP P (case x of FD_NONE \<Rightarrow> a | FD_PIPE \<Rightarrow> b | FD_INODE \<Rightarrow> c | FD_DEVICE \<Rightarrow> d | FD_MEM \<Rightarrow> e)"
  by (cases x) auto

lemma okP_dev [iso_rules]: "okP P a \<Longrightarrow> okP P (case x of ConsoleDev \<Rightarrow> a)"
  by (cases x) auto

lemma fileread_iso [iso_rules]: "isol T (tk s) \<Longrightarrow> okP (\<lambda>(r, t). isol T (tk t)) (fileread i a n s)"
  unfolding fileread_def Let_def by (rule iso_rules frame_rules | assumption | simp)+

lemma filewrite_iso [iso_rules]: "isol T (tk s) \<Longrightarrow> okP (\<lambda>(r, t). isol T (tk t)) (filewrite i a n s)"
  unfolding filewrite_def Let_def by (rule iso_rules frame_rules | assumption | simp)+

section \<open>Calls on files\<close>

lemma end_with_iso [iso_rules]: "isol T (tk s) \<Longrightarrow> okP (\<lambda>(r, t). isol T (tk t)) (end_with k s)"
  unfolding end_with_def by (rule iso_rules frame_rules | assumption | simp)+

lemma add_nlink_iso [iso_rules]: "isol T (tk s) \<Longrightarrow> okP (\<lambda>t. isol T (tk t)) (add_nlink i d s)"
  unfolding add_nlink_def by (rule iso_rules frame_rules | assumption | simp)+

lemma sys_link_iso [iso_rules]: "isol T (tk s) \<Longrightarrow> okP (\<lambda>(r, t). isol T (tk t)) (sys_link s)"
  unfolding sys_link_def sys_link_bad_def
  by (rule okP_bnd2[where Q = "\<lambda>a t. isol T (tk t)" and m = "if c then x else y" for c x y] iso_rules frame_rules | assumption | simp)+

lemma isdirempty_iso [iso_rules]: "isol T (tk s) \<Longrightarrow> okP (\<lambda>(r, t). isol T (tk t)) (isdirempty dp s)"
proof -
  have "isol T (tk s) \<Longrightarrow> okP (\<lambda>(r, t). isol T (tk t)) (isdirempty_scan dp offs s)" for offs
  proof (induction offs arbitrary: s)
    case (Cons off offs)
    show ?case unfolding isdirempty_scan.simps by (rule Cons.IH iso_rules frame_rules | rule Cons.prems | assumption | simp)+
  qed simp
  then show "isol T (tk s) \<Longrightarrow> ?thesis" by (simp add: isdirempty_def)
qed

lemma sys_unlink_bad_iso [iso_rules]: "isol T (tk s) \<Longrightarrow> okP (\<lambda>(r, t). isol T (tk t)) (sys_unlink_bad dp s)"
  unfolding sys_unlink_bad_def by (rule iso_rules frame_rules | assumption | simp)+

lemma unlink_found_iso [iso_rules]: "isol T (tk s) \<Longrightarrow> okP (\<lambda>(r, t). isol T (tk t)) (unlink_found dp ip off s)"
  unfolding unlink_found_def
  by (rule okP_bnd2[where Q = "\<lambda>a t. isol T (tk t)" and m = "if c then x else y" for c x y]
      okP_bnd[where Q = "\<lambda>t. isol T (tk t)" and m = "if c then x else y" for c x y] iso_rules frame_rules | assumption | simp)+

lemma sys_unlink_iso [iso_rules]: "isol T (tk s) \<Longrightarrow> okP (\<lambda>(r, t). isol T (tk t)) (sys_unlink s)"
  unfolding sys_unlink_def by (rule iso_rules frame_rules | assumption | simp)+

lemma create_fail_iso [iso_rules]: "isol T (tk s) \<Longrightarrow> okP (\<lambda>(r, t). isol T (tk t)) (create_fail dp ip s)"
  unfolding create_fail_def by (rule iso_rules frame_rules | assumption | simp)+

lemma create_link_iso [iso_rules]: "isol T (tk s) \<Longrightarrow> okP (\<lambda>(r, t). isol T (tk t)) (create_link dp ip name ty s)"
  unfolding create_link_def
  by (rule okP_bnd2[where Q = "\<lambda>a t. isol T (tk t)" and m = "if c then x else y" for c x y]
      okP_bnd[where Q = "\<lambda>t. isol T (tk t)" and m = "if c then x else y" for c x y] iso_rules frame_rules | assumption | simp)+

lemma create_iso [iso_rules]: "isol T (tk s) \<Longrightarrow> okP (\<lambda>(r, t). isol T (tk t)) (create pth ty maj mnr s)"
  unfolding create_def by (rule iso_rules frame_rules | assumption | simp)+

lemma fdalloc_iso: "isol T (tk s) \<Longrightarrow> isol T (tk (snd (fdalloc f s)))"
  by (simp add: fdalloc_def iso_upd_cur split: option.splits)

lemma filealloc_tk [simp]: "tk (snd (filealloc s)) = tk s"
  by (simp add: filealloc_def split: option.splits)

lemma clear_fd_iso [iso_rules]: "isol T (tk s) \<Longrightarrow> isol T (tk (clear_fd fd s))"
  unfolding clear_fd_def by (rule iso_upd_cur)

text \<open>Allocations that return a pair.\<close>

lemma okP_fdalloc [iso_rules]: "isol T (tk s) \<Longrightarrow> (\<And>fd t. isol T (tk t) \<Longrightarrow> okP P (g fd t)) \<Longrightarrow> okP P (case fdalloc f s of (fd, t) \<Rightarrow> g fd t)"
  using fdalloc_iso[of T s f] by (cases "fdalloc f s") simp

lemma okP_filealloc [iso_rules]:
  assumes "isol T (tk s)" "\<And>t. isol T (tk t) \<Longrightarrow> okP P (g None t)" "\<And>f t. isol T (tk t) \<Longrightarrow> okP P (g (Some f) t)"
  shows "okP P (case filealloc s of (None, t) \<Rightarrow> g None t | (Some f, t) \<Rightarrow> g (Some f) t)"
  using assms filealloc_tk[of s] by (cases "filealloc s"; cases "fst (filealloc s)") auto

lemma okP_filealloc2 [iso_rules]:
  assumes "isol T (tk s)" "\<And>t. isol T (tk t) \<Longrightarrow> okP P (a t)" "\<And>f t. isol T (tk t) \<Longrightarrow> okP P (b f t)"
  shows "okP P (case filealloc s of (None, t) \<Rightarrow> a t | (Some f, t) \<Rightarrow> b f t)"
  using assms filealloc_tk[of s] by (cases "filealloc s"; cases "fst (filealloc s)") auto

lemma sys_dup_iso [iso_rules]: "isol T (tk s) \<Longrightarrow> okP (\<lambda>(r, t). isol T (tk t)) (sys_dup s)"
  unfolding sys_dup_def Let_def by (rule iso_rules frame_rules | assumption | simp)+

lemma sys_rw_iso [iso_rules]: "isol T (tk s) \<Longrightarrow> okP (\<lambda>(r, t). isol T (tk t)) (sys_read s)" "isol T (tk s) \<Longrightarrow> okP (\<lambda>(r, t). isol T (tk t)) (sys_write s)"
  "isol T (tk s) \<Longrightarrow> okP (\<lambda>(r, t). isol T (tk t)) (sys_close s)" "isol T (tk s) \<Longrightarrow> okP (\<lambda>(r, t). isol T (tk t)) (sys_fstat pad s)"
  unfolding sys_read_def sys_write_def sys_close_def sys_fstat_def by (rule iso_rules frame_rules | assumption | simp)+

lemma open_inode_iso [iso_rules]: "isol T (tk s) \<Longrightarrow> okP (\<lambda>(r, t). isol T (tk t)) (open_inode p om s)"
  unfolding open_inode_def by (rule iso_rules frame_rules | assumption | simp)+

lemma open_fd_iso [iso_rules]: "isol T (tk s) \<Longrightarrow> okP (\<lambda>(r, t). isol T (tk t)) (open_fd s)"
  unfolding open_fd_def Let_def by (rule iso_rules frame_rules | assumption | simp)+

lemma sys_open_iso [iso_rules]: "isol T (tk s) \<Longrightarrow> okP (\<lambda>(r, t). isol T (tk t)) (sys_open s)"
  unfolding sys_open_def Let_def
  by (rule okP_bnd[where Q = "\<lambda>t. isol T (tk t)" and m = "if c then x else y" for c x y] iso_rules frame_rules | assumption | simp)+

lemma put_end_iso [iso_rules]: "isol T (tk s) \<Longrightarrow> okP (\<lambda>(r, t). isol T (tk t)) (put_end r s)"
  unfolding put_end_def by (rule iso_rules frame_rules | assumption | simp)+

lemma sys_make_iso [iso_rules]: "isol T (tk s) \<Longrightarrow> okP (\<lambda>(r, t). isol T (tk t)) (sys_mkdir s)" "isol T (tk s) \<Longrightarrow> okP (\<lambda>(r, t). isol T (tk t)) (sys_mknod s)"
  "isol T (tk s) \<Longrightarrow> okP (\<lambda>(r, t). isol T (tk t)) (sys_chdir s)"
  unfolding sys_mkdir_def sys_mknod_def sys_chdir_def by (rule iso_rules frame_rules | assumption | simp)+

section \<open>Programs, pipes, in-memory files\<close>

lemma fetchaddr_iso [iso_rules]: "isol T (tk s) \<Longrightarrow> okP (\<lambda>(r, t). isol T (tk t)) (fetchaddr a s)"
  unfolding fetchaddr_def by (rule iso_rules frame_rules | assumption | simp)+

lemma exec_args_iso [iso_rules]: "isol T (tk s) \<Longrightarrow> okP (\<lambda>(ok, as, t). isol T (tk t)) (exec_args n u as s)"
proof (induction n arbitrary: "as" s)
  case (Suc n)
  show ?case unfolding exec_args.simps by (rule Suc.IH iso_rules frame_rules | rule Suc.prems | assumption | simp)+
qed simp

lemma kexec_bad_iso [iso_rules]: "isol T (tk s) \<Longrightarrow> okP (\<lambda>(r, t). isol T (tk t)) (kexec_bad pt sz ip s)"
  unfolding kexec_bad_def by (rule okP_bnd[where Q = "\<lambda>t. isol T (tk t)"] iso_rules frame_rules | assumption | simp)+

lemma tf_set_iso [iso_rules]: "isol T (tk s) \<Longrightarrow> isol T (tk (tf_set f v s))"
  by (simp add: tf_set_def)

lemma kexec_iso [iso_rules]: "isol T (tk s) \<Longrightarrow> okP (\<lambda>(r, t). isol T (tk t)) (kexec p argv s)"
  unfolding kexec_def kexec_commit_def Let_def
  by (rule okP_iso2[OF push_args_wk] okP_iso3[OF load_phs_wk] okP_iso2[OF read_struct_wk] okP_iso[OF mem_wk(8)] iso_rules frame_rules | assumption | simp)+

lemma sys_exec_iso [iso_rules]: "isol T (tk s) \<Longrightarrow> okP (\<lambda>(r, t). isol T (tk t)) (sys_exec s)"
  unfolding sys_exec_def
  by (rule okP_bnd2[where Q = "\<lambda>a t. isol T (tk t)" and m = "if c then x else y" for c x y] okP_for iso_rules frame_rules | assumption | simp)+

lemma memfile_create_iso [iso_rules]: "isol T (tk s) \<Longrightarrow> okP (\<lambda>(r, t). isol T (tk t)) (memfile_create s)"
  unfolding memfile_create_def Let_def by (rule iso_rules frame_rules | assumption | simp)+

lemma sys_mem_iso [iso_rules]: "isol T (tk s) \<Longrightarrow> okP (\<lambda>(r, t). isol T (tk t)) (sys_memcreate s)" "isol T (tk s) \<Longrightarrow> okP (\<lambda>(r, t). isol T (tk t)) (sys_memdelete s)"
  unfolding sys_memcreate_def sys_memdelete_def Let_def
  by (rule iso_rules frame_rules | assumption | simp add: memfile_delete_def split: option.splits)+

lemma close_opt_iso [iso_rules]: "isol T (tk s) \<Longrightarrow> okP (\<lambda>t. isol T (tk t)) (close_opt f s)"
  unfolding close_opt_def by (rule iso_rules frame_rules | assumption | simp)+

lemma pipealloc_iso [iso_rules]: "isol T (tk s) \<Longrightarrow> okP (\<lambda>(r, t). isol T (tk t)) (pipealloc s)"
proof -
  assume s: "isol T (tk s)"
  obtain f0 s1 f1 s2 where f: "filealloc s = (f0, s1)" "(if f0 = None then (None, s1) else filealloc s1) = (f1, s2)" by (metis surj_pair)
  have "isol T (tk s1)" using s filealloc_tk[of s] f(1) by simp
  then have s2: "isol T (tk s2)" using filealloc_tk[of s1] f(2) by (cases "f0 = None") (auto simp del: filealloc_tk)
  have bad: "isol T (tk u) \<Longrightarrow> okP (\<lambda>(r, t). isol T (tk t)) (bnd (close_opt f0 u) (\<lambda>s. bnd (close_opt f1 s) (\<lambda>s. Ok (None, s))))" for u
    by (rule iso_rules frame_rules | assumption | simp)+
  show ?thesis unfolding pipealloc_def f(1) f(2) Let_def prod.case
    using s2 by (cases f0; cases f1; simp) (rule bad iso_rules frame_rules | assumption | simp add: bad)+
qed

lemma sys_pipe_iso [iso_rules]: "isol T (tk s) \<Longrightarrow> okP (\<lambda>(r, t). isol T (tk t)) (sys_pipe s)"
proof -
  have bad: "isol T (tk u) \<Longrightarrow> okP (\<lambda>(r, t). isol T (tk t)) (bnd (fileclose a u) (\<lambda>s. bnd (fileclose b s) (\<lambda>s. Ok (- 1, s))))" for a b and u :: "'a kernel_scheme"
    by (rule iso_rules frame_rules | assumption | simp)+
  have pr: "isol T (tk u) \<Longrightarrow> (\<And>fd t. isol T (tk t) \<Longrightarrow> okP P (g fd t)) \<Longrightarrow> okP P (case if c then (- 1, u) else fdalloc f u of (fd, t) \<Rightarrow> g fd t)"
    for P g c f and u :: "'a kernel_scheme" by (simp add: okP_fdalloc)
  show "isol T (tk s) \<Longrightarrow> ?thesis" unfolding sys_pipe_def Let_def
    by (rule bad pr okP_bnd2[where Q = "\<lambda>a t. isol T (tk t)" and m = "if c then x else y" for c x y] iso_rules frame_rules | assumption | simp)+
qed

section \<open>Processes\<close>

lemma iso_mine: "isol T (tk s) \<Longrightarrow> mine T i \<Longrightarrow> isol T (tk (s\<lparr>procs := (procs s)[i := f (procs s ! i)]\<rparr>))"
  using iso_upd[of T s i f] by (simp add: upd_proc_def)

lemma iso_for:
  assumes "\<And>i s. isol T (tk s) \<Longrightarrow> okP (\<lambda>t. isol T (tk t)) (f i s)" "isol T (tk s)"
  shows "okP (\<lambda>t. isol T (tk t)) (for_res is f s)"
  by (rule okP_for[of "is" "\<lambda>t. isol T (tk t)" f]) (use assms in auto)

lemma iso_spared:
  assumes "isol T (tk s)" "spared (cur s) (initproc s) (procs s ! i) q"
  shows "isol T (tk (s\<lparr>procs := (procs s)[i := q]\<rparr>))"
proof (rule iso_trans[OF assms(1)])
  have "spared (cur s) (initproc s) (procs s ! j) ((procs s)[i := q] ! j)" if "j < length (procs s)" for j
    using assms(2) that by (cases "j = i") (auto simp: spared_refl)
  then show "isol (tk s) (tk (s\<lparr>procs := (procs s)[i := q]\<rparr>))" by (simp add: isol_def tk_def)
qed

lemma find_unused_slot: "find_unused ps j = Some i \<Longrightarrow> i < length ps \<and> pstate (ps ! i) = UNUSED"
  by (induction ps j rule: find_unused.induct) (subst (asm) (2) find_unused.simps, simp split: if_splits)

lemma freeproc_iso: "isol T (tk s) \<Longrightarrow> mine T i \<Longrightarrow> okP (\<lambda>t. isol T (tk t)) (freeproc i s)"
  unfolding freeproc_def Let_def
  by (rule iso_upd okP_bnd[where Q = "\<lambda>t. isol T (tk t)" and m = "if c then x else y" for c x y] iso_rules frame_rules | assumption | simp)+

lemma allocproc_iso:
  assumes s: "isol T (tk s)"
  shows "okP (\<lambda>(r, t). isol T (tk t) \<and> (\<forall>i. r = Some i \<longrightarrow> mine T i)) (allocproc s)"
proof (cases "find_unused (procs s) 0")
  case None
  then show ?thesis using s by (simp add: allocproc_def)
next
  case (Some i)
  then have i: "mine T i" using iso_slot[OF s] find_unused_slot by blast
  have none: "okP (\<lambda>(r, t). isol T (tk t) \<and> (\<forall>i. r = Some i \<longrightarrow> mine T i)) (bnd (freeproc i u) (\<lambda>s. Ok (None, s)))"
    if "isol T (tk u)" for u by (rule okP_bnd[OF freeproc_iso[OF that i]]) simp
  have "isol T (tk (snd (allocpid s)))" using s by (simp add: allocpid_def tk_def)
  then show ?thesis unfolding allocproc_def Some option.case Let_def allocpid_def prod.case snd_conv
    by - (rule none i iso_upd iso_rules frame_rules | assumption | simp add: i)+
qed

lemma fork_file_iso: "isol T (tk s) \<Longrightarrow> mine T np \<Longrightarrow> okP (\<lambda>t. isol T (tk t)) (fork_file np fd s)"
  unfolding fork_file_def by (rule iso_upd iso_rules frame_rules | assumption | simp)+

lemma kfork_iso [iso_rules]:
  assumes s: "isol T (tk s)"
  shows "okP (\<lambda>(r, t). isol T (tk t)) (kfork s)"
proof -
  have np: "\<forall>i. r = Some i \<longrightarrow> mine T i \<Longrightarrow> r = Some np \<Longrightarrow> mine T np" for r np by blast
  show ?thesis unfolding kfork_def Let_def runnable_tbl_def
    by (rule okP_bnd2[OF allocproc_iso[OF s]], elim conjE)
      (rule np freeproc_iso iso_for fork_file_iso iso_mine iso_upd iso_rules frame_rules | assumption | simp only: tk_ram tk_fs okP_simps split)+
qed

lemma exit_file_iso: "isol T (tk s) \<Longrightarrow> okP (\<lambda>t. isol T (tk t)) (exit_file fd s)"
  unfolding exit_file_def by (rule iso_rules frame_rules | assumption | simp)+

lemma reparent_iso: "isol T (tk s) \<Longrightarrow> isol T (tk (reparent (cur s) s))"
proof -
  have step: "isol T (tk (wakeup (ChanProc (initproc s)) (upd_proc i (\<lambda>q. q\<lparr>parent := Some (initproc s)\<rparr>) s)))"
    if a: "isol T (tk s)" "parent (procs s ! i) = Some (cur s)" for i and s :: "'a ktask_scheme"
  proof (rule iso_wakeup)
    have "spared (cur s) (initproc s) (procs s ! i) ((procs s ! i)\<lparr>parent := Some (initproc s)\<rparr>)"
      using a(2) by (intro sparedI[where st = "pstate (procs s ! i)" and k = "killed (procs s ! i)" and pa = "Some (initproc s)"]) simp_all
    then show "isol T (tk (upd_proc i (\<lambda>q. q\<lparr>parent := Some (initproc s)\<rparr>) s))"
      unfolding upd_proc_def by (rule iso_spared[OF a(1)])
  qed
  have "isol T (tk s) \<Longrightarrow> cur s = c \<Longrightarrow> isol T (tk (fold (\<lambda>i s. if parent (procs s ! i) = Some c
      then wakeup (ChanProc (initproc s)) (upd_proc i (\<lambda>q. q\<lparr>parent := Some (initproc s)\<rparr>) s) else s) is s))" for c "is"
  proof (induction "is" arbitrary: s)
    case (Cons i "is")
    then show ?case using step[of s i] by (simp add: wakeup_def upd_proc_def)
  qed simp
  then show "isol T (tk s) \<Longrightarrow> ?thesis" unfolding reparent_def by blast
qed

lemma reparent_cur_iso: "isol T (tk s) \<Longrightarrow> isol T (tk (reparent (cur s) (upd_proc (cur s) f s)))"
  using reparent_iso[OF iso_upd_cur[of T s f]] by (simp add: upd_proc_def)

lemma kexit_iso [iso_rules]: "isol T (tk s) \<Longrightarrow> okP (\<lambda>t. isol T (tk t)) (kexit status s)"
  unfolding kexit_def Let_def zombie_tbl_def
  by (rule iso_for exit_file_iso iso_mine[OF _ iso_cur] reparent_cur_iso iso_rules frame_rules | assumption | simp)+

lemma kwait_scan_iso [iso_rules]: "isol T (tk s) \<Longrightarrow> \<forall>i \<in> set is. i < length (procs s) \<Longrightarrow> okP (\<lambda>(r, h, t). isol T (tk t)) (kwait_scan a is hk s)"
proof (induction "is" arbitrary: hk)
  case (Cons i "is")
  have m: "parent (procs s ! i) = Some (cur s) \<Longrightarrow> pstate (procs s ! i) = ZOMBIE \<Longrightarrow> mine T i" using iso_slot[OF Cons.prems(1), of i] Cons.prems(2) by simp
  have r: "okP (\<lambda>(r, h, t). isol T (tk t)) (kwait_scan a is h s)" for h using Cons by simp
  show ?case unfolding kwait_scan.simps Let_def
    by (rule r okP_bnd2[where Q = "\<lambda>a t. isol T (tk t)" and m = "if c then x else y" for c x y] freeproc_iso iso_rules frame_rules | rule Cons.prems(1) m | assumption | simp)+
qed simp

lemma kwait_iso [iso_rules]: "isol T (tk s) \<Longrightarrow> okP (\<lambda>(r, t). isol T (tk t)) (kwait a s)"
  unfolding kwait_def by (rule iso_rules frame_rules | assumption | simp)+

lemma growproc_iso [iso_rules]: "isol T (tk s) \<Longrightarrow> okP (\<lambda>(r, t). isol T (tk t)) (growproc n s)"
  unfolding growproc_def Let_def by (rule iso_rules frame_rules | assumption | simp)+

lemma find_pid_slot: "find_pid pd ps j = Some i \<Longrightarrow> i < length ps"
  by (induction pd ps j rule: find_pid.induct) (subst (asm) (2) find_pid.simps, simp split: if_splits)

lemma kkill_iso: "isol T (tk s) \<Longrightarrow> isol T (tk (snd (kkill pd s)))"
proof -
  have k: "spared c ip p (kill_proc p)" for c ip p
    by (rule sparedI[where st = "if pstate p = SLEEPING then RUNNABLE else pstate p" and k = 1 and pa = "parent p"]) (auto simp: kill_proc_def Let_def)
  show "isol T (tk s) \<Longrightarrow> ?thesis"
    by (simp add: kkill_def kkill_tbl_def iso_spared k split: option.split)
qed

lemma sys_proc_iso [iso_rules]: 
  "isol T (tk s) \<Longrightarrow> okP (\<lambda>(r, t). isol T (tk t)) (sys_fork s)" "isol T (tk s) \<Longrightarrow> okP (\<lambda>t. isol T (tk t)) (sys_exit s)"
  "isol T (tk s) \<Longrightarrow> okP (\<lambda>(r, t). isol T (tk t)) (sys_wait s)" "isol T (tk s) \<Longrightarrow> okP (\<lambda>(r, t). isol T (tk t)) (sys_sbrk s)"
  "isol T (tk s) \<Longrightarrow> okP (\<lambda>(r, t). isol T (tk t)) (sys_pause s)" "isol T (tk s) \<Longrightarrow> okP (\<lambda>(r, t). isol T (tk t)) (sys_kill s)"
  "isol T (tk s) \<Longrightarrow> okP (\<lambda>(r, t). isol T (tk t)) (sys_syslogread s)"
  unfolding sys_fork_def sys_exit_def sys_wait_def sys_sbrk_def sys_pause_def sys_kill_def sys_syslogread_def pause_check_def Let_def
  by (rule iso_rules frame_rules | assumption | simp add: kkill_iso[unfolded split_def] split_def iso_sleep)+

section \<open>The dispatcher\<close>

lemma okP_ret_of: "okP (\<lambda>(r, t). isol T (tk t)) m \<Longrightarrow> okP (\<lambda>(r, t). isol T (tk t)) (ret_of m)" "okP (\<lambda>(r, t). isol T (tk t)) n \<Longrightarrow> okP (\<lambda>(r, t). isol T (tk t)) (io_of n)"
  unfolding ret_of_def io_of_def by (rule okP_bnd2, assumption, simp)+

lemma syscalls_iso:
  fixes s :: "'z kernel_scheme"
  assumes s: "isol T (tk s)"
  shows "case syscalls pad num of None \<Rightarrow> True | Some f \<Rightarrow> okP (\<lambda>(r, t). isol T (tk t)) (f s)"
proof -
  define C where "C = (\<lambda>x :: ('z kernel_scheme \<Rightarrow> (io option \<times> 'z kernel_scheme) res) option. case x of None \<Rightarrow> True | Some f \<Rightarrow> okP (\<lambda>(r, t). isol T (tk t)) (f s))"
  have b: "C a \<Longrightarrow> C b \<Longrightarrow> C (if c then a else b)" for a b c by simp
  have f: "okP (\<lambda>(r, t). isol T (tk t)) (f s) \<Longrightarrow> C (Some f)" "C None" for f by (simp_all add: C_def)
  have "C (syscalls pad num)" unfolding syscalls_def
    by (rule b f okP_ret_of okP_bnd[OF sys_proc_iso(2)] iso_rules s | simp add: s)+
  then show ?thesis by (simp add: C_def)
qed

lemma syscall_iso:
  fixes s :: "'z kernel_scheme"
  assumes s: "isol T (tk s)"
  shows "okP (\<lambda>(r, t). isol T (tk t)) (syscall pad s)"
  unfolding syscall_def Let_def
proof (rule okP_option)
  show "okP (\<lambda>(r, t). isol T (tk t)) (bnd (printf f ap s) (\<lambda>s. Ok (Some (Ret (- 1)), tf_set tf_a0 (- 1) s)))" for f ap
    by (rule okP_bnd[OF okP_iso[OF printf_wk s]]) simp_all
next
  fix f :: "'z kernel_scheme \<Rightarrow> (io option \<times> 'z kernel_scheme) res"
  assume "syscalls pad (sint (ucast (tf_get tf_a7 s) :: u32)) = Some f"
  then have "okP (\<lambda>(r, t). isol T (tk t)) (f s)" using syscalls_iso[OF s, of pad "sint (ucast (tf_get tf_a7 s) :: u32)"] by simp
  then show "okP (\<lambda>(r, t). isol T (tk t)) (bnd (f s) (\<lambda>(r, s). case r of Some (Ret v) \<Rightarrow> Ok (r, tf_set tf_a0 (of_int v) s) | _ \<Rightarrow> Ok (r, s)))"
    by (rule okP_bnd2) (simp split: option.splits io.splits)
qed

text \<open>C6: A system call of one process spares the records of the others. Whatever the call number and the arguments, if the call comes back
  then the current process and the size of the table are the same, and every other live process that is not a zombie child of the caller
  keeps its page table, its size, its trap frame, its open files, its working directory, its pid and everything else of its record, except that it
  may have been woken from a sleep, marked as killed, or, if the caller was its parent, handed over to \<^verbatim>\<open>init\<close>.\<close>

theorem syscall_spares_others:
  fixes s s' :: "'z kernel_scheme"
  assumes "syscall pad s = Ok (r, s')" "j < length (procs s)" "j \<noteq> cur s" "pstate (procs s ! j) \<noteq> UNUSED"
    and "\<not> (pstate (procs s ! j) = ZOMBIE \<and> parent (procs s ! j) = Some (cur s))"
  shows "cur s' = cur s \<and> initproc s' = initproc s \<and> length (procs s') = length (procs s) \<and>
    (let p = procs s ! j; q = procs s' ! j in
       q = p\<lparr>pstate := pstate q, killed := killed q, parent := parent q\<rparr> \<and>
       (pstate q = pstate p \<or> pstate p = SLEEPING \<and> pstate q = RUNNABLE) \<and> (killed q = killed p \<or> killed q = 1) \<and>
       (parent q = parent p \<or> parent p = Some (cur s) \<and> parent q = Some (initproc s)))"
proof -
  have i: "isol (tk s) (tk s')" using okP_D[OF syscall_iso[OF iso_refl] assms(1)] by simp
  then have "spared (cur s) (initproc s) (procs s ! j) (procs s' ! j)" using assms(2-5) by (auto simp: isol_def tk_def mine_def)
  then obtain st k pa where q: "procs s' ! j = (procs s ! j)\<lparr>pstate := st, killed := k, parent := pa\<rparr>"
    "st = pstate (procs s ! j) \<or> pstate (procs s ! j) = SLEEPING \<and> st = RUNNABLE" "k = killed (procs s ! j) \<or> k = 1"
    "pa = parent (procs s ! j) \<or> parent (procs s ! j) = Some (cur s) \<and> pa = Some (initproc s)"
    unfolding spared_def by blast
  then show ?thesis using i by (simp add: Let_def isol_def tk_def)
qed

definition ex_killer :: kernel where
  "ex_killer = ex_waiting\<lparr>ram := store64 (store64 (ram ex_waiting) tf_a7 6) tf_a0 1\<rparr>"

lemma ex_killer_sel: "procs ex_killer = procs ex_waiting" "cur ex_killer = 1" "tf_get tf_a0 ex_killer = 1" "tf_get tf_a7 ex_killer = 6"
proof -
  show p: "procs ex_killer = procs ex_waiting" "cur ex_killer = 1" by (simp_all add: ex_killer_def)
  then have "trapframe (myproc ex_killer) = 0" by (simp add: myproc_def sleep_on_def sleep_tbl_def proc0_def)
  moreover have "apart tf_a0 8 tf_a7 8" by (simp add: apart_def tf_a0_def tf_a7_def)
  ultimately show "tf_get tf_a0 ex_killer = 1" "tf_get tf_a7 ex_killer = 6"
    by (simp_all add: tf_get_def ex_killer_def mem_simps)
qed

theorem syscall_spares_others_witness:
  "\<exists>s'. syscall [] ex_killer = Ok (Some (Ret 0), s') \<and> pstate (procs ex_killer ! 0) = SLEEPING \<and> procs s' ! 0 = (procs ex_killer ! 0)\<lparr>pstate := RUNNABLE, killed := 1\<rparr>"
proof -
  have q: "procs ex_killer ! 0 = proc0\<lparr>pstate := SLEEPING, pid := 1, cwd := Some 0, chan := ChanProc 0\<rparr>" "length (procs ex_killer) = 2"
    by (simp_all add: ex_killer_sel sleep_on_def sleep_tbl_def)
  let ?s = "snd (kkill 1 ex_killer)"
  let ?q = "procs (tf_set tf_a0 0 ?s) ! 0"
  have f: "find_pid 1 (procs ex_killer) 0 = Some 0" using q by (simp add: find_pid.simps)
  have "argint 0 ex_killer = Ok 1" by (simp add: argint_def argraw_def ex_killer_sel)
  then have e: "syscall [] ex_killer = Ok (Some (Ret 0), tf_set tf_a0 0 ?s)"
    by (simp add: syscall_def ex_killer_sel(2-4) syscalls_def ret_of_def sys_kill_def kkill_def kkill_tbl_def f)
  have p: "pstate ?q = RUNNABLE" "killed ?q = 1"
    using q by (simp_all add: tf_set_def kkill_def kkill_tbl_def f kill_proc_def Let_def)
  have "0 < length (procs ex_killer)" "0 \<noteq> cur ex_killer" "pstate (procs ex_killer ! 0) \<noteq> UNUSED"
    "\<not> (pstate (procs ex_killer ! 0) = ZOMBIE \<and> parent (procs ex_killer ! 0) = Some (cur ex_killer))"
    by (simp_all add: q ex_killer_sel(2))
  note c = syscall_spares_others[OF e this, unfolded Let_def]
  have r: "?q = (procs ex_killer ! 0)\<lparr>pstate := pstate ?q, killed := killed ?q, parent := parent ?q\<rparr>" using c by (elim conjE)
  have "parent ?q = None" using c[THEN conjunct2, THEN conjunct2, THEN conjunct2, THEN conjunct2] by (simp add: q(1) proc0_def)
  then have "?q = (procs ex_killer ! 0)\<lparr>pstate := RUNNABLE, killed := 1\<rparr>" using r[unfolded p] by (simp add: q(1) proc0_def)
  then show ?thesis using e q by (auto simp: proc0_def)
qed

end
