(* ===== verification/Pipe_Props.thy ===== *)
theory Pipe_Props
  imports File Ring Vm_Copy Kernel_Example
begin

text \<open>
  A pipe is a bounded queue of bytes: the ring buffer contract for the page of a pipe, and what \<open>pipewrite\<close> and
  \<open>piperead\<close> do to the queue and to the user memory of the caller.
\<close>

section \<open>The fields of a pipe\<close>

definition pipe_page :: "addr \<Rightarrow> bool" where
  "pipe_page pi \<longleftrightarrow> aligned pi \<and> unat pi + 4096 \<le> 2 ^ 64"

definition pipe_fill :: "addr \<Rightarrow> 'z kmem_scheme \<Rightarrow> nat" where
  "pipe_fill pi s = unat (pi_get pi_nwrite pi s - pi_get pi_nread pi s)"

definition pipe_cell :: "addr \<Rightarrow> 'z kmem_scheme \<Rightarrow> nat \<Rightarrow> u8" where
  "pipe_cell pi s k = ram s (pi + pi_data + of_nat k)"

definition pipe_bytes :: "addr \<Rightarrow> 'z kmem_scheme \<Rightarrow> u8 list" where
  "pipe_bytes pi s = ring_seq PIPESIZE (pipe_cell pi s) (unat (pi_get pi_nread pi s)) (pipe_fill pi s)"

abbreviation pipe_field :: "addr \<Rightarrow> bool" where
  "pipe_field f \<equiv> f = pi_nread \<or> f = pi_nwrite \<or> f = pi_readopen \<or> f = pi_writeopen"

lemma page_off: "pipe_page pi \<Longrightarrow> k < 4096 \<Longrightarrow> unat (pi + of_nat k) = unat pi + k"
  by (intro unat_add_of_nat) (simp add: pipe_page_def)

lemma field_num: "pipe_field f \<Longrightarrow> \<exists>k. f = of_nat k \<and> k \<in> {536, 540, 544, 548}"
  by (elim disjE) (simp add: kconst, (rule exI[of _ 536] exI[of _ 540] exI[of _ 544] exI[of _ 548]; simp))+

lemma pipe_fields_apart:
  assumes "pipe_page pi" "pipe_field f" "pipe_field g" "f \<noteq> g"
  shows "apart (pi + g) 4 (pi + f) 4"
proof -
  obtain j k where f: "f = of_nat j" "j \<in> {536, 540, 544, 548}" and g: "g = of_nat k" "k \<in> {536, 540, 544, 548}"
    using field_num assms(2,3) by metis
  have "j < 4096" "k < 4096" using f(2) g(2) by auto
  then have "unat (pi + f) = unat pi + j" "unat (pi + g) = unat pi + k" unfolding f(1) g(1) using page_off[OF assms(1)] by blast+
  moreover have "j \<noteq> k" using assms(4) f g by auto
  moreover have "unat pi + 4096 \<le> 2 ^ 64" using assms(1) by (simp add: pipe_page_def)
  ultimately show ?thesis using f(2) g(2) by (auto simp: apart_def)
qed

lemma pi_get_set: "pipe_page pi \<Longrightarrow> pipe_field f \<Longrightarrow> pipe_field g \<Longrightarrow> pi_get f pi (pi_set g pi v s) = (if f = g then v else pi_get f pi s)"
  using pipe_fields_apart[of pi f g] by (auto simp: pi_get_def pi_set_def mem_simps)

lemma data_apart:
  assumes "pipe_page pi" "k < PIPESIZE" "pipe_field f"
  shows "apart (pi + f) 4 (pi + pi_data + of_nat k) 1"
proof -
  obtain j where f: "f = of_nat j" "j \<in> {536, 540, 544, 548}" using field_num assms(3) by metis
  have "pi + pi_data + of_nat k = pi + of_nat (24 + k)" by (simp add: pi_data_def)
  moreover have "24 + k < 4096" using assms(2) by (simp add: PIPESIZE_def)
  ultimately have "unat (pi + pi_data + of_nat k) = unat pi + (24 + k)" using page_off[OF assms(1)] by metis
  moreover have "unat (pi + f) = unat pi + j" unfolding f(1) by (rule page_off[OF assms(1)]) (use f(2) in auto)
  moreover have "unat pi + 4096 \<le> 2 ^ 64" using assms(1) by (simp add: pipe_page_def)
  ultimately show ?thesis using f(2) assms(2) by (auto simp: apart_def PIPESIZE_def)
qed

lemma cell_set:
  assumes "pipe_page pi" "k < PIPESIZE" "pipe_field f"
  shows "pipe_cell pi (pi_set f pi v s) k = pipe_cell pi s k"
  using apart_byte[OF data_apart[OF assms], of 0] by (simp add: pipe_cell_def pi_set_def store32_def store_le_byte)

lemma field_poke:
  assumes "pipe_page pi" "k < PIPESIZE" "pipe_field f"
  shows "load32 (m(pi + pi_data + of_nat k := c)) (pi + f) = load32 m (pi + f)"
proof (rule load32_cong)
  fix i :: nat assume i: "i < 4"
  have "apart (pi + pi_data + of_nat k) 1 (pi + f) 4" using data_apart[OF assms] apart_sym by blast
  from apart_byte[OF this i] have "pi + f + of_nat i \<noteq> pi + pi_data + of_nat k" by (metis cancel_comm_monoid_add_class.diff_cancel unat_0 zero_less_one)
  then show "(m(pi + pi_data + of_nat k := c)) (pi + f + of_nat i) = m (pi + f + of_nat i)" by simp
qed

lemma cell_inj: "j < PIPESIZE \<Longrightarrow> k < PIPESIZE \<Longrightarrow> pi + pi_data + of_nat j = pi + pi_data + of_nat k \<longleftrightarrow> j = k"
  using of_nat_word_inj[where 'a = 64, of j k] by (auto simp: PIPESIZE_def)

lemma pipe_put_props:
  fixes s :: "'z kmem_scheme"
  assumes pg: "pipe_page pi"
  defines "w \<equiv> unat (pi_get pi_nwrite pi s) mod PIPESIZE"
  shows "pipe_field f \<Longrightarrow> pi_get f pi (pipe_put pi [c] s) = (if f = pi_nwrite then pi_get pi_nwrite pi s + 1 else pi_get f pi s)"
    "k < PIPESIZE \<Longrightarrow> pipe_cell pi (pipe_put pi [c] s) k = (if k = w then c else pipe_cell pi s k)"
proof -
  let ?s = "pi_set pi_nwrite pi (pi_get pi_nwrite pi s + 1) s"
  have w: "w < PIPESIZE" by (simp add: w_def PIPESIZE_def)
  have e: "ram (pipe_put pi [c] s) = (ram ?s)(pi + pi_data + of_nat w := c)" by (simp add: pipe_put_def w_def Let_def)
  show "pi_get f pi (pipe_put pi [c] s) = (if f = pi_nwrite then pi_get pi_nwrite pi s + 1 else pi_get f pi s)" if "pipe_field f"
  proof -
    have "pi_get f pi (pipe_put pi [c] s) = pi_get f pi ?s" unfolding pi_get_def e by (rule field_poke[OF pg w that])
    then show ?thesis using pi_get_set[OF pg that, of pi_nwrite _ s] by simp
  qed
  show "pipe_cell pi (pipe_put pi [c] s) k = (if k = w then c else pipe_cell pi s k)" if "k < PIPESIZE"
    using cell_inj[OF that w, of pi] cell_set[OF pg that, of pi_nwrite _ s] by (simp add: pipe_cell_def e)
qed

lemma pipe_next_props:
  assumes pg: "pipe_page pi"
  shows "pipe_field f \<Longrightarrow> pi_get f pi (pipe_next pi s) = (if f = pi_nread then pi_get pi_nread pi s + 1 else pi_get f pi s)"
    "k < PIPESIZE \<Longrightarrow> pipe_cell pi (pipe_next pi s) k = pipe_cell pi s k"
  using pi_get_set[OF pg, of f pi_nread _ s] cell_set[OF pg, of k pi_nread _ s] by (simp_all add: pipe_next_def)

lemma pipe_size: "PIPESIZE dvd 2 ^ 32" "PIPESIZE < 2 ^ 32" "0 < PIPESIZE"
  by (simp_all add: PIPESIZE_def)

lemma fields_differ: "pi_nread \<noteq> pi_nwrite" "pi_nwrite \<noteq> pi_nread"
  by (simp_all add: kconst)

interpretation pipe_ring: ring PIPESIZE "\<lambda>s. pipe_page pi" "\<lambda>s. unat (pi_get pi_nread pi s)" "pipe_fill pi" "pipe_cell pi"
  "\<lambda>c. pipe_put pi [c]" "pipe_next pi" for pi
proof
  show "0 < PIPESIZE" by (rule pipe_size)
next
  fix s :: "'z kmem_scheme" and c
  assume h: "pipe_page pi" "pipe_fill pi s < PIPESIZE"
  show "pipe_page pi \<and> pipe_fill pi (pipe_put pi [c] s) = Suc (pipe_fill pi s) \<and>
     unat (pi_get pi_nread pi (pipe_put pi [c] s)) mod PIPESIZE = unat (pi_get pi_nread pi s) mod PIPESIZE \<and>
     (\<forall>k<PIPESIZE. pipe_cell pi (pipe_put pi [c] s) k =
        (if k = (unat (pi_get pi_nread pi s) + pipe_fill pi s) mod PIPESIZE then c else pipe_cell pi s k))"
    using h counter_grow[OF h(2)[unfolded pipe_fill_def] pipe_size(2)]
      counter_at[OF pipe_size(1), of "pi_get pi_nwrite pi s" "pi_get pi_nread pi s"]
    by (simp add: pipe_put_props fields_differ pipe_fill_def)
next
  fix s :: "'z kmem_scheme"
  assume h: "pipe_page pi" "0 < pipe_fill pi s"
  show "pipe_page pi \<and> Suc (pipe_fill pi (pipe_next pi s)) = pipe_fill pi s \<and>
     unat (pi_get pi_nread pi (pipe_next pi s)) mod PIPESIZE = Suc (unat (pi_get pi_nread pi s)) mod PIPESIZE \<and>
     (\<forall>k<PIPESIZE. pipe_cell pi (pipe_next pi s) k = pipe_cell pi s k)"
    using h counter_shrink[OF h(2)[unfolded pipe_fill_def]] counter_next[OF pipe_size(1)]
    by (simp add: pipe_next_props fields_differ pipe_fill_def)
qed

section \<open>One byte of user memory\<close>

lemma page_rest: "va - PGROUNDDOWN va = of_nat (unat va mod 4096)"
proof -
  have "unat (va - PGROUNDDOWN va) = unat va mod 4096"
    by (subst unat_sub_le [OF PGROUNDDOWN_le]) (simp add: unat_PGROUNDDOWN minus_div_mult_eq_mod)
  moreover have "of_nat (unat (va - PGROUNDDOWN va)) = va - PGROUNDDOWN va" by simp
  ultimately show ?thesis by metis
qed

lemma copyin_one:
  assumes "aspace s root" "readable s root D va"
  shows "copyin_bytes root va 1 sz s = Ok (0, [user_byte (ram s) root va], s)"
proof -
  have "PTE2PA (pte_val (ram s) root va) \<noteq> 0" using assms(2) by (simp add: readable_def Let_def)
  moreover have "min 1 (unat (PGSIZE - (va - PGROUNDDOWN va))) = 1" using page_pos[of va] by simp
  ultimately show ?thesis
    using user_page_ok[OF assms, of sz]
    by (simp add: copyin_bytes.simps[of root va "Suc 0"] copyin_bytes.simps[of _ _ 0] Let_def page_rest user_byte_def peek_def)
qed

text \<open>A caller whose memory from \<open>va\<close> on is mapped, apart from the page of the pipe.\<close>

definition pipe_env :: "addr \<Rightarrow> addr \<Rightarrow> addr \<Rightarrow> nat \<Rightarrow> 'z kmem_scheme \<Rightarrow> bool" where
  "pipe_env pi root va n s \<longleftrightarrow> pipe_page pi \<and> aspace s root \<and> PA2IDX pi \<notin> free_of s \<union> tabs (ram s) root \<and>
     (\<forall>j < n. readable s root {PA2IDX pi} (va + of_nat j))"

lemma pipe_env_ram:
  assumes "pipe_env pi root va n s" "same_outside {PA2IDX pi} (ram s) m"
  shows "pipe_env pi root va n (s\<lparr>ram := m\<rparr>)" "j < n \<Longrightarrow> user_byte m root (va + of_nat j) = user_byte (ram s) root (va + of_nat j)"
proof -
  have d: "{PA2IDX pi} \<inter> (free_of s \<union> tabs (ram s) root) = {}" and a: "aspace s root" using assms(1) by (auto simp: pipe_env_def)
  note A = aspace_set_ram[OF a assms(2) d]
  show "pipe_env pi root va n (s\<lparr>ram := m\<rparr>)" using assms(1) A by (simp add: pipe_env_def readable_def)
  show "user_byte m root (va + of_nat j) = user_byte (ram s) root (va + of_nat j)" if "j < n"
  proof (rule user_byte_outside[OF assms(2)])
    show "{PA2IDX pi} \<inter> tabs (ram s) root = {}" using d by blast
    show "aligned root" by (rule aspace_aligned[OF a])
    show "PA2IDX (PTE2PA (pte_val (ram s) root (va + of_nat j))) \<notin> {PA2IDX pi}"
      using assms(1) that by (simp add: pipe_env_def readable_def Let_def)
  qed
qed

lemma store32_outside:
  assumes "pipe_page pi" "pipe_field f"
  shows "same_outside {PA2IDX pi} m (store32 m (pi + f) v)"
  unfolding same_outside_def
proof (intro allI impI)
  fix a assume a: "PA2IDX a \<notin> {PA2IDX pi}"
  obtain k where k: "f = of_nat k" "k \<in> {536, 540, 544, 548}" using field_num[OF assms(2)] by blast
  have "\<not> unat (a - (pi + f)) < 4"
  proof
    assume i: "unat (a - (pi + f)) < 4"
    have "a = pi + of_nat (k + unat (a - (pi + f)))" using k(1) by (simp add: algebra_simps)
    moreover have "k + unat (a - (pi + f)) < 4096" using i k(2) by auto
    ultimately have "PA2IDX a = PA2IDX pi" using byte_in_page assms(1) unfolding pipe_page_def by metis
    then show False using a by simp
  qed
  then show "store32 m (pi + f) v a = m a" by (simp add: store32_def store_le_byte)
qed

lemma pipe_put_form:
  assumes "pipe_page pi"
  shows "pipe_put pi [c] s = s\<lparr>ram := ram (pipe_put pi [c] s)\<rparr>" "same_outside {PA2IDX pi} (ram s) (ram (pipe_put pi [c] s))"
proof -
  let ?w = "unat (pi_get pi_nwrite pi s) mod PIPESIZE" and ?m = "store32 (ram s) (pi + pi_nwrite) (pi_get pi_nwrite pi s + 1)"
  have e: "ram (pipe_put pi [c] s) = ?m(pi + pi_data + of_nat ?w := c)" by (simp add: pipe_put_def pi_set_def Let_def)
  show "pipe_put pi [c] s = s\<lparr>ram := ram (pipe_put pi [c] s)\<rparr>" by (simp add: pipe_put_def pi_set_def Let_def)
  have "pi + pi_data + of_nat ?w = pi + of_nat (24 + ?w)" by (simp add: pi_data_def)
  moreover have "24 + ?w < 4096" by (simp add: PIPESIZE_def)
  ultimately have "PA2IDX (pi + pi_data + of_nat ?w) = PA2IDX pi" using byte_in_page assms unfolding pipe_page_def by metis
  then show "same_outside {PA2IDX pi} (ram s) (ram (pipe_put pi [c] s))"
    using store32_outside[OF assms, of pi_nwrite "ram s"] unfolding e same_outside_def by auto
qed

lemma pipe_next_form:
  assumes "pipe_page pi"
  shows "pipe_next pi s = s\<lparr>ram := ram (pipe_next pi s)\<rparr>" "same_outside {PA2IDX pi} (ram s) (ram (pipe_next pi s))"
  using store32_outside[OF assms, of pi_nread] by (simp_all add: pipe_next_def pi_set_def)

section \<open>Writing\<close>

definition user_bytes :: "memory \<Rightarrow> addr \<Rightarrow> addr \<Rightarrow> nat \<Rightarrow> nat \<Rightarrow> u8 list" where
  "user_bytes m root va i n = map (\<lambda>j. user_byte m root (va + of_nat j)) [i..<i + n]"

definition pipe_written :: "addr \<Rightarrow> addr \<Rightarrow> nat \<Rightarrow> nat \<Rightarrow> 'z kfile_scheme \<Rightarrow> io \<Rightarrow> 'z kfile_scheme \<Rightarrow> bool" where
  "pipe_written pi va n i s r s' \<longleftrightarrow> (let k = min (n - i) (PIPESIZE - pipe_fill pi s) in
     r = (if k = n - i then Ret (int n) else Wait (write_chan pi) (int (i + k))) \<and>
     pipe_bytes pi s' = pipe_bytes pi s @ user_bytes (ram s) (pagetable (myproc s)) va i k \<and>
     same_outside {PA2IDX pi} (ram s) (ram s') \<and>
     procs s' = procs (if k = n - i then wakeup (read_chan pi) s else sleep_on (write_chan pi) (wakeup (read_chan pi) s)))"

lemma pipe_bytes_procs [simp]: "pipe_bytes pi (s\<lparr>procs := ps\<rparr>) = pipe_bytes pi (s :: 'z ktask_scheme)" 
  by (simp add: pipe_bytes_def pipe_fill_def pipe_cell_def[abs_def] pi_get_def)

lemma pipewrite_ok:
  assumes "pipe_env pi (pagetable (myproc s)) va n s" "pipe_fill pi s \<le> PIPESIZE" "pi_get pi_readopen pi s \<noteq> 0" "\<not> is_killed (cur s) s" "i \<le> n"
  shows "\<exists>r s'. pipewrite pi va (int n) (int i) s = Ok (r, s') \<and> pipe_written pi va n i s r s'"
  using assms
proof (induction "n - i" arbitrary: i s)
  case 0
  then have "i = n" by simp
  then show ?case by (simp add: pipewrite.simps[of pi va "int n" "int n"] pipe_written_def Let_def user_bytes_def wakeup_def)
next
  case (Suc d)
  then have lt: "i < n" by simp
  let ?root = "pagetable (myproc s)"
  have pg: "pipe_page pi" and asp: "aspace s ?root" using Suc(3) by (simp_all add: pipe_env_def)
  show ?case
  proof (cases "pipe_fill pi s = PIPESIZE")
    case True
    then have "pi_get pi_nwrite pi s = pi_get pi_nread pi s + of_nat PIPESIZE"
    proof -
      have "of_nat (unat (pi_get pi_nwrite pi s - pi_get pi_nread pi s)) = pi_get pi_nwrite pi s - pi_get pi_nread pi s" by simp
      then show ?thesis using True unfolding pipe_fill_def by (simp add: algebra_simps)
    qed
    then show ?thesis using lt True Suc(5,6)
      by (simp add: pipewrite.simps[of pi va "int n" "int i"] pipe_written_def Let_def user_bytes_def sleep_on_def wakeup_def)
  next
    case False
    then have f: "pipe_fill pi s < PIPESIZE" using Suc(4) by simp
    let ?c = "user_byte (ram s) ?root (va + of_nat i)" let ?t = "pipe_put pi [?c] s"
    have nf: "pi_get pi_nwrite pi s \<noteq> pi_get pi_nread pi s + of_nat PIPESIZE"
      using f by (auto simp: pipe_fill_def PIPESIZE_def)
    note F = pipe_put_form[OF pg, where c = ?c and s = s]
    have t: "procs ?t = procs s" "cur ?t = cur s" by (subst F(1), simp)+
    then have my: "myproc ?t = myproc s" "is_killed (cur ?t) ?t \<longleftrightarrow> is_killed (cur s) s" by (simp_all add: myproc_def is_killed_def)
    note E = pipe_env_ram[OF Suc(3) F(2)]
    note P = pipe_ring.push_contents(2,3)[where pi = pi and s = s and c = ?c, OF pg f, folded pipe_bytes_def]
    have st: "pipewrite pi va (int n) (int i) s = pipewrite pi va (int n) (int (Suc i)) ?t"
      using lt Suc(5,6) nf copyin_one[OF asp, of "{PA2IDX pi}" "va + of_nat i"] Suc(3)
      by (subst pipewrite.simps) (simp add: pipe_env_def add.commute)
    have "\<exists>r s'. pipewrite pi va (int n) (int (Suc i)) ?t = Ok (r, s') \<and> pipe_written pi va n (Suc i) ?t r s'"
    proof (rule Suc.hyps(1))
      show "pipe_env pi (pagetable (myproc ?t)) va n ?t" using E(1) F(1) my by metis
      show "pi_get pi_readopen pi ?t \<noteq> 0" using pipe_put_props(1)[OF pg, of pi_readopen ?c s] Suc(5) by (simp add: kconst)
    qed (use Suc(2,6) P(1) f lt my in simp_all)
    then obtain r s' where r: "pipewrite pi va (int n) (int (Suc i)) ?t = Ok (r, s')" and w: "pipe_written pi va n (Suc i) ?t r s'" by blast
    define k where "k = min (n - Suc i) (PIPESIZE - pipe_fill pi ?t)"
    have k: "min (n - i) (PIPESIZE - pipe_fill pi s) = Suc k" using f lt P(1) by (auto simp: k_def)
    have kn: "Suc i + k \<le> n" using lt by (auto simp: k_def)
    have ub: "user_bytes (ram s) ?root va i (Suc k) = ?c # user_bytes (ram ?t) ?root va (Suc i) k"
    proof -
      have "user_bytes (ram ?t) ?root va (Suc i) k = user_bytes (ram s) ?root va (Suc i) k"
        unfolding user_bytes_def by (rule map_cong[OF refl], rule E(2)) (use kn in auto)
      then show ?thesis by (simp add: user_bytes_def upt_conv_Cons del: upt_Suc)
    qed
    have e: "(Suc k = n - i) = (k = n - Suc i)" using lt by auto
    have "pipe_written pi va n i s r s'"
      using w same_outside_trans[OF F(2)] unfolding pipe_written_def Let_def k k_def[symmetric] e my ub P(2)
      by (auto simp: sleep_on_def wakeup_def t)
    then show ?thesis using st r by simp
  qed
qed

section \<open>Reading\<close>

definition user_pa :: "memory \<Rightarrow> addr \<Rightarrow> addr \<Rightarrow> addr" where
  "user_pa m root va = PTE2PA (pte_val m root va) + of_nat (unat va mod 4096)"

lemma user_byte_pa: "user_byte m root va = m (user_pa m root va)"
  by (simp add: user_byte_def user_pa_def)

lemma user_pa_page: "PA2IDX (user_pa m root va) = PA2IDX (PTE2PA (pte_val m root va))"
  unfolding user_pa_def by (rule byte_in_page) simp_all

lemma copyout_one:
  assumes asp: "aspace s root" and r: "readable s root D va" and w: "bit (pte_val (ram s) root va) 2"
  shows "copyout_bytes root va [c] sz s = Ok (0, s\<lparr>ram := (ram s)(user_pa (ram s) root va := c)\<rparr>)"
proof -
  have e: "pte_val (ram s) root (PGROUNDDOWN va) = pte_val (ram s) root va" by (rule pte_val_vpn [OF vpn_PGROUNDDOWN])
  have lt: "PGROUNDDOWN va < MAXVA" using r PGROUNDDOWN_le [of va] by (auto simp: readable_def Let_def)
  obtain t where t: "leaf_table (ram s) root (PGROUNDDOWN va) = Some t"
    using r e by (auto simp: readable_def Let_def pte_val_def split: option.splits)
  have g: "get_pte (slot t (px 0 (PGROUNDDOWN va))) s = pte_val (ram s) root va" using t e by (simp add: get_leaf pte_val_def)
  have nz: "slot t (px 0 (PGROUNDDOWN va)) \<noteq> 0" using slot_nonzero [OF asp path_va(2)] t px_less by (simp add: leaf_table_def)
  have pw: "pte_val (ram s) root va AND PTE_W \<noteq> 0" using w pte_bit_iff(3) by blast
  have p: "0 < unat (PGSIZE - of_nat (unat va mod 4096))" using page_pos[of va] page_rest[of va] by simp
  then have tk: "take (unat (PGSIZE - of_nat (unat va mod 4096))) [c] = [c]" "drop (unat (PGSIZE - of_nat (unat va mod 4096))) [c] = []"
    by (simp_all add: Suc_le_eq)
  show ?thesis
    using user_page_ok [OF asp r, of sz] walk_ro [OF lt, of root s] t g nz pw r lt
    by (subst copyout_bytes.simps) (simp add: Let_def readable_def page_rest tk copyout_bytes.simps[of _ _ "[]"] user_pa_def)
qed

text \<open>The caller's memory is also writable, and no two of the bytes it asks for are the same byte of physical memory.\<close>

definition read_env :: "addr \<Rightarrow> addr \<Rightarrow> addr \<Rightarrow> nat \<Rightarrow> 'z kmem_scheme \<Rightarrow> bool" where
  "read_env pi root va n s \<longleftrightarrow> pipe_env pi root va n s \<and> inj_on (\<lambda>j. user_pa (ram s) root (va + of_nat j)) {..<n} \<and>
     (\<forall>j < n. bit (pte_val (ram s) root (va + of_nat j)) 2 \<and> PA2IDX (PTE2PA (pte_val (ram s) root (va + of_nat j))) \<notin> free_of s \<union> tabs (ram s) root)"

lemma read_env_ram:
  assumes "read_env pi root va n s" "same_outside S (ram s) m" "S \<inter> (free_of s \<union> tabs (ram s) root) = {}"
  shows "read_env pi root va n (s\<lparr>ram := m\<rparr>)" "user_pa m root v = user_pa (ram s) root v"
proof -
  have a: "aspace s root" using assms(1) by (simp add: read_env_def pipe_env_def)
  note A = aspace_set_ram[OF a assms(2,3)]
  show "user_pa m root v = user_pa (ram s) root v" by (simp add: user_pa_def A)
  show "read_env pi root va n (s\<lparr>ram := m\<rparr>)" using assms(1) A by (simp add: read_env_def pipe_env_def readable_def user_pa_def)
qed

lemma pipe_same:
  assumes pg: "pipe_page pi" and m: "\<And>a. PA2IDX a = PA2IDX pi \<Longrightarrow> m a = ram s a"
  shows "pipe_field f \<Longrightarrow> pi_get f pi (s\<lparr>ram := m\<rparr>) = pi_get f pi s" "k < PIPESIZE \<Longrightarrow> pipe_cell pi (s\<lparr>ram := m\<rparr>) k = pipe_cell pi s k"
    "pipe_fill pi (s\<lparr>ram := m\<rparr>) = pipe_fill pi s" "pipe_bytes pi (s\<lparr>ram := m\<rparr>) = pipe_bytes pi s"
proof -
  have b: "m (pi + of_nat k) = ram s (pi + of_nat k)" if "k < 4096" for k
    using m byte_in_page[OF _ that] pg by (simp add: pipe_page_def)
  show f: "pi_get f pi (s\<lparr>ram := m\<rparr>) = pi_get f pi s" if "pipe_field f" for f
  proof -
    have "\<exists>j. f = of_nat j \<and> j \<in> {536, 540, 544, 548}" using field_num that by blast
    then obtain j where j: "f = of_nat j" "j \<in> {536, 540, 544, 548}" by blast
    have "m (pi + f + of_nat i) = ram s (pi + f + of_nat i)" if "i < 4" for i
      using b[of "j + i"] j that by (auto simp: add.assoc)
    then show ?thesis by (simp add: pi_get_def) (rule load32_cong)
  qed
  show c: "pipe_cell pi (s\<lparr>ram := m\<rparr>) k = pipe_cell pi s k" if "k < PIPESIZE" for k
    using b[of "24 + k"] that by (simp add: pipe_cell_def pi_data_def PIPESIZE_def add.assoc)
  show g: "pipe_fill pi (s\<lparr>ram := m\<rparr>) = pipe_fill pi s" using f by (simp add: pipe_fill_def)
  show "pipe_bytes pi (s\<lparr>ram := m\<rparr>) = pipe_bytes pi s"
    unfolding pipe_bytes_def g by (rule ring_seq_cong) (use c f pipe_size in simp_all)
qed

definition pipe_taken :: "addr \<Rightarrow> addr \<Rightarrow> nat \<Rightarrow> nat \<Rightarrow> 'z kfile_scheme \<Rightarrow> 'z kfile_scheme \<Rightarrow> bool" where
  "pipe_taken pi va i k s s' \<longleftrightarrow> (let pa = \<lambda>j. user_pa (ram s) (pagetable (myproc s)) (va + of_nat j) in
     pipe_bytes pi s' = drop k (pipe_bytes pi s) \<and> (\<forall>j < k. ram s' (pa (i + j)) = pipe_bytes pi s ! j) \<and>
     (\<forall>a. PA2IDX a \<noteq> PA2IDX pi \<longrightarrow> a \<notin> pa ` {i..<i + k} \<longrightarrow> ram s' a = ram s a) \<and>
     (\<forall>v. user_pa (ram s') (pagetable (myproc s)) v = user_pa (ram s) (pagetable (myproc s)) v) \<and> s' = s\<lparr>ram := ram s'\<rparr>)"

lemma piperead_step:
  assumes env: "read_env pi (pagetable (myproc s)) va n s" and f: "0 < pipe_fill pi s" and i: "i < n"
  obtains t where "piperead_copy pi va (int n) (int i) s = piperead_copy pi va (int n) (int (Suc i)) t"
    "read_env pi (pagetable (myproc t)) va n t" "pipe_taken pi va i 1 s t"
proof -
  let ?root = "pagetable (myproc s)"
  let ?pa = "user_pa (ram s) ?root (va + of_nat i)"
  define c where "c = pipe_cell pi s (unat (pi_get pi_nread pi s) mod PIPESIZE)"
  define m where "m = (ram s)(?pa := c)"
  define t where "t = pipe_next pi (s\<lparr>ram := m\<rparr>)"
  have pg: "pipe_page pi" and asp: "aspace s ?root" and rd: "readable s ?root {PA2IDX pi} (va + of_nat i)" and
    wr: "bit (pte_val (ram s) ?root (va + of_nat i)) 2" and fr: "PA2IDX ?pa \<notin> free_of s \<union> tabs (ram s) ?root"
    using env i by (simp_all add: read_env_def pipe_env_def user_pa_page)
  have np: "PA2IDX ?pa \<noteq> PA2IDX pi" using rd by (simp add: readable_def Let_def user_pa_page)
  have pf: "PA2IDX pi \<notin> free_of s \<union> tabs (ram s) ?root" using env by (simp add: read_env_def pipe_env_def)
  have om: "same_outside {PA2IDX ?pa} (ram s) m" by (auto simp: same_outside_def m_def)
  note R = read_env_ram[OF env om] 
  have m: "\<And>a. PA2IDX a = PA2IDX pi \<Longrightarrow> m a = ram s a" using np by (auto simp: m_def)
  note S = pipe_same[OF pg, of m s, OF m]
  note N = pipe_next_form[OF pg, of "s\<lparr>ram := m\<rparr>"]
  have o2: "same_outside {PA2IDX ?pa, PA2IDX pi} (ram s) (ram t)"
    using om N(2) by (simp add: same_outside_def t_def)
  have tt: "t = s\<lparr>ram := ram t\<rparr>" using N(1) by (simp add: t_def)
  have E: "read_env pi ?root va n t" "\<And>v. user_pa (ram t) ?root v = user_pa (ram s) ?root v"
    using read_env_ram[OF env o2] fr pf tt by auto
  have ne: "pi_get pi_nread pi s \<noteq> pi_get pi_nwrite pi s" using f by (auto simp: pipe_fill_def)
  have my: "myproc t = myproc s" by (subst tt) (simp add: myproc_def)
  show thesis
  proof
    show "piperead_copy pi va (int n) (int i) s = piperead_copy pi va (int n) (int (Suc i)) t"
      using i ne copyout_one[OF asp rd wr, of c] unfolding t_def m_def
      by (subst piperead_copy.simps) (simp add: c_def pipe_cell_def add.commute)
    show "read_env pi (pagetable (myproc t)) va n t" using E(1) my by simp
    have "pipe_fill pi (s\<lparr>ram := m\<rparr>) > 0" using S(3) f by simp
    from pipe_ring.pop_contents(3)[where pi = pi and s = "s\<lparr>ram := m\<rparr>", OF pg this, folded pipe_bytes_def]
    have h: "pipe_bytes pi s = c # pipe_bytes pi t"
      using S(1)[of pi_nread] S(2,4) pipe_size(3) by (simp add: t_def c_def)
    have b: "ram t a = m a" if "PA2IDX a \<noteq> PA2IDX pi" for a using N(2) that by (simp add: same_outside_def t_def)
    show "pipe_taken pi va i 1 s t"
      unfolding pipe_taken_def Let_def using h b np E(2) tt by (auto simp: m_def)
  qed
qed

lemma pipe_taken_trans:
  assumes "pipe_taken pi va i 1 s t" "pipe_taken pi va (Suc i) k t s'" "inj_on (\<lambda>j. user_pa (ram s) (pagetable (myproc s)) (va + of_nat j)) {..<n}"
    "i + Suc k \<le> n" "0 < length (pipe_bytes pi s)" "PA2IDX (user_pa (ram s) (pagetable (myproc s)) (va + of_nat i)) \<noteq> PA2IDX pi"
  shows "pipe_taken pi va i (Suc k) s s'"
proof -
  let ?pa = "\<lambda>j. user_pa (ram s) (pagetable (myproc s)) (va + of_nat j)"
  have t: "pipe_bytes pi t = drop 1 (pipe_bytes pi s)" "ram t (?pa i) = pipe_bytes pi s ! 0"
    "\<And>a. PA2IDX a \<noteq> PA2IDX pi \<Longrightarrow> a \<noteq> ?pa i \<Longrightarrow> ram t a = ram s a" "t = s\<lparr>ram := ram t\<rparr>"
    and u: "\<And>v. user_pa (ram t) (pagetable (myproc s)) v = user_pa (ram s) (pagetable (myproc s)) v"
    using assms(1) by (auto simp: pipe_taken_def Let_def)
  have my: "myproc t = myproc s" by (subst t(4)) (simp add: myproc_def)
  have s': "pipe_bytes pi s' = drop k (pipe_bytes pi t)" "\<And>j. j < k \<Longrightarrow> ram s' (?pa (Suc i + j)) = pipe_bytes pi t ! j"
    "\<And>a. PA2IDX a \<noteq> PA2IDX pi \<Longrightarrow> a \<notin> ?pa ` {Suc i..<Suc i + k} \<Longrightarrow> ram s' a = ram t a"
    "\<And>v. user_pa (ram s') (pagetable (myproc s)) v = user_pa (ram s) (pagetable (myproc s)) v" "s' = t\<lparr>ram := ram s'\<rparr>"
    using assms(2) by (auto simp: pipe_taken_def Let_def my u)
  have "?pa i \<notin> ?pa ` {Suc i..<Suc i + k}"
  proof
    assume "?pa i \<in> ?pa ` {Suc i..<Suc i + k}"
    then obtain j where "?pa i = ?pa j" "Suc i \<le> j" "j < Suc i + k" by auto
    then show False using inj_onD[OF assms(3), of i j] assms(4) by simp
  qed
  then have i: "ram s' (?pa i) = pipe_bytes pi s ! 0" using s'(3)[OF assms(6)] t(2) by simp
  have "ram s' (?pa (i + j)) = pipe_bytes pi s ! j" if "j < Suc k" for j
    using that i s'(2)[of "j - 1"] t(1) assms(5) by (cases j; cases "pipe_bytes pi s") auto
  moreover have "{i..<i + Suc k} = insert i {Suc i..<Suc i + k}" by auto
  moreover have "s' = s\<lparr>ram := ram s'\<rparr>" by (subst s'(5), subst t(4)) simp
  ultimately show ?thesis using s'(1,3,4) t(1,3) by (auto simp: pipe_taken_def Let_def)
qed

lemma piperead_copy_ok:
  assumes "read_env pi (pagetable (myproc s)) va n s" "i \<le> n"
  shows "\<exists>s'. piperead_copy pi va (int n) (int i) s = Ok (int (i + min (n - i) (pipe_fill pi s)), s') \<and>
    pipe_taken pi va i (min (n - i) (pipe_fill pi s)) s s'"
  using assms
proof (induction "n - i" arbitrary: i s)
  case 0
  then show ?case by (simp add: piperead_copy.simps[of _ _ _ "int i"] pipe_taken_def)
next
  case (Suc d)
  then have i: "i < n" by simp
  show ?case
  proof (cases "pipe_fill pi s = 0")
    case True
    then have "pi_get pi_nread pi s = pi_get pi_nwrite pi s" by (simp add: pipe_fill_def unat_eq_0)
    then show ?thesis using True by (simp add: piperead_copy.simps[of _ _ _ "int i"] pipe_taken_def)
  next
    case False
    then have f: "0 < pipe_fill pi s" by simp
    obtain t where st: "piperead_copy pi va (int n) (int i) s = piperead_copy pi va (int n) (int (Suc i)) t"
      and e: "read_env pi (pagetable (myproc t)) va n t" and tk: "pipe_taken pi va i 1 s t"
      using piperead_step[OF Suc(3) f i] by blast
    let ?k = "min (n - Suc i) (pipe_fill pi t)"
    have fl: "pipe_fill pi t = length (pipe_bytes pi t)" "pipe_fill pi s = length (pipe_bytes pi s)" by (simp_all add: pipe_bytes_def)
    have "pipe_bytes pi t = drop 1 (pipe_bytes pi s)" using tk by (simp add: pipe_taken_def Let_def)
    then have k: "min (n - i) (pipe_fill pi s) = Suc ?k" using f i unfolding fl by (cases "pipe_bytes pi s") auto
    have d: "d = n - Suc i" using Suc.hyps(2) by arith
    obtain s' where r: "piperead_copy pi va (int n) (int (Suc i)) t = Ok (int (Suc i + ?k), s')" and w: "pipe_taken pi va (Suc i) ?k t s'"
      using Suc.hyps(1)[OF d e Suc_leI[OF i]] by blast
    have np: "PA2IDX (user_pa (ram s) (pagetable (myproc s)) (va + of_nat i)) \<noteq> PA2IDX pi"
      using Suc(3) i by (simp add: read_env_def pipe_env_def readable_def Let_def user_pa_page)
    have "pipe_taken pi va i (Suc ?k) s s'"
      by (rule pipe_taken_trans[OF tk w _ _ _ np, where n = n]) (use Suc(3) i f in \<open>auto simp: read_env_def fl\<close>)
    then show ?thesis using st r k by auto
  qed
qed

text \<open>C8: A write to a pipe appends the caller's bytes to the queue of the pipe, in order and up to its capacity of 512: it
  returns the number of bytes if all fit, and otherwise wakes the readers and sleeps with exactly the remaining bytes
  to go; memory outside the page of the pipe is unchanged.\<close>

theorem pipewrite_appends:
  assumes "pipe_env pi (pagetable (myproc s)) va n s" "pipe_fill pi s \<le> PIPESIZE" "pi_get pi_readopen pi s \<noteq> 0" "\<not> is_killed (cur s) s"
  defines "k \<equiv> min n (PIPESIZE - pipe_fill pi s)"
  shows "\<exists>s'. pipewrite pi va (int n) 0 s = Ok (if k = n then Ret (int n) else Wait (write_chan pi) (int k), s') \<and>
    pipe_bytes pi s' = pipe_bytes pi s @ user_bytes (ram s) (pagetable (myproc s)) va 0 k \<and>
    same_outside {PA2IDX pi} (ram s) (ram s') \<and>
    procs s' = procs (if k = n then wakeup (read_chan pi) s else sleep_on (write_chan pi) (wakeup (read_chan pi) s))"
  using pipewrite_ok[OF assms(1-4), of 0] unfolding pipe_written_def k_def Let_def by auto

text \<open>C22: A read from a pipe that does not have to wait delivers the oldest bytes of the queue to the caller's memory, in
  order, as many as are wanted and present, removes exactly these from the queue and wakes the writers; memory outside
  the pipe's page and the bytes delivered is unchanged. With an empty queue and an open write end it waits instead.\<close>

theorem piperead_delivers:
  assumes "read_env pi (pagetable (myproc s)) va n s" "\<not> is_killed (cur s) s"
  defines "k \<equiv> min n (pipe_fill pi s)" and "pa \<equiv> \<lambda>j. user_pa (ram s) (pagetable (myproc s)) (va + of_nat j)"
  shows "if pipe_fill pi s = 0 \<and> pi_get pi_writeopen pi s \<noteq> 0
    then piperead pi va (int n) s = Ok (Wait (read_chan pi) 0, sleep_on (read_chan pi) s)
    else \<exists>s'. piperead pi va (int n) s = Ok (Ret (int k), s') \<and>
      user_bytes (ram s') (pagetable (myproc s)) va 0 k = take k (pipe_bytes pi s) \<and> pipe_bytes pi s' = drop k (pipe_bytes pi s) \<and>
      (\<forall>a. PA2IDX a \<noteq> PA2IDX pi \<longrightarrow> a \<notin> pa ` {0..<k} \<longrightarrow> ram s' a = ram s a) \<and> procs s' = procs (wakeup (write_chan pi) s)"
proof -
  have e: "pi_get pi_nread pi s = pi_get pi_nwrite pi s \<longleftrightarrow> pipe_fill pi s = 0" by (auto simp: pipe_fill_def unat_eq_0)
  show ?thesis
  proof (cases "pipe_fill pi s = 0 \<and> pi_get pi_writeopen pi s \<noteq> 0")
    case True
    then show ?thesis using e assms(2) by (simp add: piperead_def)
  next
    case False
    obtain t where r: "piperead_copy pi va (int n) 0 s = Ok (int k, t)" and tk: "pipe_taken pi va 0 k s t"
      using piperead_copy_ok[OF assms(1), of 0] by (auto simp: k_def)
    have T: "pipe_bytes pi t = drop k (pipe_bytes pi s)" "\<And>j. j < k \<Longrightarrow> ram t (pa j) = pipe_bytes pi s ! j"
      "\<forall>a. PA2IDX a \<noteq> PA2IDX pi \<longrightarrow> a \<notin> pa ` {0..<k} \<longrightarrow> ram t a = ram s a"
      "\<And>v. user_pa (ram t) (pagetable (myproc s)) v = user_pa (ram s) (pagetable (myproc s)) v" "t = s\<lparr>ram := ram t\<rparr>"
      using tk by (auto simp: pipe_taken_def Let_def pa_def)
    have tp: "procs t = procs s" "cur t = cur s" by (subst T(5), simp)+
    let ?s' = "wakeup (write_chan pi) t"
    have "piperead pi va (int n) s = Ok (Ret (int k), ?s')" using False e r by (auto simp: piperead_def)
    moreover have "user_bytes (ram ?s') (pagetable (myproc s)) va 0 k = take k (pipe_bytes pi s)"
    proof (rule nth_equalityI)
      have "k \<le> length (pipe_bytes pi s)" by (simp add: k_def pipe_bytes_def)
      then show "length (user_bytes (ram ?s') (pagetable (myproc s)) va 0 k) = length (take k (pipe_bytes pi s))" by (simp add: user_bytes_def)
    qed (use T(2) in \<open>simp add: user_bytes_def user_byte_pa wakeup_def T(4) pa_def\<close>)
    moreover have "pipe_bytes pi ?s' = drop k (pipe_bytes pi s)" "procs ?s' = procs (wakeup (write_chan pi) s)"
      using T(1) tp by (simp_all add: wakeup_def)
    moreover have "ram ?s' = ram t" by (simp add: wakeup_def)
    ultimately show ?thesis using False T(3) by metis
  qed
qed

section \<open>An example\<close>

text \<open>A pipe that holds the byte 9, and a process whose memory begins with the bytes 7 and 8.\<close>

definition ex_pi :: addr where "ex_pi = paddr 530200"

definition ex_pipe0 :: kfile where
  "ex_pipe0 = pi_set pi_nread ex_pi 0 (pi_set pi_nwrite ex_pi 1 (pi_set pi_readopen ex_pi 1 (ex_kfile (ram (ex_vm ex_flags 1)))))"

definition ex_pipe :: kfile where
  "ex_pipe = ex_pipe0\<lparr>ram := (ram ex_pipe0)(ex_pi + pi_data := 9, ex_frame := 7, ex_frame + 1 := 8)\<rparr>"

lemma ex_kfile_ram [simp]: "(ex_kfile m)\<lparr>ram := m'\<rparr> = ex_kfile m'"
  by (simp add: ex_kfile_def)

lemma ex_pi_page: "pipe_page ex_pi" "PA2IDX ex_pi = 530200"
  by (simp_all add: ex_pi_def pipe_page_def unat_paddr)

lemma ex_frame_bytes: "PA2IDX (ex_frame + of_nat j) = 530103" if "j < 4096"
  using byte_in_page[of ex_frame j] that by simp

lemma ex_pipe_form:
  obtains m where "ex_pipe = ex_kfile m" "same_outside {530103, 530200} (ram (ex_vm ex_flags 1)) m"
proof
  have i: "pi_set f pi v (ex_kfile m) = ex_kfile (store32 m (pi + f) v)" for f pi v m by (simp add: pi_set_def)
  show "ex_pipe = ex_kfile (ram ex_pipe)" by (simp add: ex_pipe_def ex_pipe0_def i)
  have o: "same_outside {530103, 530200} m (store32 m (ex_pi + f) v)" if "pipe_field f" for m f v
    by (rule same_outside_mono[OF store32_outside[OF ex_pi_page(1) that]]) (simp add: ex_pi_page)
  have p: "PA2IDX (ex_pi + pi_data) = 530200" using byte_in_page[of ex_pi 24] ex_pi_page by (simp add: pipe_page_def pi_data_def)
  have "same_outside {530103, 530200} (ram (ex_vm ex_flags 1)) (ram ex_pipe0)"
    unfolding ex_pipe0_def i ex_kfile_sel by (intro same_outside_trans[OF _ o] same_outside_refl) simp_all
  then show "same_outside {530103, 530200} (ram (ex_vm ex_flags 1)) (ram ex_pipe)"
    using p ex_frame_bytes[of 0] ex_frame_bytes[of 1] by (auto simp: same_outside_def ex_pipe_def)
qed

lemma ex_pipe_queue:
  "pi_get pi_readopen ex_pi ex_pipe = 1" "pipe_fill ex_pi ex_pipe = 1" "pipe_bytes ex_pi ex_pipe = [9]"
proof -
  let ?s1 = "ex_pipe0\<lparr>ram := (ram ex_pipe0)(ex_pi + pi_data := 9)\<rparr>"
  have e: "ex_pipe = ?s1\<lparr>ram := (ram ?s1)(ex_frame := 7, ex_frame + 1 := 8)\<rparr>" by (simp add: ex_pipe_def)
  have f: "PA2IDX ex_frame = 530103" "PA2IDX (ex_frame + 1) = 530103" using ex_frame_bytes[of 0] ex_frame_bytes[of 1] by simp_all
  have m: "\<And>a. PA2IDX a = PA2IDX ex_pi \<Longrightarrow> ((ram ?s1)(ex_frame := 7, ex_frame + 1 := 8)) a = ram ?s1 a" using f by (auto simp: ex_pi_page)
  note S = pipe_same[OF ex_pi_page(1), of "(ram ?s1)(ex_frame := 7, ex_frame + 1 := 8)" ?s1, OF m, folded e]
  have g: "pi_get f ex_pi ?s1 = pi_get f ex_pi ex_pipe0" if "pipe_field f" for f
    using field_poke[OF ex_pi_page(1) pipe_size(3) that, of "ram ex_pipe0" 9] by (simp add: pi_get_def)
  have h: "pi_get pi_readopen ex_pi ex_pipe0 = 1" "pi_get pi_nread ex_pi ex_pipe0 = 0" "pi_get pi_nwrite ex_pi ex_pipe0 = 1"
    by (simp_all add: ex_pipe0_def pi_get_set ex_pi_page(1)) (simp_all add: kconst)
  have d: "pi_get pi_readopen ex_pi ex_pipe = 1" "pi_get pi_nread ex_pi ex_pipe = 0" "pi_get pi_nwrite ex_pi ex_pipe = 1"
    using S(1) g h by simp_all
  have c: "pipe_cell ex_pi ex_pipe 0 = 9" using S(2)[of 0] pipe_size(3) by (simp add: pipe_cell_def)
  show "pi_get pi_readopen ex_pi ex_pipe = 1" by (rule d)
  show fl: "pipe_fill ex_pi ex_pipe = 1" by (simp add: pipe_fill_def d)
  show "pipe_bytes ex_pi ex_pipe = [9]" by (simp add: pipe_bytes_def fl d ring_seq_def c)
qed

lemma ex_read_env: "read_env ex_pi ex_root 0 2 ex_pipe"
proof -
  obtain m where e: "ex_pipe = ex_kfile m" and o: "same_outside {530103, 530200} (ram (ex_vm ex_flags 1)) m" by (rule ex_pipe_form)
  have S: "{530103, 530200} \<inter> ({530000..<530010} \<union> {530100, 530101, 530102}) = ({} :: nat set)" by auto
  note X = ex_kfile_vm[OF o S]
  have u: "unat (of_nat j :: addr) = j" if "j < 2" for j using that by (intro unat_of_nat_small) simp
  have pte: "pte_val m ex_root (of_nat j) = ex_pte ex_flags" "readable (ex_kfile m) ex_root {530200} (of_nat j)" if "j < 2" for j
    using X(4,5)[of "of_nat j"] u[OF that] that by simp_all
  have pa: "user_pa m ex_root (of_nat j) = ex_frame + of_nat j" if "j < 2" for j
    using pte(1)[OF that] u[OF that] that by (simp add: user_pa_def ex_flag_PA)
  have "inj_on (\<lambda>j. user_pa m ex_root (of_nat j)) {..<2}"
    by (rule inj_onI) (auto simp: pa less_2_cases_iff)
  then show ?thesis
    unfolding e using X(1-3) pte ex_pi_page ex_flag_bits by (simp add: read_env_def pipe_env_def ex_flag_PA)
qed

lemma ex_alive: "\<not> is_killed (cur ex_pipe) ex_pipe" "pagetable (myproc ex_pipe) = ex_root"
proof -
  obtain m where e: "ex_pipe = ex_kfile m" by (rule ex_pipe_form)
  show "\<not> is_killed (cur ex_pipe) ex_pipe" "pagetable (myproc ex_pipe) = ex_root" unfolding e by (simp_all add: proc0_def)
qed

lemma ex_user_bytes: "user_bytes (ram ex_pipe) ex_root 0 0 2 = [7, 8]"
proof -
  obtain m where e: "ex_pipe = ex_kfile m" and o: "same_outside {530103, 530200} (ram (ex_vm ex_flags 1)) m" by (rule ex_pipe_form)
  have S: "{530103, 530200} \<inter> ({530000..<530010} \<union> {530100, 530101, 530102}) = ({} :: nat set)" by auto
  note X = ex_kfile_vm[OF o S]
  have "user_pa m ex_root 0 = ex_frame" "user_pa m ex_root 1 = ex_frame + 1"
    using X(4)[of 0] X(4)[of 1] by (simp_all add: user_pa_def ex_flag_PA)
  moreover have "m = (ram ex_pipe0)(ex_pi + pi_data := 9, ex_frame := 7, ex_frame + 1 := 8)"
    using arg_cong[OF e, of ram] by (simp add: ex_pipe_def)
  ultimately show ?thesis by (simp add: user_bytes_def user_byte_pa e numeral_2_eq_2)
qed

theorem pipewrite_appends_witness: "\<exists>s'. pipewrite ex_pi 0 2 0 ex_pipe = Ok (Ret 2, s') \<and> pipe_bytes ex_pi s' = [9, 7, 8]"
  using pipewrite_appends[of ex_pi ex_pipe 0 2] ex_read_env ex_alive ex_pipe_queue ex_user_bytes by (auto simp: read_env_def PIPESIZE_def)

theorem piperead_delivers_witness:
  "\<exists>s'. piperead ex_pi 0 2 ex_pipe = Ok (Ret 1, s') \<and> user_bytes (ram s') ex_root 0 0 1 = [9] \<and> pipe_bytes ex_pi s' = []"
  using piperead_delivers[of ex_pi ex_pipe 0 2] ex_read_env ex_alive ex_pipe_queue by auto

end
