(* ===== verification/Shell.thy ===== *)
theory Shell
  imports Sysfile
begin

text \<open>
  The command parser of the shell (\<^verbatim>\<open>user/sh.c\<close>). A pointer into the line is an index; the line \<open>b\<close> that the parser sees is
  the content of the C string, so that \<^verbatim>\<open>es\<close> is \<open>length b\<close> and the byte there is the terminating null. A \<^verbatim>\<open>struct cmd\<close> is a tree whose words are
  pairs of indices, as the C structures hold pairs of pointers. Nodes are allocated without failure, and \<^verbatim>\<open>panic\<close>, which prints its message and
  ends the process, is the outcome \<open>Panic\<close>.
\<close>

section \<open>Commands\<close>

definition MAXARGS :: nat where "MAXARGS = 10"

datatype cmd = EXEC "(nat \<times> nat) list" | REDIR cmd nat nat u32 nat | PIPE cmd cmd | LIST cmd cmd | BACK cmd

text \<open>\<^verbatim>\<open>cmd->argv[argc] = q; cmd->eargv[argc] = eq\<close>: \<^verbatim>\<open>cmd\<close> points at the node below the redirections of \<^verbatim>\<open>ret\<close>.\<close>

fun add_arg :: "nat \<times> nat \<Rightarrow> cmd \<Rightarrow> cmd" where
  "add_arg a (EXEC as) = EXEC (as @ [a])"
| "add_arg a (REDIR c q eq mode fd) = REDIR (add_arg a c) q eq mode fd"
| "add_arg a c = c"

section \<open>Tokens\<close>

abbreviation (input) NUL :: char where "NUL \<equiv> CHR 0x00"

definition whitespace :: string where
  "whitespace = [CHR 0x20, CHR 0x09, CHR 0x0D, CHR 0x0A, CHR 0x0B]"

definition symbols :: string where
  "symbols = ''<|>&;()''"

definition rd_char :: "string \<Rightarrow> nat \<Rightarrow> char" where
  "rd_char b s = (if s < length b then b ! s else NUL)"

function skip_ws :: "string \<Rightarrow> nat \<Rightarrow> nat" where
  "skip_ws b s = (if s < length b \<and> rd_char b s \<in> set whitespace then skip_ws b (s + 1) else s)"
  by pat_completeness auto
termination by (relation "measure (\<lambda>(b, s). length b - s)") auto

function word_end :: "string \<Rightarrow> nat \<Rightarrow> nat" where
  "word_end b s =
     (if s < length b \<and> rd_char b s \<notin> set whitespace \<and> rd_char b s \<notin> set symbols then word_end b (s + 1) else s)"
  by pat_completeness auto
termination by (relation "measure (\<lambda>(b, s). length b - s)") auto

declare skip_ws.simps [simp del] word_end.simps [simp del]

text \<open>The token, where it starts and ends, and the position after it.\<close>

definition gettoken :: "string \<Rightarrow> nat \<Rightarrow> char \<times> nat \<times> nat \<times> nat" where
  "gettoken b s =
     (let q = skip_ws b s; c = rd_char b q;
          (ret, eq) =
            (if c = NUL then (c, q)
             else if c \<in> set ''|();&<'' then (c, q + 1)
             else if c = CHR ''>'' then if rd_char b (q + 1) = CHR ''>'' then (CHR ''+'', q + 2) else (c, q + 1)
             else (CHR ''a'', word_end b q))
      in (ret, q, eq, skip_ws b eq))"

definition peek_sh :: "string \<Rightarrow> string \<Rightarrow> nat \<Rightarrow> bool \<times> nat" where
  "peek_sh b toks s = (let s = skip_ws b s in (rd_char b s \<noteq> NUL \<and> rd_char b s \<in> set toks, s))"

lemma skip_ws_ge: "s \<le> skip_ws b s"
  by (induction b s rule: skip_ws.induct) (subst skip_ws.simps, auto)

lemma word_end_ge: "s \<le> word_end b s"
  by (induction b s rule: word_end.induct) (subst word_end.simps, auto)

lemma rd_NUL: "rd_char b s \<noteq> NUL \<Longrightarrow> s < length b"
  by (auto simp: rd_char_def split: if_splits)

lemma symbol_special: "c \<in> set symbols \<Longrightarrow> c \<notin> set ''|();&<'' \<Longrightarrow> c = CHR ''>''"
  by (auto simp: symbols_def)

lemma skip_ws_stop: "skip_ws b s < length b \<Longrightarrow> rd_char b (skip_ws b s) \<notin> set whitespace"
proof (induction b s rule: skip_ws.induct)
  case (1 b s)
  then show ?case by (cases "s < length b \<and> rd_char b s \<in> set whitespace") (simp_all add: skip_ws.simps[of b s])
qed

lemma gettoken_advances: "gettoken b s = (r, q, eq, s') \<Longrightarrow> s \<le> s' \<and> (r \<noteq> NUL \<longrightarrow> s < s' \<and> s < length b)"
proof -
  assume g: "gettoken b s = (r, q, eq, s')"
  let ?q = "skip_ws b s"
  have q: "s \<le> ?q" by (rule skip_ws_ge)
  show ?thesis
  proof (cases "rd_char b ?q = NUL")
    case True
    then show ?thesis using g q skip_ws_ge[of ?q b] by (auto simp: gettoken_def Let_def)
  next
    case False
    then have l: "?q < length b" by (rule rd_NUL)
    have w: "?q < word_end b ?q" if "rd_char b ?q \<notin> set ''|();&<''" "rd_char b ?q \<noteq> CHR ''>''"
    proof -
      have "rd_char b ?q \<notin> set symbols" using symbol_special that by blast
      then show ?thesis using l skip_ws_stop[OF l] word_end_ge[of "?q + 1" b] by (subst word_end.simps) auto
    qed
    show ?thesis using g q l w False skip_ws_ge[of eq b] by (auto simp: gettoken_def Let_def split: if_splits)
  qed
qed

lemma peek_ge: "peek_sh b toks s = (r, s') \<Longrightarrow> s \<le> s'"
  by (auto simp: peek_sh_def Let_def skip_ws_ge)

lemma peek_token: "peek_sh b toks s = (True, s1) \<Longrightarrow> gettoken b s1 = (t, q, e, s2) \<Longrightarrow> s1 < s2 \<and> s1 < length b"
proof -
  assume a: "peek_sh b toks s = (True, s1)" "gettoken b s1 = (t, q, e, s2)"
  then have n: "rd_char b s1 \<noteq> NUL" "s1 = skip_ws b s" by (auto simp: peek_sh_def Let_def)
  then have l: "s1 < length b" using rd_NUL by blast
  have "skip_ws b s1 = s1" using skip_ws_stop[of b s] l n(2) by (subst skip_ws.simps) auto
  then have "t \<noteq> NUL" using a(2) n(1) by (auto simp: gettoken_def Let_def split: if_splits)
  then show ?thesis using gettoken_advances[OF a(2)] by simp
qed

section \<open>The parser\<close>

function parseredirs :: "string \<Rightarrow> cmd \<Rightarrow> nat \<Rightarrow> (cmd \<times> nat) res" where
  "parseredirs b c s =
     (case peek_sh b ''<>'' s of (r, s1) \<Rightarrow>
      if \<not> r then Ok (c, s1)
      else case gettoken b s1 of (tok, _, _, s2) \<Rightarrow> case gettoken b s2 of (t, q, eq, s3) \<Rightarrow>
        if t \<noteq> CHR ''a'' then Panic ''missing file for redirection''
        else parseredirs b
          (if tok = CHR ''<'' then REDIR c q eq O_RDONLY 0
           else if tok = CHR ''>'' then REDIR c q eq (O_WRONLY OR O_CREATE OR O_TRUNC) 1
           else if tok = CHR ''+'' then REDIR c q eq (O_WRONLY OR O_CREATE) 1
           else c) s3)"
  by pat_completeness auto
termination
proof (relation "measure (\<lambda>(b, c, s). length b - s)")
  fix b c s r s1 tok x1 x2 x3 x4 x5 s2 t y q y2 eq s3
  assume "(r, s1) = peek_sh b ''<>'' s" "(tok, x2) = gettoken b s1" "(x3, x4) = x2" "(x5, s2) = x4" "(t, y) = gettoken b s2" "(q, y2) = y" "(eq, s3) = y2" "\<not> t \<noteq> CHR ''a''"
  then have "s \<le> s1" "s1 \<le> s2" "s2 < s3 \<and> s2 < length b"
    using peek_ge[of b "''<>''" s r s1] gettoken_advances[of b s1 tok x3 x5 s2] gettoken_advances[of b s2 t q eq s3] by auto
  then show "((b, if tok = CHR ''<'' then REDIR c q eq O_RDONLY 0
           else if tok = CHR ''>'' then REDIR c q eq (O_WRONLY OR O_CREATE OR O_TRUNC) 1
           else if tok = CHR ''+'' then REDIR c q eq (O_WRONLY OR O_CREATE) 1
           else c, s3), b, c, s) \<in> measure (\<lambda>(b, c, s). length b - s)" by auto
qed simp

declare parseredirs.simps [simp del]

lemma parseredirs_ge: "parseredirs b c s = Ok (c', s') \<Longrightarrow> s \<le> s'"
proof (induction b c s rule: parseredirs.induct)
  case (1 b c s)
  obtain r s1 where p: "peek_sh b ''<>'' s = (r, s1)" by fastforce
  obtain tok q0 e0 s2 where g: "gettoken b s1 = (tok, q0, e0, s2)" by (cases "gettoken b s1")
  obtain t q eq s3 where h: "gettoken b s2 = (t, q, eq, s3)" by (cases "gettoken b s2")
  have "s \<le> s1" "s1 \<le> s2" "s2 \<le> s3" using peek_ge[OF p] gettoken_advances[OF g] gettoken_advances[OF h] by auto
  then show ?case using "1.prems" "1.IH"[OF p[symmetric] _ g[symmetric] refl refl h[symmetric] refl refl]
    by (subst (asm) parseredirs.simps) (auto simp: p g h split: if_splits)
qed

lemma bnd_cong [fundef_cong]: "m = m' \<Longrightarrow> (\<And>x. m' = Ok x \<Longrightarrow> f x = g x) \<Longrightarrow> bnd m f = bnd m' g"
  by (cases m') auto

text \<open>The loop over the words of a command: \<open>ret\<close> is the tree so far.\<close>

function parse_args :: "string \<Rightarrow> cmd \<Rightarrow> nat \<Rightarrow> nat \<Rightarrow> (cmd \<times> nat) res" where
  "parse_args b ret argc s =
     (case peek_sh b ''|)&;'' s of (r, s1) \<Rightarrow>
      if r then Ok (ret, s1)
      else case gettoken b s1 of (tok, q, eq, s2) \<Rightarrow>
        if tok = NUL then Ok (ret, s2)
        else if tok \<noteq> CHR ''a'' then Panic ''syntax''
        else if argc + 1 \<ge> MAXARGS then Panic ''too many args''
        else bnd (parseredirs b (add_arg (q, eq) ret) s2) (\<lambda>(ret, s). parse_args b ret (argc + 1) s))"
  by pat_completeness auto
termination
proof (relation "measure (\<lambda>(b, ret, argc, s). length b - s)")
  fix b ret argc s r s1 tok q eq s2 ret' s3 x y z
  assume "(r, s1) = peek_sh b ''|)&;'' s" "(tok, x) = gettoken b s1" "(q, y) = x" "(eq, s2) = y" "tok \<noteq> NUL"
    "parseredirs b (add_arg (q, eq) ret) s2 = Ok z" "(ret', s3) = z"
  then have "s \<le> s1" "s1 < s2 \<and> s1 < length b" "s2 \<le> s3"
    using peek_ge[of b "''|)&;''" s r s1] gettoken_advances[of b s1 tok q eq s2] parseredirs_ge[of b "add_arg (q, eq) ret" s2 ret' s3] by auto
  then show "((b, ret', argc + 1, s3), b, ret, argc, s) \<in> measure (\<lambda>(b, ret, argc, s). length b - s)" by auto
qed simp

text \<open>\<^verbatim>\<open>while(peek(ps, es, "&"))\<close>\<close>

function parse_backs :: "string \<Rightarrow> cmd \<Rightarrow> nat \<Rightarrow> cmd \<times> nat" where
  "parse_backs b c s =
     (case peek_sh b ''&'' s of (r, s1) \<Rightarrow>
      if \<not> r then (c, s1) else case gettoken b s1 of (_, _, _, s2) \<Rightarrow> parse_backs b (BACK c) s2)"
  by pat_completeness auto
termination
proof (relation "measure (\<lambda>(b, c, s). length b - s)")
  fix b s s2 and c :: cmd and r s1 t x q y e
  assume a: "(r, s1) = peek_sh b ''&'' s" "\<not> \<not> r" "(t, x) = gettoken b s1" "(q, y) = x" "(e, s2) = y"
  have "s1 < s2 \<and> s1 < length b" by (rule peek_token[of b "''&''" s s1 t q e s2]) (use a in simp_all)
  moreover have "s \<le> s1" using peek_ge[of b "''&''" s r s1] a(1) by simp
  ultimately show "((b, BACK c, s2), b, c, s) \<in> measure (\<lambda>(b, c, s). length b - s)" by auto
qed simp

declare parse_args.simps [simp del] parse_backs.simps [simp del]

text \<open>The recursive descent. The first argument bounds the depth of the recursion.\<close>

fun parseline :: "nat \<Rightarrow> string \<Rightarrow> nat \<Rightarrow> (cmd \<times> nat) res"
  and parsepipe :: "nat \<Rightarrow> string \<Rightarrow> nat \<Rightarrow> (cmd \<times> nat) res"
  and parseexec :: "nat \<Rightarrow> string \<Rightarrow> nat \<Rightarrow> (cmd \<times> nat) res"
  and parseblock :: "nat \<Rightarrow> string \<Rightarrow> nat \<Rightarrow> (cmd \<times> nat) res" where
  "parseline 0 b s = Diverge"
| "parseline (Suc n) b s =
     bnd (parsepipe n b s) (\<lambda>(c, s). case parse_backs b c s of (c, s) \<Rightarrow> case peek_sh b '';'' s of (r, s) \<Rightarrow>
     if r then case gettoken b s of (_, _, _, s) \<Rightarrow> bnd (parseline n b s) (\<lambda>(d, s). Ok (LIST c d, s))
     else Ok (c, s))"
| "parsepipe 0 b s = Diverge"
| "parsepipe (Suc n) b s =
     bnd (parseexec n b s) (\<lambda>(c, s). case peek_sh b ''|'' s of (r, s) \<Rightarrow>
     if r then case gettoken b s of (_, _, _, s) \<Rightarrow> bnd (parsepipe n b s) (\<lambda>(d, s). Ok (PIPE c d, s))
     else Ok (c, s))"
| "parseexec 0 b s = Diverge"
| "parseexec (Suc n) b s =
     (case peek_sh b ''('' s of (r, s) \<Rightarrow>
      if r then parseblock n b s
      else bnd (parseredirs b (EXEC []) s) (\<lambda>(ret, s). parse_args b ret 0 s))"
| "parseblock 0 b s = Diverge"
| "parseblock (Suc n) b s =
     (case peek_sh b ''('' s of (r, s) \<Rightarrow>
      if \<not> r then Panic ''parseblock''
      else case gettoken b s of (_, _, _, s) \<Rightarrow> bnd (parseline n b s) (\<lambda>(c, s).
      case peek_sh b '')'' s of (r, s) \<Rightarrow>
      if \<not> r then Panic ''syntax - missing )''
      else case gettoken b s of (_, _, _, s) \<Rightarrow> parseredirs b c s))"

primrec nulterminate :: "cmd \<Rightarrow> string \<Rightarrow> string" where
  "nulterminate (EXEC as) m = fold (\<lambda>a m. m[snd a := NUL]) as m"
| "nulterminate (REDIR c q eq mode fd) m = (nulterminate c m)[eq := NUL]"
| "nulterminate (PIPE l r) m = nulterminate r (nulterminate l m)"
| "nulterminate (LIST l r) m = nulterminate r (nulterminate l m)"
| "nulterminate (BACK c) m = nulterminate c m"

text \<open>The argument is the array that holds the string; the result is the tree and the array with the words terminated.\<close>

definition parsecmd :: "string \<Rightarrow> (cmd \<times> string) res" where
  "parsecmd m =
     undef_if (NUL \<notin> set m) (
     let b = takeWhile (\<lambda>c. c \<noteq> NUL) m in
     bnd (parseline (4 * length b + 4) b 0) (\<lambda>(c, s).
     case peek_sh b [] s of (_, s) \<Rightarrow> panic_if (s \<noteq> length b) ''syntax'' (Ok (c, nulterminate c m))))"

end
