(* ===== verification/Shell_Props.thy ===== *)
theory Shell_Props
  imports Shell
begin

text \<open>
  The shell's parser returns on every line, and the words of its commands are the maximal runs of ordinary characters it read, also
  after the null bytes have been written into the line.
\<close>

section \<open>Words\<close>

definition wordc :: "char \<Rightarrow> bool" where
  "wordc c \<longleftrightarrow> c \<noteq> NUL \<and> c \<notin> set whitespace \<and> c \<notin> set symbols"

definition tok_ok :: "string \<Rightarrow> nat \<times> nat \<Rightarrow> bool" where
  "tok_ok b a \<longleftrightarrow> fst a < snd a \<and> snd a \<le> length b \<and> (\<forall>i. fst a \<le> i \<longrightarrow> i < snd a \<longrightarrow> wordc (rd_char b i)) \<and> \<not> wordc (rd_char b (snd a))"

primrec toks :: "cmd \<Rightarrow> (nat \<times> nat) set" where
  "toks (EXEC as) = set as"
| "toks (REDIR c q eq mode fd) = insert (q, eq) (toks c)"
| "toks (PIPE l r) = toks l \<union> toks r"
| "toks (LIST l r) = toks l \<union> toks r"
| "toks (BACK c) = toks c"

text \<open>A run that returns with \<open>P\<close> or ends the process.\<close>

definition safe :: "('a \<Rightarrow> bool) \<Rightarrow> 'a res \<Rightarrow> bool" where
  "safe P m \<longleftrightarrow> (case m of Ok x \<Rightarrow> P x | Panic e \<Rightarrow> True | Undef \<Rightarrow> False | Diverge \<Rightarrow> False)"

lemma safe_simps [simp]: "safe P (Ok x) = P x" "safe P (Panic e)" "\<not> safe P Undef" "\<not> safe P Diverge"
  by (simp_all add: safe_def)

lemma safe_bnd: "safe (\<lambda>(a, t). Q a t) m \<Longrightarrow> (\<And>a t. Q a t \<Longrightarrow> safe P (f a t)) \<Longrightarrow> safe P (bnd m (\<lambda>(a, t). f a t))"
  by (cases m) auto

lemma safe_bnd_eq: "safe P m \<Longrightarrow> (\<And>x. m = Ok x \<Longrightarrow> P x \<Longrightarrow> safe Q (f x)) \<Longrightarrow> safe Q (bnd m f)"
  by (cases m) auto

lemma safe_weaken: "safe P m \<Longrightarrow> (\<And>x. P x \<Longrightarrow> Q x) \<Longrightarrow> safe Q m"
  by (cases m) auto

lemma skip_ws_le: "s \<le> length b \<Longrightarrow> skip_ws b s \<le> length b"
  by (induction b s rule: skip_ws.induct) (subst skip_ws.simps, auto)

lemma word_end_run: "s \<le> length b \<Longrightarrow> word_end b s \<le> length b \<and> \<not> wordc (rd_char b (word_end b s)) \<and>
    (NUL \<notin> set b \<longrightarrow> (\<forall>i. s \<le> i \<longrightarrow> i < word_end b s \<longrightarrow> wordc (rd_char b i)))"
proof (induction b s rule: word_end.induct)
  case (1 b s)
  show ?case
  proof (cases "s < length b \<and> rd_char b s \<notin> set whitespace \<and> rd_char b s \<notin> set symbols")
    case True
    then have "NUL \<notin> set b \<Longrightarrow> wordc (rd_char b s)" by (metis nth_mem rd_char_def wordc_def)
    moreover have "word_end b s = word_end b (s + 1)" using True by (simp add: word_end.simps[of b s])
    ultimately show ?thesis using "1.IH"[OF True] True by (metis Suc_eq_plus1 Suc_leI le_neq_implies_less)
  next
    case False
    then have "\<not> wordc (rd_char b s)" using "1.prems" by (auto simp: wordc_def rd_char_def)
    moreover have "word_end b s = s" using False by (subst word_end.simps) (rule if_not_P)
    ultimately show ?thesis using "1.prems" by simp
  qed
qed

lemma gettoken_props:
  assumes g: "gettoken b s = (r, q, e, s')" and b: "NUL \<notin> set b" "s \<le> length b"
  shows "s \<le> s'" "s' \<le> length b" "r = CHR ''a'' \<Longrightarrow> tok_ok b (q, e)" "r \<noteq> NUL \<Longrightarrow> s < s'"
proof -
  let ?q = "skip_ws b s"
  show "s \<le> s'" "r \<noteq> NUL \<Longrightarrow> s < s'" using gettoken_advances[OF g] by auto
  have ql: "?q \<le> length b" by (rule skip_ws_le[OF b(2)])
  note w = word_end_run[OF ql]
  have "rd_char b ?q \<noteq> NUL \<Longrightarrow> ?q + 1 \<le> length b" "rd_char b (?q + 1) = CHR ''>'' \<Longrightarrow> ?q + 2 \<le> length b"
    using rd_NUL[of b "?q"] rd_NUL[of b "?q + 1"] by auto
  then have "e \<le> length b" using g ql w by (auto simp: gettoken_def Let_def split: if_splits)
  moreover have "s' = skip_ws b e" using g by (auto simp: gettoken_def Let_def split: if_splits)
  ultimately show "s' \<le> length b" by (simp add: skip_ws_le)
  assume "r = CHR ''a''"
  then have c: "rd_char b ?q \<noteq> NUL" "rd_char b ?q \<notin> set ''|();&<''" "rd_char b ?q \<noteq> CHR ''>''" and e: "q = ?q" "e = word_end b ?q"
    using g by (auto simp: gettoken_def Let_def split: if_splits)
  then have l: "?q < length b" "rd_char b ?q \<notin> set symbols" using rd_NUL symbol_special by blast+
  then have "?q < word_end b ?q" using skip_ws_stop[OF l(1)] word_end_ge[of "?q + 1" b] by (subst word_end.simps) auto
  then show "tok_ok b (q, e)" using w b(1) e by (auto simp: tok_ok_def)
qed

lemma peek_props:
  assumes "peek_sh b ts s = (r, s')" "s \<le> length b"
  shows "s \<le> s'" "s' \<le> length b"
  using assms skip_ws_ge[of s b] skip_ws_le[OF assms(2)] by (auto simp: peek_sh_def Let_def)

section \<open>The parser returns\<close>

abbreviation (input) parsed :: "string \<Rightarrow> nat \<Rightarrow> cmd \<times> nat \<Rightarrow> bool" where
  "parsed b s x \<equiv> s \<le> snd x \<and> snd x \<le> length b \<and> (\<forall>a \<in> toks (fst x). tok_ok b a)"

lemma parseredirs_safe:
  "NUL \<notin> set b \<Longrightarrow> s \<le> length b \<Longrightarrow> \<forall>a \<in> toks c. tok_ok b a \<Longrightarrow> safe (parsed b s) (parseredirs b c s)"
proof (induction b c s rule: parseredirs.induct)
  case (1 b c s)
  obtain r s1 where p: "peek_sh b ''<>'' s = (r, s1)" by fastforce
  obtain tok q0 e0 s2 where g: "gettoken b s1 = (tok, q0, e0, s2)" by (cases "gettoken b s1")
  obtain t q eq s3 where h: "gettoken b s2 = (t, q, eq, s3)" by (cases "gettoken b s2")
  note P = peek_props[OF p "1.prems"(2)]
  note G = gettoken_props[OF g "1.prems"(1) P(2)]
  note H = gettoken_props[OF h "1.prems"(1) G(2)]
  let ?d = "if tok = CHR ''<'' then REDIR c q eq O_RDONLY 0 else if tok = CHR ''>'' then REDIR c q eq (O_WRONLY OR O_CREATE OR O_TRUNC) 1
     else if tok = CHR ''+'' then REDIR c q eq (O_WRONLY OR O_CREATE) 1 else c"
  have "safe (parsed b s3) (parseredirs b ?d s3)" if "r" "t = CHR ''a''"
    by (rule "1.IH"[OF p[symmetric] _ g[symmetric] refl refl h[symmetric] refl refl]) (use that "1.prems" H in auto)
  then have "r \<Longrightarrow> t = CHR ''a'' \<Longrightarrow> safe (parsed b s) (parseredirs b ?d s3)"
    using safe_weaken[of "parsed b s3" "parseredirs b ?d s3" "parsed b s"] P G H by auto
  then show ?case using P "1.prems"(3) by (subst parseredirs.simps) (simp add: p g h)
qed

lemma toks_add: "toks (add_arg a c) \<subseteq> insert a (toks c)"
  by (induction a c rule: add_arg.induct) auto

lemma parse_args_safe:
  "NUL \<notin> set b \<Longrightarrow> s \<le> length b \<Longrightarrow> \<forall>a \<in> toks c. tok_ok b a \<Longrightarrow> safe (parsed b s) (parse_args b c argc s)"
proof (induction b c argc s rule: parse_args.induct)
  case (1 b c argc s)
  obtain r s1 where p: "peek_sh b ''|)&;'' s = (r, s1)" by fastforce
  obtain tok q eq s2 where g: "gettoken b s1 = (tok, q, eq, s2)" by (cases "gettoken b s1")
  note P = peek_props[OF p "1.prems"(2)]
  note G = gettoken_props[OF g "1.prems"(1) P(2)]
  have "safe (parsed b s) (bnd (parseredirs b (add_arg (q, eq) c) s2) (\<lambda>(ret, s). parse_args b ret (argc + 1) s))"
    if r: "\<not> r" "tok = CHR ''a''" "\<not> argc + 1 \<ge> MAXARGS"
  proof (rule safe_bnd_eq)
    show "safe (parsed b s2) (parseredirs b (add_arg (q, eq) c) s2)"
      by (rule parseredirs_safe[OF "1.prems"(1) G(2)]) (use toks_add[of "(q, eq)" c] G(3) r(2) "1.prems"(3) in auto)
    fix x
    assume x: "parseredirs b (add_arg (q, eq) c) s2 = Ok x" "parsed b s2 x"
    have "safe (parsed b (snd x)) (parse_args b (fst x) (argc + 1) (snd x))"
      by (rule "1.IH"[OF p[symmetric] r(1) g[symmetric] refl refl _ _ r(3) x(1) prod.collapse]) (use r x "1.prems" in auto)
    then have "safe (parsed b s) (parse_args b (fst x) (argc + 1) (snd x))" by (rule safe_weaken) (use P G x in auto)
    then show "safe (parsed b s) (case x of (ret, s) \<Rightarrow> parse_args b ret (argc + 1) s)" by (simp add: split_def)
  qed
  then show ?case using P G "1.prems"(3) by (subst parse_args.simps) (simp add: p g)
qed

lemma parse_backs_safe:
  "NUL \<notin> set b \<Longrightarrow> s \<le> length b \<Longrightarrow> \<forall>a \<in> toks c. tok_ok b a \<Longrightarrow> parsed b s (parse_backs b c s)"
proof (induction b c s rule: parse_backs.induct)
  case (1 b c s)
  obtain r s1 where p: "peek_sh b ''&'' s = (r, s1)" by fastforce
  obtain tok q eq s2 where g: "gettoken b s1 = (tok, q, eq, s2)" by (cases "gettoken b s1")
  note P = peek_props[OF p "1.prems"(2)]
  note G = gettoken_props[OF g "1.prems"(1) P(2)]
  have "r \<Longrightarrow> parsed b s2 (parse_backs b (BACK c) s2)"
    using "1.IH"[OF p[symmetric] _ g[symmetric] refl refl] "1.prems" G by simp
  then have "r \<Longrightarrow> parsed b s (parse_backs b (BACK c) s2)" using P G by auto
  then show ?case using P "1.prems"(3) by (subst (1 2 3) parse_backs.simps) (simp add: p g)
qed

text \<open>Rules that follow the structure of the recursive descent.\<close>

lemma safe_pair: "safe P m \<Longrightarrow> (\<And>c t. P (c, t) \<Longrightarrow> safe Q (f c t)) \<Longrightarrow> safe Q (bnd m (\<lambda>(c, t). f c t))"
  by (cases m) auto

lemma safe_peek:
  assumes "s \<le> length b" "\<And>r t. s \<le> t \<Longrightarrow> t \<le> length b \<Longrightarrow> (r \<Longrightarrow> rd_char b t \<noteq> NUL \<and> skip_ws b t = t) \<Longrightarrow> safe Q (f r t)"
  shows "safe Q (case peek_sh b ts s of (r, t) \<Rightarrow> f r t)"
proof (cases "peek_sh b ts s")
  case (Pair r t)
  have "rd_char b t \<noteq> NUL \<and> skip_ws b t = t" if r
  proof -
    have n: "rd_char b t \<noteq> NUL" "t = skip_ws b s" using Pair that by (auto simp: peek_sh_def Let_def)
    then show ?thesis using skip_ws_stop[of b s] rd_NUL[OF n(1)] by (subst skip_ws.simps) auto
  qed
  then show ?thesis using assms(2)[of t r] peek_props[OF Pair assms(1)] Pair by simp
qed

lemma safe_token:
  assumes "rd_char b s \<noteq> NUL \<and> skip_ws b s = s" "NUL \<notin> set b" "\<And>t. s < t \<Longrightarrow> t \<le> length b \<Longrightarrow> safe Q (f t)"
  shows "safe Q (case gettoken b s of (_, _, _, t) \<Rightarrow> f t)"
proof -
  obtain r q e t where g: "gettoken b s = (r, q, e, t)" by (cases "gettoken b s")
  have "s \<le> length b" using rd_NUL assms(1) by fastforce
  moreover have "r \<noteq> NUL" using g assms(1) by (auto simp: gettoken_def Let_def split: if_splits)
  ultimately show ?thesis using gettoken_props[OF g assms(2)] assms(3) g by simp
qed

lemma safe_backs:
  assumes "NUL \<notin> set b" "s \<le> length b" "\<forall>a \<in> toks c. tok_ok b a" "\<And>d t. parsed b s (d, t) \<Longrightarrow> safe Q (f d t)"
  shows "safe Q (case parse_backs b c s of (d, t) \<Rightarrow> f d t)"
  using parse_backs_safe[OF assms(1-3)] assms(4) by (cases "parse_backs b c s") auto

lemma safe_if: "(c \<Longrightarrow> safe P m) \<Longrightarrow> (\<not> c \<Longrightarrow> safe P n) \<Longrightarrow> safe P (if c then m else n)"
  by simp

lemmas safe_rules = safe_if safe_peek safe_backs safe_token

lemma parseline_safe:
  assumes b: "NUL \<notin> set b" and m: "safe (parsed b s) (parsepipe n b s)"
    and rec: "\<And>u. s < u \<Longrightarrow> u \<le> length b \<Longrightarrow> safe (parsed b u) (parseline n b u)"
  shows "safe (parsed b s) (parseline (Suc n) b s)"
  unfolding parseline.simps by (rule safe_pair[OF m] safe_pair[OF rec] safe_rules | rule b | simp add: ball_Un)+

lemma parsepipe_safe:
  assumes b: "NUL \<notin> set b" and m: "safe (parsed b s) (parseexec n b s)"
    and rec: "\<And>u. s < u \<Longrightarrow> u \<le> length b \<Longrightarrow> safe (parsed b u) (parsepipe n b u)"
  shows "safe (parsed b s) (parsepipe (Suc n) b s)"
  unfolding parsepipe.simps by (rule safe_pair[OF m] safe_pair[OF rec] safe_rules | rule b | simp add: ball_Un)+

lemma parseexec_safe:
  assumes b: "NUL \<notin> set b" and s: "s \<le> length b" and rec: "\<And>u. s \<le> u \<Longrightarrow> u \<le> length b \<Longrightarrow> safe (parsed b u) (parseblock n b u)"
  shows "safe (parsed b s) (parseexec (Suc n) b s)"
  unfolding parseexec.simps
  by (rule safe_pair[OF parseredirs_safe[OF b]] safe_rules safe_weaken[OF parse_args_safe[OF b]] safe_weaken[OF rec] | rule b s | simp)+

lemma parseblock_safe:
  assumes b: "NUL \<notin> set b" and s: "s \<le> length b" and rec: "\<And>u. s < u \<Longrightarrow> u \<le> length b \<Longrightarrow> safe (parsed b u) (parseline n b u)"
  shows "safe (parsed b s) (parseblock (Suc n) b s)"
  unfolding parseblock.simps
  by (rule safe_pair[OF rec] safe_rules safe_weaken[OF parseredirs_safe[OF b]] | rule b s | simp)+

lemma parse_safe:
  assumes b: "NUL \<notin> set b"
  shows "s \<le> length b \<Longrightarrow> 4 * (length b - s) + 4 \<le> n \<Longrightarrow> safe (parsed b s) (parseline n b s)"
    and "s \<le> length b \<Longrightarrow> 4 * (length b - s) + 3 \<le> n \<Longrightarrow> safe (parsed b s) (parsepipe n b s)"
    and "s \<le> length b \<Longrightarrow> 4 * (length b - s) + 2 \<le> n \<Longrightarrow> safe (parsed b s) (parseexec n b s)"
    and "s \<le> length b \<Longrightarrow> 4 * (length b - s) + 1 \<le> n \<Longrightarrow> safe (parsed b s) (parseblock n b s)"
proof (induction n arbitrary: s)
  case (Suc n)
  { case 1 show ?case by (rule parseline_safe[OF b]) (use 1 Suc.IH in auto) }
  { case 2 show ?case by (rule parsepipe_safe[OF b]) (use 2 Suc.IH in auto) }
  { case 3 show ?case by (rule parseexec_safe[OF b]) (use 3 Suc.IH in auto) }
  { case 4 show ?case by (rule parseblock_safe[OF b]) (use 4 Suc.IH in auto) }
qed simp_all

section \<open>The words stay readable\<close>

text \<open>The content of the C string at an index of the array, and the text between two indices.\<close>

definition cstring :: "string \<Rightarrow> nat \<Rightarrow> string" where
  "cstring m q = takeWhile (\<lambda>c. c \<noteq> NUL) (drop q m)"

definition between :: "string \<Rightarrow> nat \<times> nat \<Rightarrow> string" where
  "between m a = take (snd a - fst a) (drop (fst a) m)"

lemma nulterminate_nth:
  "length (nulterminate c m) = length m \<and> (\<forall>i < length m. nulterminate c m ! i = (if i \<in> snd ` toks c then NUL else m ! i))"
proof (induction c arbitrary: m)
  case (EXEC as)
  have "length (fold (\<lambda>a m. m[snd a := NUL]) as m) = length m \<and>
      (\<forall>i < length m. fold (\<lambda>a m. m[snd a := NUL]) as m ! i = (if i \<in> snd ` set as then NUL else m ! i))"
    by (induction "as" arbitrary: m) (auto simp: nth_list_update)
  then show ?case by simp
next
  case (REDIR c q eq mode fd)
  then show ?case using REDIR.IH[of m] by (cases "eq < length m") (auto simp: nth_list_update)
next
  case (PIPE l r)
  then show ?case using PIPE.IH(1)[of m] PIPE.IH(2)[of "nulterminate l m"] by (simp add: image_Un)
next
  case (LIST l r)
  then show ?case using LIST.IH(1)[of m] LIST.IH(2)[of "nulterminate l m"] by (simp add: image_Un)
qed simp

lemma strlen_less: "NUL \<in> set m \<Longrightarrow> length (takeWhile (\<lambda>c. c \<noteq> NUL) m) < length m"
  by (induction m) auto

lemma nulterminate_word:
  assumes m: "b = takeWhile (\<lambda>c. c \<noteq> NUL) m" "NUL \<in> set m" and ok: "\<forall>a \<in> toks c. tok_ok b a" and a: "a \<in> toks c"
  shows "cstring (nulterminate c m) (fst a) = between m a"
proof -
  have l: "length b < length m" using m by (simp add: strlen_less)
  have at: "rd_char b i = m ! i" if "i \<le> length b" for i
    using that l m nth_length_takeWhile[of "\<lambda>c. c \<noteq> NUL" m] takeWhile_nth[of i "\<lambda>c. c \<noteq> NUL" m] by (cases "i = length b") (auto simp: rd_char_def)
  have t: "fst a < snd a" "snd a \<le> length b" "\<And>i. fst a \<le> i \<Longrightarrow> i < snd a \<Longrightarrow> wordc (rd_char b i)" using ok a by (auto simp: tok_ok_def)
  let ?m = "nulterminate c m"
  note n = nulterminate_nth[of c m]
  have keep: "?m ! i = m ! i \<and> m ! i \<noteq> NUL" if i: "fst a \<le> i" "i < snd a" for i
  proof -
    have "i \<notin> snd ` toks c" using t(3)[OF i] ok by (auto simp: tok_ok_def)
    moreover have "m ! i \<noteq> NUL" using t(3)[OF i] at[of i] t(2) i by (simp add: wordc_def)
    ultimately show ?thesis using n i t l by simp
  qed
  have ln: "length ?m = length m" using n by blast
  have e: "?m ! snd a = NUL" using n a t l by auto
  have s: "drop (fst a) ?m = between m a @ drop (snd a) ?m"
  proof (rule nth_equalityI)
    fix i
    assume "i < length (drop (fst a) ?m)"
    then show "drop (fst a) ?m ! i = (between m a @ drop (snd a) ?m) ! i"
      using ln keep[of "fst a + i"] t l by (cases "i < snd a - fst a") (auto simp: between_def nth_append min_def add.commute)
  qed (use ln t l in \<open>auto simp: between_def\<close>)
  have "snd a < length ?m" using n t l by simp
  then have "drop (snd a) ?m = NUL # drop (Suc (snd a)) ?m" using e by (simp flip: Cons_nth_drop_Suc)
  moreover have "\<forall>x \<in> set (between m a). x \<noteq> NUL"
    using keep t l by (auto simp: between_def in_set_conv_nth)
  ultimately show ?thesis by (simp add: cstring_def s takeWhile_append2 takeWhile_tail)
qed

text \<open>C16: The shell's parser returns on every line. On any array that holds a C string, the bound on the recursion suffices: the parser
  either ends the process with a syntax error or gives a command, and then the array has kept its size and every word of the command, an
  argument or the file of a redirection, is not empty and is, read as a C string from the rewritten array, exactly the text that was between its two pointers: no null byte
  written for one word cuts another one short.\<close>

theorem parsecmd_words:
  assumes "NUL \<in> set m"
  shows "case parsecmd m of
      Ok (c, m') \<Rightarrow> length m' = length m \<and> (\<forall>a \<in> toks c. fst a < snd a \<and> snd a < length m \<and> cstring m' (fst a) = between m a)
    | Panic e \<Rightarrow> True | Undef \<Rightarrow> False | Diverge \<Rightarrow> False"
proof -
  let ?b = "takeWhile (\<lambda>c. c \<noteq> NUL) m"
  have b: "NUL \<notin> set ?b" by (auto dest: set_takeWhileD)
  have l: "length ?b < length m" using assms by (simp add: strlen_less)
  have "safe (parsed ?b 0) (parseline (4 * length ?b + 4) ?b 0)" by (rule parse_safe(1)[OF b]) simp_all
  then show ?thesis
  proof (cases "parseline (4 * length ?b + 4) ?b 0")
    case (Ok x)
    obtain r s where p: "peek_sh ?b [] (snd x) = (r, s)" by fastforce
    have ok: "\<forall>a \<in> toks (fst x). tok_ok ?b a" using \<open>safe _ _\<close> Ok by simp
    have "\<forall>a \<in> toks (fst x). fst a < snd a \<and> snd a < length m \<and> cstring (nulterminate (fst x) m) (fst a) = between m a"
      using ok l nulterminate_word[OF refl assms ok] by (auto simp: tok_ok_def)
    then show ?thesis using Ok p assms nulterminate_nth[of "fst x" m] by (simp add: parsecmd_def undef_if_def panic_if_def case_prod_beta[of _ x])
  qed (use assms in \<open>simp_all add: parsecmd_def undef_if_def\<close>)
qed

theorem parsecmd_words_witness:
  "\<exists>c m'. parsecmd (''ls -l>f'' @ [NUL]) = Ok (c, m') \<and> toks c = {(0, 2), (3, 5), (6, 7)} \<and> cstring m' 0 = ''ls'' \<and> cstring m' 3 = ''-l'' \<and> cstring m' 6 = ''f''"
proof -
  let ?m = "''ls -l>f'' @ [NUL]"
  have "parsecmd ?m = Ok (REDIR (EXEC [(0, 2), (3, 5)]) 6 7 (O_WRONLY OR O_CREATE OR O_TRUNC) 1, ''ls'' @ NUL # ''-l'' @ NUL # ''f'' @ [NUL])"
    by code_simp
  then show ?thesis using parsecmd_words[of ?m] by (simp add: between_def insert_commute)
qed

end
