(* ===== verification/Shell_Print.thy ===== *)
theory Shell_Print
  imports Shell_Props
begin

text \<open>
  Commands as the user means them, a printer for them, and the proof that the shell's parser reads back what the printer writes, with
  parentheses exactly where the grammar needs them.
\<close>

section \<open>Commands and their text\<close>

datatype scmd = Run "string list" | Redirect scmd string u32 nat | Pipe scmd scmd | Seq scmd scmd | Bg scmd

primrec texts :: "string \<Rightarrow> cmd \<Rightarrow> scmd" where
  "texts m (EXEC as) = Run (map (between m) as)"
| "texts m (REDIR c q eq mode fd) = Redirect (texts m c) (between m (q, eq)) mode fd"
| "texts m (PIPE l r) = Pipe (texts m l) (texts m r)"
| "texts m (LIST l r) = Seq (texts m l) (texts m r)"
| "texts m (BACK c) = Bg (texts m c)"

definition word :: "string \<Rightarrow> bool" where
  "word w \<longleftrightarrow> w \<noteq> [] \<and> (\<forall>c \<in> set w. wordc c)"

definition mode_ok :: "u32 \<Rightarrow> nat \<Rightarrow> bool" where
  "mode_ok mode fd \<longleftrightarrow> (mode, fd) \<in> {(O_RDONLY, 0), (O_WRONLY OR O_CREATE OR O_TRUNC, 1), (O_WRONLY OR O_CREATE, 1)}"

primrec good :: "scmd \<Rightarrow> bool" where
  "good (Run ws) \<longleftrightarrow> (\<forall>w \<in> set ws. word w) \<and> length ws < MAXARGS"
| "good (Redirect c f mode fd) \<longleftrightarrow> good c \<and> word f \<and> mode_ok mode fd"
| "good (Pipe c d) \<longleftrightarrow> good c \<and> good d"
| "good (Seq c d) \<longleftrightarrow> good c \<and> good d"
| "good (Bg c) \<longleftrightarrow> good c"

definition words_text :: "string list \<Rightarrow> string" where
  "words_text ws = concat (map (\<lambda>w. w @ [CHR 0x20]) ws)"

definition redir_text :: "string \<Rightarrow> u32 \<Rightarrow> string" where
  "redir_text f mode = (if mode = O_RDONLY then ''<'' else if mode = O_WRONLY OR O_CREATE then ''>>'' else ''>'') @ f @ [CHR 0x20]"

text \<open>The level is what the place allows: 0 a list, 1 a background command, 2 a pipeline, 3 a single command.\<close>

definition paren :: "bool \<Rightarrow> string \<Rightarrow> string" where
  "paren p t = (if p then ''('' @ t @ '')'' else t)"

primrec cmd_text :: "scmd \<Rightarrow> nat \<Rightarrow> string" where
  "cmd_text (Run ws) l = words_text ws"
| "cmd_text (Redirect c f mode fd) l = cmd_text c 3 @ redir_text f mode"
| "cmd_text (Pipe c d) l = paren (l > 2) (cmd_text c 3 @ ''|'' @ cmd_text d 2)"
| "cmd_text (Seq c d) l = paren (l > 0) (cmd_text c 1 @ '';'' @ cmd_text d 0)"
| "cmd_text (Bg c) l = paren (l > 1) (cmd_text c 1 @ ''&'')"

section \<open>Tokens of printed text\<close>

text \<open>A rest of the line that begins with neither a blank nor a null.\<close>

definition tidy :: "string \<Rightarrow> bool" where
  "tidy r \<longleftrightarrow> r = [] \<or> hd r \<noteq> NUL \<and> hd r \<notin> set whitespace"

lemma tidy_simps [simp]: "tidy []" "tidy (c # r) \<longleftrightarrow> c \<noteq> NUL \<and> c \<notin> set whitespace"
  by (simp_all add: tidy_def)

lemma rd_app: "rd_char (pre @ r) (length pre) = (case r of [] \<Rightarrow> NUL | c # _ \<Rightarrow> c)"
  by (simp add: rd_char_def nth_append split: list.split)

lemma skip_tidy: "tidy r \<Longrightarrow> skip_ws (pre @ r) (length pre) = length pre"
  by (subst skip_ws.simps) (auto simp: rd_app split: list.split)

lemma skip_blank: "tidy r \<Longrightarrow> skip_ws (pre @ CHR 0x20 # r) (length pre) = Suc (length pre)"
  using skip_tidy[of r "pre @ [CHR 0x20]"] by (subst skip_ws.simps) (simp add: rd_app whitespace_def)

lemma word_end_app: "\<forall>c \<in> set w. wordc c \<Longrightarrow> word_end (pre @ w @ CHR 0x20 # r) (length pre) = length pre + length w"
proof (induction w arbitrary: pre)
  case Nil
  then show ?case by (subst word_end.simps) (simp add: rd_app whitespace_def)
next
  case (Cons c w)
  then show ?case using Cons.IH[of "pre @ [c]"] by (subst word_end.simps) (simp add: rd_app wordc_def)
qed

lemma peek_app: "tidy r \<Longrightarrow> peek_sh (pre @ r) ts (length pre) = (r \<noteq> [] \<and> hd r \<in> set ts, length pre)"
  using skip_tidy[of r pre] rd_app[of pre r] by (cases r) (simp_all add: peek_sh_def Let_def)

lemma token_word: "word w \<Longrightarrow> tidy r \<Longrightarrow>
    gettoken (pre @ w @ CHR 0x20 # r) (length pre) = (CHR ''a'', length pre, length pre + length w, length pre + length w + 1)"
proof -
  assume a: "word w" "tidy r"
  obtain c v where w: "w = c # v" "wordc c" using a(1) by (cases w) (auto simp: word_def)
  have "c \<notin> set ''|();&<''" "c \<noteq> CHR ''>''" "c \<noteq> NUL" "tidy (w @ CHR 0x20 # r)" using w by (auto simp: wordc_def symbols_def)
  then show ?thesis using word_end_app[of w pre r] a skip_tidy[of "w @ CHR 0x20 # r" pre] skip_blank[of r "pre @ w"] w(1)
    by (simp add: gettoken_def Let_def rd_app word_def)
qed

lemma token_symbol: "c \<in> set ''|();&<'' \<Longrightarrow> tidy r \<Longrightarrow> gettoken (pre @ c # r) (length pre) = (c, length pre, Suc (length pre), Suc (length pre))"
proof -
  assume a: "c \<in> set ''|();&<''" "tidy r"
  then have "c \<noteq> NUL" "tidy (c # r)" by (auto simp: whitespace_def)
  then show ?thesis using skip_tidy[of "c # r" pre] skip_tidy[OF a(2), of "pre @ [c]"] a(1) unfolding gettoken_def by (simp add: Let_def rd_app)
qed

lemma token_out: "tidy r \<Longrightarrow> (r = [] \<or> hd r \<noteq> CHR ''>'') \<Longrightarrow> gettoken (pre @ CHR ''>'' # r) (length pre) = (CHR ''>'', length pre, Suc (length pre), Suc (length pre))"
  using skip_tidy[of "CHR ''>'' # r" pre] skip_tidy[of r "pre @ ''>''"] rd_app[of "pre @ ''>''" r]
  by (cases r) (simp_all add: gettoken_def Let_def rd_app whitespace_def)

lemma token_append: "tidy r \<Longrightarrow> gettoken (pre @ CHR ''>'' # CHR ''>'' # r) (length pre) = (CHR ''+'', length pre, length pre + 2, length pre + 2)"
  using skip_tidy[of "CHR ''>'' # CHR ''>'' # r" pre] skip_tidy[of r "pre @ ''>>''"] rd_app[of "pre @ ''>''" "CHR ''>'' # r"]
  by (simp add: gettoken_def Let_def rd_app whitespace_def)

section \<open>Reading back\<close>

definition redirs_text :: "(string \<times> u32 \<times> nat) list \<Rightarrow> string" where
  "redirs_text fs = concat (map (\<lambda>(f, mode, fd). redir_text f mode) fs)"

definition redirs_ok :: "(string \<times> u32 \<times> nat) list \<Rightarrow> bool" where
  "redirs_ok fs \<longleftrightarrow> (\<forall>(f, mode, fd) \<in> set fs. word f \<and> mode_ok mode fd)"

definition redirect :: "(string \<times> u32 \<times> nat) list \<Rightarrow> scmd \<Rightarrow> scmd" where
  "redirect fs c = fold (\<lambda>(f, mode, fd) c. Redirect c f mode fd) fs c"

text \<open>The rest of the line begins with one of the characters, or is empty.\<close>

definition follow :: "string \<Rightarrow> string \<Rightarrow> bool" where
  "follow ts k \<longleftrightarrow> k = [] \<or> hd k \<in> set ts"

lemma follow_tidy: "follow ts k \<Longrightarrow> set ts \<subseteq> set symbols \<Longrightarrow> tidy k"
  by (cases k) (auto simp: follow_def symbols_def whitespace_def)

lemma redirs_simps [simp]:
  "redirs_text [] = []" "redirs_text ((f, mode, fd) # fs) = redir_text f mode @ redirs_text fs"
  "redirect [] c = c" "redirect ((f, mode, fd) # fs) c = redirect fs (Redirect c f mode fd)"
  "redirs_ok []" "redirs_ok ((f, mode, fd) # fs) \<longleftrightarrow> word f \<and> mode_ok mode fd \<and> redirs_ok fs"
  by (simp_all add: redirs_text_def redirect_def redirs_ok_def)

lemma redir_hd: "hd (redir_text f mode @ r) \<in> set ''<>''" "redir_text f mode \<noteq> []"
  by (simp_all add: redir_text_def)

lemma tidy_redirs: "tidy k \<Longrightarrow> tidy (redirs_text fs @ k)"
proof (cases fs)
  case (Cons x fs')
  obtain f mode fd where x: "x = (f, mode, fd)" by (cases x)
  have "hd (redirs_text fs @ k) \<in> set ''<>''" using redir_hd(1)[of f mode] by (simp add: Cons x)
  then show ?thesis by (auto simp: tidy_def whitespace_def)
qed simp

lemma word_tidy: "word w \<Longrightarrow> tidy (w @ r)"
  by (cases w) (auto simp: word_def wordc_def)

lemma word_not_sym: "word w \<Longrightarrow> hd (w @ r) \<notin> set symbols"
  by (cases w) (auto simp: word_def wordc_def)

lemma between_app: "between (pre @ w @ r) (length pre, length pre + length w) = w"
  by (simp add: between_def)

text \<open>One redirection: the two tokens it is made of.\<close>

lemma redir_tokens:
  assumes "word f" "mode_ok mode fd" "tidy r"
  obtains tok q e s2 where "gettoken (pre @ redir_text f mode @ r) (length pre) = (tok, q, e, s2)"
    "gettoken (pre @ redir_text f mode @ r) s2 = (CHR ''a'', length (pre @ redir_text f mode) - length f - 1, length (pre @ redir_text f mode) - 1, length (pre @ redir_text f mode))"
    "between (pre @ redir_text f mode @ r) (length (pre @ redir_text f mode) - length f - 1, length (pre @ redir_text f mode) - 1) = f"
    "\<And>c q e. (if tok = CHR ''<'' then REDIR c q e O_RDONLY 0 else if tok = CHR ''>'' then REDIR c q e (O_WRONLY OR O_CREATE OR O_TRUNC) 1
     else if tok = CHR ''+'' then REDIR c q e (O_WRONLY OR O_CREATE) 1 else c) = REDIR c q e mode fd"
proof -
  let ?g = "\<lambda>p. f @ CHR 0x20 # r"
  have m: "O_RDONLY \<noteq> O_WRONLY OR O_CREATE" "O_RDONLY \<noteq> O_WRONLY OR O_CREATE OR O_TRUNC" "O_WRONLY OR O_CREATE OR O_TRUNC \<noteq> O_WRONLY OR O_CREATE"
    by (simp_all add: O_RDONLY_def O_WRONLY_def O_CREATE_def O_TRUNC_def)
  have h: "f @ CHR 0x20 # r = [] \<or> hd (f @ CHR 0x20 # r) \<noteq> CHR ''>''" using word_not_sym[OF assms(1), of "CHR 0x20 # r"] by (auto simp: symbols_def)
  note t = word_tidy[OF assms(1), of "CHR 0x20 # r"]
  consider "mode = O_RDONLY" "fd = 0" | "mode = O_WRONLY OR O_CREATE OR O_TRUNC" "fd = 1" | "mode = O_WRONLY OR O_CREATE" "fd = 1"
    using assms(2) by (auto simp: mode_ok_def)
  then show thesis
  proof cases
    case 1
    show thesis
      by (rule that[of "CHR ''<''" "length pre" "Suc (length pre)" "Suc (length pre)"])
        (use 1 token_symbol[OF _ t, of "CHR ''<''" pre] token_word[OF assms(1,3), of "pre @ ''<''"] between_app[of "pre @ ''<''" f "CHR 0x20 # r"] in \<open>simp_all add: redir_text_def\<close>)
  next
    case 2
    show thesis
      by (rule that[of "CHR ''>''" "length pre" "Suc (length pre)" "Suc (length pre)"])
        (use 2 m token_out[OF t h, of pre] token_word[OF assms(1,3), of "pre @ ''>''"] between_app[of "pre @ ''>''" f "CHR 0x20 # r"] in \<open>simp_all add: redir_text_def\<close>)
  next
    case 3
    show thesis
      by (rule that[of "CHR ''+''" "length pre" "length pre + 2" "length pre + 2"])
        (use 3 m token_append[OF t, of pre] token_word[OF assms(1,3), of "pre @ ''>>''"] between_app[of "pre @ ''>>''" f "CHR 0x20 # r"] in \<open>simp_all add: redir_text_def\<close>)
  qed
qed

lemma parseredirs_text:
  assumes "redirs_ok fs" "tidy k" "k = [] \<or> hd k \<notin> set ''<>''" "b = pre @ redirs_text fs @ k"
  shows "\<exists>t. parseredirs b c (length pre) = Ok (t, length pre + length (redirs_text fs)) \<and> texts b t = redirect fs (texts b c)"
  using assms
proof (induction fs arbitrary: pre c)
  case Nil
  then show ?case using peek_app[of k pre "''<>''"] by (subst parseredirs.simps) auto
next
  case (Cons x fs)
  obtain f mode fd where x: "x = (f, mode, fd)" by (cases x)
  let ?pre = "pre @ redir_text f mode" and ?r = "redirs_text fs @ k"
  have b: "b = pre @ redir_text f mode @ ?r" "b = ?pre @ ?r" using Cons.prems(4) x by simp_all
  have ok: "word f" "mode_ok mode fd" "tidy ?r" using Cons.prems x by (simp_all add: tidy_redirs)
  obtain tok q e s2 where t: "gettoken b (length pre) = (tok, q, e, s2)"
    "gettoken b s2 = (CHR ''a'', length ?pre - length f - 1, length ?pre - 1, length ?pre)"
    "between b (length ?pre - length f - 1, length ?pre - 1) = f"
    "\<And>c q e. (if tok = CHR ''<'' then REDIR c q e O_RDONLY 0 else if tok = CHR ''>'' then REDIR c q e (O_WRONLY OR O_CREATE OR O_TRUNC) 1
     else if tok = CHR ''+'' then REDIR c q e (O_WRONLY OR O_CREATE) 1 else c) = REDIR c q e mode fd"
    using redir_tokens[OF ok, of pre] unfolding b(1) by blast
  have "tidy (redir_text f mode @ ?r)" using tidy_redirs[of k "x # fs"] Cons.prems(2) x by simp
  then have p: "peek_sh b ''<>'' (length pre) = (True, length pre)" using peek_app[of "redir_text f mode @ ?r" pre "''<>''"] redir_hd[of f mode] b(1) by simp
  let ?d = "REDIR c (length ?pre - length f - 1) (length ?pre - 1) mode fd"
  have "parseredirs b c (length pre) = parseredirs b ?d (length ?pre)" by (subst parseredirs.simps) (simp only: p t prod.case, simp)
  then show ?case using Cons.IH[of ?pre ?d] Cons.prems b(2) x t(3) by (simp add: add.assoc)
qed

lemma parse_args_stop: "follow ''|)&;'' k \<Longrightarrow> b = pre @ k \<Longrightarrow> parse_args b t argc (length pre) = Ok (t, length pre)"
proof -
  assume a: "follow ''|)&;'' k" "b = pre @ k"
  have k: "tidy k" by (rule follow_tidy[OF a(1)]) (auto simp: symbols_def)
  have g: "gettoken pre (length pre) = (NUL, length pre, length pre, length pre)"
    using skip_tidy[of "[]" pre] by (simp add: gettoken_def Let_def rd_char_def)
  show ?thesis using peek_app[OF k, of pre "''|)&;''"] a g by (subst parse_args.simps) (auto simp: follow_def)
qed

lemma parse_args_text:
  assumes "ws \<noteq> []" "\<forall>w \<in> set ws. word w" "argc + length ws < MAXARGS" "redirs_ok fs" "follow ''|)&;'' k" "b = pre @ words_text ws @ redirs_text fs @ k"
  shows "\<exists>t. parse_args b (EXEC as) argc (length pre) = Ok (t, length (pre @ words_text ws @ redirs_text fs)) \<and>
    texts b t = redirect fs (Run (map (between b) as @ ws))"
  using assms
proof (induction ws arbitrary: pre "as" argc)
  case (Cons w ws)
  let ?pre = "pre @ w @ [CHR 0x20]" and ?r = "words_text ws @ redirs_text fs @ k" and ?a = "(length pre, length pre + length w)"
  have k: "tidy k" by (rule follow_tidy[OF Cons.prems(5)]) (auto simp: symbols_def)
  have w: "word w" using Cons.prems(2) by simp
  have r: "tidy ?r" using word_tidy[of "hd ws"] tidy_redirs[OF k] Cons.prems(2) by (cases ws) (simp_all add: words_text_def)
  have b: "b = pre @ w @ CHR 0x20 # ?r" "b = ?pre @ ?r" using Cons.prems(6) by (simp_all add: words_text_def)
  have ks: "k = [] \<or> hd k \<notin> set ''<>''" using Cons.prems(5) by (auto simp: follow_def)
  have "hd (w @ CHR 0x20 # ?r) \<notin> set ''|)&;''" using word_not_sym[OF w] by (auto simp: symbols_def)
  then have p: "peek_sh b ''|)&;'' (length pre) = (False, length pre)" using peek_app[OF word_tidy[OF w], of pre "CHR 0x20 # ?r" "''|)&;''"] b(1) by simp
  have st: "parse_args b (EXEC as) argc (length pre) =
      bnd (parseredirs b (EXEC (as @ [?a])) (length ?pre)) (\<lambda>(ret, s). parse_args b ret (argc + 1) s)"
    using token_word[OF w r, of pre] Cons.prems(3) unfolding b(1)[symmetric] by (subst parse_args.simps) (simp add: p)
  have a: "between b ?a = w" using between_app[of pre w "CHR 0x20 # ?r"] b(1) by simp
  show ?case
  proof (cases ws)
    case Nil
    obtain t where t: "parseredirs b (EXEC (as @ [?a])) (length ?pre) = Ok (t, length ?pre + length (redirs_text fs))"
      "texts b t = redirect fs (Run (map (between b) as @ [w]))"
      using parseredirs_text[OF Cons.prems(4) k ks, of b ?pre "EXEC (as @ [?a])"] b(2) a Nil by (auto simp: words_text_def)
    moreover have "parse_args b t (argc + 1) (length ?pre + length (redirs_text fs)) = Ok (t, length ?pre + length (redirs_text fs))"
      using parse_args_stop[OF Cons.prems(5), of b "?pre @ redirs_text fs" t "argc + 1"] b(2) Nil by (simp add: words_text_def add.assoc)
    ultimately show ?thesis using st Nil by (simp add: words_text_def add.assoc)
  next
    case (Cons v vs)
    have "hd ?r \<notin> set ''<>''" "?r \<noteq> []" using word_not_sym[of v] Cons.prems(2) Cons by (auto simp: words_text_def symbols_def)
    then have "parseredirs b (EXEC (as @ [?a])) (length ?pre) = Ok (EXEC (as @ [?a]), length ?pre)"
      using peek_app[OF r, of ?pre "''<>''"] b(2) by (subst parseredirs.simps) simp
    then show ?thesis using st Cons.IH[of "argc + 1" ?pre "as @ [?a]"] Cons.prems Cons b(2) a by (simp add: words_text_def add.assoc)
  qed
qed simp

section \<open>The grammar\<close>

text \<open>What the four routines do on the text of a command, at the level each of them reads.\<close>

definition reads_exec :: "scmd \<Rightarrow> bool" where
  "reads_exec c \<longleftrightarrow> (\<forall>pre fs k n b. redirs_ok fs \<longrightarrow> follow ''|)&;'' k \<longrightarrow> b = pre @ cmd_text c 3 @ redirs_text fs @ k \<longrightarrow>
     4 * (length b - length pre) + 2 \<le> n \<longrightarrow>
     (\<exists>t. parseexec n b (length pre) = Ok (t, length (pre @ cmd_text c 3 @ redirs_text fs)) \<and> texts b t = redirect fs c))"

definition reads_pipe :: "scmd \<Rightarrow> bool" where
  "reads_pipe c \<longleftrightarrow> (\<forall>pre k n b. follow '')&;'' k \<longrightarrow> b = pre @ cmd_text c 2 @ k \<longrightarrow> 4 * (length b - length pre) + 3 \<le> n \<longrightarrow>
     (\<exists>t. parsepipe n b (length pre) = Ok (t, length (pre @ cmd_text c 2)) \<and> texts b t = c))"

definition reads_back :: "scmd \<Rightarrow> bool" where
  "reads_back c \<longleftrightarrow> (\<forall>pre k n b. follow '')&;'' k \<longrightarrow> b = pre @ cmd_text c 1 @ k \<longrightarrow> 4 * (length b - length pre) + 3 \<le> n \<longrightarrow>
     (\<exists>d s t. parsepipe n b (length pre) = Ok (d, s) \<and> parse_backs b d s = parse_backs b t (length (pre @ cmd_text c 1)) \<and> texts b t = c))"

definition reads_line :: "scmd \<Rightarrow> bool" where
  "reads_line c \<longleftrightarrow> (\<forall>pre k n b. follow '')'' k \<longrightarrow> b = pre @ cmd_text c 0 @ k \<longrightarrow> 4 * (length b - length pre) + 4 \<le> n \<longrightarrow>
     (\<exists>t. parseline n b (length pre) = Ok (t, length (pre @ cmd_text c 0)) \<and> texts b t = c))"

lemma follow_mono: "follow ts k \<Longrightarrow> set ts \<subseteq> set us \<Longrightarrow> follow us k"
  by (auto simp: follow_def)

lemma follow_cons [simp]: "follow ts (c # k) \<longleftrightarrow> c \<in> set ts" "follow ts []"
  by (simp_all add: follow_def)

lemma tidy_cmd: "good c \<Longrightarrow> tidy k \<Longrightarrow> tidy (cmd_text c l @ k)"
proof (induction c arbitrary: l k)
  case (Run ws)
  then show ?case by (cases ws) (auto simp: words_text_def word_tidy)
next
  case (Redirect c f mode fd)
  then show ?case using tidy_redirs[of k "[(f, mode, fd)]"] by simp
qed (auto simp: paren_def whitespace_def)

lemma pipe_of_exec: "reads_exec c \<Longrightarrow> cmd_text c 2 = cmd_text c 3 \<Longrightarrow> reads_pipe c"
  unfolding reads_pipe_def
proof (intro allI impI)
  fix pre k n b
  assume a: "reads_exec c" "cmd_text c 2 = cmd_text c 3" "follow '')&;'' k" "b = pre @ cmd_text c 2 @ k" "4 * (length b - length pre) + 3 \<le> n"
  then obtain n' where n: "n = Suc n'" by (cases n) auto
  have k: "tidy k" by (rule follow_tidy[OF a(3)]) (auto simp: symbols_def)
  have "follow ''|)&;'' k" by (rule follow_mono[OF a(3)]) auto
  then obtain t where t: "parseexec n' b (length pre) = Ok (t, length (pre @ cmd_text c 3))" "texts b t = c"
    using a(1)[unfolded reads_exec_def, rule_format, of "[]" k b pre n'] a(2,4,5) n by auto
  have "peek_sh b ''|'' (length (pre @ cmd_text c 3)) = (False, length (pre @ cmd_text c 3))"
    using peek_app[OF k, of "pre @ cmd_text c 3" "''|''"] a(2-4) by (auto simp: follow_def)
  then show "\<exists>t. parsepipe n b (length pre) = Ok (t, length (pre @ cmd_text c 2)) \<and> texts b t = c" using n t a(2) by simp
qed

lemma pipe_of_Pipe: "reads_exec c \<Longrightarrow> reads_pipe d \<Longrightarrow> good d \<Longrightarrow> reads_pipe (Pipe c d)"
  unfolding reads_pipe_def[of "Pipe c d"]
proof (intro allI impI)
  fix pre k n b
  assume a: "reads_exec c" "reads_pipe d" "good d" "follow '')&;'' k" "b = pre @ cmd_text (Pipe c d) 2 @ k" "4 * (length b - length pre) + 3 \<le> n"
  then obtain n' where n: "n = Suc n'" by (cases n) auto
  let ?p = "pre @ cmd_text c 3"
  have b: "b = ?p @ CHR ''|'' # cmd_text d 2 @ k" "b = (?p @ ''|'') @ cmd_text d 2 @ k" using a(5) by (simp_all add: paren_def)
  have k: "tidy (cmd_text d 2 @ k)" by (rule tidy_cmd[OF a(3) follow_tidy[OF a(4)]]) (auto simp: symbols_def)
  obtain t where t: "parseexec n' b (length pre) = Ok (t, length ?p)" "texts b t = c"
    using a(1)[unfolded reads_exec_def, rule_format, of "[]" "CHR ''|'' # cmd_text d 2 @ k" b pre n'] b(1) a(6) n by auto
  obtain u where u: "parsepipe n' b (Suc (length ?p)) = Ok (u, length (?p @ ''|'' @ cmd_text d 2))" "texts b u = d"
    using a(2)[unfolded reads_pipe_def, rule_format, of k b "?p @ ''|''" n'] a(4,6) b(2) n by auto
  have "peek_sh b ''|'' (length ?p) = (True, length ?p)" using peek_app[of "CHR ''|'' # cmd_text d 2 @ k" ?p "''|''"] b(1) by (simp add: whitespace_def)
  moreover have "gettoken b (length ?p) = (CHR ''|'', length ?p, Suc (length ?p), Suc (length ?p))"
    using token_symbol[OF _ k, of "CHR ''|''" ?p] b(1) by simp
  ultimately show "\<exists>t. parsepipe n b (length pre) = Ok (t, length (pre @ cmd_text (Pipe c d) 2)) \<and> texts b t = Pipe c d"
    using n t u by (simp add: paren_def)
qed

lemma back_of_pipe: "reads_pipe c \<Longrightarrow> cmd_text c 1 = cmd_text c 2 \<Longrightarrow> reads_back c"
  unfolding reads_back_def reads_pipe_def by metis

lemma parse_backs_stop: "follow '');'' k \<Longrightarrow> b = pre @ k \<Longrightarrow> parse_backs b t (length pre) = (t, length pre)"
  using peek_app[OF follow_tidy, of "'');''" k pre "''&''"] by (subst parse_backs.simps) (auto simp: follow_def symbols_def)

lemma back_of_Bg: "reads_back c \<Longrightarrow> reads_back (Bg c)"
  unfolding reads_back_def[of "Bg c"]
proof (intro allI impI)
  fix pre k n b
  assume a: "reads_back c" "follow '')&;'' k" "b = pre @ cmd_text (Bg c) 1 @ k" "4 * (length b - length pre) + 3 \<le> n"
  let ?p = "pre @ cmd_text c 1"
  have k: "tidy k" by (rule follow_tidy[OF a(2)]) (auto simp: symbols_def)
  have b: "b = ?p @ CHR ''&'' # k" using a(3) by (simp add: paren_def)
  obtain d s t where t: "parsepipe n b (length pre) = Ok (d, s)" "parse_backs b d s = parse_backs b t (length ?p)" "texts b t = c"
    using a(1)[unfolded reads_back_def, rule_format, of "CHR ''&'' # k" b pre n] b a(4) by auto
  have "peek_sh b ''&'' (length ?p) = (True, length ?p)" using peek_app[of "CHR ''&'' # k" ?p "''&''"] b by (simp add: whitespace_def)
  moreover have "gettoken b (length ?p) = (CHR ''&'', length ?p, Suc (length ?p), Suc (length ?p))" using token_symbol[OF _ k, of "CHR ''&''" ?p] b by simp
  ultimately have "parse_backs b t (length ?p) = parse_backs b (BACK t) (Suc (length ?p))" by (subst parse_backs.simps) simp
  then show "\<exists>d s t. parsepipe n b (length pre) = Ok (d, s) \<and> parse_backs b d s = parse_backs b t (length (pre @ cmd_text (Bg c) 1)) \<and> texts b t = Bg c"
    using t by (intro exI[of _ d] exI[of _ s] exI[of _ "BACK t"]) (simp add: paren_def)
qed

lemma line_of_back: "reads_back c \<Longrightarrow> cmd_text c 0 = cmd_text c 1 \<Longrightarrow> reads_line c"
  unfolding reads_line_def
proof (intro allI impI)
  fix pre k n b
  assume a: "reads_back c" "cmd_text c 0 = cmd_text c 1" "follow '')'' k" "b = pre @ cmd_text c 0 @ k" "4 * (length b - length pre) + 4 \<le> n"
  then obtain n' where n: "n = Suc n'" by (cases n) auto
  let ?p = "pre @ cmd_text c 0"
  have k: "tidy k" by (rule follow_tidy[OF a(3)]) (auto simp: symbols_def)
  have f: "follow '')&;'' k" "follow '');'' k" using a(3) by (auto simp: follow_def)
  obtain d s t where t: "parsepipe n' b (length pre) = Ok (d, s)" "parse_backs b d s = parse_backs b t (length ?p)" "texts b t = c"
    using a(1)[unfolded reads_back_def, rule_format, OF f(1), of b pre n'] a(2,4,5) n by auto
  have "parse_backs b t (length ?p) = (t, length ?p)" by (rule parse_backs_stop[OF f(2)]) (use a(4) in simp)
  moreover have "peek_sh b '';'' (length ?p) = (False, length ?p)" using peek_app[OF k, of ?p "'';''"] a(3,4) by (auto simp: follow_def)
  ultimately show "\<exists>t. parseline n b (length pre) = Ok (t, length (pre @ cmd_text c 0)) \<and> texts b t = c" using n t by simp
qed

lemma line_of_Seq: "reads_back c \<Longrightarrow> reads_line d \<Longrightarrow> good d \<Longrightarrow> reads_line (Seq c d)"
  unfolding reads_line_def[of "Seq c d"]
proof (intro allI impI)
  fix pre k n b
  assume a: "reads_back c" "reads_line d" "good d" "follow '')'' k" "b = pre @ cmd_text (Seq c d) 0 @ k" "4 * (length b - length pre) + 4 \<le> n"
  then obtain n' where n: "n = Suc n'" by (cases n) auto
  let ?p = "pre @ cmd_text c 1"
  have b: "b = ?p @ CHR '';'' # cmd_text d 0 @ k" "b = (?p @ '';'') @ cmd_text d 0 @ k" using a(5) by (simp_all add: paren_def)
  have k: "tidy (cmd_text d 0 @ k)" by (rule tidy_cmd[OF a(3) follow_tidy[OF a(4)]]) (auto simp: symbols_def)
  obtain e s t where t: "parsepipe n' b (length pre) = Ok (e, s)" "parse_backs b e s = parse_backs b t (length ?p)" "texts b t = c"
    using a(1)[unfolded reads_back_def, rule_format, of "CHR '';'' # cmd_text d 0 @ k" b pre n'] b(1) a(6) n by auto
  obtain u where u: "parseline n' b (Suc (length ?p)) = Ok (u, length (?p @ '';'' @ cmd_text d 0))" "texts b u = d"
    using a(2)[unfolded reads_line_def, rule_format, OF a(4), of b "?p @ '';''" n'] a(6) b(2) n by auto
  have "parse_backs b t (length ?p) = (t, length ?p)" by (rule parse_backs_stop[of "CHR '';'' # cmd_text d 0 @ k"]) (simp_all add: b(1))
  moreover have "peek_sh b '';'' (length ?p) = (True, length ?p)" using peek_app[of "CHR '';'' # cmd_text d 0 @ k" ?p "'';''"] b(1) by (simp add: whitespace_def)
  moreover have "gettoken b (length ?p) = (CHR '';'', length ?p, Suc (length ?p), Suc (length ?p))"
    using token_symbol[OF _ k, of "CHR '';''" ?p] b(1) by simp
  ultimately show "\<exists>t. parseline n b (length pre) = Ok (t, length (pre @ cmd_text (Seq c d) 0)) \<and> texts b t = Seq c d"
    using n t u by (simp add: paren_def)
qed

lemma exec_of_Run: "good (Run ws) \<Longrightarrow> reads_exec (Run ws)"
  unfolding reads_exec_def
proof (intro allI impI)
  fix pre fs k n b
  assume a: "good (Run ws)" "redirs_ok fs" "follow ''|)&;'' k" "b = pre @ cmd_text (Run ws) 3 @ redirs_text fs @ k" "4 * (length b - length pre) + 2 \<le> n"
  then obtain n' where n: "n = Suc n'" by (cases n) auto
  let ?r = "words_text ws @ redirs_text fs @ k"
  have k: "tidy k" by (rule follow_tidy[OF a(3)]) (auto simp: symbols_def)
  have ks: "k = [] \<or> hd k \<notin> set ''<>''" "k = [] \<or> hd k \<noteq> CHR ''(''" using a(3) by (auto simp: follow_def)
  have r: "tidy ?r" using tidy_cmd[OF a(1) tidy_redirs[OF k], of 3] by simp
  have fh: "redirs_text fs @ k = [] \<or> hd (redirs_text fs @ k) \<noteq> CHR ''(''"
  proof (cases fs)
    case (Cons x gs)
    then show ?thesis using redir_hd(1)[of "fst x" "fst (snd x)" "redirs_text gs @ k"] by (cases x) auto
  qed (use ks in simp)
  show "\<exists>t. parseexec n b (length pre) = Ok (t, length (pre @ cmd_text (Run ws) 3 @ redirs_text fs)) \<and> texts b t = redirect fs (Run ws)"
  proof (cases ws)
    case Nil
    have p: "peek_sh b ''('' (length pre) = (False, length pre)" using peek_app[OF r, of pre "''(''"] fh a(4) Nil by (auto simp: words_text_def)
    obtain t where t: "parseredirs b (EXEC []) (length pre) = Ok (t, length pre + length (redirs_text fs))" "texts b t = redirect fs (Run [])"
      using parseredirs_text[OF a(2) k ks(1), of b pre "EXEC []"] a(4) Nil by (auto simp: words_text_def)
    have "parse_args b t 0 (length pre + length (redirs_text fs)) = Ok (t, length pre + length (redirs_text fs))"
      using parse_args_stop[OF a(3), of b "pre @ redirs_text fs" t 0] a(4) Nil by (simp add: words_text_def)
    then show ?thesis using n p t Nil by (simp add: words_text_def)
  next
    case (Cons w vs)
    have "hd ?r \<notin> set symbols" using word_not_sym[of w] a(1) Cons by (simp add: words_text_def)
    then have h: "hd ?r \<notin> set ''<>''" "hd ?r \<noteq> CHR ''(''" by (auto simp: symbols_def)
    have p: "peek_sh b ''('' (length pre) = (False, length pre)" using peek_app[OF r, of pre "''(''"] h(2) a(4) by simp
    have "parseredirs b (EXEC []) (length pre) = Ok (EXEC [], length pre)" using peek_app[OF r, of pre "''<>''"] h(1) a(4) by (subst parseredirs.simps) simp
    then show ?thesis using parse_args_text[of ws 0 fs k b pre "[]"] a Cons n p by simp
  qed
qed

lemma exec_of_Redirect: "reads_exec c \<Longrightarrow> word f \<Longrightarrow> mode_ok mode fd \<Longrightarrow> reads_exec (Redirect c f mode fd)"
  unfolding reads_exec_def[of "Redirect c f mode fd"]
proof (intro allI impI)
  fix pre fs k n b
  assume a: "reads_exec c" "word f" "mode_ok mode fd" "redirs_ok fs" "follow ''|)&;'' k" "b = pre @ cmd_text (Redirect c f mode fd) 3 @ redirs_text fs @ k"
    "4 * (length b - length pre) + 2 \<le> n"
  show "\<exists>t. parseexec n b (length pre) = Ok (t, length (pre @ cmd_text (Redirect c f mode fd) 3 @ redirs_text fs)) \<and> texts b t = redirect fs (Redirect c f mode fd)"
    using a(1)[unfolded reads_exec_def, rule_format, of "(f, mode, fd) # fs" k b pre n] a(2-7) by simp
qed

lemma exec_of_line: "reads_line c \<Longrightarrow> cmd_text c 3 = ''('' @ cmd_text c 0 @ '')'' \<Longrightarrow> good c \<Longrightarrow> reads_exec c"
  unfolding reads_exec_def
proof (intro allI impI)
  fix pre fs k n b
  assume a: "reads_line c" "cmd_text c 3 = ''('' @ cmd_text c 0 @ '')''" "good c" "redirs_ok fs" "follow ''|)&;'' k"
    "b = pre @ cmd_text c 3 @ redirs_text fs @ k" "4 * (length b - length pre) + 2 \<le> n"
  let ?p = "pre @ ''('' @ cmd_text c 0" and ?r = "redirs_text fs @ k"
  have b: "b = pre @ CHR ''('' # cmd_text c 0 @ CHR '')'' # ?r" "b = (pre @ ''('') @ cmd_text c 0 @ CHR '')'' # ?r" "b = ?p @ CHR '')'' # ?r" "b = (?p @ '')'') @ ?r"
    using a(2,6) by simp_all
  obtain m where n: "n = Suc (Suc m)" using a(7) b(1) by (cases n; cases "n - 1") auto
  have k: "tidy k" by (rule follow_tidy[OF a(5)]) (auto simp: symbols_def)
  have ks: "k = [] \<or> hd k \<notin> set ''<>''" using a(5) by (auto simp: follow_def)
  have c: "tidy (cmd_text c 0 @ CHR '')'' # ?r)" by (rule tidy_cmd[OF a(3)]) (simp add: whitespace_def)
  obtain t where t: "parseline m b (Suc (length pre)) = Ok (t, length ?p)" "texts b t = c"
    using a(1)[unfolded reads_line_def, rule_format, of "CHR '')'' # ?r" b "pre @ ''(''" m] a(7) b(2) n by auto
  obtain u where u: "parseredirs b t (Suc (length ?p)) = Ok (u, Suc (length ?p) + length (redirs_text fs))" "texts b u = redirect fs c"
    using parseredirs_text[OF a(4) k ks b(4), of t] t(2) by auto
  have "peek_sh b ''('' (length pre) = (True, length pre)" using peek_app[of "CHR ''('' # cmd_text c 0 @ CHR '')'' # ?r" pre "''(''"] b(1) by (simp add: whitespace_def)
  moreover have "peek_sh b '')'' (length ?p) = (True, length ?p)" using peek_app[of "CHR '')'' # ?r" ?p "'')''"] b(3) by (simp add: whitespace_def)
  moreover have "gettoken b (length pre) = (CHR ''('', length pre, Suc (length pre), Suc (length pre))" using token_symbol[OF _ c, of "CHR ''(''" pre] b(1) by simp
  moreover have "gettoken b (length ?p) = (CHR '')'', length ?p, Suc (length ?p), Suc (length ?p))"
    using token_symbol[OF _ tidy_redirs[OF k], of "CHR '')''" ?p fs] b(3) by simp
  ultimately show "\<exists>t. parseexec n b (length pre) = Ok (t, length (pre @ cmd_text c 3 @ redirs_text fs)) \<and> texts b t = redirect fs c"
    using n t u a(2) by simp
qed

lemma reads_all: "good c \<Longrightarrow> reads_exec c \<and> reads_pipe c \<and> reads_back c \<and> reads_line c"
proof (induction c)
  case (Run ws)
  then have e: "reads_exec (Run ws)" by (simp only: exec_of_Run)
  then have p: "reads_pipe (Run ws)" by (rule pipe_of_exec) simp
  then have k: "reads_back (Run ws)" by (rule back_of_pipe) simp
  then show ?case using e p line_of_back by simp
next
  case (Redirect c f mode fd)
  then have e: "reads_exec (Redirect c f mode fd)" by (simp add: exec_of_Redirect)
  then have p: "reads_pipe (Redirect c f mode fd)" by (rule pipe_of_exec) simp
  then have k: "reads_back (Redirect c f mode fd)" by (rule back_of_pipe) simp
  then show ?case using e p line_of_back by simp
next
  case (Pipe c d)
  then have p: "reads_pipe (Pipe c d)" by (simp add: pipe_of_Pipe)
  then have k: "reads_back (Pipe c d)" by (rule back_of_pipe) (simp add: paren_def)
  then have l: "reads_line (Pipe c d)" by (rule line_of_back) (simp add: paren_def)
  then have "reads_exec (Pipe c d)" by (rule exec_of_line) (use Pipe.prems in \<open>simp_all add: paren_def\<close>)
  then show ?case using p k l by simp
next
  case (Seq c d)
  then have l: "reads_line (Seq c d)" by (simp add: line_of_Seq)
  then have e: "reads_exec (Seq c d)" by (rule exec_of_line) (use Seq.prems in \<open>simp_all add: paren_def\<close>)
  then have p: "reads_pipe (Seq c d)" by (rule pipe_of_exec) (simp add: paren_def)
  then have "reads_back (Seq c d)" by (rule back_of_pipe) (simp add: paren_def)
  then show ?case using e p l by simp
next
  case (Bg c)
  then have k: "reads_back (Bg c)" by (simp add: back_of_Bg)
  then have l: "reads_line (Bg c)" by (rule line_of_back) (simp add: paren_def)
  then have e: "reads_exec (Bg c)" by (rule exec_of_line) (use Bg.prems in \<open>simp_all add: paren_def\<close>)
  then have "reads_pipe (Bg c)" by (rule pipe_of_exec) (simp add: paren_def)
  then show ?case using e k l by simp
qed

text \<open>The command a tree stands for when its words are read as C strings.\<close>

primrec strings :: "string \<Rightarrow> cmd \<Rightarrow> scmd" where
  "strings m (EXEC as) = Run (map (\<lambda>a. cstring m (fst a)) as)"
| "strings m (REDIR c q eq mode fd) = Redirect (strings m c) (cstring m q) mode fd"
| "strings m (PIPE l r) = Pipe (strings m l) (strings m r)"
| "strings m (LIST l r) = Seq (strings m l) (strings m r)"
| "strings m (BACK c) = Bg (strings m c)"

lemma strings_texts: "\<forall>a \<in> toks c. cstring m' (fst a) = between m a \<Longrightarrow> strings m' c = texts m c"
  by (induction c) (auto simp: ball_Un)

lemma texts_app: "\<forall>a \<in> toks c. tok_ok b a \<Longrightarrow> texts (b @ k) c = texts b c"
  by (induction c) (auto simp: tok_ok_def between_def)

lemma cmd_text_chars: "good c \<Longrightarrow> NUL \<notin> set (cmd_text c l)"
proof (induction c arbitrary: l)
  case (Run ws)
  then show ?case by (auto simp: words_text_def word_def wordc_def)
qed (auto simp: paren_def redir_text_def word_def wordc_def)

text \<open>C7: The shell's parser reads back every command. For every command built from words of ordinary characters, at most nine to a program,
  with redirections, pipelines, lists and background commands nested in any way, parsing its text gives a tree that stands for that very command:
  the tree has its shape, and each word, read as a C string from the array that the parser has cut into words, is the word of the command,
  whatever follows the terminating null in the array.\<close>

theorem parsecmd_inverts_text:
  assumes "good c"
  shows "\<exists>t m'. parsecmd (cmd_text c 0 @ NUL # rest) = Ok (t, m') \<and> strings m' t = c"
proof -
  let ?b = "cmd_text c 0" and ?m = "cmd_text c 0 @ NUL # rest"
  have n: "NUL \<notin> set ?b" by (rule cmd_text_chars[OF assms])
  then have b: "takeWhile (\<lambda>c. c \<noteq> NUL) ?m = ?b" by (subst takeWhile_append2) auto
  obtain t where t: "parseline (4 * length ?b + 4) ?b 0 = Ok (t, length ?b)" "texts ?b t = c"
    using reads_all[OF assms, THEN conjunct2, THEN conjunct2, THEN conjunct2, unfolded reads_line_def, rule_format, of "[]" ?b "[]" "4 * length ?b + 4"] by auto
  have "safe (parsed ?b 0) (parseline (4 * length ?b + 4) ?b 0)" by (rule parse_safe(1)[OF n]) simp_all
  then have ok: "\<forall>a \<in> toks t. tok_ok ?b a" using t(1) by simp
  have "strings (nulterminate t ?m) t = texts ?m t"
    by (rule strings_texts) (use nulterminate_word[OF b[symmetric] _ ok] in simp)
  moreover have "peek_sh ?b [] (length ?b) = (False, length ?b)" using peek_app[of "[]" ?b "[]"] by simp
  ultimately show ?thesis using t texts_app[OF ok] by (simp add: parsecmd_def undef_if_def panic_if_def b)
qed

theorem parsecmd_inverts_text_witness:
  "\<exists>t m'. parsecmd (''cat a |(wc ;ls &)>out '' @ [NUL]) = Ok (t, m') \<and>
     strings m' t = Pipe (Run [''cat'', ''a'']) (Redirect (Seq (Run [''wc'']) (Bg (Run [''ls'']))) ''out'' (O_WRONLY OR O_CREATE OR O_TRUNC) 1)"
proof -
  let ?c = "Pipe (Run [''cat'', ''a'']) (Redirect (Seq (Run [''wc'']) (Bg (Run [''ls'']))) ''out'' (O_WRONLY OR O_CREATE OR O_TRUNC) 1)"
  have "good ?c" by (simp add: word_def wordc_def whitespace_def symbols_def mode_ok_def MAXARGS_def)
  moreover have "cmd_text ?c 0 = ''cat a |(wc ;ls &)>out ''"
    by (simp add: paren_def words_text_def redir_text_def O_RDONLY_def O_WRONLY_def O_CREATE_def O_TRUNC_def)
  ultimately show ?thesis using parsecmd_inverts_text[of ?c "[]"] by simp
qed

end
