(* ===== verification/Spinlock.thy ===== *)
theory Spinlock
  imports Prelude
begin

text \<open>
  Spin locks (\<^verbatim>\<open>kernel/spinlock.c\<close>): the nested interrupt disabling of \<open>push_off\<close> and
  \<open>pop_off\<close>, \<open>acquire\<close> and \<open>release\<close>, and the interleaving of several CPUs at the granularity of
  the atomic swaps, with mutual exclusion for every reachable state.
\<close>

section \<open>Operations\<close>

text \<open>\<open>lcpu\<close> is the \<^verbatim>\<open>cpu\<close> field: the CPU holding the lock. \<open>sie\<close> is the interrupt-enable
  bit that \<^verbatim>\<open>intr_get\<close>, \<^verbatim>\<open>intr_on\<close> and \<^verbatim>\<open>intr_off\<close> access.\<close>

record spinlock =
  locked :: bool
  lcpu :: "nat option"

record cpu =
  noff :: int
  intena :: bool
  sie :: bool

definition initlock :: spinlock where
  "initlock = \<lparr>locked = False, lcpu = None\<rparr>"

definition holding :: "nat \<Rightarrow> spinlock \<Rightarrow> bool" where
  "holding c lk \<longleftrightarrow> locked lk \<and> lcpu lk = Some c"

definition push_off :: "cpu \<Rightarrow> cpu" where
  "push_off u =
     (let old = sie u;
          u1 = u\<lparr>sie := False\<rparr>;
          u2 = (if noff u1 = 0 then u1\<lparr>intena := old\<rparr> else u1)
      in u2\<lparr>noff := noff u2 + 1\<rparr>)"

definition pop_off :: "cpu \<Rightarrow> cpu res" where
  "pop_off u =
     panic_if (sie u) ''pop_off - interruptible'' (panic_if (noff u < 1) ''pop_off''
       (let u1 = u\<lparr>noff := noff u - 1\<rparr>
        in Ok (if noff u1 = 0 \<and> intena u1 then u1\<lparr>sie := True\<rparr> else u1)))"

text \<open>\<open>acquire\<close> in three pieces: up to the spin loop, one iteration of the loop
  (\<open>sync_lock_test_and_set\<close> returns the old value), and recording the owner.\<close>

definition acquire_enter :: "nat \<Rightarrow> spinlock \<Rightarrow> cpu \<Rightarrow> cpu res" where
  "acquire_enter c lk u = (let u1 = push_off u in panic_if (holding c lk) ''acquire'' (Ok u1))"

definition test_and_set :: "spinlock \<Rightarrow> bool \<times> spinlock" where
  "test_and_set lk = (locked lk, lk\<lparr>locked := True\<rparr>)"

definition acquire_done :: "nat \<Rightarrow> spinlock \<Rightarrow> spinlock" where
  "acquire_done c lk = lk\<lparr>lcpu := Some c\<rparr>"

definition release_enter :: "nat \<Rightarrow> spinlock \<Rightarrow> spinlock res" where
  "release_enter c lk = panic_if (\<not> holding c lk) ''release'' (Ok (lk\<lparr>lcpu := None\<rparr>))"

definition lock_release :: "spinlock \<Rightarrow> spinlock" where
  "lock_release lk = lk\<lparr>locked := False\<rparr>"

text \<open>The whole routines on one CPU, with nobody else releasing the lock meanwhile: a lock held by
  another CPU is spun on forever.\<close>

definition acquire :: "nat \<Rightarrow> spinlock \<Rightarrow> cpu \<Rightarrow> (spinlock \<times> cpu) res" where
  "acquire c lk u =
     bnd (acquire_enter c lk u) (\<lambda>u1.
       case test_and_set lk of (old, lk1) \<Rightarrow> if old then Diverge else Ok (acquire_done c lk1, u1))"

definition release :: "nat \<Rightarrow> spinlock \<Rightarrow> cpu \<Rightarrow> (spinlock \<times> cpu) res" where
  "release c lk u = bnd (release_enter c lk) (\<lambda>lk1. bnd (pop_off u) (\<lambda>u1. Ok (lock_release lk1, u1)))"

section \<open>Interleaving\<close>

datatype lock_pc = Run | Spin nat | Won nat | Rel nat

text \<open>\<open>depth\<close> counts the calls of \<open>push_off\<close> outside \<open>acquire\<close> that are still open.\<close>

record smp =
  locks :: "nat \<Rightarrow> spinlock"
  cpus :: "nat \<Rightarrow> cpu"
  pcs :: "nat \<Rightarrow> lock_pc"
  depth :: "nat \<Rightarrow> nat"

inductive lstep :: "smp \<Rightarrow> smp \<Rightarrow> bool" where
  intr_on: "pcs m c = Run \<Longrightarrow> noff (cpus m c) = 0 \<Longrightarrow> lstep m (m\<lparr>cpus := (cpus m)(c := (cpus m c)\<lparr>sie := True\<rparr>)\<rparr>)"
| intr_off: "pcs m c = Run \<Longrightarrow> lstep m (m\<lparr>cpus := (cpus m)(c := (cpus m c)\<lparr>sie := False\<rparr>)\<rparr>)"
| push: "pcs m c = Run \<Longrightarrow>
    lstep m (m\<lparr>cpus := (cpus m)(c := push_off (cpus m c)), depth := (depth m)(c := depth m c + 1)\<rparr>)"
| pop: "pcs m c = Run \<Longrightarrow> depth m c > 0 \<Longrightarrow> pop_off (cpus m c) = Ok u \<Longrightarrow>
    lstep m (m\<lparr>cpus := (cpus m)(c := u), depth := (depth m)(c := depth m c - 1)\<rparr>)"
| acq_enter: "pcs m c = Run \<Longrightarrow> acquire_enter c (locks m l) (cpus m c) = Ok u \<Longrightarrow>
    lstep m (m\<lparr>cpus := (cpus m)(c := u), pcs := (pcs m)(c := Spin l)\<rparr>)"
| acq_spin: "pcs m c = Spin l \<Longrightarrow> test_and_set (locks m l) = (True, lk) \<Longrightarrow> lstep m (m\<lparr>locks := (locks m)(l := lk)\<rparr>)"
| acq_win: "pcs m c = Spin l \<Longrightarrow> test_and_set (locks m l) = (False, lk) \<Longrightarrow>
    lstep m (m\<lparr>locks := (locks m)(l := lk), pcs := (pcs m)(c := Won l)\<rparr>)"
| acq_done: "pcs m c = Won l \<Longrightarrow>
    lstep m (m\<lparr>locks := (locks m)(l := acquire_done c (locks m l)), pcs := (pcs m)(c := Run)\<rparr>)"
| rel_enter: "pcs m c = Run \<Longrightarrow> release_enter c (locks m l) = Ok lk \<Longrightarrow>
    lstep m (m\<lparr>locks := (locks m)(l := lk), pcs := (pcs m)(c := Rel l)\<rparr>)"
| rel_done: "pcs m c = Rel l \<Longrightarrow> pop_off (cpus m c) = Ok u \<Longrightarrow>
    lstep m (m\<lparr>locks := (locks m)(l := lock_release (locks m l)), cpus := (cpus m)(c := u), pcs := (pcs m)(c := Run)\<rparr>)"

definition smp0 :: smp where
  "smp0 = \<lparr>locks = \<lambda>l. initlock, cpus = \<lambda>c. \<lparr>noff = 0, intena = False, sie = False\<rparr>, pcs = \<lambda>c. Run, depth = \<lambda>c. 0\<rparr>"

inductive lreach :: "smp \<Rightarrow> bool" where
  boot: "lreach smp0"
| step: "lreach m \<Longrightarrow> lstep m m' \<Longrightarrow> lreach m'"

inductive_cases lstep_cases: "lstep m m'"

section \<open>The invariant\<close>

definition owns :: "smp \<Rightarrow> nat \<Rightarrow> nat \<Rightarrow> bool" where
  "owns m c l \<longleftrightarrow> pcs m c = Won l \<or> pcs m c = Rel l \<or> lcpu (locks m l) = Some c"

definition owned :: "smp \<Rightarrow> nat \<Rightarrow> nat set" where
  "owned m c = {l. owns m c l}"

definition spins :: "smp \<Rightarrow> nat \<Rightarrow> int" where
  "spins m c = (case pcs m c of Spin l \<Rightarrow> 1 | _ \<Rightarrow> 0)"

definition lock_inv :: "smp \<Rightarrow> bool" where
  "lock_inv m \<longleftrightarrow>
     (\<forall>l. locked (locks m l) \<longleftrightarrow> (\<exists>c. owns m c l)) \<and>
     (\<forall>c d l. owns m c l \<longrightarrow> owns m d l \<longrightarrow> c = d) \<and>
     (\<forall>c l. pcs m c = Won l \<or> pcs m c = Rel l \<longrightarrow> lcpu (locks m l) = None) \<and>
     (\<forall>c l. pcs m c = Spin l \<longrightarrow> \<not> owns m c l)"

definition noff_inv :: "smp \<Rightarrow> bool" where
  "noff_inv m \<longleftrightarrow>
     (\<forall>c. finite (owned m c) \<and> noff (cpus m c) = int (card (owned m c)) + spins m c + int (depth m c) \<and>
       (noff (cpus m c) > 0 \<longrightarrow> \<not> sie (cpus m c)))"

lemma push_off_simps [simp]:
  "noff (push_off u) = noff u + 1" "sie (push_off u) = False" "intena (push_off u) = (if noff u = 0 then sie u else intena u)"
  by (simp_all add: push_off_def Let_def)

lemma pop_off_Ok: "pop_off u = Ok v \<Longrightarrow> noff v = noff u - 1 \<and> noff u \<ge> 1 \<and> \<not> sie u \<and> (noff v > 0 \<longrightarrow> \<not> sie v)"
  by (auto simp: pop_off_def panic_if_def Let_def split: if_splits)

lemma smp0_inv: "lock_inv smp0" "noff_inv smp0"
  by (simp_all add: lock_inv_def noff_inv_def smp0_def owns_def owned_def spins_def initlock_def)

text \<open>How ownership changes: only winning the swap adds an owner and only the final store of \<open>release\<close>
  removes one.\<close>

lemma owns_win:
  assumes "pcs m c = Spin l" "test_and_set (locks m l) = (False, lk)"
  shows "owns (m\<lparr>locks := (locks m)(l := lk), pcs := (pcs m)(c := Won l)\<rparr>) d k \<longleftrightarrow> owns m d k \<or> (d = c \<and> k = l)"
  using assms by (auto simp: owns_def test_and_set_def)

lemma owns_done:
  assumes "lock_inv m" "pcs m c = Won l"
  shows "owns (m\<lparr>locks := (locks m)(l := acquire_done c (locks m l)), pcs := (pcs m)(c := Run)\<rparr>) d k \<longleftrightarrow> owns m d k"
  using assms by (auto simp: owns_def acquire_done_def lock_inv_def)

lemma owns_rel_enter:
  assumes "lock_inv m" "pcs m c = Run" "release_enter c (locks m l) = Ok lk"
  shows "owns (m\<lparr>locks := (locks m)(l := lk), pcs := (pcs m)(c := Rel l)\<rparr>) d k \<longleftrightarrow> owns m d k"
  using assms by (auto simp: owns_def release_enter_def holding_def res_elims)

lemma owns_rel_done:
  assumes "lock_inv m" "pcs m c = Rel l"
  shows "owns (m\<lparr>locks := (locks m)(l := lock_release (locks m l)), cpus := f, pcs := (pcs m)(c := Run)\<rparr>) d k \<longleftrightarrow>
    owns m d k \<and> \<not> (d = c \<and> k = l)"
  using assms by (auto simp: owns_def lock_release_def lock_inv_def)

lemma owns_enter:
  assumes "pcs m c = Run"
  shows "owns (m\<lparr>cpus := f, pcs := (pcs m)(c := Spin l)\<rparr>) d k \<longleftrightarrow> owns m d k"
  using assms by (auto simp: owns_def)

lemma owns_idle [simp]: "owns (m\<lparr>cpus := f\<rparr>) c l = owns m c l" "owns (m\<lparr>cpus := f, depth := g\<rparr>) c l = owns m c l"
  by (simp_all add: owns_def)

lemma owns_spin:
  "test_and_set (locks m l) = (True, lk) \<Longrightarrow> owns (m\<lparr>locks := (locks m)(l := lk)\<rparr>) c k = owns m c k"
  by (auto simp: owns_def test_and_set_def)

lemma lock_inv_unowned:
  assumes "lock_inv m" "\<not> locked (locks m l)"
  shows "\<not> owns m d l" "lcpu (locks m l) = None"
  using assms by (auto simp: lock_inv_def owns_def split: option.splits) (metis option.exhaust)

lemma lock_invI:
  assumes "\<And>l. locked (locks m l) \<longleftrightarrow> (\<exists>c. owns m c l)" "\<And>c d l. owns m c l \<Longrightarrow> owns m d l \<Longrightarrow> c = d"
    "\<And>c l. pcs m c = Won l \<or> pcs m c = Rel l \<Longrightarrow> lcpu (locks m l) = None" "\<And>c l. pcs m c = Spin l \<Longrightarrow> \<not> owns m c l"
  shows "lock_inv m"
  using assms unfolding lock_inv_def by blast

lemma lock_invD:
  assumes "lock_inv m"
  shows "locked (locks m l) \<longleftrightarrow> (\<exists>c. owns m c l)" "owns m c l \<Longrightarrow> owns m d l \<Longrightarrow> c = d"
    "pcs m c = Won l \<or> pcs m c = Rel l \<Longrightarrow> lcpu (locks m l) = None" "pcs m c = Spin l \<Longrightarrow> \<not> owns m c l"
  using assms unfolding lock_inv_def by blast+

lemma win_inv:
  assumes "lock_inv m" "pcs m c = Spin l" "test_and_set (locks m l) = (False, lk)"
  shows "lock_inv (m\<lparr>locks := (locks m)(l := lk), pcs := (pcs m)(c := Won l)\<rparr>)" (is "lock_inv ?m")
proof -
  note I = lock_invD[OF assms(1)]
  note o = owns_win[OF assms(2,3)]
  have lk: "lk = (locks m l)\<lparr>locked := True\<rparr>" "\<not> locked (locks m l)" using assms(3) by (auto simp: test_and_set_def)
  note free = lock_inv_unowned[OF assms(1) lk(2)]
  show ?thesis
  proof (rule lock_invI)
    show "locked (locks ?m k) \<longleftrightarrow> (\<exists>d. owns ?m d k)" for k
      unfolding o using I(1)[of k] lk(1) by auto
    show "d = e" if "owns ?m d k" "owns ?m e k" for d e k
      using that free(1) I(2)[of d k e] unfolding o by auto
    show "lcpu (locks ?m k) = None" if "pcs ?m d = Won k \<or> pcs ?m d = Rel k" for d k
      using that free(2) I(3)[of d k] lk(1) by (auto split: if_splits)
    show "\<not> owns ?m d k" if "pcs ?m d = Spin k" for d k
      using that I(4)[of d k] unfolding o by (auto split: if_splits)
  qed
qed

lemma lock_step_inv: "lstep m m' \<Longrightarrow> lock_inv m \<Longrightarrow> lock_inv m'"
proof (induction rule: lstep.induct)
  case (acq_enter m c l u)
  then have h: "\<not> (locked (locks m l) \<and> lcpu (locks m l) = Some c)"
    by (auto simp: acquire_enter_def holding_def Let_def res_elims)
  note I = lock_invD[OF acq_enter(3)]
  show ?case
  proof (rule lock_invI, unfold owns_enter[OF acq_enter(1)])
    show "\<not> owns m d k" if "pcs (m\<lparr>cpus := (cpus m)(c := u), pcs := (pcs m)(c := Spin l)\<rparr>) d = Spin k" for d k
      using that I(4)[of d k] I(1)[of l] h acq_enter(1) by (auto simp: owns_def split: if_splits)
  qed (use I in \<open>auto split: if_splits\<close>)
next
  case (acq_spin m c l lk)
  then have "lk = locks m l" by (auto simp: test_and_set_def)
  then show ?case using acq_spin by simp
next
  case (acq_win m c l lk)
  then show ?case by (intro win_inv)
next
  case (acq_done m c l)
  note I = lock_invD[OF acq_done(2)]
  note o = owns_done[OF acq_done(2,1)]
  have w: "owns m c l" using acq_done(1) by (simp add: owns_def)
  show ?case
  proof (rule lock_invI, unfold o)
    fix d k
    assume a: "pcs (m\<lparr>locks := (locks m)(l := acquire_done c (locks m l)), pcs := (pcs m)(c := Run)\<rparr>) d = Won k \<or>
      pcs (m\<lparr>locks := (locks m)(l := acquire_done c (locks m l)), pcs := (pcs m)(c := Run)\<rparr>) d = Rel k"
    then have "d \<noteq> c" "pcs m d = Won k \<or> pcs m d = Rel k" by (auto split: if_splits)
    moreover from this have "k \<noteq> l" using I(2)[OF w, of d] by (auto simp: owns_def)
    ultimately show "lcpu (locks (m\<lparr>locks := (locks m)(l := acquire_done c (locks m l)), pcs := (pcs m)(c := Run)\<rparr>) k) = None"
      using I(3)[of d k] by simp
  qed (use I in \<open>auto simp: acquire_done_def split: if_splits\<close>)
next
  case (rel_enter m c l lk)
  note I = lock_invD[OF rel_enter(3)]
  have lk: "lk = (locks m l)\<lparr>lcpu := None\<rparr>" using rel_enter(2) by (auto simp: release_enter_def res_elims)
  show ?case
    by (rule lock_invI, unfold owns_rel_enter[OF rel_enter(3,1,2)]) (use I in \<open>auto simp: lk split: if_splits\<close>)
next
  case (rel_done m c l u)
  note I = lock_invD[OF rel_done(3)]
  note o = owns_rel_done[OF rel_done(3,1)]
  have w: "owns m c l" using rel_done(1) by (simp add: owns_def)
  let ?m = "m\<lparr>locks := (locks m)(l := lock_release (locks m l)), cpus := (cpus m)(c := u), pcs := (pcs m)(c := Run)\<rparr>"
  show ?case
  proof (rule lock_invI, unfold o)
    show "locked (locks ?m k) \<longleftrightarrow> (\<exists>d. owns m d k \<and> \<not> (d = c \<and> k = l))" for k
      using I(1)[of k] I(2)[OF w] by (auto simp: lock_release_def)
  qed (use I I(3)[OF disjI2, OF rel_done(1)] in \<open>auto simp: lock_release_def split: if_splits\<close>)
qed (simp_all add: lock_inv_def)

text \<open>\<^verbatim>\<open>noff\<close> counts the locks a CPU owns or waits for and its open \<open>push_off\<close>s.\<close>

lemma noff_inv_upd:
  assumes "noff_inv m" "\<And>d. d \<noteq> c \<Longrightarrow> cpus m' d = cpus m d \<and> spins m' d = spins m d \<and> depth m' d = depth m d \<and> owned m' d = owned m d"
    "finite (owned m' c)" "noff (cpus m' c) = int (card (owned m' c)) + spins m' c + int (depth m' c)"
    "noff (cpus m' c) > 0 \<Longrightarrow> \<not> sie (cpus m' c)"
  shows "noff_inv m'"
  using assms unfolding noff_inv_def by metis

lemma noff_invD:
  assumes "noff_inv m"
  shows "finite (owned m c)" "noff (cpus m c) = int (card (owned m c)) + spins m c + int (depth m c)"
    "noff (cpus m c) > 0 \<Longrightarrow> \<not> sie (cpus m c)"
  using assms by (auto simp: noff_inv_def)

lemma spins_run: "pcs m c = Run \<Longrightarrow> spins m c = 0" "pcs m c = Won l \<Longrightarrow> spins m c = 0" "pcs m c = Rel l \<Longrightarrow> spins m c = 0"
  "pcs m c = Spin l \<Longrightarrow> spins m c = 1"
  by (simp_all add: spins_def)

lemma spins_upd [simp]:
  "spins (m\<lparr>cpus := f\<rparr>) c = spins m c" "spins (m\<lparr>locks := g\<rparr>) c = spins m c" "spins (m\<lparr>depth := h\<rparr>) c = spins m c"
  "spins (m\<lparr>pcs := (pcs m)(d := p)\<rparr>) c = (if c = d then case p of Spin l \<Rightarrow> 1 | _ \<Rightarrow> 0 else spins m c)"
  by (simp_all add: spins_def)

lemma owned_cong: "(\<And>l. owns m' c l = owns m c l) \<Longrightarrow> owned m' c = owned m c"
  by (simp add: owned_def)

lemma noff_step_inv:
  assumes "lstep m m'" "lock_inv m" "noff_inv m"
  shows "noff_inv m'"
  using assms
proof (induction rule: lstep.induct)
  case (push m c)
  note N = noff_invD[OF push(3), of c]
  show ?case by (rule noff_inv_upd[OF push(3), of c]) (use N in \<open>simp_all add: owned_def spins_def\<close>)
next
  case (pop m c u)
  note N = noff_invD[OF pop(5), of c] and p = pop_off_Ok[OF pop(3)]
  show ?case by (rule noff_inv_upd[OF pop(5), of c]) (use N p pop(1,2) in \<open>simp_all add: owned_def spins_def of_nat_diff\<close>)
next
  case (acq_enter m c l u)
  note N = noff_invD[OF acq_enter(4), of c]
  have u: "u = push_off (cpus m c)" using acq_enter(2) by (auto simp: acquire_enter_def Let_def res_elims)
  note o = owned_cong[OF owns_enter[OF acq_enter(1)]]
  show ?case by (rule noff_inv_upd[OF acq_enter(4), of c], unfold o) (use N acq_enter(1) in \<open>simp_all add: u spins_def\<close>)
next
  case (acq_spin m c l lk)
  then have "lk = locks m l" by (auto simp: test_and_set_def)
  then show ?case using acq_spin by simp
next
  case (acq_win m c l lk)
  note N = noff_invD[OF acq_win(4), of c]
  have n: "l \<notin> owned m c" using lock_inv_unowned(1)[OF acq_win(3)] acq_win(2) by (auto simp: owned_def test_and_set_def)
  have o: "owned (m\<lparr>locks := (locks m)(l := lk), pcs := (pcs m)(c := Won l)\<rparr>) d = (if d = c then insert l (owned m c) else owned m d)" for d
    by (auto simp: owned_def owns_win[OF acq_win(1,2)])
  show ?case by (rule noff_inv_upd[OF acq_win(4), of c], unfold o) (use N n acq_win(1) in \<open>simp_all add: spins_def\<close>)
next
  case (acq_done m c l)
  note N = noff_invD[OF acq_done(3), of c] and o = owned_cong[OF owns_done[OF acq_done(2,1)]]
  show ?case by (rule noff_inv_upd[OF acq_done(3), of c], unfold o) (use N acq_done(1) in \<open>simp_all add: spins_def\<close>)
next
  case (rel_enter m c l lk)
  note N = noff_invD[OF rel_enter(4), of c] and o = owned_cong[OF owns_rel_enter[OF rel_enter(3,1,2)]]
  show ?case by (rule noff_inv_upd[OF rel_enter(4), of c], unfold o) (use N rel_enter(1) in \<open>simp_all add: spins_def\<close>)
next
  case (rel_done m c l u)
  note N = noff_invD[OF rel_done(4), of c] and p = pop_off_Ok[OF rel_done(2)]
  have l: "l \<in> owned m c" using rel_done(1) by (simp add: owned_def owns_def)
  then have k: "Suc (card (owned m c - {l})) = card (owned m c)" using N(1) by (rule card_Suc_Diff1[rotated])
  have o: "owned (m\<lparr>locks := (locks m)(l := lock_release (locks m l)), cpus := (cpus m)(c := u), pcs := (pcs m)(c := Run)\<rparr>) d =
      (if d = c then owned m c - {l} else owned m d)" for d
    by (auto simp: owned_def owns_rel_done[OF rel_done(3,1)])
  show ?case by (rule noff_inv_upd[OF rel_done(4), of c], unfold o) (use N p k rel_done(1) in \<open>simp_all add: spins_def\<close>)
qed (auto simp: noff_inv_def owned_def spins_def)

lemma lreach_inv: "lreach m \<Longrightarrow> lock_inv m \<and> noff_inv m"
  by (induction rule: lreach.induct) (auto intro: smp0_inv lock_step_inv noff_step_inv)

section \<open>Properties\<close>

text \<open>C17: In every interleaving of acquire, release, push_off, pop_off and interrupt switching by any number of
  CPUs, two CPUs are never both between winning and giving back the same lock; the owner of a lock has interrupts
  disabled and is counted in noff; and a CPU never spins on a lock that it owns itself.\<close>

theorem spinlock_mutual_exclusion:
  assumes "lreach m" "owns m c l"
  shows "(\<forall>d. owns m d l \<longrightarrow> d = c) \<and> locked (locks m l) \<and> \<not> sie (cpus m c) \<and> noff (cpus m c) \<ge> 1 \<and> pcs m c \<noteq> Spin l"
proof -
  note inv = lreach_inv[OF assms(1)]
  note I = lock_invD[OF conjunct1[OF inv]] and N = noff_invD[OF conjunct2[OF inv]]
  have "card (owned m c) \<ge> 1" using assms(2) N(1)[of c] by (auto simp: Suc_le_eq card_gt_0_iff owned_def)
  then have "noff (cpus m c) \<ge> 1" using N(2)[of c] by (auto simp: spins_def split: lock_pc.splits)
  moreover from this have "\<not> sie (cpus m c)" using N(3)[of c] by simp
  moreover have "locked (locks m l)" using I(1)[of l] assms(2) by auto
  moreover have "pcs m c \<noteq> Spin l" using I(4)[of c l] assms(2) by auto
  moreover have "\<forall>d. owns m d l \<longrightarrow> d = c" using I(2)[OF assms(2)] by auto
  ultimately show ?thesis by simp
qed

lemma ex_smp_reach:
  "lreach (smp0\<lparr>locks := (locks smp0)(0 := \<lparr>locked = True, lcpu = None\<rparr>),
     cpus := (cpus smp0)(1 := \<lparr>noff = 1, intena = False, sie = False\<rparr>), pcs := (pcs smp0)(1 := Won 0)\<rparr>)" (is "lreach ?m")
proof -
  let ?u = "\<lparr>noff = 1, intena = False, sie = False\<rparr>"
  have "lreach (smp0\<lparr>cpus := (cpus smp0)(1 := ?u), pcs := (pcs smp0)(1 := Spin 0)\<rparr>)" (is "lreach ?n")
    by (rule lreach.step[OF lreach.boot], rule lstep.acq_enter)
      (simp_all add: smp0_def acquire_enter_def push_off_def holding_def initlock_def)
  moreover have "lstep ?n ?m"
    using lstep.acq_win[of ?n 1 0 "\<lparr>locked = True, lcpu = None\<rparr>"] by (simp add: smp0_def test_and_set_def initlock_def)
  ultimately show ?thesis by (rule lreach.step)
qed

theorem spinlock_mutual_exclusion_witness:
  "\<not> sie (cpus (smp0\<lparr>locks := (locks smp0)(0 := \<lparr>locked = True, lcpu = None\<rparr>),
     cpus := (cpus smp0)(1 := \<lparr>noff = 1, intena = False, sie = False\<rparr>), pcs := (pcs smp0)(1 := Won 0)\<rparr>) 1)"
  using spinlock_mutual_exclusion[OF ex_smp_reach, of 1 0] by (simp add: owns_def)

text \<open>acquire followed by release on one CPU leaves the lock and the interrupt state as they were, at any
  nesting depth, and acquire panics on a lock the CPU holds.\<close>

lemma acquire_release_roundtrip:
  assumes "\<not> locked lk" "lcpu lk = None" "noff u \<ge> 0" "noff u > 0 \<longrightarrow> \<not> sie u"
  shows "\<exists>lk1 u1 u2. acquire c lk u = Ok (lk1, u1) \<and> acquire c lk1 u1 = Panic ''acquire'' \<and>
    release c lk1 u1 = Ok (lk, u2) \<and> noff u2 = noff u \<and> sie u2 = sie u \<and> (noff u > 0 \<longrightarrow> intena u2 = intena u)"
  using assms
  by (auto simp: acquire_def acquire_enter_def push_off_def pop_off_def test_and_set_def holding_def acquire_done_def
      release_def release_enter_def lock_release_def Let_def panic_if_def)

end
