(* ===== verification/Virtio.thy ===== *)
theory Virtio
  imports Bio
begin

text \<open>
  The driver of the virtio disk (\<^verbatim>\<open>kernel/virtio_disk.c\<close>, \<^verbatim>\<open>virtio.h\<close>): descriptors, the rings shared with the device,
  requests and completion interrupts. The addresses of the static data (\<open>sym_ops\<close>, \<open>sym_info\<close>, \<open>sym_data\<close>) are symbols
  of the linker. The device is an argument: the registers it presents to \<open>virtio_disk_init\<close> and, in an interrupt, the
  index and the entries of its used ring; its writes to the status bytes are steps of the environment. A request is the
  part of \<^verbatim>\<open>virtio_disk_rw\<close> before the wait for completion and the part after it; a process that finds no descriptors
  sleeps on the channel of \<^verbatim>\<open>disk.free\<close>, written \<open>ChanDisk NBUF\<close>.
\<close>

section \<open>State\<close>

definition NUM :: nat where "NUM = 8"
definition VRING_DESC_F_NEXT :: u16 where "VRING_DESC_F_NEXT = 1"
definition VRING_DESC_F_WRITE :: u16 where "VRING_DESC_F_WRITE = 2"
definition VIRTIO_BLK_T_IN :: u32 where "VIRTIO_BLK_T_IN = 0"
definition VIRTIO_BLK_T_OUT :: u32 where "VIRTIO_BLK_T_OUT = 1"

record virtq_desc =
  d_addr :: u64
  d_len :: u32
  d_flags :: u16
  d_next :: u16

record virtio_blk_req =
  req_type :: u32
  req_reserved :: u32
  req_sector :: u64

record vinfo =
  vi_b :: "nat option"
  vi_status :: u8

record vdisk = ktask +
  vfree :: "nat \<Rightarrow> bool"
  vdesc :: "nat \<Rightarrow> virtq_desc"
  avail_idx :: u16
  avail_ring :: "nat \<Rightarrow> u16"
  used_idx :: u16
  vinfos :: "nat \<Rightarrow> vinfo"
  vops :: "nat \<Rightarrow> virtio_blk_req"
  bdisk :: "nat \<Rightarrow> bool"              \<comment> \<open>\<^verbatim>\<open>b->disk\<close>\<close>
  notifies :: nat                     \<comment> \<open>writes to the notify register\<close>
  acks :: "u32 list"                  \<comment> \<open>values written to the interrupt acknowledge register\<close>
  sym_ops :: addr
  sym_info :: addr
  sym_data :: "nat \<Rightarrow> addr"           \<comment> \<open>\<^verbatim>\<open>b->data\<close>\<close>

abbreviation free_chan :: chan where "free_chan \<equiv> ChanDisk NBUF"

section \<open>Start-up\<close>

definition VIRTIO_MMIO_MAGIC_VALUE :: addr where "VIRTIO_MMIO_MAGIC_VALUE = 0"
definition VIRTIO_MMIO_VERSION :: addr where "VIRTIO_MMIO_VERSION = 0x004"
definition VIRTIO_MMIO_DEVICE_ID :: addr where "VIRTIO_MMIO_DEVICE_ID = 0x008"
definition VIRTIO_MMIO_VENDOR_ID :: addr where "VIRTIO_MMIO_VENDOR_ID = 0x00c"
definition VIRTIO_MMIO_DEVICE_FEATURES :: addr where "VIRTIO_MMIO_DEVICE_FEATURES = 0x010"
definition VIRTIO_MMIO_DRIVER_FEATURES :: addr where "VIRTIO_MMIO_DRIVER_FEATURES = 0x020"
definition VIRTIO_MMIO_QUEUE_SEL :: addr where "VIRTIO_MMIO_QUEUE_SEL = 0x030"
definition VIRTIO_MMIO_QUEUE_NUM_MAX :: addr where "VIRTIO_MMIO_QUEUE_NUM_MAX = 0x034"
definition VIRTIO_MMIO_QUEUE_NUM :: addr where "VIRTIO_MMIO_QUEUE_NUM = 0x038"
definition VIRTIO_MMIO_QUEUE_READY :: addr where "VIRTIO_MMIO_QUEUE_READY = 0x044"
definition VIRTIO_MMIO_STATUS :: addr where "VIRTIO_MMIO_STATUS = 0x070"
definition VIRTIO_MMIO_QUEUE_DESC_LOW :: addr where "VIRTIO_MMIO_QUEUE_DESC_LOW = 0x080"
definition VIRTIO_MMIO_QUEUE_DESC_HIGH :: addr where "VIRTIO_MMIO_QUEUE_DESC_HIGH = 0x084"
definition VIRTIO_MMIO_DRIVER_DESC_LOW :: addr where "VIRTIO_MMIO_DRIVER_DESC_LOW = 0x090"
definition VIRTIO_MMIO_DRIVER_DESC_HIGH :: addr where "VIRTIO_MMIO_DRIVER_DESC_HIGH = 0x094"
definition VIRTIO_MMIO_DEVICE_DESC_LOW :: addr where "VIRTIO_MMIO_DEVICE_DESC_LOW = 0x0a0"
definition VIRTIO_MMIO_DEVICE_DESC_HIGH :: addr where "VIRTIO_MMIO_DEVICE_DESC_HIGH = 0x0a4"

definition VIRTIO_CONFIG_S_ACKNOWLEDGE :: u32 where "VIRTIO_CONFIG_S_ACKNOWLEDGE = 1"
definition VIRTIO_CONFIG_S_DRIVER :: u32 where "VIRTIO_CONFIG_S_DRIVER = 2"
definition VIRTIO_CONFIG_S_DRIVER_OK :: u32 where "VIRTIO_CONFIG_S_DRIVER_OK = 4"
definition VIRTIO_CONFIG_S_FEATURES_OK :: u32 where "VIRTIO_CONFIG_S_FEATURES_OK = 8"

definition VIRTIO_BLK_F_RO :: nat where "VIRTIO_BLK_F_RO = 5"
definition VIRTIO_BLK_F_SCSI :: nat where "VIRTIO_BLK_F_SCSI = 7"
definition VIRTIO_BLK_F_CONFIG_WCE :: nat where "VIRTIO_BLK_F_CONFIG_WCE = 11"
definition VIRTIO_BLK_F_MQ :: nat where "VIRTIO_BLK_F_MQ = 12"
definition VIRTIO_F_ANY_LAYOUT :: nat where "VIRTIO_F_ANY_LAYOUT = 27"
definition VIRTIO_RING_F_INDIRECT_DESC :: nat where "VIRTIO_RING_F_INDIRECT_DESC = 28"
definition VIRTIO_RING_F_EVENT_IDX :: nat where "VIRTIO_RING_F_EVENT_IDX = 29"

definition no_feature :: "nat \<Rightarrow> u64 \<Rightarrow> u64" where
  "no_feature n f = f AND NOT (push_bit n 1)"

text \<open>\<open>rd\<close> is what the device presents when a register is read; the result lists the registers written. The pages of the
  rings are zeroed, which is the initial content of the descriptors and of the available ring.\<close>

definition virtio_disk_init :: "(addr \<Rightarrow> u32) \<Rightarrow> 'z vdisk_scheme \<Rightarrow> ((addr \<times> u32) list \<times> 'z vdisk_scheme) res" where
  "virtio_disk_init rd s =
     panic_if (rd VIRTIO_MMIO_MAGIC_VALUE \<noteq> 0x74726976 \<or> rd VIRTIO_MMIO_VERSION \<noteq> 2 \<or> rd VIRTIO_MMIO_DEVICE_ID \<noteq> 2 \<or>
               rd VIRTIO_MMIO_VENDOR_ID \<noteq> 0x554d4551) ''could not find virtio disk'' (
     let st1 = VIRTIO_CONFIG_S_ACKNOWLEDGE;
         st2 = st1 OR VIRTIO_CONFIG_S_DRIVER;
         features = no_feature VIRTIO_RING_F_INDIRECT_DESC (no_feature VIRTIO_RING_F_EVENT_IDX (no_feature VIRTIO_F_ANY_LAYOUT
           (no_feature VIRTIO_BLK_F_MQ (no_feature VIRTIO_BLK_F_CONFIG_WCE (no_feature VIRTIO_BLK_F_SCSI
           (no_feature VIRTIO_BLK_F_RO (ucast (rd VIRTIO_MMIO_DEVICE_FEATURES))))))));
         st3 = st2 OR VIRTIO_CONFIG_S_FEATURES_OK;
         status = rd VIRTIO_MMIO_STATUS;
         mx = rd VIRTIO_MMIO_QUEUE_NUM_MAX
     in
     panic_if (status AND VIRTIO_CONFIG_S_FEATURES_OK = 0) ''virtio disk FEATURES_OK unset'' (
     panic_if (rd VIRTIO_MMIO_QUEUE_READY \<noteq> 0) ''virtio disk should not be ready'' (
     panic_if (mx = 0) ''virtio disk has no queue 0'' (
     panic_if (unat mx < NUM) ''virtio disk max queue too short'' (
     bnd (kalloc s) (\<lambda>(desc, s). bnd (kalloc s) (\<lambda>(avail, s). bnd (kalloc s) (\<lambda>(used, s).
     panic_if (desc = 0 \<or> avail = 0 \<or> used = 0) ''virtio disk kalloc'' (
     let s = s\<lparr>ram := memset (memset (memset (ram s) desc 0 4096) avail 0 4096) used 0 4096\<rparr>;
         s = s\<lparr>vdesc := (\<lambda>_. \<lparr>d_addr = 0, d_len = 0, d_flags = 0, d_next = 0\<rparr>), avail_idx := 0, avail_ring := (\<lambda>_. 0)\<rparr>;
         s = s\<lparr>vfree := (\<lambda>i. i < NUM \<or> vfree s i)\<rparr>
     in Ok ([(VIRTIO_MMIO_STATUS, 0), (VIRTIO_MMIO_STATUS, st1), (VIRTIO_MMIO_STATUS, st2), (VIRTIO_MMIO_DRIVER_FEATURES, ucast features),
         (VIRTIO_MMIO_STATUS, st3), (VIRTIO_MMIO_QUEUE_SEL, 0), (VIRTIO_MMIO_QUEUE_NUM, of_nat NUM),
         (VIRTIO_MMIO_QUEUE_DESC_LOW, ucast desc), (VIRTIO_MMIO_QUEUE_DESC_HIGH, ucast (drop_bit 32 desc)),
         (VIRTIO_MMIO_DRIVER_DESC_LOW, ucast avail), (VIRTIO_MMIO_DRIVER_DESC_HIGH, ucast (drop_bit 32 avail)),
         (VIRTIO_MMIO_DEVICE_DESC_LOW, ucast used), (VIRTIO_MMIO_DEVICE_DESC_HIGH, ucast (drop_bit 32 used)),
         (VIRTIO_MMIO_QUEUE_READY, 1), (VIRTIO_MMIO_STATUS, status OR VIRTIO_CONFIG_S_DRIVER_OK)], s))))))))))"

section \<open>Descriptors\<close>

primrec alloc_desc_from :: "nat list \<Rightarrow> 'z vdisk_scheme \<Rightarrow> nat option \<times> 'z vdisk_scheme" where
  "alloc_desc_from [] s = (None, s)"
| "alloc_desc_from (i # is) s =
     (if vfree s i then (Some i, s\<lparr>vfree := (vfree s)(i := False)\<rparr>) else alloc_desc_from is s)"

definition alloc_desc :: "'z vdisk_scheme \<Rightarrow> nat option \<times> 'z vdisk_scheme" where
  "alloc_desc s = alloc_desc_from [0..<NUM] s"

definition free_desc :: "nat \<Rightarrow> 'z vdisk_scheme \<Rightarrow> 'z vdisk_scheme res" where
  "free_desc i s =
     panic_if (i \<ge> NUM) ''free_desc 1'' (
     panic_if (vfree s i) ''free_desc 2'' (
     Ok (wakeup free_chan
       (s\<lparr>vdesc := (vdesc s)(i := \<lparr>d_addr = 0, d_len = 0, d_flags = 0, d_next = 0\<rparr>), vfree := (vfree s)(i := True)\<rparr>))))"

lemma free_desc_form:
  "free_desc i s = Ok s' \<longleftrightarrow> i < NUM \<and> \<not> vfree s i \<and> s' = wakeup free_chan
     (s\<lparr>vdesc := (vdesc s)(i := \<lparr>d_addr = 0, d_len = 0, d_flags = 0, d_next = 0\<rparr>), vfree := (vfree s)(i := True)\<rparr>)"
  by (auto simp: free_desc_def panic_if_def)

lemma free_desc_count:
  assumes "free_desc i s = Ok s'"
  shows "card {j. j < NUM \<and> \<not> vfree s' j} < card {j. j < NUM \<and> \<not> vfree s j}"
proof (rule psubset_card_mono)
  have "i < NUM" "\<not> vfree s i" "vfree s' = (vfree s)(i := True)" using assms by (auto simp: free_desc_form wakeup_def)
  then show "{j. j < NUM \<and> \<not> vfree s' j} \<subset> {j. j < NUM \<and> \<not> vfree s j}" by auto
qed simp

text \<open>The page of descriptors has room for 256; a chain that leaves it would read outside.\<close>

function free_chain :: "nat \<Rightarrow> 'z vdisk_scheme \<Rightarrow> 'z vdisk_scheme res" where
  "free_chain i s =
     undef_if (i \<ge> 256) (
     let flag = d_flags (vdesc s i); nxt = d_next (vdesc s i) in
     case free_desc i s of
       Ok s' \<Rightarrow> if flag AND VRING_DESC_F_NEXT \<noteq> 0 then free_chain (unat nxt) s' else Ok s'
     | Panic m \<Rightarrow> Panic m | Undef \<Rightarrow> Undef | Diverge \<Rightarrow> Diverge)"
  by pat_completeness auto
termination by (relation "measure (\<lambda>(i, s). card {j. j < NUM \<and> \<not> vfree s j})") (auto dest: free_desc_count)

declare free_chain.simps [simp del]

primrec free_descs :: "nat list \<Rightarrow> 'z vdisk_scheme \<Rightarrow> 'z vdisk_scheme res" where
  "free_descs [] s = Ok s"
| "free_descs (i # is) s = bnd (free_desc i s) (free_descs is)"

text \<open>\<open>n\<close> is the number of descriptors still wanted, \<open>idx\<close> those obtained.\<close>

primrec alloc_descs :: "nat \<Rightarrow> nat list \<Rightarrow> 'z vdisk_scheme \<Rightarrow> (nat list option \<times> 'z vdisk_scheme) res" where
  "alloc_descs 0 idx s = Ok (Some idx, s)"
| "alloc_descs (Suc n) idx s =
     (case alloc_desc s of
        (Some i, s) \<Rightarrow> alloc_descs n (idx @ [i]) s
      | (None, s) \<Rightarrow> bnd (free_descs idx s) (\<lambda>s. Ok (None, s)))"

definition alloc3_desc :: "'z vdisk_scheme \<Rightarrow> (nat list option \<times> 'z vdisk_scheme) res" where
  "alloc3_desc s = alloc_descs 3 [] s"

section \<open>Requests\<close>

definition fill_descs :: "nat \<Rightarrow> bool \<Rightarrow> u32 \<Rightarrow> nat \<Rightarrow> nat \<Rightarrow> nat \<Rightarrow> 'z vdisk_scheme \<Rightarrow> 'z vdisk_scheme" where
  "fill_descs b wr bno i0 i1 i2 s =
     (let s = s\<lparr>vops := (vops s)(i0 := \<lparr>req_type = (if wr then VIRTIO_BLK_T_OUT else VIRTIO_BLK_T_IN), req_reserved = 0,
                  req_sector = ucast (bno * (1024 div 512))\<rparr>)\<rparr>;
          s = s\<lparr>vdesc := (vdesc s)(i0 := \<lparr>d_addr = sym_ops s + of_nat (16 * i0), d_len = 16, d_flags = VRING_DESC_F_NEXT, d_next = of_nat i1\<rparr>)\<rparr>;
          s = s\<lparr>vdesc := (vdesc s)(i1 := \<lparr>d_addr = sym_data s b, d_len = 1024,
                  d_flags = (if wr then 0 else VRING_DESC_F_WRITE) OR VRING_DESC_F_NEXT, d_next = of_nat i2\<rparr>)\<rparr>;
          s = s\<lparr>vinfos := (vinfos s)(i0 := (vinfos s i0)\<lparr>vi_status := 0xff\<rparr>)\<rparr>
      in s\<lparr>vdesc := (vdesc s)(i2 := \<lparr>d_addr = sym_info s + of_nat (16 * i0 + 8), d_len = 1, d_flags = VRING_DESC_F_WRITE, d_next = 0\<rparr>)\<rparr>)"

text \<open>The request up to the wait: the head of its chain, or nothing if it has to wait for descriptors.\<close>

definition virtio_rw_begin :: "nat \<Rightarrow> bool \<Rightarrow> u32 \<Rightarrow> 'z vdisk_scheme \<Rightarrow> (nat list option \<times> 'z vdisk_scheme) res" where
  "virtio_rw_begin b wr bno s =
     bnd (alloc3_desc s) (\<lambda>(r, s).
     case r of
       None \<Rightarrow> Ok (None, s\<lparr>procs := sleep_tbl (cur s) free_chan (procs s)\<rparr>)
     | Some idx \<Rightarrow>
         let i0 = idx ! 0;
             s = fill_descs b wr bno i0 (idx ! 1) (idx ! 2) s;
             s = s\<lparr>bdisk := (bdisk s)(b := True)\<rparr>;
             s = s\<lparr>vinfos := (vinfos s)(i0 := (vinfos s i0)\<lparr>vi_b := Some b\<rparr>)\<rparr>;
             s = s\<lparr>avail_ring := (avail_ring s)(unat (avail_idx s) mod NUM := of_nat i0)\<rparr>;
             s = s\<lparr>avail_idx := avail_idx s + 1\<rparr>
         in Ok (Some idx, s\<lparr>notifies := notifies s + 1\<rparr>))"

text \<open>After the wait, which ends when \<open>b->disk\<close> is no longer set.\<close>

definition virtio_rw_end :: "nat \<Rightarrow> 'z vdisk_scheme \<Rightarrow> 'z vdisk_scheme res" where
  "virtio_rw_end i0 s = free_chain i0 (s\<lparr>vinfos := (vinfos s)(i0 := (vinfos s i0)\<lparr>vi_b := None\<rparr>)\<rparr>)"

text \<open>The interrupt: \<open>isr\<close> is the interrupt status register, \<open>uidx\<close> and \<open>uring\<close> are the index and the chain heads in the used ring of the device.\<close>

function intr_loop :: "u16 \<Rightarrow> (nat \<Rightarrow> nat) \<Rightarrow> 'z vdisk_scheme \<Rightarrow> 'z vdisk_scheme res" where
  "intr_loop uidx uring s =
     (if used_idx s \<noteq> uidx then
        let i = uring (unat (used_idx s) mod NUM) in
        undef_if (i \<ge> NUM) (
        panic_if (vi_status (vinfos s i) \<noteq> 0) ''virtio_disk_intr status'' (
        case vi_b (vinfos s i) of
          None \<Rightarrow> Undef
        | Some b \<Rightarrow> let s = wakeup (ChanDisk b) (s\<lparr>bdisk := (bdisk s)(b := False)\<rparr>) in
            intr_loop uidx uring (s\<lparr>used_idx := used_idx s + 1\<rparr>)))
      else Ok s)"
  by pat_completeness auto
termination
proof (relation "measure (\<lambda>(u, r, s). unat (u - used_idx s))")
  fix uidx :: u16 and uring s i b s'
  assume n: "used_idx s \<noteq> uidx" and s': "s' = wakeup (ChanDisk b) (s\<lparr>bdisk := (bdisk s)(b := False)\<rparr>)"
  have e: "used_idx (s'\<lparr>used_idx := used_idx s' + 1\<rparr>) = used_idx s + 1" by (simp add: s' wakeup_def)
  have z: "uidx - used_idx s \<noteq> 0" using n by simp
  then have "unat (uidx - used_idx s - 1) < unat (uidx - used_idx s)"
    using unat_minus_one[OF z] by (simp add: unat_gt_0)
  then show "((uidx, uring, s'\<lparr>used_idx := used_idx s' + 1\<rparr>), uidx, uring, s) \<in> measure (\<lambda>(u, r, s). unat (u - used_idx s))"
    using e by (simp add: algebra_simps)
qed simp

declare intr_loop.simps [simp del]

definition virtio_disk_intr :: "u32 \<Rightarrow> u16 \<Rightarrow> (nat \<Rightarrow> nat) \<Rightarrow> 'z vdisk_scheme \<Rightarrow> 'z vdisk_scheme res" where
  "virtio_disk_intr isr uidx uring s = intr_loop uidx uring (s\<lparr>acks := (isr AND 3) # acks s\<rparr>)"

end
