(* ===== verification/Virtio_Props.thy ===== *)
theory Virtio_Props
  imports Virtio
begin

text \<open>
  Concurrent disk requests: in every interleaving of requests, completions and interrupts the descriptors are shared out
  without overlap, so that the driver never panics in \<open>free_desc\<close> and a request that has ended gives back its own three.
\<close>

section \<open>Allocation\<close>

abbreviation vfrees :: "'z vdisk_scheme \<Rightarrow> nat set" where
  "vfrees s \<equiv> {i. i < NUM \<and> vfree s i}"

lemma alloc_desc_from_spec:
  "alloc_desc_from is s = (case find (vfree s) is of None \<Rightarrow> (None, s) | Some i \<Rightarrow> (Some i, s\<lparr>vfree := (vfree s)(i := False)\<rparr>))"
  by (induction "is") auto

lemma alloc_desc_some:
  assumes "vfrees s \<noteq> {}"
  obtains i where "alloc_desc s = (Some i, s\<lparr>vfree := (vfree s)(i := False)\<rparr>)" "i \<in> vfrees s"
proof (cases "find (vfree s) [0..<NUM]")
  case None
  then show ?thesis using assms by (auto simp: find_None_iff)
next
  case (Some i)
  then have "i \<in> vfrees s" by (auto simp: find_Some_iff)
  then show ?thesis using Some that by (simp add: alloc_desc_def alloc_desc_from_spec)
qed

lemma alloc_desc_none: "vfrees s = {} \<Longrightarrow> alloc_desc s = (None, s)"
proof -
  assume "vfrees s = {}"
  then have "find (vfree s) [0..<NUM] = None" by (auto simp: find_None_iff)
  then show ?thesis by (simp add: alloc_desc_def alloc_desc_from_spec)
qed

text \<open>What freeing some descriptors may change.\<close>

definition freed :: "nat set \<Rightarrow> 'z vdisk_scheme \<Rightarrow> 'z vdisk_scheme \<Rightarrow> bool" where
  "freed D s s' \<longleftrightarrow> vfree s' = (\<lambda>i. vfree s i \<or> i \<in> D) \<and> (\<forall>i. i \<notin> D \<longrightarrow> vdesc s' i = vdesc s i) \<and> vinfos s' = vinfos s \<and> bdisk s' = bdisk s"

lemma freed_empty: "freed {} s s"
  by (simp add: freed_def)

lemma freed_trans: "freed A s t \<Longrightarrow> freed B t u \<Longrightarrow> freed (A \<union> B) s u"
  by (auto simp: freed_def)

lemma free_desc_ok: "i < NUM \<Longrightarrow> \<not> vfree s i \<Longrightarrow> \<exists>s'. free_desc i s = Ok s' \<and> freed {i} s s'"
  by (auto simp: free_desc_form freed_def wakeup_def fun_eq_iff)

lemma free_descs_ok:
  assumes "distinct is" "\<forall>i \<in> set is. i < NUM \<and> \<not> vfree s i"
  shows "\<exists>s'. free_descs is s = Ok s' \<and> freed (set is) s s'"
  using assms
proof (induction "is" arbitrary: s)
  case Nil
  then show ?case by (simp add: freed_empty)
next
  case (Cons i "is")
  obtain t where t: "free_desc i s = Ok t" "freed {i} s t" using free_desc_ok[of i s] Cons(3) by auto
  then have "\<forall>j \<in> set is. j < NUM \<and> \<not> vfree t j" using Cons(2,3) by (auto simp: freed_def)
  then obtain u where "free_descs is t = Ok u" "freed (set is) t u" using Cons.IH[of t] Cons(2) by auto
  then show ?case using t freed_trans[OF t(2)] by auto
qed

lemma vfrees_take:
  assumes "i \<in> vfrees s"
  shows "card (vfrees s) = Suc (card (vfrees (s\<lparr>vfree := (vfree s)(i := False)\<rparr>)))"
proof -
  have "vfrees (s\<lparr>vfree := (vfree s)(i := False)\<rparr>) = vfrees s - {i}" by auto
  then show ?thesis using assms card.remove[of "vfrees s" i] by simp
qed

lemma alloc_descs_some:
  assumes "n \<le> card (vfrees s)"
  shows "\<exists>js. alloc_descs n idx s = Ok (Some (idx @ js), s\<lparr>vfree := (\<lambda>i. vfree s i \<and> i \<notin> set js)\<rparr>) \<and> length js = n \<and> distinct js \<and> set js \<subseteq> vfrees s"
  using assms
proof (induction n arbitrary: idx s)
  case 0
  have "s\<lparr>vfree := (\<lambda>i. vfree s i \<and> i \<notin> set [])\<rparr> = s" by simp
  then show ?case by (intro exI[of _ "[]"]) simp
next
  case (Suc n)
  have "vfrees s \<noteq> {}" using Suc(2) by (metis card.empty not_less_eq_eq le0)
  then obtain i where a: "alloc_desc s = (Some i, s\<lparr>vfree := (vfree s)(i := False)\<rparr>)" and i: "i \<in> vfrees s" by (rule alloc_desc_some)
  let ?t = "s\<lparr>vfree := (vfree s)(i := False)\<rparr>"
  have "n \<le> card (vfrees ?t)" using Suc(2) vfrees_take[OF i] by linarith
  then obtain js where j: "alloc_descs n (idx @ [i]) ?t = Ok (Some ((idx @ [i]) @ js), ?t\<lparr>vfree := (\<lambda>k. vfree ?t k \<and> k \<notin> set js)\<rparr>)"
    "length js = n" "distinct js" "set js \<subseteq> vfrees ?t" using Suc.IH by blast
  have "?t\<lparr>vfree := (\<lambda>k. vfree ?t k \<and> k \<notin> set js)\<rparr> = s\<lparr>vfree := (\<lambda>k. vfree s k \<and> k \<notin> set (i # js))\<rparr>" by (auto simp: fun_eq_iff)
  then have "alloc_descs (Suc n) idx s = Ok (Some (idx @ i # js), s\<lparr>vfree := (\<lambda>k. vfree s k \<and> k \<notin> set (i # js))\<rparr>)" using a j(1) by simp
  moreover have "length (i # js) = Suc n" "distinct (i # js)" "set (i # js) \<subseteq> vfrees s" using i j(2-4) by (auto split: if_splits)
  ultimately show ?case by blast
qed

lemma alloc_descs_none:
  assumes "card (vfrees s) < n" "distinct idx" "\<forall>i \<in> set idx. i < NUM \<and> \<not> vfree s i"
  shows "\<exists>s'. alloc_descs n idx s = Ok (None, s') \<and> vfree s' = (\<lambda>i. vfree s i \<or> i \<in> set idx) \<and>
    (\<forall>i. i \<notin> set idx \<union> vfrees s \<longrightarrow> vdesc s' i = vdesc s i) \<and> vinfos s' = vinfos s \<and> bdisk s' = bdisk s"
  using assms
proof (induction n arbitrary: idx s)
  case (Suc n)
  show ?case
  proof (cases "vfrees s = {}")
    case True
    then show ?thesis using alloc_desc_none[OF True] free_descs_ok[OF Suc(3,4)] by (auto simp: freed_def)
  next
    case False
    then obtain i where a: "alloc_desc s = (Some i, s\<lparr>vfree := (vfree s)(i := False)\<rparr>)" and i: "i \<in> vfrees s" by (rule alloc_desc_some)
    let ?t = "s\<lparr>vfree := (vfree s)(i := False)\<rparr>"
    have c: "card (vfrees ?t) < n" using Suc(2) vfrees_take[OF i] by linarith
    have "distinct (idx @ [i])" "\<forall>k \<in> set (idx @ [i]). k < NUM \<and> \<not> vfree ?t k" using Suc(3,4) i by auto
    from Suc.IH[OF c this] obtain s' where s': "alloc_descs n (idx @ [i]) ?t = Ok (None, s')"
      "vfree s' = (\<lambda>k. vfree ?t k \<or> k \<in> set (idx @ [i]))" "\<forall>k. k \<notin> set (idx @ [i]) \<union> vfrees ?t \<longrightarrow> vdesc s' k = vdesc ?t k"
      "vinfos s' = vinfos ?t" "bdisk s' = bdisk ?t" by blast
    have "vfree s' = (\<lambda>k. vfree s k \<or> k \<in> set idx)" using s'(2) i by (auto simp: fun_eq_iff)
    moreover have "\<forall>k. k \<notin> set idx \<union> vfrees s \<longrightarrow> vdesc s' k = vdesc s k" using s'(3) i by (auto split: if_splits)
    ultimately show ?thesis using a s'(1,4,5) by simp
  qed
qed simp

section \<open>Requests in flight\<close>

text \<open>A request in flight: its buffer and the three descriptors of its chain.\<close>

definition chain_of :: "(nat \<Rightarrow> virtq_desc) \<Rightarrow> nat list \<Rightarrow> bool" where
  "chain_of d idx \<longleftrightarrow> length idx = 3 \<and> d_flags (d (idx ! 0)) AND VRING_DESC_F_NEXT \<noteq> 0 \<and> d_next (d (idx ! 0)) = of_nat (idx ! 1) \<and>
     d_flags (d (idx ! 1)) AND VRING_DESC_F_NEXT \<noteq> 0 \<and> d_next (d (idx ! 1)) = of_nat (idx ! 2) \<and> d_flags (d (idx ! 2)) AND VRING_DESC_F_NEXT = 0"

definition vdisk_inv :: "'z vdisk_scheme \<Rightarrow> (nat \<times> nat list) list \<Rightarrow> bool" where
  "vdisk_inv s rs \<longleftrightarrow> distinct (concat (map snd rs)) \<and> (\<forall>i < NUM. vfree s i \<longleftrightarrow> i \<notin> set (concat (map snd rs))) \<and>
     set (concat (map snd rs)) \<subseteq> {..<NUM} \<and> (\<forall>(b, idx) \<in> set rs. chain_of (vdesc s) idx)"

lemma chain_of_cong: "chain_of d idx \<Longrightarrow> \<forall>i \<in> set idx. d' i = d i \<Longrightarrow> chain_of d' idx"
  by (simp add: chain_of_def)

lemma len3: "length xs = 3 \<Longrightarrow> \<exists>a b c. xs = [a, b, c]"
  by (auto simp: numeral_3_eq_3 length_Suc_conv)

lemma free_chain_last:
  assumes "i < NUM" "\<not> vfree s i" "d_flags (vdesc s i) AND VRING_DESC_F_NEXT = 0"
  shows "\<exists>s'. free_chain i s = Ok s' \<and> freed {i} s s'"
  using free_desc_ok[OF assms(1,2)] assms by (subst free_chain.simps) (auto simp: undef_if_def Let_def NUM_def)

lemma free_chain_more:
  assumes "i < NUM" "\<not> vfree s i" "d_flags (vdesc s i) AND VRING_DESC_F_NEXT \<noteq> 0" "unat (d_next (vdesc s i)) = j"
  shows "\<exists>s'. free_chain i s = free_chain j s' \<and> freed {i} s s'"
  using free_desc_ok[OF assms(1,2)] assms by (subst free_chain.simps) (auto simp: undef_if_def Let_def NUM_def)

lemma free_chain_ok:
  assumes c: "chain_of (vdesc s) idx" and d: "distinct idx" and l: "\<forall>i \<in> set idx. i < NUM \<and> \<not> vfree s i"
  shows "\<exists>s'. free_chain (idx ! 0) s = Ok s' \<and> freed (set idx) s s'"
proof -
  have "length idx = 3" using c by (simp add: chain_of_def)
  then obtain a b e where idx: "idx = [a, b, e]" using len3 by blast
  have n: "a \<noteq> b" "a \<noteq> e" "b \<noteq> e" "a < NUM" "b < NUM" "e < NUM" "\<not> vfree s a" "\<not> vfree s b" "\<not> vfree s e" using d l idx by auto
  have w: "unat (of_nat k :: u16) = k" if "k < NUM" for k using that by (simp add: NUM_def unat_of_nat)
  have "unat (d_next (vdesc s a)) = b" "d_flags (vdesc s a) AND VRING_DESC_F_NEXT \<noteq> 0" using c n w by (simp_all add: chain_of_def idx)
  then obtain t where t: "free_chain a s = free_chain b t" "freed {a} s t" using free_chain_more n by blast
  have "unat (d_next (vdesc t b)) = e" "d_flags (vdesc t b) AND VRING_DESC_F_NEXT \<noteq> 0" "\<not> vfree t b"
    using c n w t(2) by (auto simp: chain_of_def idx freed_def)
  then obtain u where u: "free_chain b t = free_chain e u" "freed {b} t u" using free_chain_more n by blast
  have "d_flags (vdesc u e) AND VRING_DESC_F_NEXT = 0" "\<not> vfree u e" using c n u(2) t(2) by (auto simp: chain_of_def idx freed_def)
  then obtain v where v: "free_chain e u = Ok v" "freed {e} u v" using free_chain_last n by blast
  have "freed (({a} \<union> {b}) \<union> {e}) s v" using freed_trans[OF freed_trans[OF t(2) u(2)] v(2)] .
  moreover have "({a} \<union> {b}) \<union> {e} = set idx" using idx by auto
  ultimately show ?thesis using t u v idx by simp
qed

lemma vdisk_inv_free:
  assumes "vdisk_inv s rs"
  shows "card (vfrees s) + 3 * length rs = NUM"
proof -
  let ?D = "concat (map snd rs)"
  have "\<forall>(b, idx) \<in> set rs. length idx = 3" using assms by (auto simp: vdisk_inv_def chain_of_def)
  then have "length ?D = 3 * length rs" by (induction rs) auto
  moreover have "card (set ?D) = length ?D" using assms unfolding vdisk_inv_def by (intro distinct_card) blast
  moreover have "vfrees s = {..<NUM} - set ?D" using assms by (auto simp: vdisk_inv_def)
  moreover have "set ?D \<subseteq> {..<NUM}" using assms by (simp add: vdisk_inv_def)
  ultimately show ?thesis using card_mono[of "{..<NUM}" "set ?D"] by (simp add: card_Diff_subset)
qed

lemma vdisk_inv_end:
  assumes i: "vdisk_inv s rs" and m: "(b, idx) \<in> set rs"
  shows "\<exists>s'. virtio_rw_end (idx ! 0) s = Ok s' \<and> vfree s' = (\<lambda>i. vfree s i \<or> i \<in> set idx) \<and>
    (\<forall>i. i \<notin> set idx \<longrightarrow> vdesc s' i = vdesc s i) \<and> vinfos s' = (vinfos s)(idx ! 0 := (vinfos s (idx ! 0))\<lparr>vi_b := None\<rparr>)"
proof -
  let ?t = "s\<lparr>vinfos := (vinfos s)(idx ! 0 := (vinfos s (idx ! 0))\<lparr>vi_b := None\<rparr>)\<rparr>"
  have "chain_of (vdesc ?t) idx" "\<forall>i \<in> set idx. i < NUM \<and> \<not> vfree ?t i" using i m by (force simp: vdisk_inv_def)+
  moreover have "distinct idx" using i m by (force simp: vdisk_inv_def distinct_concat_iff)
  ultimately obtain s' where "free_chain (idx ! 0) ?t = Ok s'" "freed (set idx) ?t s'" using free_chain_ok by blast
  then show ?thesis by (auto simp: virtio_rw_end_def freed_def)
qed

text \<open>The steps: a request is queued or goes to sleep, the device writes a status, interrupts, a request whose buffer the
  interrupt has released ends, and other code changes the processes.\<close>

inductive vreach :: "'z vdisk_scheme \<Rightarrow> (nat \<times> nat list) list \<Rightarrow> bool" where
  vr_init: "\<forall>i < NUM. vfree s i \<Longrightarrow> vreach s []"
| vr_begin: "vreach s rs \<Longrightarrow> virtio_rw_begin b wr bno s = Ok (Some idx, s') \<Longrightarrow> vreach s' ((b, idx) # rs)"
| vr_full: "vreach s rs \<Longrightarrow> virtio_rw_begin b wr bno s = Ok (None, s') \<Longrightarrow> vreach s' rs"
| vr_status: "vreach s rs \<Longrightarrow> vreach (s\<lparr>vinfos := (vinfos s)(i := (vinfos s i)\<lparr>vi_status := x\<rparr>)\<rparr>) rs"
| vr_intr: "vreach s rs \<Longrightarrow> virtio_disk_intr isr uidx uring s = Ok s' \<Longrightarrow> vreach s' rs"
| vr_end: "vreach s rs \<Longrightarrow> (b, idx) \<in> set rs \<Longrightarrow> \<not> bdisk s b \<Longrightarrow> virtio_rw_end (idx ! 0) s = Ok s' \<Longrightarrow> vreach s' (remove1 (b, idx) rs)"
| vr_sched: "vreach s rs \<Longrightarrow> vreach (s\<lparr>procs := ps, cur := c\<rparr>) rs"

lemma concat_remove1:
  assumes "distinct (concat (map snd rs))" "(b, idx) \<in> set rs"
  shows "distinct (concat (map snd (remove1 (b, idx) rs)))"
    "set (concat (map snd (remove1 (b, idx) rs))) = set (concat (map snd rs)) - set idx"
proof -
  obtain xs ys where r: "rs = xs @ (b, idx) # ys" "(b, idx) \<notin> set xs" using split_list_first[OF assms(2)] by blast
  have e: "remove1 (b, idx) rs = xs @ ys" using r by (simp add: remove1_append)
  show "distinct (concat (map snd (remove1 (b, idx) rs)))" using assms(1)[unfolded r(1)] unfolding e unfolding r(1) by auto
  show "set (concat (map snd (remove1 (b, idx) rs))) = set (concat (map snd rs)) - set idx" using assms(1)[unfolded r(1)] unfolding e unfolding r(1) by auto
qed

lemma vdisk_inv_remove:
  assumes i: "vdisk_inv s rs" and m: "(b, idx) \<in> set rs" and f: "vfree s' = (\<lambda>i. vfree s i \<or> i \<in> set idx)"
    and d: "\<forall>i. i \<notin> set idx \<longrightarrow> vdesc s' i = vdesc s i"
  shows "vdisk_inv s' (remove1 (b, idx) rs)"
proof -
  have dd: "distinct (concat (map snd rs))" using i by (simp add: vdisk_inv_def)
  note c = concat_remove1[OF dd m]
  have "chain_of (vdesc s') idx'" if r: "(b', idx') \<in> set (remove1 (b, idx) rs)" for b' idx'
  proof -
    have "set idx' \<subseteq> set (concat (map snd (remove1 (b, idx) rs)))" using r by force
    then have "set idx' \<inter> set idx = {}" unfolding c(2) by blast
    moreover have "(b', idx') \<in> set rs" using r notin_set_remove1 by fast
    then have "chain_of (vdesc s) idx'" using i unfolding vdisk_inv_def by blast
    ultimately show ?thesis using d by (auto intro: chain_of_cong)
  qed
  moreover have "\<forall>i < NUM. vfree s' i \<longleftrightarrow> i \<notin> set (concat (map snd (remove1 (b, idx) rs)))" using i f c(2) by (auto simp: vdisk_inv_def)
  moreover have "set (concat (map snd (remove1 (b, idx) rs))) \<subseteq> {..<NUM}" using i unfolding c(2) vdisk_inv_def by blast
  ultimately show ?thesis using c(1) unfolding vdisk_inv_def by blast
qed

lemma chain_of_fill:
  assumes "distinct [i0, i1, i2]"
  shows "chain_of (vdesc (fill_descs b wr bno i0 i1 i2 s)) [i0, i1, i2]"
proof -
  have "(0 :: u16) OR 1 = 1" "(2 :: u16) OR 1 = 3" "(3 :: u16) AND 1 = 1" "(2 :: u16) AND 1 = 0" by code_simp+
  then show ?thesis using assms by (auto simp: chain_of_def fill_descs_def Let_def VRING_DESC_F_NEXT_def VRING_DESC_F_WRITE_def)
qed

lemma fill_descs_frame:
  "vfree (fill_descs b wr bno i0 i1 i2 s) = vfree s"
  "i \<notin> {i0, i1, i2} \<Longrightarrow> vdesc (fill_descs b wr bno i0 i1 i2 s) i = vdesc s i"
  by (auto simp: fill_descs_def Let_def)

lemma begin_more:
  assumes i: "vdisk_inv s rs" and l: "length rs < 2"
  shows "\<exists>idx s'. virtio_rw_begin b wr bno s = Ok (Some idx, s') \<and> vdisk_inv s' ((b, idx) # rs) \<and> bdisk s' = (bdisk s)(b := True) \<and>
    avail_ring s' (unat (avail_idx s) mod NUM) = of_nat (idx ! 0) \<and> avail_idx s' = avail_idx s + 1"
proof -
  have "3 \<le> card (vfrees s)" using vdisk_inv_free[OF i] l by (simp add: NUM_def)
  then obtain js where a: "alloc_descs 3 [] s = Ok (Some js, s\<lparr>vfree := (\<lambda>i. vfree s i \<and> i \<notin> set js)\<rparr>)" and
    j: "length js = 3" "distinct js" "set js \<subseteq> vfrees s" using alloc_descs_some[of 3 s "[]"] by auto
  obtain i0 i1 i2 where js: "js = [i0, i1, i2]" using len3[OF j(1)] by blast
  let ?f = "fill_descs b wr bno i0 i1 i2 (s\<lparr>vfree := (\<lambda>i. vfree s i \<and> i \<notin> set js)\<rparr>)"
  have f: "vfree ?f = (\<lambda>i. vfree s i \<and> i \<notin> set js)" "\<And>i. i \<notin> set js \<Longrightarrow> vdesc ?f i = vdesc s i"
    by (simp_all add: fill_descs_frame js)
  obtain s' where s': "virtio_rw_begin b wr bno s = Ok (Some js, s')" "vfree s' = vfree ?f" "vdesc s' = vdesc ?f" "bdisk s' = (bdisk s)(b := True)"
    "avail_ring s' (unat (avail_idx s) mod NUM) = of_nat (js ! 0)" "avail_idx s' = avail_idx s + 1"
    using a by (auto simp: virtio_rw_begin_def alloc3_desc_def js Let_def fill_descs_def)
  have n: "set js \<inter> set (concat (map snd rs)) = {}" using i j(3) by (auto simp: vdisk_inv_def)
  have "chain_of (vdesc s') idx" if "(c, idx) \<in> set ((b, js) # rs)" for c idx
  proof (cases "(c, idx) = (b, js)")
    case True
    then show ?thesis using chain_of_fill j(2) unfolding s'(3) js by blast
  next
    case False
    then have "(c, idx) \<in> set rs" using that by auto
    then have "chain_of (vdesc s) idx" "set idx \<inter> set js = {}" using i n unfolding vdisk_inv_def by (blast, force)
    then show ?thesis using f(2) unfolding s'(3) by (auto intro: chain_of_cong)
  qed
  moreover have "distinct (concat (map snd ((b, js) # rs)))" using i j(2) n by (simp add: vdisk_inv_def)
  moreover have "\<forall>i < NUM. vfree s' i \<longleftrightarrow> i \<notin> set (concat (map snd ((b, js) # rs)))" using i unfolding s'(2) f(1) vdisk_inv_def by simp blast
  moreover have "set (concat (map snd ((b, js) # rs))) \<subseteq> {..<NUM}" using i j(3) unfolding vdisk_inv_def by auto
  ultimately have "vdisk_inv s' ((b, js) # rs)" unfolding vdisk_inv_def by blast
  then show ?thesis using s' by blast
qed

lemma begin_full:
  assumes i: "vdisk_inv s rs" and l: "\<not> length rs < 2"
  shows "\<exists>s'. virtio_rw_begin b wr bno s = Ok (None, s') \<and> vdisk_inv s' rs \<and> bdisk s' = bdisk s"
proof -
  have "card (vfrees s) < 3" using vdisk_inv_free[OF i] l by (simp add: NUM_def)
  then obtain t where t: "alloc_descs 3 [] s = Ok (None, t)" "vfree t = vfree s" "\<forall>i. i \<notin> vfrees s \<longrightarrow> vdesc t i = vdesc s i" "bdisk t = bdisk s"
    using alloc_descs_none[of s 3 "[]"] by auto
  have "chain_of (vdesc t) idx" if m: "(c, idx) \<in> set rs" for c idx
  proof (rule chain_of_cong)
    show "chain_of (vdesc s) idx" using i m unfolding vdisk_inv_def by blast
    have "set idx \<subseteq> set (concat (map snd rs))" using m by force
    then show "\<forall>i \<in> set idx. vdesc t i = vdesc s i" using i t(3) unfolding vdisk_inv_def by blast
  qed
  then have "vdisk_inv t rs" using i t(2) unfolding vdisk_inv_def by auto
  then show ?thesis using t by (auto simp: virtio_rw_begin_def alloc3_desc_def vdisk_inv_def)
qed

lemma intr_loop_frame:
  "intr_loop uidx uring s = Ok s' \<Longrightarrow> vfree s' = vfree s \<and> vdesc s' = vdesc s"
proof (induction uidx uring s rule: intr_loop.induct)
  case (1 uidx uring s)
  show ?case using "1.prems" "1.IH"
    by (subst (asm) intr_loop.simps) (auto simp: undef_if_def panic_if_def Let_def wakeup_def split: if_splits option.splits)
qed

lemma vdisk_inv_cong: "vdisk_inv s rs \<Longrightarrow> vfree s' = vfree s \<Longrightarrow> vdesc s' = vdesc s \<Longrightarrow> vdisk_inv s' rs"
  by (simp add: vdisk_inv_def)

lemma vreach_inv: "vreach s rs \<Longrightarrow> vdisk_inv s rs"
proof (induction rule: vreach.induct)
  case (vr_init s)
  then show ?case by (simp add: vdisk_inv_def)
next
  case (vr_begin s rs b wr bno idx s')
  then show ?case using begin_more[of s rs b wr bno] begin_full[of s rs b wr bno] by (cases "length rs < 2") auto
next
  case (vr_full s rs b wr bno s')
  then show ?case using begin_more[of s rs b wr bno] begin_full[of s rs b wr bno] by (cases "length rs < 2") auto
next
  case (vr_intr s rs isr uidx uring s')
  then show ?case using intr_loop_frame[of uidx uring "s\<lparr>acks := (isr AND 3) # acks s\<rparr>" s'] vdisk_inv_cong[of s rs s'] by (simp add: virtio_disk_intr_def)
next
  case (vr_end s rs b idx s')
  then show ?case using vdisk_inv_end[OF vr_end.IH vr_end.hyps(2)] vdisk_inv_remove[OF vr_end.IH vr_end.hyps(2)] by auto
qed (auto intro: vdisk_inv_cong)

lemma virtio_disk_init_free: "virtio_disk_init rd s = Ok (w, s') \<Longrightarrow> i < NUM \<Longrightarrow> vfree s' i"
  by (auto simp: virtio_disk_init_def panic_if_def bnd_Ok_iff Let_def split: if_splits prod.splits)

text \<open>C5: Concurrent disk requests share the eight descriptors without overlap. In every state reached by interleaving requests, sleeps,
  device status writes, interrupts and completions, at most two requests are in flight and their chains are disjoint; a request that
  ends (\<open>virtio_disk_rw\<close> after its wait) never panics, frees exactly the three descriptors of its own chain and touches no descriptor of
  another; and a new request is queued unless two are in flight, when it goes to sleep with everything it had taken given back.\<close>

theorem virtio_requests_disjoint:
  assumes "vreach s rs"
  shows "length rs \<le> 2 \<and> distinct (concat (map snd rs)) \<and>
    (\<forall>(b, idx) \<in> set rs. \<exists>s'. virtio_rw_end (idx ! 0) s = Ok s' \<and> length idx = 3 \<and> vfree s' = (\<lambda>i. vfree s i \<or> i \<in> set idx) \<and>
       (\<forall>i. i \<notin> set idx \<longrightarrow> vdesc s' i = vdesc s i)) \<and>
    (if length rs < 2 then \<exists>idx s'. virtio_rw_begin b wr bno s = Ok (Some idx, s') \<and> set idx \<inter> set (concat (map snd rs)) = {} \<and>
          avail_ring s' (unat (avail_idx s) mod NUM) = of_nat (idx ! 0) \<and> avail_idx s' = avail_idx s + 1
     else \<exists>s'. virtio_rw_begin b wr bno s = Ok (None, s') \<and> (\<forall>i < NUM. vfree s' i \<longleftrightarrow> vfree s i))"
proof -
  have i: "vdisk_inv s rs" by (rule vreach_inv[OF assms])
  then have "length rs \<le> 2" "distinct (concat (map snd rs))" using vdisk_inv_free[OF i] by (auto simp: NUM_def vdisk_inv_def)
  moreover have "length idx = 3" if "(c, idx) \<in> set rs" for c idx using i that by (auto simp: vdisk_inv_def chain_of_def)
  then have "\<forall>(b, idx) \<in> set rs. \<exists>s'. virtio_rw_end (idx ! 0) s = Ok s' \<and> length idx = 3 \<and> vfree s' = (\<lambda>i. vfree s i \<or> i \<in> set idx) \<and>
       (\<forall>i. i \<notin> set idx \<longrightarrow> vdesc s' i = vdesc s i)" using vdisk_inv_end[OF i] by fast
  moreover have "\<exists>idx s'. virtio_rw_begin b wr bno s = Ok (Some idx, s') \<and> set idx \<inter> set (concat (map snd rs)) = {} \<and>
          avail_ring s' (unat (avail_idx s) mod NUM) = of_nat (idx ! 0) \<and> avail_idx s' = avail_idx s + 1" if "length rs < 2"
    using begin_more[OF i that, of b wr bno] by (auto simp: vdisk_inv_def)
  moreover have "\<exists>s'. virtio_rw_begin b wr bno s = Ok (None, s') \<and> (\<forall>i < NUM. vfree s' i \<longleftrightarrow> vfree s i)" if "\<not> length rs < 2"
    using begin_full[OF i that, of b wr bno] i by (auto simp: vdisk_inv_def)
  ultimately show ?thesis by simp
qed

definition ex_vdisk :: vdisk where
  "ex_vdisk = \<lparr>ram = (\<lambda>_. 0), kend = 0, use_lock = True, freelist = 0, ref_count = (\<lambda>_. 0), reverse_map = (\<lambda>_. \<lparr>rm_pagetable = 0, rm_va = 0\<rparr>),
     procs = [], cur = 0, nextpid = 2, initproc = 0, ticks = 0, trampoline = 0,
     vfree = (\<lambda>i. i < NUM), vdesc = (\<lambda>_. \<lparr>d_addr = 0, d_len = 0, d_flags = 0, d_next = 0\<rparr>), avail_idx = 0, avail_ring = (\<lambda>_. 0),
     used_idx = 0, vinfos = (\<lambda>_. \<lparr>vi_b = None, vi_status = 0\<rparr>), vops = (\<lambda>_. \<lparr>req_type = 0, req_reserved = 0, req_sector = 0\<rparr>),
     bdisk = (\<lambda>_. False), notifies = 0, acks = [], sym_ops = 0x1000, sym_info = 0x2000, sym_data = (\<lambda>b. of_nat (0x4000 + 1024 * b))\<rparr>"

definition ex_vdisk_busy :: vdisk where
  "ex_vdisk_busy = (case virtio_rw_begin 4 True 9 ex_vdisk of Ok (_, s) \<Rightarrow> s | _ \<Rightarrow> ex_vdisk)"

lemma ex_vdisk_begin: "virtio_rw_begin 4 True 9 ex_vdisk = Ok (Some [0, 1, 2], ex_vdisk_busy)"
proof -
  have "\<exists>s. virtio_rw_begin 4 True 9 ex_vdisk = Ok (Some [0, 1, 2], s)"
    by (simp add: virtio_rw_begin_def alloc3_desc_def numeral_3_eq_3 alloc_desc_def NUM_def upt_rec ex_vdisk_def Let_def)
  then show ?thesis by (auto simp: ex_vdisk_busy_def)
qed

theorem virtio_requests_disjoint_witness:
  "vreach ex_vdisk_busy [(4, [0, 1, 2])] \<and> (\<exists>s'. virtio_rw_end 0 ex_vdisk_busy = Ok s' \<and> vfree s' = (\<lambda>i. vfree ex_vdisk_busy i \<or> i \<in> {0, 1, 2}))"
proof -
  have "vreach ex_vdisk []" by (rule vr_init) (simp add: ex_vdisk_def)
  then have v: "vreach ex_vdisk_busy [(4, [0, 1, 2])]" by (rule vr_begin[OF _ ex_vdisk_begin])
  then show ?thesis using virtio_requests_disjoint[OF v, of 5 False 10] by auto
qed

end
