(* ===== verification/Vm_Uvmcopy.thy ===== *)
theory Vm_Uvmcopy
  imports Vm_Cow
begin

text \<open>
  The whole of \<open>uvmcopy\<close>. \<open>sharing s0 s\<close> is the invariant of its loop and of the \<open>uvmunmap\<close> that
  undoes a partial copy: since the state \<open>s0\<close> at the call, every frame in use has gained exactly
  one reference per page of the child that maps it, and no byte of it has changed. The
  entries of both page tables are followed by \<open>copied\<close>.
\<close>

section \<open>Counting the pages that map a frame\<close>

definition mapped_at :: "memory \<Rightarrow> addr \<Rightarrow> u64 \<Rightarrow> addr \<Rightarrow> addr set" where
  "mapped_at m root sz pa =
     {v. aligned v \<and> v < MAXVA \<and> v < sz \<and> bit (pte_val m root v) 0 \<and> PTE2PA (pte_val m root v) = pa}"

lemma aligned_PG: "aligned v \<Longrightarrow> PGROUNDDOWN v = v"
  by (simp add: aligned_def PGROUNDDOWN_id)

text \<open>Rewriting the entry of the page at \<open>i\<close>.\<close>

definition entry_set :: "memory \<Rightarrow> memory \<Rightarrow> addr \<Rightarrow> addr \<Rightarrow> u64 \<Rightarrow> bool" where
  "entry_set m m' root i e \<longleftrightarrow> (\<forall>v<MAXVA. pte_val m' root v = (if PGROUNDDOWN v = i then e else pte_val m root v))"

lemma entry_setI:
  assumes "aligned i" "i < MAXVA" "pte_val m' root = (\<lambda>v. if vpn v = vpn i then e else pte_val m root v)"
  shows "entry_set m m' root i e"
  using vpn_page [OF assms(1,2)] by (simp add: entry_set_def assms(3))

lemma entry_set_same:
  assumes "aligned i" "i < MAXVA" "pte_val m' root = pte_val m root"
  shows "entry_set m m' root i (pte_val m root i)"
proof -
  have "pte_val m root v = pte_val m root i" if "v < MAXVA" "PGROUNDDOWN v = i" for v
    using that vpn_page [OF assms(1,2)] pte_val_vpn by blast
  then show ?thesis by (simp add: entry_set_def assms(3))
qed

lemma mapped_at_set:
  assumes "entry_set m m' root i e" "aligned i" "i < MAXVA" "i < sz"
  shows "mapped_at m' root sz pa = mapped_at m root sz pa - {i} \<union> (if bit e 0 \<and> PTE2PA e = pa then {i} else {})"
  using assms by (auto simp: mapped_at_def entry_set_def aligned_PG split: if_splits)

lemma card_mapped_set:
  assumes "entry_set m m' root i e" "aligned i" "i < MAXVA" "i < sz"
  defines "n \<equiv> \<lambda>e pa. (if bit e 0 \<and> PTE2PA e = pa then 1 else 0 :: int)"
  shows "int (card (mapped_at m' root sz pa)) = int (card (mapped_at m root sz pa)) + n e pa - n (pte_val m root i) pa"
proof -
  let ?M = "mapped_at m root sz pa" and ?b = "bit e 0 \<and> PTE2PA e = pa" and ?c = "bit (pte_val m root i) 0 \<and> PTE2PA (pte_val m root i) = pa"
  have f: "finite ?M" by simp
  have i: "i \<in> ?M \<longleftrightarrow> ?c" using assms(2-4) by (auto simp: mapped_at_def)
  have "int (card (?M - {i})) = int (card ?M) - (if ?c then 1 else 0)"
    using i f card_Diff_singleton [of i ?M] card_gt_0_iff [of ?M] by (auto simp: of_nat_diff Suc_le_eq)
  moreover have "card (?M - {i} \<union> (if ?b then {i} else {})) = card (?M - {i}) + (if ?b then 1 else 0)"
    using f card_insert_disjoint [of "?M - {i}" i] by simp
  ultimately show ?thesis unfolding mapped_at_set [OF assms(1-4)] n_def by simp
qed

section \<open>The invariant\<close>

definition sharing :: "'z kmem_scheme \<Rightarrow> 'z kmem_scheme \<Rightarrow> addr \<Rightarrow> addr \<Rightarrow> u64 \<Rightarrow> bool" where
  "sharing s0 s old new sz \<longleftrightarrow> two_spaces s old new \<and>
     (\<forall>pa. user_frame s0 {old, new} pa \<longrightarrow> user_frame s {old, new} pa \<and>
        (\<forall>k<4096. ram s (pa + of_nat k) = ram s0 (pa + of_nat k)) \<and>
        ref_count s (PA2IDX pa) = ref_count s0 (PA2IDX pa) + int (card (mapped_at (ram s) new sz pa))) \<and>
     (\<forall>v<MAXVA. PGROUNDDOWN v < sz \<and> bit (pte_val (ram s) new v) 0 \<longrightarrow> user_frame s0 {old, new} (PTE2PA (pte_val (ram s) new v)))"

lemma sharing_step:
  assumes inv: "sharing s0 s old new sz" and sp: "two_spaces s' old new" and i: "aligned i" "i < MAXVA" "i < sz"
    and e: "entry_set (ram s) (ram s') new i e" "bit e 0 \<Longrightarrow> user_frame s0 {old, new} (PTE2PA e)"
    and fk: "frames_kept s s' old new d"
    and d: "\<And>pa. d pa = (if bit e 0 \<and> PTE2PA e = pa then 1 else 0) -
      (if bit (pte_val (ram s) new i) 0 \<and> PTE2PA (pte_val (ram s) new i) = pa then 1 else 0)"
  shows "sharing s0 s' old new sz"
proof -
  have "user_frame s' {old, new} pa \<and> (\<forall>k<4096. ram s' (pa + of_nat k) = ram s0 (pa + of_nat k)) \<and>
      ref_count s' (PA2IDX pa) = ref_count s0 (PA2IDX pa) + int (card (mapped_at (ram s') new sz pa))"
    if "user_frame s0 {old, new} pa" for pa
    using that inv fk d [of pa] card_mapped_set [OF e(1) i, of pa] by (simp add: sharing_def frames_kept_def)
  moreover have "user_frame s0 {old, new} (PTE2PA (pte_val (ram s') new v))"
    if "v < MAXVA" "PGROUNDDOWN v < sz" "bit (pte_val (ram s') new v) 0" for v
    using that e inv by (auto simp: entry_set_def sharing_def split: if_splits)
  ultimately show ?thesis using sp by (simp add: sharing_def)
qed

section \<open>The copying loop\<close>

text \<open>The entries after the parent's pages in \<open>P\<close> are downgraded and the child's in \<open>Q\<close> are mapped.\<close>

definition copied :: "'z kmem_scheme \<Rightarrow> 'z kmem_scheme \<Rightarrow> addr \<Rightarrow> addr \<Rightarrow> (addr \<Rightarrow> bool) \<Rightarrow> (addr \<Rightarrow> bool) \<Rightarrow> bool" where
  "copied s0 s old new P Q \<longleftrightarrow> (\<forall>v<MAXVA. let e = pte_val (ram s0) old v in
     pte_val (ram s) old v = (if P (PGROUNDDOWN v) \<and> bit e 0 then parent_pte e else e) \<and>
     pte_val (ram s) new v = (if Q (PGROUNDDOWN v) \<and> bit e 0 then share e else pte_val (ram s0) new v))"

definition copy_ready :: "'z kmem_scheme \<Rightarrow> addr \<Rightarrow> addr \<Rightarrow> u64 \<Rightarrow> bool" where
  "copy_ready s old new sz \<longleftrightarrow> two_spaces s old new \<and> (\<forall>v<MAXVA. PGROUNDDOWN v < sz \<longrightarrow>
     (bit (pte_val (ram s) old v) 0 \<longrightarrow> user_frame s {old, new} (PTE2PA (pte_val (ram s) old v))) \<and>
     \<not> bit (pte_val (ram s) new v) 0)"

lemma copied_step:
  assumes c: "copied s0 s old new (\<lambda>p. p < i \<and> p < sz) (\<lambda>p. p < i \<and> p < sz)" and i: "aligned i" "i < MAXVA" "i < sz"
    and o: "entry_set (ram s) (ram s') old i (if bit (pte_val (ram s) old i) 0 then parent_pte (pte_val (ram s) old i) else pte_val (ram s) old i)"
    and n: "entry_set (ram s) (ram s') new i (if \<not> failed \<and> bit (pte_val (ram s) old i) 0 then share (pte_val (ram s) old i) else pte_val (ram s) new i)"
  shows "copied s0 s' old new (\<lambda>p. p < i + PGSIZE \<and> p < sz) (\<lambda>p. p < (if failed then i else i + PGSIZE) \<and> p < sz)"
  unfolding copied_def
proof (intro allI impI)
  fix v assume v: "v < MAXVA"
  have big: "unat i + 4096 < 2 ^ 64" using i(2) by (simp add: word_less_nat_alt MAXVA_def)
  have nx: "PGROUNDDOWN v < i + PGSIZE \<longleftrightarrow> PGROUNDDOWN v < i \<or> PGROUNDDOWN v = i"
    using page_cases [OF i(1) big, of v] next_page(3) [OF i(1) big] by (auto simp flip: not_le)
  have same: "pte_val m r v = pte_val m r i" if "PGROUNDDOWN v = i" for m r
    using that pte_val_vpn vpn_page [OF i(1,2) v] by metis
  note cv = c [unfolded copied_def, rule_format, OF v, unfolded Let_def]
  show "let e = pte_val (ram s0) old v in
     pte_val (ram s') old v = (if (PGROUNDDOWN v < i + PGSIZE \<and> PGROUNDDOWN v < sz) \<and> bit e 0 then parent_pte e else e) \<and>
     pte_val (ram s') new v = (if (PGROUNDDOWN v < (if failed then i else i + PGSIZE) \<and> PGROUNDDOWN v < sz) \<and> bit e 0 then share e else pte_val (ram s0) new v)"
    using cv o n v nx i(3) same unfolding Let_def entry_set_def
    by (cases "PGROUNDDOWN v = i") (auto split: if_splits)
qed

text \<open>One turn, mapped or not.\<close>

lemma copy_turn:
  assumes rdy: "copy_ready s0 old new sz" and inv: "sharing s0 s old new sz"
    and c: "copied s0 s old new (\<lambda>p. p < i \<and> p < sz) (\<lambda>p. p < i \<and> p < sz)" and i: "aligned i" "i < MAXVA" "i < sz"
  shows "\<exists>failed s'. uvmcopy_page old new i s = Ok (failed, s') \<and> sharing s0 s' old new sz \<and>
    copied s0 s' old new (\<lambda>p. p < i + PGSIZE \<and> p < sz) (\<lambda>p. p < (if failed then i else i + PGSIZE) \<and> p < sz) \<and>
    (failed \<longrightarrow> free_of s' = {})"
proof -
  let ?e = "pte_val (ram s) old i"
  have pi: "PGROUNDDOWN i = i" by (rule aligned_PG [OF i(1)])
  have here: "?e = pte_val (ram s0) old i" "pte_val (ram s) new i = pte_val (ram s0) new i"
    using c i(2) pi by (simp_all add: copied_def Let_def)
  have un: "\<not> bit (pte_val (ram s) new i) 0" using rdy i here pi by (simp add: copy_ready_def)
  have sp: "two_spaces s old new" using inv by (simp add: sharing_def)
  show ?thesis
  proof (cases "bit ?e 0")
    case False
    have "uvmcopy_page old new i s = Ok (False, s)" using uvmcopy_page_unmapped [OF sp i(2)] False pte_bit_iff(1) by blast
    moreover have "copied s0 s old new (\<lambda>p. p < i + PGSIZE \<and> p < sz) (\<lambda>p. p < (if False then i else i + PGSIZE) \<and> p < sz)"
      by (rule copied_step [OF c i]) (use False entry_set_same [OF i(1,2) refl] in auto)
    ultimately show ?thesis using inv by auto
  next
    case True
    have uf0: "user_frame s0 {old, new} (PTE2PA ?e)" using rdy i True here pi by (simp add: copy_ready_def)
    then have uf: "user_frame s {old, new} (PTE2PA ?e)" using inv by (simp add: sharing_def)
    obtain b s' where run: "uvmcopy_page old new i s = Ok (b, s')" and st: "copy_step s old new i b s'"
      using uvmcopy_page_mapped [OF sp i(1,2) _ _ uf] True un pte_bit_iff(1) by blast
    have eo: "entry_set (ram s) (ram s') old i (parent_pte ?e)"
      by (rule entry_setI [OF i(1,2)]) (use st in \<open>simp add: copy_step_def Let_def\<close>)
    have en: "entry_set (ram s) (ram s') new i (if \<not> b then share ?e else pte_val (ram s) new i)"
      using st entry_setI [OF i(1,2), of "ram s'" new "share ?e" "ram s"] entry_set_same [OF i(1,2), of "ram s'" new "ram s"]
      by (cases b) (simp_all add: copy_step_def Let_def)
    have "sharing s0 s' old new sz"
    proof (rule sharing_step [OF inv _ i en])
      show "two_spaces s' old new" using st by (simp add: copy_step_def)
      show "frames_kept s s' old new (\<lambda>pa. if \<not> b \<and> PTE2PA ?e = pa then 1 else 0)" using st by (simp add: copy_step_def Let_def)
    qed (use un uf0 True share_PA share_bits(1) in \<open>auto split: if_splits\<close>)
    moreover have "copied s0 s' old new (\<lambda>p. p < i + PGSIZE \<and> p < sz) (\<lambda>p. p < (if b then i else i + PGSIZE) \<and> p < sz)"
      by (rule copied_step [OF c i]) (use True eo en in simp_all)
    ultimately show ?thesis using run st by (auto simp: copy_step_def)
  qed
qed

definition copy_result :: "'z kmem_scheme \<Rightarrow> addr \<Rightarrow> addr \<Rightarrow> u64 \<Rightarrow> (int \<times> 'z kmem_scheme) res \<Rightarrow> bool" where
  "copy_result s0 old new sz m \<longleftrightarrow>
     (\<exists>s'. m = Ok (0, s') \<and> sharing s0 s' old new sz \<and> copied s0 s' old new (\<lambda>p. p < sz) (\<lambda>p. p < sz)) \<or>
     (\<exists>s1 j. m = bnd (uvmunmap new 0 (j div PGSIZE) True s1) (\<lambda>s. Ok (- 1, s)) \<and> aligned j \<and> j < sz \<and>
        sharing s0 s1 old new sz \<and> copied s0 s1 old new (\<lambda>p. p < j + PGSIZE \<and> p < sz) (\<lambda>p. p < j) \<and> free_of s1 = {})"

lemma uvmcopy_loop_correct:
  assumes "copy_ready s0 old new sz" "unat sz \<le> 2 ^ 38" "sharing s0 s old new sz"
    and "copied s0 s old new (\<lambda>p. p < i \<and> p < sz) (\<lambda>p. p < i \<and> p < sz)" "aligned i" "unat sz \<le> unat i + k * 4096"
  shows "copy_result s0 old new sz (uvmcopy_loop k old new i sz s)"
  using assms(3-)
proof (induction k arbitrary: s i)
  case (0 s i)
  then have "\<not> i < sz" by (simp add: word_less_nat_alt)
  moreover have "(\<lambda>p. p < i \<and> p < sz) = (\<lambda>p. p < sz)" using \<open>\<not> i < sz\<close> by auto
  ultimately show ?case using 0(1,2) by (auto simp: copy_result_def)
next
  case (Suc k s i)
  show ?case
  proof (cases "i < sz")
    case False
    moreover have "(\<lambda>p. p < i \<and> p < sz) = (\<lambda>p. p < sz)" using False by auto
    ultimately show ?thesis using Suc.prems(1,2) by (auto simp: copy_result_def)
  next
    case True
    then have i: "i < MAXVA" using assms(2) by (simp add: word_less_nat_alt MAXVA_def)
    have big: "unat i + 4096 < 2 ^ 64" using i by (simp add: word_less_nat_alt MAXVA_def)
    note np = next_page [OF Suc.prems(3) big]
    obtain failed s' where t: "uvmcopy_page old new i s = Ok (failed, s')" "sharing s0 s' old new sz"
        "copied s0 s' old new (\<lambda>p. p < i + PGSIZE \<and> p < sz) (\<lambda>p. p < (if failed then i else i + PGSIZE) \<and> p < sz)"
        "failed \<longrightarrow> free_of s' = {}"
      using copy_turn [OF assms(1) Suc.prems(1,2,3) i True] by blast
    show ?thesis
    proof (cases failed)
      case False
      have "unat sz \<le> unat (i + PGSIZE) + k * 4096" using Suc.prems(4) np(1) by simp
      then show ?thesis using Suc.IH [OF t(2) _ np(2)] t(1,3) True False by simp
    next
      case f: True
      have "(\<lambda>p. p < i \<and> p < sz) = (\<lambda>p. p < i)" using True by auto
      then show ?thesis using t True f Suc.prems(3) by (auto simp: copy_result_def)
    qed
  qed
qed

section \<open>Undoing a partial copy\<close>

lemma unmap_shared:
  assumes sp: "two_spaces s old new" and i: "aligned i" "i < MAXVA" and v: "bit (pte_val (ram s) new i) 0"
    and uf: "user_frame s {old, new} (PTE2PA (pte_val (ram s) new i))"
    and ref: "1 < ref_count s (PA2IDX (PTE2PA (pte_val (ram s) new i)))"
  shows "\<exists>s'. unmap_one new i True s = Ok s' \<and> two_spaces s' old new \<and> free_of s' = free_of s \<and>
    frames_kept s s' old new (\<lambda>p. if PTE2PA (pte_val (ram s) new i) = p then - 1 else 0) \<and>
    pte_val (ram s') old = pte_val (ram s) old \<and> entry_set (ram s) (ram s') new i 0"
proof -
  let ?pa = "PTE2PA (pte_val (ram s) new i)"
  let ?s1 = "s\<lparr>ref_count := (ref_count s)(PA2IDX ?pa := ref_count s (PA2IDX ?pa) + (- 1))\<rparr>"
  obtain t where t: "leaf_table (ram s) new i = Some t" using v by (auto simp: pte_val_def split: option.splits)
  have asp: "aspace s new" and wf: "kwf s" using sp by (simp_all add: two_spaces_def aspace_def)
  have pte: "get_pte (slot t (px 0 i)) s = pte_val (ram s) new i" using t by (simp add: get_leaf pte_val_def)
  have nz: "slot t (px 0 i) \<noteq> 0" using slot_nonzero [OF asp path_va(2)] t px_less by (simp add: leaf_table_def)
  obtain bs where inv: "kmem_inv s bs" using wf by (auto simp: kwf_def)
  have m: "managed s ?pa" using uf by (simp add: user_frame_def)
  then have "kfree ?pa s = Ok ?s1"
    using kfree_shared(1) [OF inv _ _ ref] aligned_paddr [of ?pa] by (simp add: managed_def)
  then have run: "unmap_one new i True s = Ok (set_pte (slot t (px 0 i)) 0 ?s1)"
    using walk_ro [OF i(2), of new s] t nz pte v pte_bit_iff(1) [of "pte_val (ram s) new i"] by (simp add: unmap_one_def)
  note r1 = ref_frame [OF sp uf, of "- 1"]
  have sp1: "two_spaces ?s1 old new" and fk1: "frames_kept s ?s1 old new (\<lambda>p. if ?pa = p then - 1 else 0)"
    using r1 ref by simp_all
  have asp1: "aspace ?s1 new" "aspace ?s1 old" "tabs (ram ?s1) new \<inter> tabs (ram ?s1) old = {}" and wf1: "kwf ?s1"
    using sp1 by (auto simp: two_spaces_def aspace_def)
  have t1: "leaf_table (ram ?s1) new i = Some t" using t by simp
  note sl = set_leaf [OF asp1(1) t1, of 0]
  have wf2: "kwf (set_pte (slot t (px 0 i)) 0 ?s1)" using sl(1) by (simp add: aspace_def)
  note ot = aspace_other [OF sl(2) asp1(2) wf2 asp1(3)]
  have fk2: "frames_kept ?s1 (set_pte (slot t (px 0 i)) 0 ?s1) old new (\<lambda>_. 0)"
    by (rule frames_kept_frame [OF sl(2) wf1 _ ot(3)]) auto
  have "two_spaces (set_pte (slot t (px 0 i)) 0 ?s1) old new"
    using sl(1,6) ot(1,3) asp1(3) by (auto simp: two_spaces_def)
  moreover have "frames_kept s (set_pte (slot t (px 0 i)) 0 ?s1) old new (\<lambda>p. if ?pa = p then - 1 else 0)"
    using fk1 fk2 unfolding frames_kept_def by simp
  moreover have "pte_val (ram (set_pte (slot t (px 0 i)) 0 ?s1)) old = pte_val (ram s) old"
    using ot(2) by (auto simp: fun_eq_iff)
  moreover have "entry_set (ram s) (ram (set_pte (slot t (px 0 i)) 0 ?s1)) new i 0"
    by (rule entry_setI [OF i]) (use sl(3) in auto)
  moreover have "free_of (set_pte (slot t (px 0 i)) 0 ?s1) = free_of s" using sl(5) r1(3) ref by simp
  ultimately show ?thesis using run by blast
qed

lemma unmap_absent:
  assumes "i < MAXVA" "\<not> bit (pte_val (ram s) root i) 0"
  shows "unmap_one root i do_free s = Ok s"
proof (cases "leaf_table (ram s) root i")
  case None
  then show ?thesis using walk_ro [OF assms(1), of root s] by (simp add: unmap_one_def)
next
  case (Some t)
  then have "get_pte (slot t (px 0 i)) s = pte_val (ram s) root i" by (simp add: get_leaf pte_val_def)
  then show ?thesis using walk_ro [OF assms(1), of root s] Some assms(2) pte_bit_iff(1) [of "pte_val (ram s) root i"]
    by (simp add: unmap_one_def)
qed

text \<open>One turn of \<open>uvmunmap\<close> over pages whose frames have other references.\<close>

lemma unmap_turn:
  assumes inv: "sharing s0 s old new sz" and i: "aligned i" "i < MAXVA" "i < sz"
  shows "\<exists>s'. unmap_one new i True s = Ok s' \<and> sharing s0 s' old new sz \<and> free_of s' = free_of s \<and>
    pte_val (ram s') old = pte_val (ram s) old \<and>
    entry_set (ram s) (ram s') new i (if bit (pte_val (ram s) new i) 0 then 0 else pte_val (ram s) new i)"
proof (cases "bit (pte_val (ram s) new i) 0")
  case False
  then show ?thesis using unmap_absent [OF i(2) False] inv entry_set_same [OF i(1,2) refl] by auto
next
  case True
  let ?pa = "PTE2PA (pte_val (ram s) new i)"
  have sp: "two_spaces s old new" using inv by (simp add: sharing_def)
  have uf0: "user_frame s0 {old, new} ?pa" using inv i True by (simp add: sharing_def aligned_PG)
  then have uf: "user_frame s {old, new} ?pa"
      and rc: "ref_count s (PA2IDX ?pa) = ref_count s0 (PA2IDX ?pa) + int (card (mapped_at (ram s) new sz ?pa))"
    using inv by (simp_all add: sharing_def)
  have "i \<in> mapped_at (ram s) new sz ?pa" using i True by (simp add: mapped_at_def)
  then have "0 < card (mapped_at (ram s) new sz ?pa)" by (auto simp: card_gt_0_iff)
  moreover have "0 < ref_count s0 (PA2IDX ?pa)" using uf0 by (simp add: user_frame_def)
  ultimately have ref: "1 < ref_count s (PA2IDX ?pa)" using rc by simp
  obtain s' where s': "unmap_one new i True s = Ok s'" "two_spaces s' old new" "free_of s' = free_of s"
      "frames_kept s s' old new (\<lambda>p. if ?pa = p then - 1 else 0)"
      "pte_val (ram s') old = pte_val (ram s) old" "entry_set (ram s) (ram s') new i 0"
    using unmap_shared [OF sp i(1,2) True uf ref] by blast
  have "sharing s0 s' old new sz"
    by (rule sharing_step [OF inv s'(2) i s'(6) _ s'(4)]) (use True in auto)
  then show ?thesis using s' True by auto
qed

lemma uvmunmap_loop_shared:
  assumes "sharing s0 s old new sz" "aligned a" "aligned e" "e \<le> sz" "unat sz \<le> 2 ^ 38" "unat e \<le> unat a + k * 4096"
  shows "\<exists>s'. uvmunmap_loop k new a e True s = Ok s' \<and> sharing s0 s' old new sz \<and> free_of s' = free_of s \<and>
    pte_val (ram s') old = pte_val (ram s) old \<and>
    (\<forall>v<MAXVA. pte_val (ram s') new v =
       (if a \<le> PGROUNDDOWN v \<and> PGROUNDDOWN v < e \<and> bit (pte_val (ram s) new v) 0 then 0 else pte_val (ram s) new v))"
  using assms(1,2,6)
proof (induction k arbitrary: s a)
  case (0 s a)
  then have "\<not> a < e" by (simp add: word_less_nat_alt)
  then show ?case using 0 by auto
next
  case (Suc k s a)
  show ?case
  proof (cases "a < e")
    case False
    then show ?thesis using Suc.prems by auto
  next
    case True
    then have i: "a < MAXVA" "a < sz" using assms(4,5) by (simp_all add: word_less_nat_alt word_le_nat_alt MAXVA_def)
    have big: "unat a + 4096 < 2 ^ 64" using i by (simp add: word_less_nat_alt MAXVA_def)
    note np = next_page [OF Suc.prems(2) big]
    obtain s1 where s1: "unmap_one new a True s = Ok s1" "sharing s0 s1 old new sz" "free_of s1 = free_of s"
        "pte_val (ram s1) old = pte_val (ram s) old"
        "entry_set (ram s) (ram s1) new a (if bit (pte_val (ram s) new a) 0 then 0 else pte_val (ram s) new a)"
      using unmap_turn [OF Suc.prems(1,2) i] by blast
    have "unat e \<le> unat (a + PGSIZE) + k * 4096" using Suc.prems(3) np(1) by simp
    then obtain s' where s': "uvmunmap_loop k new (a + PGSIZE) e True s1 = Ok s'" "sharing s0 s' old new sz" "free_of s' = free_of s1"
        "pte_val (ram s') old = pte_val (ram s1) old"
        "\<forall>v<MAXVA. pte_val (ram s') new v =
           (if a + PGSIZE \<le> PGROUNDDOWN v \<and> PGROUNDDOWN v < e \<and> bit (pte_val (ram s1) new v) 0 then 0 else pte_val (ram s1) new v)"
      using Suc.IH [OF s1(2) np(2)] by blast
    have "pte_val (ram s') new v =
       (if a \<le> PGROUNDDOWN v \<and> PGROUNDDOWN v < e \<and> bit (pte_val (ram s) new v) 0 then 0 else pte_val (ram s) new v)"
      if v: "v < MAXVA" for v
    proof -
      have "pte_val m r v = pte_val m r a" if "PGROUNDDOWN v = a" for m r
        using that pte_val_vpn vpn_page [OF Suc.prems(2) i(1) v] by metis
      then show ?thesis
        using s'(5) s1(5) v page_cases [OF Suc.prems(2) big, of v] np(3) True by (auto simp: entry_set_def)
    qed
    then show ?thesis using s1 s' True by auto
  qed
qed

lemma uvmunmap_shared:
  assumes inv: "sharing s0 s old new sz" and j: "aligned j" "j \<le> sz" "unat sz \<le> 2 ^ 38"
  shows "\<exists>s'. uvmunmap new 0 (j div PGSIZE) True s = Ok s' \<and> sharing s0 s' old new sz \<and> free_of s' = free_of s \<and>
    pte_val (ram s') old = pte_val (ram s) old \<and>
    (\<forall>v<MAXVA. pte_val (ram s') new v =
       (if PGROUNDDOWN v < j \<and> bit (pte_val (ram s) new v) 0 then 0 else pte_val (ram s) new v))"
proof -
  have m: "unat j mod 4096 = 0" using j(1) by (simp add: aligned_def page_aligned_iff)
  have d: "unat (j div PGSIZE) = unat j div 4096" by (simp add: unat_div PGSIZE_def)
  have e: "0 + j div PGSIZE * PGSIZE = j" using j(1) by (simp add: aligned_def minus_mod_eq_div_mult [symmetric])
  have "uvmunmap new 0 (j div PGSIZE) True s = uvmunmap_loop (unat (j div PGSIZE)) new 0 j True s"
    unfolding uvmunmap_def e by (simp add: panic_if_def)
  moreover have "unat j \<le> unat (0 :: addr) + unat (j div PGSIZE) * 4096" using m d by auto
  ultimately show ?thesis
    using uvmunmap_loop_shared [OF inv _ j, of 0 "unat (j div PGSIZE)"] by (simp add: aligned_def)
qed

section \<open>The outcome\<close>

lemma uvmcopy_cases:
  assumes rdy: "copy_ready s old new sz" and sz: "unat sz \<le> 2 ^ 38"
  obtains (ok) s' where "uvmcopy old new sz s = Ok (0, s')" "sharing s s' old new sz"
      "copied s s' old new (\<lambda>p. p < sz) (\<lambda>p. p < sz)"
  | (out) s' j where "uvmcopy old new sz s = Ok (- 1, s')" "sharing s s' old new sz" "free_of s' = {}" "aligned j" "j < sz"
      "\<And>v. v < MAXVA \<Longrightarrow> pte_val (ram s') old v =
         (if PGROUNDDOWN v \<le> j \<and> bit (pte_val (ram s) old v) 0 then parent_pte (pte_val (ram s) old v) else pte_val (ram s) old v)"
      "\<And>v. v < MAXVA \<Longrightarrow> pte_val (ram s') new v =
         (if PGROUNDDOWN v < j \<and> bit (pte_val (ram s) old v) 0 then 0 else pte_val (ram s) new v)"
proof -
  have none: "mapped_at (ram s) new sz pa = {}" for pa
    using rdy by (auto simp: mapped_at_def copy_ready_def aligned_PG)
  have inv: "sharing s s old new sz" using rdy none by (auto simp: sharing_def copy_ready_def)
  have c: "copied s s old new (\<lambda>p. p < 0 \<and> p < sz) (\<lambda>p. p < 0 \<and> p < sz)" by (simp add: copied_def Let_def)
  have "unat sz \<le> unat (0 :: u64) + (unat sz div 4096 + 1) * 4096" by (simp add: mult.commute [of 4096])
  then have "copy_result s old new sz (uvmcopy old new sz s)"
    using uvmcopy_loop_correct [OF rdy sz inv c, of "unat sz div 4096 + 1"] by (simp add: aligned_def uvmcopy_def)
  then show thesis
    unfolding copy_result_def
  proof (elim disjE exE conjE)
    fix s1 j assume run: "uvmcopy old new sz s = bnd (uvmunmap new 0 (j div PGSIZE) True s1) (\<lambda>s. Ok (- 1, s))"
      and j: "aligned j" "j < sz" and s1: "sharing s s1 old new sz"
        "copied s s1 old new (\<lambda>p. p < j + PGSIZE \<and> p < sz) (\<lambda>p. p < j)" "free_of s1 = {}"
    obtain s' where s': "uvmunmap new 0 (j div PGSIZE) True s1 = Ok s'" "sharing s s' old new sz" "free_of s' = free_of s1"
        "pte_val (ram s') old = pte_val (ram s1) old"
        "\<forall>v<MAXVA. pte_val (ram s') new v = (if PGROUNDDOWN v < j \<and> bit (pte_val (ram s1) new v) 0 then 0 else pte_val (ram s1) new v)"
      using uvmunmap_shared [OF s1(1) j(1) less_imp_le [OF j(2)] sz] by blast
    have big: "unat j + 4096 < 2 ^ 64" using j(2) sz by (simp add: word_less_nat_alt)
    show thesis
    proof (rule out [OF _ s'(2) _ j])
      show "uvmcopy old new sz s = Ok (- 1, s')" "free_of s' = {}" using run s'(1,3) s1(3) by simp_all
    next
      fix v assume v: "v < MAXVA"
      have "PGROUNDDOWN v < j + PGSIZE \<and> PGROUNDDOWN v < sz \<longleftrightarrow> PGROUNDDOWN v \<le> j"
        using page_cases [OF j(1) big, of v] next_page(3) [OF j(1) big] j(2) by (auto simp flip: not_le)
      then show "pte_val (ram s') old v =
          (if PGROUNDDOWN v \<le> j \<and> bit (pte_val (ram s) old v) 0 then parent_pte (pte_val (ram s) old v) else pte_val (ram s) old v)"
        using s1(2) v s'(4) by (auto simp: copied_def Let_def)
      have "PGROUNDDOWN v < j \<Longrightarrow> \<not> bit (pte_val (ram s) new v) 0" using rdy v j(2) by (auto simp: copy_ready_def)
      then show "pte_val (ram s') new v = (if PGROUNDDOWN v < j \<and> bit (pte_val (ram s) old v) 0 then 0 else pte_val (ram s) new v)"
        using s1(2) s'(5) v share_bits(1) [of "pte_val (ram s) old v"] by (auto simp: copied_def Let_def)
    qed
  qed (rule ok)
qed

end
