(* ===== verification/Vm_Props.thy ===== *)
theory Vm_Props
  imports Vm_Example Vm_Uvmcopy
begin

text \<open>The properties of the virtual-memory component.\<close>

text \<open>C24: \<open>mappages\<close> installs exactly the mapping it is asked for. On an address space with the
  range unmapped it always returns: 0 with the entries of the range pointing to successive
  frames and every other entry as before, or -1 with memory exhausted and only a prefix of the
  range mapped. The page table stays a tree of exclusively owned pages, and memory outside the
  free pages and this page table is not written.\<close>

theorem mappages_installs:
  assumes "aspace s root" "aligned va" "aligned sz" "sz \<noteq> 0" "unat va + unat sz \<le> 2 ^ 38"
    and "\<forall>v. va \<le> v \<and> unat v < unat va + unat sz \<longrightarrow> \<not> valid (pte_val (ram s) root v)"
  shows "\<exists>r s'. mappages root va sz pa perm s = Ok (r, s') \<and> map_post s root va (unat sz div 4096) pa perm r s'"
  using mappages_correct [OF assms] .

theorem mappages_installs_witness:
  "\<exists>r s'. mappages ex_child 0x4000 0x2000 ex_frame (PTE_R OR PTE_U) (ex_vm 0 1) = Ok (r, s') \<and>
     map_post (ex_vm 0 1) ex_child 0x4000 2 ex_frame (PTE_R OR PTE_U) r s'"
proof -
  have "aspace (ex_vm 0 1) ex_child" using ex_spaces by (simp add: two_spaces_def)
  then show ?thesis
    using mappages_installs [of "ex_vm 0 1" ex_child "0x4000" "0x2000" ex_frame "PTE_R OR PTE_U"]
    by (simp add: ex_child_pte_val aligned_def PGSIZE_def)
qed

text \<open>C14: mapping pages in one address space is invisible in every other one: with disjoint page
  tables the other space keeps all its entries, and every byte of a frame in use is unchanged.\<close>

theorem mappages_isolated:
  assumes "aspace s root" "aligned va" "aligned sz" "sz \<noteq> 0" "unat va + unat sz \<le> 2 ^ 38"
    and "\<forall>v. va \<le> v \<and> unat v < unat va + unat sz \<longrightarrow> \<not> valid (pte_val (ram s) root v)"
    and "aspace s other" "tabs (ram s) root \<inter> tabs (ram s) other = {}"
  shows "\<exists>r s'. mappages root va sz pa perm s = Ok (r, s') \<and> aspace s' other \<and>
    (\<forall>v. pte_val (ram s') other v = pte_val (ram s) other v) \<and>
    (\<forall>f k. user_frame s {root, other} f \<and> k < 4096 \<longrightarrow> ram s' (f + of_nat k) = ram s (f + of_nat k))"
proof -
  obtain r s' where r: "mappages root va sz pa perm s = Ok (r, s')" "map_post s root va (unat sz div 4096) pa perm r s'"
    using mappages_correct [OF assms(1-6)] by blast
  have fr: "pt_frame s s' root" and wf: "kwf s'" "kwf s" using r(2) assms(1) by (auto simp: map_post_def aspace_def)
  note ot = aspace_other [OF fr assms(7) wf(1) assms(8)]
  show ?thesis using r(1) ot frame_bytes [OF fr wf(2)] by blast
qed

theorem mappages_isolated_witness:
  "\<exists>r s'. mappages ex_child 0x4000 0x2000 ex_frame PTE_R (ex_vm (PTE_V OR PTE_U) 1) = Ok (r, s') \<and>
     pte_val (ram s') ex_root 0 = ex_pte (PTE_V OR PTE_U)"
proof -
  have "aspace (ex_vm (PTE_V OR PTE_U) 1) ex_child" using ex_spaces by (simp add: two_spaces_def)
  then show ?thesis
    using mappages_isolated [of "ex_vm (PTE_V OR PTE_U) 1" ex_child "0x4000" "0x2000" ex_root ex_frame PTE_R] ex_aspace
    by (auto simp: ex_child_pte_val aligned_def PGSIZE_def ex_tabs ex_pte_val)
qed

text \<open>C2: \<open>uvmcopy\<close> shares the parent's memory copy-on-write, all or nothing. It always returns, and
  whatever it returns the two page tables are still well-formed and apart, every frame in use
  keeps its bytes, and entries outside the range are as before. With 0, every page the parent
  has in the range is mapped in the child to the same frame, neither side can write it, a page
  that was writable is marked copy-on-write on both sides and every other flag is the parent's,
  both sides read the bytes the parent had, and every frame has gained exactly one reference per page that
  maps it; pages the parent does not have stay absent. The only other outcome is -1 with memory exhausted: then
  the child has no page in the range, every reference count is what it was, and the parent
  still reads its own bytes, with the pages up to the one that failed downgraded to
  copy-on-write.\<close>

theorem uvmcopy_shares_cow:
  assumes "copy_ready s old new sz" "unat sz \<le> 2 ^ 38"
  shows "\<exists>r s'. uvmcopy old new sz s = Ok (r, s') \<and> two_spaces s' old new \<and>
    (\<forall>pa. user_frame s {old, new} pa \<longrightarrow> user_frame s' {old, new} pa \<and>
       (\<forall>k<4096. ram s' (pa + of_nat k) = ram s (pa + of_nat k)) \<and>
       ref_count s' (PA2IDX pa) = ref_count s (PA2IDX pa) + (if r = 0 then int (card (mapped_at (ram s) old sz pa)) else 0)) \<and>
    (\<forall>v<MAXVA. \<not> PGROUNDDOWN v < sz \<longrightarrow>
       pte_val (ram s') old v = pte_val (ram s) old v \<and> pte_val (ram s') new v = pte_val (ram s) new v) \<and>
    (r = 0 \<and> (\<forall>v<MAXVA. PGROUNDDOWN v < sz \<longrightarrow>
       (let e = pte_val (ram s) old v; p = pte_val (ram s') old v; c = pte_val (ram s') new v in
        (if bit e 0
         then PTE2PA p = PTE2PA e \<and> PTE2PA c = PTE2PA e \<and> \<not> bit p 2 \<and> \<not> bit c 2 \<and>
          bit p 8 = (bit e 8 \<or> bit e 2) \<and> bit c 8 = (bit e 8 \<or> bit e 2) \<and>
          (\<forall>n<10. n \<noteq> 2 \<and> n \<noteq> 8 \<longrightarrow> bit p n = bit e n \<and> bit c n = bit e n) \<and>
          user_byte (ram s') new v = user_byte (ram s) old v \<and> user_byte (ram s') old v = user_byte (ram s) old v
         else p = e \<and> c = pte_val (ram s) new v))) \<or>
     r = - 1 \<and> free_of s' = {} \<and> (\<exists>j. j < sz \<and> (\<forall>v<MAXVA. PGROUNDDOWN v < sz \<longrightarrow>
       (let e = pte_val (ram s) old v; p = pte_val (ram s') old v in
        \<not> bit (pte_val (ram s') new v) 0 \<and> p = (if PGROUNDDOWN v \<le> j \<and> bit e 0 then parent_pte e else e) \<and>
        (bit e 0 \<longrightarrow> user_byte (ram s') old v = user_byte (ram s) old v)))))"
  using assms
proof (cases rule: uvmcopy_cases)
  case (ok s')
  have ents: "pte_val (ram s') old v = (if PGROUNDDOWN v < sz \<and> bit (pte_val (ram s) old v) 0 then parent_pte (pte_val (ram s) old v) else pte_val (ram s) old v)"
      "pte_val (ram s') new v = (if PGROUNDDOWN v < sz \<and> bit (pte_val (ram s) old v) 0 then share (pte_val (ram s) old v) else pte_val (ram s) new v)"
    if "v < MAXVA" for v using ok(3) that by (simp_all add: copied_def Let_def)
  have cnt: "mapped_at (ram s') new sz pa = mapped_at (ram s) old sz pa" for pa
    using assms(1) ents(2) share_PA share_bits(1) by (auto simp: mapped_at_def copy_ready_def aligned_PG split: if_splits)
  have byte: "ram s' (PTE2PA (pte_val (ram s) old v) + of_nat (unat v mod 4096)) = ram s (PTE2PA (pte_val (ram s) old v) + of_nat (unat v mod 4096))"
    if "v < MAXVA" "PGROUNDDOWN v < sz" "bit (pte_val (ram s) old v) 0" for v
    using assms(1) ok(2) that by (simp add: copy_ready_def sharing_def)
  show ?thesis
  proof (intro exI [of _ "0 :: int"] exI [of _ s'] conjI disjI1)
    show "\<forall>v<MAXVA. PGROUNDDOWN v < sz \<longrightarrow>
       (let e = pte_val (ram s) old v; p = pte_val (ram s') old v; c = pte_val (ram s') new v in
        (if bit e 0
         then PTE2PA p = PTE2PA e \<and> PTE2PA c = PTE2PA e \<and> \<not> bit p 2 \<and> \<not> bit c 2 \<and>
          bit p 8 = (bit e 8 \<or> bit e 2) \<and> bit c 8 = (bit e 8 \<or> bit e 2) \<and>
          (\<forall>n<10. n \<noteq> 2 \<and> n \<noteq> 8 \<longrightarrow> bit p n = bit e n \<and> bit c n = bit e n) \<and>
          user_byte (ram s') new v = user_byte (ram s) old v \<and> user_byte (ram s') old v = user_byte (ram s) old v
         else p = e \<and> c = pte_val (ram s) new v))"
      using ents byte by (simp add: Let_def parent_pte_props share_PA share_bits share_other user_byte_def)
  qed (use ok ents cnt in \<open>auto simp: sharing_def\<close>)
next
  case (out s' j)
  have byte: "ram s' (PTE2PA (pte_val (ram s) old v) + of_nat (unat v mod 4096)) = ram s (PTE2PA (pte_val (ram s) old v) + of_nat (unat v mod 4096))"
    if "v < MAXVA" "PGROUNDDOWN v < sz" "bit (pte_val (ram s) old v) 0" for v
    using assms(1) out(2) that by (simp add: copy_ready_def sharing_def)
  have gone: "\<not> bit (pte_val (ram s') new v) 0" if "v < MAXVA" "PGROUNDDOWN v < sz" for v
    using assms(1) out(7) that by (simp add: copy_ready_def)
  then have cnt: "mapped_at (ram s') new sz pa = {}" for pa by (auto simp: mapped_at_def aligned_PG)
  have hi: "\<not> PGROUNDDOWN v < sz \<Longrightarrow> \<not> PGROUNDDOWN v \<le> j \<and> \<not> PGROUNDDOWN v < j" for v using out(5) by auto
  show ?thesis
  proof (intro exI [of _ "- 1 :: int"] exI [of _ s'] conjI disjI2 exI [of _ j])
    show "\<forall>v<MAXVA. PGROUNDDOWN v < sz \<longrightarrow>
       (let e = pte_val (ram s) old v; p = pte_val (ram s') old v in
        \<not> bit (pte_val (ram s') new v) 0 \<and> p = (if PGROUNDDOWN v \<le> j \<and> bit e 0 then parent_pte e else e) \<and>
        (bit e 0 \<longrightarrow> user_byte (ram s') old v = user_byte (ram s) old v))"
      using out(6) gone byte by (simp add: Let_def parent_pte_props user_byte_def)
  qed (use out hi cnt in \<open>auto simp: sharing_def\<close>)
qed

lemma ex_only_page: "aligned v \<Longrightarrow> v < 0x1000 \<Longrightarrow> v = 0"
  using page_aligned_iff [of v] by (simp add: aligned_def word_less_nat_alt unat_eq_zero)

theorem uvmcopy_shares_cow_witness:
  "copy_ready (ex_vm (PTE_V OR PTE_R OR PTE_W OR PTE_U) 1) ex_root ex_child 0x1000 \<and>
   (\<exists>r s'. uvmcopy ex_root ex_child 0x1000 (ex_vm (PTE_V OR PTE_R OR PTE_W OR PTE_U) 1) = Ok (r, s') \<and>
     (r = 0 \<and> ref_count s' (PA2IDX ex_frame) = 2 \<and> PTE2PA (pte_val (ram s') ex_child 0) = ex_frame \<and>
        \<not> bit (pte_val (ram s') ex_root 0) 2 \<and> bit (pte_val (ram s') ex_root 0) 8 \<or>
      r = - 1 \<and> ref_count s' (PA2IDX ex_frame) = 1 \<and> \<not> bit (pte_val (ram s') ex_child 0) 0))"
proof -
  let ?f = "PTE_V OR PTE_R OR PTE_W OR PTE_U"
  have f: "?f < 1024" by (simp add: pte_bits)
  have b: "bit (ex_pte ?f) 0" "bit (ex_pte ?f) 2" using ex_pte_bit [OF f] by (simp_all add: bit_simps bit_PTE)
  have ready: "copy_ready (ex_vm ?f 1) ex_root ex_child 0x1000"
    unfolding copy_ready_def using ex_spaces ex_user_frame [of 1 ?f] ex_pte_PA [OF f]
    by (auto simp: ex_pte_val ex_child_pte_val)
  have "mapped_at (ram (ex_vm ?f 1)) ex_root 0x1000 ex_frame = {0}"
    using b ex_pte_PA [OF f] ex_only_page by (auto simp: mapped_at_def ex_pte_val) (simp_all add: aligned_def MAXVA_def)
  then have one: "card (mapped_at (ram (ex_vm ?f 1)) ex_root 0x1000 ex_frame) = 1" by simp
  have z: "PGROUNDDOWN 0 < 0x1000" "(0 :: addr) < MAXVA" by (simp_all add: PGROUNDDOWN_def MAXVA_def)
  show ?thesis using ready uvmcopy_shares_cow [OF ready] ex_user_frame [of 1 ?f] one z b ex_pte_PA [OF f]
    by (fastforce simp: Let_def ex_pte_val ex_vm_ref)
qed

text \<open>C13: a write fault on a shared copy-on-write page gives the process a private copy. Unless
  memory is exhausted, the faulting entry then maps a fresh frame, writable, with the same
  contents; the old frame keeps its contents and loses one reference; no other entry changes.\<close>

theorem vmfault_cow_private:
  assumes "aspace s root" "aligned va" "va < MAXVA" "va < psz"
    and "bit (pte_val (ram s) root va) 0" "bit (pte_val (ram s) root va) 8" "\<not> bit (pte_val (ram s) root va) 2"
    and "user_frame s {root} (PTE2PA (pte_val (ram s) root va))"
    and "1 < ref_count s (PA2IDX (PTE2PA (pte_val (ram s) root va)))"
  shows "free_of s = {} \<and> vmfault root va psz s = Ok (0, s) \<or>
    (\<exists>mem s'. vmfault root va psz s = Ok (mem, s') \<and> mem \<noteq> 0 \<and> cow_copied s root va mem s')"
proof -
  obtain t where t: "leaf_table (ram s) root va = Some t" using assms(5) by (auto simp: pte_val_def split: option.splits)
  have pva: "PGROUNDDOWN va = va" using assms(2) by (simp add: aligned_def PGROUNDDOWN_id)
  have pte: "get_pte (slot t (px 0 va)) s = pte_val (ram s) root va" using t by (simp add: get_leaf pte_val_def)
  have nz: "slot t (px 0 va) \<noteq> 0" using slot_nonzero [OF assms(1) path_va(2)] t px_less by (simp add: leaf_table_def)
  have "pte_val (ram s) root va AND PTE_V \<noteq> 0" "pte_val (ram s) root va AND PTE_COW \<noteq> 0" "pte_val (ram s) root va AND PTE_W = 0"
    using assms(5-7) pte_bit_iff [of "pte_val (ram s) root va"] by blast+
  then have "vmfault root va psz s = cow_fault root va (slot t (px 0 va)) s"
    using walk_ro [OF assms(3), of root s] t nz pte assms(4) pva by (auto simp: vmfault_def not_le)
  then show ?thesis using cow_fault_copies [OF assms(1) t assms(8,9)] by simp
qed

theorem vmfault_cow_private_witness:
  "\<exists>mem s'. vmfault ex_root 0 0x1000 (ex_vm (PTE_V OR PTE_R OR PTE_U OR PTE_COW) 2) = Ok (mem, s') \<and>
     cow_copied (ex_vm (PTE_V OR PTE_R OR PTE_U OR PTE_COW) 2) ex_root 0 mem s'"
proof -
  let ?f = "PTE_V OR PTE_R OR PTE_U OR PTE_COW"
  have f: "?f < 1024" by (simp add: pte_bits)
  have bits: "bit (ex_pte ?f) 0" "bit (ex_pte ?f) 8" "\<not> bit (ex_pte ?f) 2" by (simp_all add: ex_pte_bit [OF f] bit_simps bit_PTE)
  have fr: "user_frame (ex_vm ?f 2) {ex_root} ex_frame" using ex_user_frame [of 2 ?f] by (simp add: user_frame_def)
  show ?thesis
    using vmfault_cow_private [OF ex_aspace, of 0 "0x1000" ?f 2] bits fr ex_vm_free [of ?f 2]
    by (auto simp: ex_pte_val ex_pte_PA [OF f] ex_vm_ref aligned_def MAXVA_def)
qed

text \<open>C23: \<open>copyin\<close> delivers what the user sees. For a readable range and a kernel buffer apart from
  page tables and user frames it returns 0, the buffer holds the user's bytes across page
  boundaries, and nothing outside the buffer changes.\<close>

theorem copyin_delivers:
  assumes "copyin_pre s root dst srcva (unat len) D"
  shows "copyin root dst srcva len psz s = Ok (0, s\<lparr>ram := copyin_mem (ram s) root dst srcva (unat len)\<rparr>)"
  using copyin_correct [OF assms] .

lemma ex_readable:
  assumes "f < 1024" "bit f 0" "bit f 4" "530103 \<notin> D" "j < 4096"
  shows "readable (ex_vm f r) ex_root D (of_nat j)"
proof -
  have "vpn (0 + of_nat j) = vpn 0" using assms(5) by (intro user_byte_run(2)) auto
  moreover have "(of_nat j :: addr) < MAXVA" using assms(5) by (simp add: word_less_nat_alt unat_of_nat_small MAXVA_def)
  moreover have "ex_frame \<noteq> 0" "unat ex_frame + 4096 < 2 ^ 64" by (simp_all add: ex_frame_def paddr_0 unat_paddr)
  ultimately show ?thesis using assms ex_pte_bit [OF assms(1)] ex_pte_PA [OF assms(1)]
    by (simp add: readable_def ex_pte_val)
qed

theorem copyin_delivers_witness:
  "\<exists>s'. copyin ex_root (paddr 524290) 0 8 0x1000 (ex_vm (PTE_V OR PTE_R OR PTE_U) 1) = Ok (0, s') \<and>
     ram s' (paddr 524290) = user_byte (ram (ex_vm (PTE_V OR PTE_R OR PTE_U) 1)) ex_root 0"
proof -
  let ?f = "PTE_V OR PTE_R OR PTE_U" and ?D = "{524290} :: nat set"
  have "readable (ex_vm ?f 1) ex_root ?D (of_nat j)" if "j < 8" for j
    using that by (intro ex_readable) (simp_all add: bit_simps bit_PTE, simp add: pte_bits)
  then have "copyin_pre (ex_vm ?f 1) ex_root (paddr 524290) 0 (unat (8 :: u64)) ?D"
    unfolding copyin_pre_def using ex_aspace PA2IDX_off [of 524290] by (simp add: ex_vm_free ex_tabs unat_paddr)
  from copyin_delivers [OF this, of "0x1000"] show ?thesis by (simp add: copyin_mem_def)
qed

text \<open>C38: \<open>copyout\<close> does not break sharing: to a user page that is present but not writable, a
  copy-on-write page included, it returns -1 and writes nothing.\<close>

theorem copyout_cow_page_fails:
  assumes "aspace s root" "readable s root {} dstva" "\<not> bit (pte_val (ram s) root dstva) 2" "len \<noteq> 0"
  shows "copyout root dstva src len psz s = Ok (- 1, s)"
  using copyout_readonly [OF assms] .

theorem copyout_cow_page_fails_witness:
  "copyout ex_root 0 (paddr 524290) 4 0x1000 (ex_vm (PTE_V OR PTE_R OR PTE_U OR PTE_COW) 2) =
     Ok (- 1, ex_vm (PTE_V OR PTE_R OR PTE_U OR PTE_COW) 2)"
proof -
  let ?f = "PTE_V OR PTE_R OR PTE_U OR PTE_COW"
  have f: "?f < 1024" by (simp add: pte_bits)
  have "readable (ex_vm ?f 2) ex_root {} (of_nat 0)" by (intro ex_readable f) (simp_all add: bit_simps bit_PTE)
  moreover have "\<not> bit (ex_pte ?f) 2" by (simp add: ex_pte_bit [OF f] bit_simps bit_PTE)
  ultimately show ?thesis
    using copyout_cow_page_fails [OF ex_aspace, of ?f 2 0 4 "paddr 524290" "0x1000"] by (simp add: ex_pte_val)
qed

end
