(* ===== verification/Spec2Isabelle.thy ===== *)
theory Spec2Isabelle
  imports Fs_Props Grep Isolation Pipe_Props Shell_Print Spinlock Virtio_Props Vm_Props
begin

text \<open>
  A verification library for this repository: a RISC-V teaching kernel with copy-on-write fork, a contiguous page allocator, a
  dynamic-priority scheduler, a journaled file system and in-memory files, and two of its user programs.

  \<^bold>\<open>Shape of the model.\<close> A C routine becomes a function of the same name from its arguments and a state record to an outcome
  \<open>'a res\<close> (theory \<open>Prelude\<close>): \<open>Ok\<close> with the result and the new state, \<open>Panic\<close> with the message of \<^verbatim>\<open>panic\<close>,
  \<open>Undef\<close> for an access that C leaves undefined, \<open>Diverge\<close> for a wait that nobody ends. Integers are machine words of the width of the source
  (\<open>u8\<close>, \<open>u32\<close>, \<open>u64\<close>) where they can wrap. Memory is a function from addresses to bytes, so that free-list headers, page
  tables, trap frames and pipes lie in the pages the C code puts them in (\<open>Machine\<close>). The state grows with the kernel, one record extending the other:
  \<open>kmem\<close> (memory and allocator, \<open>Kalloc\<close>), \<open>ktask\<close> (process table, \<open>Task\<close>), \<open>kbio\<close> (buffer cache and disk, \<open>Bio\<close>),
  \<open>klog\<close> (\<open>Log\<close>), \<open>kfs\<close> (\<open>Fs\<close>), \<open>kcons\<close> (\<open>Console\<close>), \<open>kfile\<close> (\<open>File\<close>) and \<open>kernel\<close> (\<open>Process\<close>); a
  lower routine works on every larger state and provably leaves its other fields alone.

  \<^bold>\<open>Memory.\<close> \<open>Cstring\<close> is \<^verbatim>\<open>kernel/string.c\<close>. \<open>Kalloc\<close> is \<^verbatim>\<open>kernel/kalloc.c\<close>; \<open>Kalloc_Spec\<close> and \<open>Kalloc_Inv\<close> abstract its
  pointer list to runs and to a set of free pages, and \<open>Palloc\<close> states the contract of the allocator as the locale \<open>page_allocator\<close>, interpreted on
  the code as \<open>kpa\<close>; \<open>Kalloc_Props\<close> has its properties. \<open>Compact\<close> is \<^verbatim>\<open>compact_memory\<close>. \<open>Vm\<close> is \<^verbatim>\<open>kernel/vm.c\<close>;
  \<open>Pagetable\<close>, \<open>Vm_Spec\<close>, \<open>Vm_Cow\<close>, \<open>Vm_Uvmcopy\<close> and \<open>Vm_Copy\<close> show that a page table is a map from pages to entries that an operation changes
  where it should, that \<^verbatim>\<open>uvmcopy\<close> shares pages copy-on-write with exact reference counts or undoes its work, that a write fault makes a private copy, and what the copies between kernel and user
  memory do (\<open>Vm_Props\<close>). \<open>Bytes\<close> has the same copies for kernel objects that are lists of bytes.

  \<^bold>\<open>Processes.\<close> \<open>Sched\<close> is the table of \<^verbatim>\<open>kernel/proc.c\<close> and the phases of the scheduler, \<open>Sched_Props\<close> what it selects, the
  bound on waiting for the first 51 slots and the starvation of later ones. \<open>Task\<close>, \<open>Process\<close> and \<open>Exec\<close> are creation, fork, exit, wait, the
  scheduler round and \<^verbatim>\<open>kernel/exec.c\<close>; \<open>Spinlock\<close> is \<^verbatim>\<open>kernel/spinlock.c\<close> with its interleavings. \<open>Mem_Frame\<close> and \<open>Frame\<close> are a
  calculus of postconditions that shows what an operation leaves alone; with it \<open>Process_Props\<close> proves that exec gives a process the image it
  has built or leaves its record alone and that the exit of a child wakes a waiting parent, and \<open>Isolation\<close> that a system call, whatever it is, spares the records of the other processes.

  \<^bold>\<open>Disk and files.\<close> \<open>Virtio\<close> is the driver \<^verbatim>\<open>kernel/virtio_disk.c\<close>, with \<open>Virtio_Props\<close> on concurrent requests. The layers above take a
  transfer as one step: \<open>Bio\<close> (\<^verbatim>\<open>kernel/bio.c\<close>; \<open>Bio_Ring\<close>, \<open>Bio_Inv\<close>, \<open>Bio_Spec\<close> show that the cache presents one content per block), \<open>Log\<close>
  (\<^verbatim>\<open>kernel/log.c\<close>; \<open>Log_Spec\<close>, \<open>Log_Crash\<close>, \<open>Log_Props\<close> show that a crash at any write of a commit leaves all or nothing of it), \<open>Fs\<close>
  (\<^verbatim>\<open>kernel/fs.c\<close>; \<open>Trans\<close>, \<open>Fs_Block\<close>, \<open>Fs_Inode\<close>, \<open>Fs_Props\<close> show what allocation, inodes, content and paths do inside a transaction). \<open>File\<close> is
  \<^verbatim>\<open>kernel/file.c\<close>, \<^verbatim>\<open>pipe.c\<close>, \<^verbatim>\<open>mem.c\<close> and \<^verbatim>\<open>gc.c\<close>, with \<open>Pipe_Props\<close> and \<open>Memfile_Props\<close>. \<open>Ring\<close> is the contract of a ring buffer, the
  locale \<open>ring\<close>, interpreted for the pipe, the console line and the message log.

  \<^bold>\<open>Console, system calls, programs.\<close> \<open>Console\<close> is \<^verbatim>\<open>kernel/console.c\<close>, \<^verbatim>\<open>printf.c\<close> and the driver part of \<^verbatim>\<open>uart.c\<close>, with \<open>Console_Props\<close>.
  \<open>Sysfile\<close> and \<open>Syscall\<close> are \<^verbatim>\<open>kernel/sysfile.c\<close>, \<^verbatim>\<open>sysproc.c\<close>, \<^verbatim>\<open>syscall.c\<close> and \<^verbatim>\<open>trap.c\<close>. \<open>Shell\<close> is the parser of \<^verbatim>\<open>user/sh.c\<close>, with
  \<open>Shell_Props\<close> (it returns, and its words stay readable) and \<open>Shell_Print\<close> (it inverts a printer). \<open>Grep\<close> is the matcher of \<^verbatim>\<open>user/grep.c\<close>.
  \<open>Vm_Example\<close> and \<open>Kernel_Example\<close> hold the concrete states on which hypotheses are shown to hold.

  \<^bold>\<open>Loops and bounds.\<close> Counting loops are recursion over an index list or a function with a termination proof. A loop that follows pointers is a
  \<open>partial_function (option)\<close>, not returning being \<open>Diverge\<close>, and the theorems show that it returns. Two kinds of routine recurse on a bound
  whose exhaustion is \<open>Diverge\<close>: the page loops of \<^verbatim>\<open>vm.c\<close> (\<open>mappages\<close>, \<open>uvmunmap\<close>, \<open>uvmalloc\<close>, \<open>uvmcopy\<close>), with the number of pages
  of the range, since every round advances by one page, and the shell's recursive descent, with four levels per remaining character and four more, shown to suffice on every line.

  \<^bold>\<open>Concurrency.\<close> A critical section is one step, as the locks make it; \<open>Spinlock\<close> justifies this at the level of atomic swaps. A routine runs from its call to its
  return. Where it sleeps and the rest matters, it returns \<open>Wait\<close> with its progress and the state in which it sleeps; \<open>begin_op\<close> and \<open>acquiresleep\<close>, when they
  would sleep, do not return. Interleavings are explicit step relations where a property is about them: spin locks, disk requests, log admission, the process table.

  \<^bold>\<open>Not modelled.\<close> Assembly (\<^verbatim>\<open>entry.S\<close>, \<^verbatim>\<open>swtch.S\<close>, \<^verbatim>\<open>trampoline.S\<close>, \<^verbatim>\<open>kernelvec.S\<close>) and the code around it that only sets control
  registers or calls the initialisers (\<^verbatim>\<open>start.c\<close>, \<^verbatim>\<open>main.c\<close>, \<^verbatim>\<open>plic.c\<close>, \<^verbatim>\<open>uartinit\<close>, \<^verbatim>\<open>kvminithart\<close>): their meaning is the meaning of the hardware.
  Translation caches and \<^verbatim>\<open>satp\<close>. The image builder \<^verbatim>\<open>mkfs\<close>, which runs on the host. User programs other than the two above: the test programs, which are sequences of
  system calls with printed verdicts, the small commands, which call one system call per argument, the quiz application and the user library. Of the shell, running
  commands and the prompt loop.
\<close>

end
